(* ===== verification/Mtdp_Prelude.thy ===== *)
theory Mtdp_Prelude
  imports Complex_Main "HOL-Library.Monad_Syntax" "HOL-Library.Multiset" "HOL-Library.Log_Nat"
begin

text \<open>
  Shared ground of the development.

  \<^item> \<open>size_t\<close> values are \<open>nat\<close>; every subtraction of the source is \<open>usub\<close>, which wraps
    at 2^64 exactly like the C operator, and \<open>uadds\<close> adds a signed offset to an unsigned
    field with the same wrap.
  \<^item> Undefined behaviour (an access outside an array, a read of an indeterminate value, a
    write through a null pointer, a double free) is the value \<open>None\<close> of an \<open>option\<close>
    result. That an operation returns \<open>Some\<close> is therefore its memory safety.
  \<^item> The C allocator is a \<open>mem\<close> record: the live FIFO blocks, a fresh address, a counter of
    the other live allocations, a counter of the live mutexes, condition variables and
    semaphores, and the sequence of outcomes of the requests to come, over
    which the theorems quantify: any request may fail.
  \<^item> A counting \<open>for\<close> loop is \<open>for_up\<close> or \<open>for_down\<close> (bounded, so it terminates by
    construction), each with one Hoare-style rule.
\<close>

named_theorems mem_simps \<open>reads, writes and allocations of the memory model\<close>
named_theorems pool_simps \<open>unfolding of the buffer pool operations\<close>
named_theorems fifo_simps \<open>unfolding of the buffer FIFO operations\<close>
named_theorems pipe_simps \<open>unfolding of the pipe operations\<close>

section \<open>Machine arithmetic\<close>

definition usub :: "nat \<Rightarrow> nat \<Rightarrow> nat" where
  "usub a b = (if b \<le> a then a - b else 2 ^ 64 + a - b)"

definition uadds :: "nat \<Rightarrow> int \<Rightarrow> nat" where
  "uadds a d = (if 0 \<le> int a + d then nat (int a + d) else nat (2 ^ 64 + int a + d))"

lemma usub_le [simp]: "b \<le> a \<Longrightarrow> usub a b = a - b"
  by (simp add: usub_def)

lemma usub_wrap: "a < b \<Longrightarrow> usub a b = 2 ^ 64 + a - b"
  by (simp add: usub_def)

lemma usub_mod: "a < 2 ^ 64 \<Longrightarrow> b < 2 ^ 64 \<Longrightarrow> int (usub a b) = (int a - int b) mod 2 ^ 64"
proof -
  assume ab: "a < 2 ^ 64" "b < 2 ^ 64"
  show "int (usub a b) = (int a - int b) mod 2 ^ 64"
  proof (cases "b \<le> a")
    case True
    with ab show ?thesis by (simp add: of_nat_diff)
  next
    case False
    have "(int a - int b) mod 2 ^ 64 = (int a - int b + 2 ^ 64) mod 2 ^ 64"
      by simp
    also have "\<dots> = int a - int b + 2 ^ 64"
      using ab False by (intro mod_pos_pos_trivial) auto
    finally show ?thesis using ab False by (simp add: usub_def of_nat_diff)
  qed
qed

lemma uadds_nonneg: "0 \<le> int a + d \<Longrightarrow> uadds a d = nat (int a + d)"
  by (simp add: uadds_def)

section \<open>Buffers, memory and the allocator\<close>

datatype mtdp_buffer = NULL | Ptr nat

type_synonym addr = nat
type_synonym slot = "mtdp_buffer option"  \<comment> \<open>\<open>None\<close>: indeterminate contents\<close>

record mem =
  heap :: "addr \<Rightarrow> slot list option"
  brk :: addr
  live :: int
  syncs :: int
  avail :: "nat \<Rightarrow> bool"
  requests :: nat

text \<open>A memory with nothing allocated, and an allocator that answers as \<open>av\<close> says.\<close>

definition mem_start :: "(nat \<Rightarrow> bool) \<Rightarrow> mem" where
  "mem_start av = \<lparr>heap = Map.empty, brk = 0, live = 0, syncs = 0, avail = av, requests = 0\<rparr>"

definition request :: "mem \<Rightarrow> bool \<times> mem" where
  "request m = (avail m (requests m), m\<lparr>requests := Suc (requests m)\<rparr>)"

text \<open>An anonymous array (\<open>malloc\<close>/\<open>calloc\<close> of a vector): only its liveness is recorded,
  its contents are kept by the structure that owns it.\<close>

definition malloc_array :: "mem \<Rightarrow> bool \<times> mem" where
  "malloc_array m = (case request m of (ok, m') \<Rightarrow> (ok, if ok then m'\<lparr>live := live m' + 1\<rparr> else m'))"

definition free_array :: "mem \<Rightarrow> mem" where
  "free_array m = m\<lparr>live := live m - 1\<rparr>"

text \<open>\<open>mtx_init\<close>, \<open>cnd_init\<close> and \<open>sem_init\<close> acquire a synchronization object or fail.\<close>

definition sync_init :: "mem \<Rightarrow> bool \<times> mem" where
  "sync_init m = (case request m of (ok, m') \<Rightarrow> (ok, if ok then m'\<lparr>syncs := syncs m' + 1\<rparr> else m'))"

definition sync_destroy :: "mem \<Rightarrow> mem" where
  "sync_destroy m = m\<lparr>syncs := syncs m - 1\<rparr>"

definition load_slot :: "mem \<Rightarrow> addr \<Rightarrow> nat \<Rightarrow> mtdp_buffer option" where
  "load_slot m a j = (case heap m a of None \<Rightarrow> None
     | Some arr \<Rightarrow> if j < length arr then arr ! j else None)"

definition store_slot :: "mem \<Rightarrow> addr \<Rightarrow> nat \<Rightarrow> mtdp_buffer \<Rightarrow> mem option" where
  "store_slot m a j e = (case heap m a of None \<Rightarrow> None
     | Some arr \<Rightarrow> if j < length arr then Some (m\<lparr>heap := (heap m)(a \<mapsto> arr[j := Some e])\<rparr>) else None)"

definition mem_wf :: "mem \<Rightarrow> bool" where
  "mem_wf m \<longleftrightarrow> (\<forall>a. brk m \<le> a \<longrightarrow> heap m a = None)"

lemma mem_start_wf [simp, intro]: "mem_wf (mem_start av)"
  by (simp add: mem_wf_def mem_start_def)

text \<open>What a piece of code that owns the addresses \<open>S\<close> may do to the rest of the memory.\<close>

definition mem_frame :: "addr set \<Rightarrow> mem \<Rightarrow> mem \<Rightarrow> bool" where
  "mem_frame S m m' \<longleftrightarrow>
     (\<forall>a. a \<notin> S \<longrightarrow> a < brk m \<longrightarrow> heap m' a = heap m a) \<and> brk m \<le> brk m' \<and> avail m' = avail m"

lemma mem_frame_refl [simp, intro]: "mem_frame S m m"
  by (simp add: mem_frame_def)

lemma mem_frame_trans:
  "mem_frame S m m' \<Longrightarrow> mem_frame T m' m'' \<Longrightarrow> (\<forall>a\<in>T. a \<in> S \<or> brk m \<le> a) \<Longrightarrow> mem_frame S m m''"
  by (fastforce simp: mem_frame_def)

lemma mem_frame_mono: "mem_frame S m m' \<Longrightarrow> S \<subseteq> T \<Longrightarrow> mem_frame T m m'"
  by (auto simp: mem_frame_def)

lemma request_simps [mem_simps]:
  "fst (request m) = avail m (requests m)"
  "heap (snd (request m)) = heap m" "brk (snd (request m)) = brk m"
  "live (snd (request m)) = live m" "avail (snd (request m)) = avail m"
  by (simp_all add: request_def)

lemma malloc_array_simps [mem_simps]:
  "fst (malloc_array m) = avail m (requests m)"
  "heap (snd (malloc_array m)) = heap m" "brk (snd (malloc_array m)) = brk m"
  "avail (snd (malloc_array m)) = avail m"
  "live (snd (malloc_array m)) = live m + (if avail m (requests m) then 1 else 0)"
  by (simp_all add: malloc_array_def request_def)

lemma free_array_simps [mem_simps]:
  "heap (free_array m) = heap m" "brk (free_array m) = brk m" "live (free_array m) = live m - 1"
  "avail (free_array m) = avail m" "requests (free_array m) = requests m"
  by (simp_all add: free_array_def)

lemma sync_simps [mem_simps]:
  "fst (sync_init m) = avail m (requests m)"
  "heap (snd (sync_init m)) = heap m" "brk (snd (sync_init m)) = brk m"
  "live (snd (sync_init m)) = live m" "avail (snd (sync_init m)) = avail m"
  "syncs (snd (sync_init m)) = syncs m + (if avail m (requests m) then 1 else 0)"
  "heap (sync_destroy m) = heap m" "brk (sync_destroy m) = brk m" "live (sync_destroy m) = live m"
  "syncs (sync_destroy m) = syncs m - 1" "avail (sync_destroy m) = avail m"
  by (simp_all add: sync_init_def sync_destroy_def request_def)

lemma load_slot_heap_cong: "heap m a = heap m' a \<Longrightarrow> load_slot m a j = load_slot m' a j"
  by (simp add: load_slot_def)

lemma store_slot_Some_iff:
  "store_slot m a j e = Some m' \<longleftrightarrow>
     (\<exists>arr. heap m a = Some arr \<and> j < length arr \<and> m' = m\<lparr>heap := (heap m)(a \<mapsto> arr[j := Some e])\<rparr>)"
  by (auto simp: store_slot_def split: option.splits if_splits)

lemma load_store_slot:
  "store_slot m a j e = Some m' \<Longrightarrow>
     load_slot m' b k = (if b = a \<and> k = j then Some e else load_slot m b k)"
  by (auto simp: store_slot_Some_iff load_slot_def nth_list_update split: option.splits if_splits)

section \<open>Bounded loops\<close>

text \<open>\<open>for_up i n body s\<close>: \<open>n\<close> iterations of \<open>body\<close> from index \<open>i\<close> upwards, stopping at
  the first fault.\<close>

primrec for_up :: "nat \<Rightarrow> nat \<Rightarrow> (nat \<Rightarrow> 's \<Rightarrow> 's option) \<Rightarrow> 's \<Rightarrow> 's option" where
  "for_up i 0 body s = Some s"
| "for_up i (Suc n) body s = do { s \<leftarrow> body i s; for_up (Suc i) n body s }"

lemma for_up_rule:
  assumes "P 0 s"
    and "\<And>k s. k < n \<Longrightarrow> P k s \<Longrightarrow> \<exists>s'. body (i + k) s = Some s' \<and> P (Suc k) s'"
  shows "\<exists>s'. for_up i n body s = Some s' \<and> P n s'"
  using assms
proof (induction n arbitrary: i s P)
  case 0
  then show ?case by simp
next
  case (Suc n)
  from Suc.prems(2)[of 0 s] Suc.prems(1) obtain s1
    where s1: "body i s = Some s1" "P 1 s1" by auto
  have "\<exists>s'. for_up (Suc i) n body s1 = Some s' \<and> P (Suc n) s'"
  proof (rule Suc.IH [of "\<lambda>k. P (Suc k)"])
    show "P (Suc 0) s1" using s1 by simp
  next
    fix k s assume "k < n" "P (Suc k) s"
    then show "\<exists>s'. body (Suc i + k) s = Some s' \<and> P (Suc (Suc k)) s'"
      using Suc.prems(2)[of "Suc k" s] by simp
  qed
  with s1 show ?case by auto
qed

text \<open>The idiom \<open>for(size_t i = n; i--;)\<close>: the indices below \<open>n\<close>, downwards.\<close>

primrec for_down :: "nat \<Rightarrow> (nat \<Rightarrow> 's \<Rightarrow> 's option) \<Rightarrow> 's \<Rightarrow> 's option" where
  "for_down 0 body s = Some s"
| "for_down (Suc n) body s = do { s \<leftarrow> body n s; for_down n body s }"

lemma for_down_rule:
  assumes "P n s" and "\<And>k s. k < n \<Longrightarrow> P (Suc k) s \<Longrightarrow> \<exists>s'. body k s = Some s' \<and> P k s'"
  shows "\<exists>s'. for_down n body s = Some s' \<and> P 0 s'"
  using assms
proof (induction n arbitrary: s)
  case (Suc n)
  from Suc.prems(2)[of n s] Suc.prems(1) obtain s1 where "body n s = Some s1" "P n s1" by auto
  with Suc.IH[of s1] Suc.prems(2) show ?case by auto
qed simp

text \<open>A loop that replaces the entries of a vector one by one, while a second state (\<open>Q\<close>) goes along.\<close>

lemma for_up_map:
  assumes q: "Q 0 r" and l: "length xs = n"
    and step: "\<And>k r ys. k < n \<Longrightarrow> length ys = n \<Longrightarrow> ys ! k = xs ! k \<Longrightarrow> Q k r \<Longrightarrow>
      \<exists>r'. body k (r, u ys) = Some (r', u (ys[k := f k (xs ! k)])) \<and> Q (Suc k) r'"
  obtains r' where "for_up 0 n body (r, u xs) = Some (r', u (map (\<lambda>k. f k (xs ! k)) [0..<n]))" "Q n r'"
proof -
  let ?zs = "map (\<lambda>k. f k (xs ! k)) [0..<n]"
  define P where "P k s \<longleftrightarrow> (\<exists>r ys. s = (r, u ys) \<and> Q k r \<and> ys = take k ?zs @ drop k xs)" for k s
  have "\<exists>s'. for_up 0 n body (r, u xs) = Some s' \<and> P n s'"
  proof (rule for_up_rule)
    show "P 0 (r, u xs)" using q by (auto simp: P_def)
  next
    fix k s assume k: "k < n" and "P k s"
    then obtain r ys where p: "s = (r, u ys)" "Q k r" "ys = take k ?zs @ drop k xs" by (auto simp: P_def)
    have y: "length ys = n" "ys ! k = xs ! k" using k l p(3) by (simp_all add: nth_append)
    have "ys[k := f k (xs ! k)] = take (Suc k) ?zs @ drop (Suc k) xs"
      unfolding p(3) using k l by (simp add: list_update_append take_Suc_conv_app_nth flip: Cons_nth_drop_Suc)
    with step[OF k y p(2)] show "\<exists>s'. body (0 + k) s = Some s' \<and> P (Suc k) s'" by (auto simp: P_def p(1))
  qed
  then show ?thesis using that l by (auto simp: P_def)
qed

lemma map_index: "length xs = n \<Longrightarrow> map (\<lambda>k. f (xs ! k)) [0..<n] = map f xs"
  by (rule nth_equalityI) simp_all

lemma for_up_map_all:
  assumes q: "Q 0 r" and l: "length xs = n"
    and step: "\<And>k r ys. k < n \<Longrightarrow> length ys = n \<Longrightarrow> ys ! k = xs ! k \<Longrightarrow> Q k r \<Longrightarrow>
      \<exists>r'. body k (r, u ys) = Some (r', u (ys[k := f (xs ! k)])) \<and> Q (Suc k) r'"
  obtains r' where "for_up 0 n body (r, u xs) = Some (r', u (map f xs))" "Q n r'"
proof -
  obtain r' where "for_up 0 n body (r, u xs) = Some (r', u (map (\<lambda>k. f (xs ! k)) [0..<n]))" "Q n r'"
    by (rule for_up_map[where Q = Q and body = body and u = u and f = "\<lambda>_. f", OF q l step])
  then show ?thesis using that by (simp only: map_index[OF l])
qed

lemma for_down_map:
  assumes q: "Q n r" and l: "length xs = n"
    and step: "\<And>k r ys. k < n \<Longrightarrow> length ys = n \<Longrightarrow> ys ! k = xs ! k \<Longrightarrow> Q (Suc k) r \<Longrightarrow>
      \<exists>r'. body k (r, u ys) = Some (r', u (ys[k := f k (xs ! k)])) \<and> Q k r'"
  obtains r' where "for_down n body (r, u xs) = Some (r', u (map (\<lambda>k. f k (xs ! k)) [0..<n]))" "Q 0 r'"
proof -
  let ?zs = "map (\<lambda>k. f k (xs ! k)) [0..<n]"
  define P where "P k s \<longleftrightarrow> (\<exists>r ys. s = (r, u ys) \<and> Q k r \<and> ys = take k xs @ drop k ?zs)" for k s
  have "\<exists>s'. for_down n body (r, u xs) = Some s' \<and> P 0 s'"
  proof (rule for_down_rule)
    show "P n (r, u xs)" using q l by (auto simp: P_def)
  next
    fix k s assume k: "k < n" and "P (Suc k) s"
    then obtain r ys where p: "s = (r, u ys)" "Q (Suc k) r" "ys = take (Suc k) xs @ drop (Suc k) ?zs" by (auto simp: P_def)
    have y: "length ys = n" "ys ! k = xs ! k" using k l p(3) by (simp_all add: nth_append)
    have z: "drop k ?zs = f k (xs ! k) # drop (Suc k) ?zs" using k by (simp flip: Cons_nth_drop_Suc)
    have "ys[k := f k (xs ! k)] = take k xs @ drop k ?zs"
      unfolding p(3) z using k l by (simp add: list_update_append take_Suc_conv_app_nth)
    with step[OF k y p(2)] show "\<exists>s'. body k s = Some s' \<and> P k s'" by (auto simp: P_def p(1))
  qed
  then show ?thesis using that by (auto simp: P_def)
qed

section \<open>Indices\<close>

text \<open>A position counted from the left of \<open>n\<close> blocks of \<open>B\<close> slots, and the same position
  counted from the right.\<close>

lemma mirror_index:
  assumes "0 < (B::nat)" and "p + r + 1 = n * B"
  shows "r div B = n - 1 - p div B" and "B - 1 - r mod B = p mod B" and "p div B < n"
proof -
  let ?q = "p div B" and ?t = "p mod B"
  have p: "p = ?q * B + ?t" by simp
  have t: "?t < B" using assms(1) by simp
  have "p < n * B" using assms(2) by simp
  then show q: "p div B < n" using assms(1) by (simp add: less_mult_imp_div_less)
  then obtain d where d: "n = ?q + 1 + d" by (metis add.commute less_iff_Suc_add add_Suc_right Suc_eq_plus1 add.assoc)
  have "n * B = ?q * B + B + d * B" by (subst d) (simp add: algebra_simps)
  with assms(2) p have r: "r = d * B + (B - 1 - ?t)" using t by linarith
  have lt: "B - 1 - ?t < B" using assms(1) by simp
  have "r div B = d" "r mod B = B - 1 - ?t" using r lt by simp_all
  then show "r div B = n - 1 - p div B" and "B - 1 - r mod B = p mod B"
    using d t by simp_all
qed

lemma div_less_of_mult: "r < n * (B::nat) \<Longrightarrow> r div B < n"
  by (simp add: less_mult_imp_div_less)

end
