(* ===== verification/Buffer_Interfaces.thy ===== *)
theory Buffer_Interfaces
  imports Mtdp_Prelude
begin

text \<open>
  The contracts of the two buffer containers of a pipe, as the code above them relies on them:
  a store accepts a buffer or refuses it and is then unchanged; a bag gives back one of the
  buffers it holds; a queue gives them back in the order of arrival (\<open>mtdp_buffer_fifo\<close>), a
  stack in the reverse order (\<open>mtdp_buffer_pool\<close>). \<open>'m\<close> is the memory, \<open>'q\<close> the structure.
  The client lemmas are about a script of calls. The interpretations are in Buffer_Pool
  and Buffer_Fifo.
\<close>

datatype 'e call = Put 'e | Get

text \<open>Runs a script of calls; collects the accepted buffers and the buffers handed out.\<close>

fun run_calls ::
  "('m \<Rightarrow> 'q \<Rightarrow> 'e \<Rightarrow> (bool \<times> 'm \<times> 'q) option) \<Rightarrow> ('m \<Rightarrow> 'q \<Rightarrow> ('e option \<times> 'm \<times> 'q) option) \<Rightarrow>
   'm \<Rightarrow> 'q \<Rightarrow> 'e call list \<Rightarrow> ('e list \<times> 'e list \<times> 'm \<times> 'q) option" where
  "run_calls put get m q [] = Some ([], [], m, q)"
| "run_calls put get m q (Put e # cs) = do {
     (ok, m, q) \<leftarrow> put m q e;
     (ins, outs, m, q) \<leftarrow> run_calls put get m q cs;
     Some (if ok then e # ins else ins, outs, m, q) }"
| "run_calls put get m q (Get # cs) = do {
     (r, m, q) \<leftarrow> get m q;
     (ins, outs, m, q) \<leftarrow> run_calls put get m q cs;
     Some (ins, (case r of None \<Rightarrow> outs | Some e \<Rightarrow> e # outs), m, q) }"

lemma run_calls_append:
  "run_calls put get m q (cs @ ds) = do {
     (ins, outs, m, q) \<leftarrow> run_calls put get m q cs;
     (ins', outs', m, q) \<leftarrow> run_calls put get m q ds;
     Some (ins @ ins', outs @ outs', m, q) }"
proof (induction cs arbitrary: m q)
  case Nil
  then show ?case by (cases "run_calls put get m q ds") auto
next
  case (Cons c cs)
  show ?case
  proof (cases c)
    case (Put e)
    then show ?thesis
      by (cases "put m q e") (auto simp: Cons.IH bind_eq_None_conv bind_eq_Some_conv split: bind_splits)
  next
    case Get
    then show ?thesis
      by (cases "get m q") (auto simp: Cons.IH split: bind_splits option.split)
  qed
qed

locale buffer_store =
  fixes inv :: "'m \<Rightarrow> 'q \<Rightarrow> bool"
    and elems :: "'m \<Rightarrow> 'q \<Rightarrow> 'e list"
    and put :: "'m \<Rightarrow> 'q \<Rightarrow> 'e \<Rightarrow> (bool \<times> 'm \<times> 'q) option"
  assumes put_law: "inv m q \<Longrightarrow> \<exists>ok m' q'. put m q e = Some (ok, m', q') \<and> inv m' q' \<and>
      elems m' q' = (if ok then elems m q @ [e] else elems m q)"

locale buffer_bag = buffer_store inv elems put
  for inv :: "'m \<Rightarrow> 'q \<Rightarrow> bool" and elems :: "'m \<Rightarrow> 'q \<Rightarrow> 'e list"
    and put :: "'m \<Rightarrow> 'q \<Rightarrow> 'e \<Rightarrow> (bool \<times> 'm \<times> 'q) option" +
  fixes get :: "'m \<Rightarrow> 'q \<Rightarrow> ('e option \<times> 'm \<times> 'q) option"
  assumes get_none: "inv m q \<Longrightarrow> elems m q = [] \<Longrightarrow>
      \<exists>m' q'. get m q = Some (None, m', q') \<and> inv m' q' \<and> elems m' q' = []"
    and get_some: "inv m q \<Longrightarrow> elems m q \<noteq> [] \<Longrightarrow>
      \<exists>e m' q'. get m q = Some (Some e, m', q') \<and> inv m' q' \<and> mset (elems m q) = add_mset e (mset (elems m' q'))"
begin

lemma run_safe:
  "inv m q \<Longrightarrow> \<exists>ins outs m' q'. run_calls put get m q cs = Some (ins, outs, m', q') \<and> inv m' q' \<and>
     mset (elems m q) + mset ins = mset outs + mset (elems m' q')"
proof (induction cs arbitrary: m q)
  case Nil
  then show ?case by simp
next
  case (Cons c cs)
  show ?case
  proof (cases c)
    case (Put e)
    obtain ok m1 q1 where p: "put m q e = Some (ok, m1, q1)" "inv m1 q1"
      "elems m1 q1 = (if ok then elems m q @ [e] else elems m q)"
      using put_law[OF Cons.prems] by blast
    from Cons.IH[OF p(2)] p Put show ?thesis
      by (cases ok) (auto simp: algebra_simps)
  next
    case Get
    show ?thesis
    proof (cases "elems m q = []")
      case True
      then obtain m1 q1 where g: "get m q = Some (None, m1, q1)" "inv m1 q1" "elems m1 q1 = []"
        using get_none[OF Cons.prems] by blast
      from Cons.IH[OF g(2)] g True Get show ?thesis by auto
    next
      case False
      then obtain e m1 q1 where g: "get m q = Some (Some e, m1, q1)" "inv m1 q1"
        "mset (elems m q) = add_mset e (mset (elems m1 q1))"
        using get_some[OF Cons.prems] by blast
      from Cons.IH[OF g(2)] g Get show ?thesis by auto
    qed
  qed
qed

end

locale buffer_queue = buffer_store inv elems put
  for inv :: "'m \<Rightarrow> 'q \<Rightarrow> bool" and elems :: "'m \<Rightarrow> 'q \<Rightarrow> 'e list"
    and put :: "'m \<Rightarrow> 'q \<Rightarrow> 'e \<Rightarrow> (bool \<times> 'm \<times> 'q) option" +
  fixes get :: "'m \<Rightarrow> 'q \<Rightarrow> ('e option \<times> 'm \<times> 'q) option"
  assumes get_front: "inv m q \<Longrightarrow> \<exists>m' q'. get m q =
        Some (if elems m q = [] then None else Some (hd (elems m q)), m', q') \<and> inv m' q' \<and>
        elems m' q' = tl (elems m q)"
begin

text \<open>First in, first out: what comes out, followed by what is still inside, is what was inside
  followed by what was accepted.\<close>

lemma run_order:
  "inv m q \<Longrightarrow> \<exists>ins outs m' q'. run_calls put get m q cs = Some (ins, outs, m', q') \<and> inv m' q' \<and>
     elems m q @ ins = outs @ elems m' q'"
proof (induction cs arbitrary: m q)
  case Nil
  then show ?case by simp
next
  case (Cons c cs)
  show ?case
  proof (cases c)
    case (Put e)
    obtain ok m1 q1 where p: "put m q e = Some (ok, m1, q1)" "inv m1 q1"
      "elems m1 q1 = (if ok then elems m q @ [e] else elems m q)"
      using put_law[OF Cons.prems] by blast
    from Cons.IH[OF p(2)] p Put show ?thesis by (cases ok) auto
  next
    case Get
    obtain m1 q1 where g: "get m q =
        Some (if elems m q = [] then None else Some (hd (elems m q)), m1, q1)"
      "inv m1 q1" "elems m1 q1 = tl (elems m q)"
      using get_front[OF Cons.prems] by blast
    from Cons.IH[OF g(2)] g Get show ?thesis by (cases "elems m q") auto
  qed
qed

end

sublocale buffer_queue \<subseteq> bag: buffer_bag inv elems put get
proof unfold_locales
  fix m q assume "inv m q" "elems m q = []"
  then show "\<exists>m' q'. get m q = Some (None, m', q') \<and> inv m' q' \<and> elems m' q' = []"
    using get_front by fastforce
next
  fix m q assume "inv m q" "elems m q \<noteq> []"
  then show "\<exists>e m' q'. get m q = Some (Some e, m', q') \<and> inv m' q' \<and>
      mset (elems m q) = add_mset e (mset (elems m' q'))"
    using get_front[of m q] by (cases "elems m q") auto
qed

locale buffer_stack = buffer_store inv elems put
  for inv :: "'m \<Rightarrow> 'q \<Rightarrow> bool" and elems :: "'m \<Rightarrow> 'q \<Rightarrow> 'e list"
    and put :: "'m \<Rightarrow> 'q \<Rightarrow> 'e \<Rightarrow> (bool \<times> 'm \<times> 'q) option" +
  fixes get :: "'m \<Rightarrow> 'q \<Rightarrow> ('e option \<times> 'm \<times> 'q) option"
  assumes get_top: "inv m q \<Longrightarrow> \<exists>m' q'. get m q =
        Some (if elems m q = [] then None else Some (last (elems m q)), m', q') \<and> inv m' q' \<and>
        elems m' q' = butlast (elems m q)"
begin

text \<open>Last in, first out: as many \<open>Get\<close>s as there are buffers empty the stack from the top.\<close>

lemma drain:
  "inv m q \<Longrightarrow> \<exists>m' q'. run_calls put get m q (replicate (length (elems m q)) Get) =
     Some ([], rev (elems m q), m', q') \<and> inv m' q' \<and> elems m' q' = []"
proof (induction "elems m q" arbitrary: m q rule: rev_induct)
  case Nil
  then show ?case by (metis list.size(3) replicate_0 rev.simps(1) run_calls.simps(1))
next
  case (snoc x xs)
  obtain m1 q1 where g: "get m q = Some (Some x, m1, q1)" "inv m1 q1" "elems m1 q1 = xs"
    using get_top[OF snoc.prems] snoc.hyps(2)[symmetric] by auto
  obtain m2 q2 where "run_calls put get m1 q1 (replicate (length xs) Get) = Some ([], rev xs, m2, q2)"
    "inv m2 q2" "elems m2 q2 = []"
    using snoc.hyps(1)[OF g(3)[symmetric] g(2)] g(3) by auto
  with g snoc.hyps(2)[symmetric] show ?case by simp
qed

end

sublocale buffer_stack \<subseteq> bag: buffer_bag inv elems put get
proof unfold_locales
  fix m q assume "inv m q" "elems m q = []"
  then show "\<exists>m' q'. get m q = Some (None, m', q') \<and> inv m' q' \<and> elems m' q' = []"
    using get_top by fastforce
next
  fix m q assume "inv m q" "elems m q \<noteq> []"
  then show "\<exists>e m' q'. get m q = Some (Some e, m', q') \<and> inv m' q' \<and>
      mset (elems m q) = add_mset e (mset (elems m' q'))"
    using get_top[of m q] by (cases "elems m q" rule: rev_cases) auto
qed

end
