(* ===== verification/Buffer_Pool.thy ===== *)
theory Buffer_Pool
  imports Buffer_Interfaces
begin

text \<open>
  The pool of empty buffers of a pipe (\<open>mtdp_buffer_pool\<close> of \<open>src/impl/buffer.h\<close>,
  \<open>mtdp_buffer_pool_*\<close> of \<open>src/buffer.c\<close>) in the default, heap-allocated configuration
  (\<open>MTDP_BUFFER_POOL_STATIC_SIZE == 0\<close>): a stack in a growable array. \<open>buffers = None\<close> is a
  pointer that was never set. The libm expression of the growth policy is \<open>ceillog2\<close>, i.e.
  the ceiling of the binary logarithm, which the double computation returns exactly for the
  sizes a pool can have (below 2^40).
\<close>

section \<open>State and operations\<close>

record mtdp_buffer_pool =
  buffers :: "slot list option"
  psize :: nat
  pcapacity :: nat

definition mtdp_buffer_pool_realloc ::
  "mem \<Rightarrow> mtdp_buffer_pool \<Rightarrow> nat \<Rightarrow> (bool \<times> mem \<times> mtdp_buffer_pool) option" where
  "mtdp_buffer_pool_realloc m p elements =
    (if pcapacity p \<noteq> 0 then
       (case buffers p of None \<Rightarrow> None
        | Some old \<Rightarrow>
           (case request m of (ok, m) \<Rightarrow>
              Some (ok, m,
                if ok then p\<lparr>pcapacity := elements,
                             buffers := Some (take elements old @ replicate (elements - length old) None)\<rparr>
                else p)))
     else
       (case malloc_array m of (ok, m) \<Rightarrow>
          Some (ok, m,
            if ok then p\<lparr>pcapacity := elements, buffers := Some (replicate elements (Some NULL))\<rparr>
            else p)))"

definition mtdp_buffer_pool_has_space_for :: "mtdp_buffer_pool \<Rightarrow> nat \<Rightarrow> bool" where
  "mtdp_buffer_pool_has_space_for p elements \<longleftrightarrow> elements \<le> usub (pcapacity p) (psize p)"

definition mtdp_buffer_pool_preventive_realloc ::
  "mem \<Rightarrow> mtdp_buffer_pool \<Rightarrow> nat \<Rightarrow> (bool \<times> mem \<times> mtdp_buffer_pool) option" where
  "mtdp_buffer_pool_preventive_realloc m p elements =
    (if \<not> mtdp_buffer_pool_has_space_for p elements then
       let min_alloc_cap = 16; cap = 2 ^ ceillog2 (psize p + elements)
       in mtdp_buffer_pool_realloc m p (if min_alloc_cap < cap then cap else min_alloc_cap)
     else Some (True, m, p))"

definition mtdp_buffer_pool_init :: "mtdp_buffer_pool \<Rightarrow> mtdp_buffer_pool" where
  "mtdp_buffer_pool_init p = p\<lparr>psize := 0, pcapacity := 0\<rparr>"

definition mtdp_buffer_pool_destroy :: "mem \<Rightarrow> mtdp_buffer_pool \<Rightarrow> mem \<times> mtdp_buffer_pool" where
  "mtdp_buffer_pool_destroy m p =
    (if pcapacity p \<noteq> 0 then (free_array m, p\<lparr>pcapacity := 0\<rparr>) else (m, p))"

definition mtdp_buffer_pool_push_back ::
  "mem \<Rightarrow> mtdp_buffer_pool \<Rightarrow> mtdp_buffer \<Rightarrow> (bool \<times> mem \<times> mtdp_buffer_pool) option" where
  "mtdp_buffer_pool_push_back m p e = do {
     (ok, m, p) \<leftarrow> mtdp_buffer_pool_preventive_realloc m p 1;
     if \<not> ok then Some (False, m, p)
     else do {
       arr \<leftarrow> buffers p;
       if psize p < length arr
       then Some (True, m, p\<lparr>buffers := Some (arr[psize p := Some e]), psize := psize p + 1\<rparr>)
       else None } }"

definition mtdp_buffer_pool_pop_back ::
  "mtdp_buffer_pool \<Rightarrow> (mtdp_buffer \<times> mtdp_buffer_pool) option" where
  "mtdp_buffer_pool_pop_back p =
    (if psize p \<noteq> 0 then do {
       arr \<leftarrow> buffers p;
       let n = usub (psize p) 1;
       e \<leftarrow> (if n < length arr then arr ! n else None);
       Some (e, p\<lparr>psize := n\<rparr>) }
     else Some (NULL, p))"

definition mtdp_buffer_pool_size :: "mtdp_buffer_pool \<Rightarrow> nat" where
  "mtdp_buffer_pool_size p = psize p"

text \<open>The casts to \<open>signed long\<close> are exact for sizes below \<open>2 ^ 63\<close> on the 64-bit targets modelled, the range for
  which the definition speaks.\<close>

definition mtdp_buffer_pool_resize ::
  "mem \<Rightarrow> mtdp_buffer_pool \<Rightarrow> nat \<Rightarrow> (bool \<times> mem \<times> mtdp_buffer_pool) option" where
  "mtdp_buffer_pool_resize m p sz =
    (let delta = int sz - int (pcapacity p) in
     if delta < 0 then Some (True, m, p\<lparr>psize := uadds (psize p) delta\<rparr>)
     else if 0 < delta then do {
       (ret, m, p) \<leftarrow> mtdp_buffer_pool_realloc m p sz;
       Some (ret, m, if ret then p\<lparr>psize := uadds (psize p) delta\<rparr> else p) }
     else Some (True, m, p))"

section \<open>Invariant and abstraction\<close>

text \<open>The array the capacity field speaks of.\<close>

definition pool_wf :: "mtdp_buffer_pool \<Rightarrow> bool" where
  "pool_wf p \<longleftrightarrow> psize p \<le> pcapacity p \<and>
     (pcapacity p \<noteq> 0 \<longrightarrow> (\<exists>arr. buffers p = Some arr \<and> length arr = pcapacity p))"

definition pool_slots :: "mtdp_buffer_pool \<Rightarrow> slot list" where
  "pool_slots p = (if psize p = 0 then [] else take (psize p) (the (buffers p)))"

definition pool_inv :: "mtdp_buffer_pool \<Rightarrow> bool" where
  "pool_inv p \<longleftrightarrow> pool_wf p \<and> None \<notin> set (pool_slots p)"

definition pool_elems :: "mtdp_buffer_pool \<Rightarrow> mtdp_buffer list" where
  "pool_elems p = map the (pool_slots p)"

lemmas pool_defs = pool_wf_def pool_slots_def pool_inv_def pool_elems_def

lemma length_pool_slots: "pool_wf p \<Longrightarrow> length (pool_slots p) = psize p"
  by (auto simp: pool_wf_def pool_slots_def)

lemma length_pool_elems [simp]: "pool_inv p \<Longrightarrow> length (pool_elems p) = psize p"
  by (simp add: pool_elems_def pool_inv_def length_pool_slots)

lemma pool_init_inv [simp]:
  "pool_inv (mtdp_buffer_pool_init p)" "pool_elems (mtdp_buffer_pool_init p) = []"
  by (simp_all add: pool_defs mtdp_buffer_pool_init_def)

section \<open>Growth\<close>

text \<open>The capacity asked for is a power of two of at least 16 that holds the new size.\<close>

lemma pool_grow_cap:
  fixes n :: nat
  defines "c \<equiv> (if (16::nat) < 2 ^ ceillog2 n then 2 ^ ceillog2 n else 16 :: nat)"
  shows "n \<le> c" "16 \<le> c" "c \<le> max 16 (2 * n)" "\<exists>k. c = 2 ^ k"
proof -
  have le: "n \<le> 2 ^ ceillog2 n" by (rule le_two_power_ceillog2)
  show "n \<le> c" "16 \<le> c" using le by (auto simp: c_def)
  show "\<exists>k. c = 2 ^ k"
  proof (cases "16 < (2::nat) ^ ceillog2 n")
    case True
    then show ?thesis by (auto simp: c_def)
  next
    case False
    then have "c = 2 ^ 4" by (simp add: c_def)
    then show ?thesis by blast
  qed
  show "c \<le> max 16 (2 * n)"
    using two_power_ceillog2_gt[of n] by (cases "n = 0") (auto simp: c_def)
qed

lemma pool_realloc_grows:
  assumes "pool_wf p" "psize p \<le> n" "pcapacity p \<le> n"
  obtains ok m' p' where "mtdp_buffer_pool_realloc m p n = Some (ok, m', p')"
    "ok = avail m (requests m)" "heap m' = heap m" "brk m' = brk m" "avail m' = avail m"
    "\<not> ok \<Longrightarrow> p' = p"
    "ok \<Longrightarrow> pcapacity p' = n \<and> psize p' = psize p \<and> (\<exists>arr. buffers p' = Some arr \<and> length arr = n) \<and>
       pool_slots p' = pool_slots p"
proof (cases "pcapacity p = 0")
  case True
  with assms(1) have "psize p = 0" by (simp add: pool_wf_def)
  with True show ?thesis
    by (intro that[of "avail m (requests m)" "snd (malloc_array m)" "if avail m (requests m)
          then p\<lparr>pcapacity := n, buffers := Some (replicate n (Some NULL))\<rparr> else p"])
       (auto simp: mtdp_buffer_pool_realloc_def malloc_array_def request_def pool_slots_def)
next
  case False
  with assms(1) obtain arr where arr: "buffers p = Some arr" "length arr = pcapacity p"
    by (auto simp: pool_wf_def)
  have sz: "psize p \<le> length arr" using assms(1) arr by (simp add: pool_wf_def)
  show ?thesis
    using False arr assms sz
    by (intro that[of "avail m (requests m)" "snd (request m)" "if avail m (requests m)
          then p\<lparr>pcapacity := n, buffers := Some (take n arr @ replicate (n - length arr) None)\<rparr> else p"])
       (auto simp: mtdp_buffer_pool_realloc_def request_def pool_slots_def)
qed

section \<open>The pool is a stack\<close>

lemma pool_slots_step:
  assumes "buffers p = Some arr" "psize p < length arr"
  shows "pool_slots (p\<lparr>buffers := Some (arr[psize p := Some e]), psize := psize p + 1\<rparr>) =
           pool_slots p @ [Some e]"
  using assms by (auto simp: pool_slots_def take_Suc_conv_app_nth)

lemma pool_push_store:
  assumes "pool_inv p" "psize p < pcapacity p"
  obtains p' where "mtdp_buffer_pool_push_back m p e = Some (True, m, p')"
    "pool_inv p'" "pool_elems p' = pool_elems p @ [e]" "pcapacity p' = pcapacity p"
    "psize p' = psize p + 1"
proof -
  from assms obtain arr where arr: "buffers p = Some arr" "length arr = pcapacity p"
    by (auto simp: pool_inv_def pool_wf_def)
  let ?p = "p\<lparr>buffers := Some (arr[psize p := Some e]), psize := psize p + 1\<rparr>"
  have space: "mtdp_buffer_pool_has_space_for p 1"
    using assms(2) by (simp add: mtdp_buffer_pool_has_space_for_def)
  have sl: "pool_slots ?p = pool_slots p @ [Some e]"
    using arr assms(2) by (intro pool_slots_step) auto
  show ?thesis
  proof (rule that[of ?p])
    show "mtdp_buffer_pool_push_back m p e = Some (True, m, ?p)"
      using space arr assms(2)
      by (simp add: mtdp_buffer_pool_push_back_def mtdp_buffer_pool_preventive_realloc_def)
    show "pool_inv ?p" using assms arr sl by (auto simp: pool_inv_def pool_wf_def)
    show "pool_elems ?p = pool_elems p @ [e]" unfolding pool_elems_def sl by simp
  qed simp_all
qed

text \<open>The whole behaviour of a push: it stores on top; it grows first when full; it is refused
  exactly when it has to grow and the allocator refuses, and then changes nothing.\<close>

lemma pool_push_back:
  assumes "pool_inv p"
  obtains ok m' p' where "mtdp_buffer_pool_push_back m p e = Some (ok, m', p')"
    "pool_inv p'" "pool_elems p' = (if ok then pool_elems p @ [e] else pool_elems p)"
    "ok \<longleftrightarrow> psize p < pcapacity p \<or> avail m (requests m)"
    "heap m' = heap m" "brk m' = brk m" "avail m' = avail m"
    "\<not> ok \<longrightarrow> p' = p"
    "psize p < pcapacity p \<longrightarrow> m' = m \<and> pcapacity p' = pcapacity p"
    "pcapacity p' \<le> max (pcapacity p) (max 16 (2 * (psize p + 1)))"
proof (cases "psize p < pcapacity p")
  case True
  from pool_push_store[OF assms True, of m e] obtain p' where
    "mtdp_buffer_pool_push_back m p e = Some (True, m, p')" "pool_inv p'"
    "pool_elems p' = pool_elems p @ [e]" "pcapacity p' = pcapacity p" .
  with True show ?thesis by (intro that[of True m p']) auto
next
  case False
  define n :: nat where "n = (if (16::nat) < 2 ^ ceillog2 (psize p + 1) then 2 ^ ceillog2 (psize p + 1) else 16)"
  have wf: "pool_wf p" using assms by (simp add: pool_inv_def)
  with False have full: "psize p = pcapacity p" by (simp add: pool_wf_def)
  have n: "psize p + 1 \<le> n" "n \<le> max 16 (2 * (psize p + 1))"
    using pool_grow_cap[of "psize p + 1"] by (auto simp: n_def)
  have pre: "mtdp_buffer_pool_preventive_realloc m p 1 = mtdp_buffer_pool_realloc m p n"
    using full
    by (simp add: mtdp_buffer_pool_preventive_realloc_def mtdp_buffer_pool_has_space_for_def n_def Let_def)
  obtain ok m1 p1 where r: "mtdp_buffer_pool_realloc m p n = Some (ok, m1, p1)"
    "ok = avail m (requests m)" "heap m1 = heap m" "brk m1 = brk m" "avail m1 = avail m"
    "\<not> ok \<Longrightarrow> p1 = p"
    "ok \<Longrightarrow> pcapacity p1 = n \<and> psize p1 = psize p \<and> (\<exists>arr. buffers p1 = Some arr \<and> length arr = n) \<and>
       pool_slots p1 = pool_slots p"
    by (rule pool_realloc_grows[of p n m]) (use wf full n in auto)
  show ?thesis
  proof (cases ok)
    case False
    with r(1,6) pre assms have "mtdp_buffer_pool_push_back m p e = Some (False, m1, p)"
      by (simp add: mtdp_buffer_pool_push_back_def)
    with False r full assms show ?thesis by (intro that[of False m1 p]) auto
  next
    case True
    with r(7) have p1: "pcapacity p1 = n" "psize p1 = psize p" "pool_slots p1 = pool_slots p"
      "\<exists>arr. buffers p1 = Some arr \<and> length arr = n" by auto
    have inv1: "pool_inv p1" using p1 n assms by (auto simp: pool_inv_def pool_wf_def)
    obtain p' where p': "mtdp_buffer_pool_push_back m1 p1 e = Some (True, m1, p')" "pool_inv p'"
      "pool_elems p' = pool_elems p1 @ [e]" "pcapacity p' = pcapacity p1"
      using pool_push_store[OF inv1, of m1 e] p1 n by auto
    have "mtdp_buffer_pool_preventive_realloc m1 p1 1 = Some (True, m1, p1)"
    proof -
      have "mtdp_buffer_pool_has_space_for p1 1"
        using p1 n by (simp add: mtdp_buffer_pool_has_space_for_def)
      then show ?thesis by (simp add: mtdp_buffer_pool_preventive_realloc_def)
    qed
    with p'(1) r(1) pre True have "mtdp_buffer_pool_push_back m p e = Some (True, m1, p')"
      by (simp add: mtdp_buffer_pool_push_back_def)
    with True r p' p1 n full show ?thesis
      by (intro that[of True m1 p']) (auto simp: pool_elems_def)
  qed
qed

lemma pool_pop_back:
  assumes "pool_inv p"
  obtains p' where "mtdp_buffer_pool_pop_back p =
      Some (if pool_elems p = [] then NULL else last (pool_elems p), p')"
    "pool_inv p'" "pool_elems p' = butlast (pool_elems p)" "pcapacity p' = pcapacity p"
    "pool_elems p = [] \<longrightarrow> p' = p"
proof (cases "psize p = 0")
  case True
  then have "pool_elems p = []" by (simp add: pool_elems_def pool_slots_def)
  with True assms show ?thesis
    by (intro that[of p]) (simp_all add: mtdp_buffer_pool_pop_back_def)
next
  case False
  with assms obtain arr where arr: "buffers p = Some arr" "psize p \<le> length arr"
    "None \<notin> set (take (psize p) arr)" "length arr = pcapacity p"
    by (auto simp: pool_defs)
  obtain n where n: "psize p = Suc n" using False by (cases "psize p") auto
  have tk: "take (psize p) arr = take n arr @ [arr ! n]"
    using arr n by (simp add: take_Suc_conv_app_nth)
  obtain e where e: "arr ! n = Some e" using arr(3) tk by (cases "arr ! n") auto
  let ?p = "p\<lparr>psize := n\<rparr>"
  have el: "pool_elems p = map the (take n arr) @ [e]"
    using False arr(1) tk e by (simp add: pool_elems_def pool_slots_def)
  have el': "pool_elems ?p = map the (take n arr)" using arr(1) by (simp add: pool_elems_def pool_slots_def)
  show ?thesis
  proof (rule that[of ?p])
    show "mtdp_buffer_pool_pop_back p = Some (if pool_elems p = [] then NULL else last (pool_elems p), ?p)"
      using n arr e el by (simp add: mtdp_buffer_pool_pop_back_def)
    show "pool_inv ?p" using arr tk n by (auto simp: pool_defs)
    show "pool_elems ?p = butlast (pool_elems p)" using el el' by simp
  qed (use el in auto)
qed

text \<open>The array is the pool's only allocation.\<close>

definition pool_arrays :: "mtdp_buffer_pool \<Rightarrow> int" where
  "pool_arrays p = (if pcapacity p = 0 then 0 else 1)"

lemma pool_realloc_live:
  assumes "mtdp_buffer_pool_realloc m p n = Some (ok, m', p')" "n \<noteq> 0"
  shows "live m' - pool_arrays p' = live m - pool_arrays p" "syncs m' = syncs m"
  using assms
  by (auto simp: mtdp_buffer_pool_realloc_def pool_arrays_def malloc_array_def request_def
      split: if_splits option.splits)

lemma pool_push_live:
  assumes "mtdp_buffer_pool_push_back m p e = Some (ok, m', p')"
  shows "live m' - pool_arrays p' = live m - pool_arrays p" "syncs m' = syncs m"
proof -
  from assms obtain ok1 p1 where r: "mtdp_buffer_pool_preventive_realloc m p 1 = Some (ok1, m', p1)"
    and p': "pool_arrays p' = pool_arrays p1"
    by (auto simp: mtdp_buffer_pool_push_back_def pool_arrays_def bind_eq_Some_conv split: if_splits)
  have "live m' - pool_arrays p1 = live m - pool_arrays p \<and> syncs m' = syncs m"
  proof (cases "mtdp_buffer_pool_has_space_for p 1")
    case True
    with r show ?thesis by (simp add: mtdp_buffer_pool_preventive_realloc_def)
  next
    case False
    define n :: nat where "n = (if (16::nat) < 2 ^ ceillog2 (psize p + 1) then 2 ^ ceillog2 (psize p + 1) else 16)"
    have "mtdp_buffer_pool_realloc m p n = Some (ok1, m', p1)"
      using r False by (simp add: mtdp_buffer_pool_preventive_realloc_def Let_def n_def split: if_splits)
    from pool_realloc_live[OF this] show ?thesis by (simp add: n_def)
  qed
  with p' show "live m' - pool_arrays p' = live m - pool_arrays p" "syncs m' = syncs m" by simp_all
qed

text \<open>Pop wrapped to the interface's shape: \<open>NULL\<close> on the empty pool, nothing else changes. The
  state of a client: a valid pool in a memory that differs from \<open>m0\<close> by its array alone.\<close>

definition pool_take ::
  "mem \<Rightarrow> mtdp_buffer_pool \<Rightarrow> (mtdp_buffer option \<times> mem \<times> mtdp_buffer_pool) option" where
  "pool_take m p = do {
     (e, p') \<leftarrow> mtdp_buffer_pool_pop_back p;
     Some (if psize p = 0 then None else Some e, m, p') }"

definition pool_state_ok :: "mem \<Rightarrow> mem \<Rightarrow> mtdp_buffer_pool \<Rightarrow> bool" where
  "pool_state_ok m0 m p \<longleftrightarrow> pool_inv p \<and> live m = live m0 + pool_arrays p \<and> heap m = heap m0 \<and>
     brk m = brk m0 \<and> syncs m = syncs m0"

interpretation pool_lifo: buffer_stack "pool_state_ok m0" "\<lambda>m. pool_elems"
  mtdp_buffer_pool_push_back pool_take for m0
proof unfold_locales
  fix m :: mem and p e assume ok: "pool_state_ok m0 m p"
  then have "pool_inv p" by (simp add: pool_state_ok_def)
  then obtain b m' p' where r: "mtdp_buffer_pool_push_back m p e = Some (b, m', p')" "pool_inv p'"
    "pool_elems p' = (if b then pool_elems p @ [e] else pool_elems p)" "heap m' = heap m" "brk m' = brk m"
    by (rule pool_push_back[of p m e])
  with ok pool_push_live[OF r(1)] show "\<exists>ok m' p'. mtdp_buffer_pool_push_back m p e = Some (ok, m', p') \<and>
      pool_state_ok m0 m' p' \<and> pool_elems p' = (if ok then pool_elems p @ [e] else pool_elems p)"
    by (auto simp: pool_state_ok_def)
next
  fix m :: mem and p assume ok: "pool_state_ok m0 m p"
  then have inv: "pool_inv p" by (simp add: pool_state_ok_def)
  have z: "psize p = 0 \<longleftrightarrow> pool_elems p = []"
    using length_pool_elems[OF inv] by (metis length_0_conv)
  obtain p' where "mtdp_buffer_pool_pop_back p =
      Some (if pool_elems p = [] then NULL else last (pool_elems p), p')"
    "pool_inv p'" "pool_elems p' = butlast (pool_elems p)" "pcapacity p' = pcapacity p"
    using pool_pop_back[OF inv] by metis
  with ok show "\<exists>m' p'. pool_take m p =
      Some (if pool_elems p = [] then None else Some (last (pool_elems p)), m', p') \<and> pool_state_ok m0 m' p' \<and>
      pool_elems p' = butlast (pool_elems p)"
    by (simp add: pool_take_def z pool_state_ok_def pool_arrays_def)
qed

lemma pool_destroy_live:
  "mtdp_buffer_pool_destroy m p = (m', p') \<Longrightarrow>
     live m' = live m - pool_arrays p \<and> heap m' = heap m \<and> brk m' = brk m \<and> syncs m' = syncs m \<and>
     avail m' = avail m \<and> pcapacity p' = 0"
  by (auto simp: mtdp_buffer_pool_destroy_def pool_arrays_def free_array_def split: if_splits)

section \<open>Resizing\<close>

text \<open>On a pool whose buffers are all present (\<open>size = capacity\<close>, as before the pipeline is first
  enabled), asking for more appends slots; existing buffers keep their place.\<close>

lemma pool_resize_grow:
  assumes wf: "pool_wf p" and idle: "psize p = pcapacity p" and n: "pcapacity p < n"
  obtains ok m' p' where "mtdp_buffer_pool_resize m p n = Some (ok, m', p')" "ok = avail m (requests m)"
    "heap m' = heap m" "brk m' = brk m" "avail m' = avail m" "\<not> ok \<longrightarrow> p' = p"
    "ok \<longrightarrow> pool_wf p' \<and> psize p' = n \<and> pcapacity p' = n \<and> take (psize p) (pool_slots p') = pool_slots p"
proof -
  obtain ok m' p1 where r: "mtdp_buffer_pool_realloc m p n = Some (ok, m', p1)"
    "ok = avail m (requests m)" "heap m' = heap m" "brk m' = brk m" "avail m' = avail m"
    "\<not> ok \<Longrightarrow> p1 = p"
    "ok \<Longrightarrow> pcapacity p1 = n \<and> psize p1 = psize p \<and> (\<exists>arr. buffers p1 = Some arr \<and> length arr = n) \<and>
       pool_slots p1 = pool_slots p"
    by (rule pool_realloc_grows[OF wf, of n m]) (use idle n in auto)
  define p' where "p' = (if ok then p1\<lparr>psize := n\<rparr> else p)"
  have "mtdp_buffer_pool_resize m p n = Some (ok, m', p')"
  proof (cases ok)
    case True
    have "uadds (psize p1) (int n - int (pcapacity p)) = n"
      using r(7)[OF True] idle n by (subst uadds_nonneg) auto
    with True r(1) n show ?thesis by (simp add: mtdp_buffer_pool_resize_def Let_def p'_def)
  next
    case False
    with r(1,6) n show ?thesis by (simp add: mtdp_buffer_pool_resize_def Let_def p'_def)
  qed
  moreover have "pool_wf p' \<and> psize p' = n \<and> pcapacity p' = n \<and> take (psize p) (pool_slots p') = pool_slots p" if ok
  proof -
    from r(7)[OF that] obtain arr where arr: "buffers p1 = Some arr" "length arr = n" by auto
    then have "take (psize p) (pool_slots p') = pool_slots p1"
      using that r(7)[OF that] idle n by (auto simp: p'_def pool_slots_def min_def)
    with that r(7)[OF that] arr show ?thesis by (simp add: p'_def pool_wf_def)
  qed
  ultimately show ?thesis using r by (intro that[of ok m' p']) (auto simp: p'_def)
qed

text \<open>Asking for less never looks at \<open>size\<close>: it subtracts the distance to the \<open>capacity\<close>, wrapping
  below zero.\<close>

lemma pool_resize_shrink:
  assumes "n < pcapacity p"
  shows "mtdp_buffer_pool_resize m p n =
    Some (True, m, p\<lparr>psize := usub (psize p) (pcapacity p - n)\<rparr>)"
proof -
  have "uadds (psize p) (int n - int (pcapacity p)) = usub (psize p) (pcapacity p - n)"
    using assms by (auto simp: uadds_def usub_def)
  with assms show ?thesis by (simp add: mtdp_buffer_pool_resize_def Let_def)
qed

end
