(* ===== verification/Buffer_Fifo.thy ===== *)
theory Buffer_Fifo
  imports Buffer_Interfaces
begin

text \<open>
  The FIFO of full buffers of a pipe (\<open>mtdp_buffer_fifo\<close> of \<open>src/impl/buffer.h\<close>,
  \<open>mtdp_buffer_fifo_*\<close> of \<open>src/buffer.c\<close>) in the default configuration: blocks from the heap,
  the block vector from the heap (\<open>MTDP_BUFFER_FIFO_BLOCKS\<close>,
  \<open>MTDP_BUFFER_FIFO_BLOCK_VECTOR_STATIC_SIZE\<close> and
  \<open>MTDP_BUFFER_FIFO_BLOCK_STATIC_INSTANCES\<close> all 0).

  The blocks sit at the right end of the vector; a position is counted from the left of the
  \<open>blocks.size\<close> blocks; the front (oldest) buffer is the rightmost, and a push writes to the
  left of \<open>first_element_offset\<close>. Block contents live in the heap, so block pointers, their
  sharing and their release are explicit. The two compile-time settings of the algorithm,
  \<open>MTDP_BUFFER_FIFO_BLOCK_SIZE\<close> and \<open>MTDP_BUFFER_FIFO_SHIFT_FILLING_RATIO\<close> (a quotient), are
  parameters; the results hold for every block size and every ratio in (0, 1].
\<close>

section \<open>State\<close>

record fifo_config =
  BLOCK_SIZE :: nat
  RATIO_NUM :: nat
  RATIO_DEN :: nat

definition default_config :: fifo_config where
  "default_config = \<lparr>BLOCK_SIZE = 16, RATIO_NUM = 1, RATIO_DEN = 2\<rparr>"

record mtdp_buffer_fifo_blocks =
  vec :: "addr option list"   \<comment> \<open>\<open>None\<close>: indeterminate pointer\<close>
  bsize :: nat
  bcapacity :: nat

record mtdp_buffer_fifo =
  blocks :: mtdp_buffer_fifo_blocks
  fsize :: nat
  first_element_offset :: nat

text \<open>The pointer stored at an index of the block vector, and an assignment to the vector.\<close>

definition vec_get :: "addr option list \<Rightarrow> nat \<Rightarrow> addr option" where
  "vec_get v i = (if i < length v then v ! i else None)"

definition vec_set :: "addr option list \<Rightarrow> nat \<Rightarrow> addr \<Rightarrow> addr option list option" where
  "vec_set v i a = (if i < length v then Some (v[i := Some a]) else None)"

section \<open>Operations\<close>

definition mtdp_buffer_fifo_block_alloc :: "fifo_config \<Rightarrow> mem \<Rightarrow> addr option \<times> mem" where
  "mtdp_buffer_fifo_block_alloc cfg m =
    (case request m of (ok, m) \<Rightarrow>
       if ok then (Some (brk m), m\<lparr>heap := (heap m)(brk m \<mapsto> replicate (BLOCK_SIZE cfg) None),
                                   brk := Suc (brk m)\<rparr>)
       else (None, m))"

definition mtdp_buffer_fifo_block_dealloc :: "mem \<Rightarrow> addr \<Rightarrow> mem option" where
  "mtdp_buffer_fifo_block_dealloc m a =
    (case heap m a of None \<Rightarrow> None | Some _ \<Rightarrow> Some (m\<lparr>heap := (heap m)(a := None)\<rparr>))"

definition mtdp_buffer_fifo_blocks_init ::
  "fifo_config \<Rightarrow> mem \<Rightarrow> mtdp_buffer_fifo_blocks \<Rightarrow> bool \<times> mem \<times> mtdp_buffer_fifo_blocks" where
  "mtdp_buffer_fifo_blocks_init cfg m bl =
    (case malloc_array m of (vec_ok, m) \<Rightarrow>
       if \<not> vec_ok then (False, m, bl\<lparr>bsize := 0, bcapacity := 0, vec := []\<rparr>)
       else
         (case mtdp_buffer_fifo_block_alloc cfg m of
            (Some tmp, m) \<Rightarrow> (True, m, bl\<lparr>vec := [Some tmp], bsize := 1, bcapacity := 1\<rparr>)
          | (None, m) \<Rightarrow> (False, free_array m, bl)))"

definition mtdp_buffer_fifo_init ::
  "fifo_config \<Rightarrow> mem \<Rightarrow> mtdp_buffer_fifo \<Rightarrow> bool \<times> mem \<times> mtdp_buffer_fifo" where
  "mtdp_buffer_fifo_init cfg m f =
    (let f = f\<lparr>fsize := 0\<rparr> in
     case mtdp_buffer_fifo_blocks_init cfg m (blocks f) of (ok, m, bl) \<Rightarrow>
       let f = f\<lparr>blocks := bl\<rparr> in
       if \<not> ok then (False, m, f)
       else (True, m, f\<lparr>first_element_offset := BLOCK_SIZE cfg\<rparr>))"

definition mtdp_buffer_fifo_destroy :: "mem \<Rightarrow> mtdp_buffer_fifo \<Rightarrow> (mem \<times> mtdp_buffer_fifo) option" where
  "mtdp_buffer_fifo_destroy m f = do {
     let bl = blocks f;
     m \<leftarrow> for_up 0 (bsize bl)
            (\<lambda>i m. do { a \<leftarrow> vec_get (vec bl) (usub (usub (bcapacity bl) i) 1);
                        mtdp_buffer_fifo_block_dealloc m a }) m;
     Some (free_array m, f\<lparr>blocks := bl\<lparr>bsize := 0, bcapacity := 0\<rparr>\<rparr>) }"

definition mtdp_buffer_fifo_rightshift_elements ::
  "fifo_config \<Rightarrow> mem \<Rightarrow> mtdp_buffer_fifo \<Rightarrow> (mem \<times> mtdp_buffer_fifo) option" where
  "mtdp_buffer_fifo_rightshift_elements cfg m f = do {
     let B = BLOCK_SIZE cfg;
     let bl = blocks f;
     let buffer_capacity = bsize bl * B;
     let delta = usub buffer_capacity (first_element_offset f + fsize f);
     let capacity = usub (bcapacity bl) 1;
     m \<leftarrow> for_up 0 (fsize f)
            (\<lambda>i m. do {
               let rightmost_starting_block = usub capacity (i div B);
               let rightmost_starting = usub (B - 1) (i mod B);
               let front_starting_index = i + delta;
               let front_starting_block = usub capacity (front_starting_index div B);
               let front_starting = usub (B - 1) (front_starting_index mod B);
               src \<leftarrow> vec_get (vec bl) front_starting_block;
               e \<leftarrow> load_slot m src front_starting;
               dst \<leftarrow> vec_get (vec bl) rightmost_starting_block;
               store_slot m dst rightmost_starting e }) m;
     Some (m, f\<lparr>first_element_offset := first_element_offset f + delta\<rparr>) }"

definition mtdp_buffer_fifo_try_reserve_a_block ::
  "mem \<Rightarrow> mtdp_buffer_fifo \<Rightarrow> (bool \<times> mem \<times> mtdp_buffer_fifo) option" where
  "mtdp_buffer_fifo_try_reserve_a_block m f =
    (let bl = blocks f in
     if bcapacity bl = bsize bl then
       let cap = 2 ^ (1 + ceillog2 (bcapacity bl)) in
       (case request m of (ok, m) \<Rightarrow>
          if ok then do {
            let tmp = take cap (vec bl) @ replicate (cap - length (vec bl)) None;
            v \<leftarrow> for_up 1 (bsize bl)
                   (\<lambda>i v. do { a \<leftarrow> vec_get v (usub (bsize bl) i); vec_set v (usub cap i) a }) tmp;
            Some (True, m, f\<lparr>blocks := bl\<lparr>vec := v, bcapacity := cap\<rparr>\<rparr>) }
          else Some (False, m, f))
     else Some (True, m, f))"

text \<open>The first \<open>if\<close> of \<open>mtdp_buffer_fifo_shift_back_left\<close>: on a left edge with a high
  filling ratio, get one more block. Returns whether there is now space on the left, and the
  function's local copy of the vector capacity, which is refreshed only on success.\<close>

definition shift_back_left_grow ::
  "fifo_config \<Rightarrow> mem \<Rightarrow> mtdp_buffer_fifo \<Rightarrow> (bool \<times> nat \<times> mem \<times> mtdp_buffer_fifo) option" where
  "shift_back_left_grow cfg m f =
    (let capacity = bcapacity (blocks f);
         free_space_on_the_left = (first_element_offset f \<noteq> 0) in
     if \<not> free_space_on_the_left
        \<and> fsize f * RATIO_DEN cfg \<ge> bsize (blocks f) * BLOCK_SIZE cfg * RATIO_NUM cfg
     then do {
       (reserved, m, f) \<leftarrow> mtdp_buffer_fifo_try_reserve_a_block m f;
       if \<not> reserved then Some (free_space_on_the_left, capacity, m, f)
       else
         (case mtdp_buffer_fifo_block_alloc cfg m of
            (None, m) \<Rightarrow> Some (free_space_on_the_left, capacity, m, f)
          | (Some tmp_block, m) \<Rightarrow> do {
              let capacity = bcapacity (blocks f);
              let n = bsize (blocks f) + 1;
              v \<leftarrow> vec_set (vec (blocks f)) (usub capacity n) tmp_block;
              Some (True, capacity, m,
                    f\<lparr>blocks := (blocks f)\<lparr>vec := v, bsize := n\<rparr>,
                      first_element_offset := BLOCK_SIZE cfg\<rparr>) }) }
     else Some (free_space_on_the_left, capacity, m, f))"

text \<open>The second \<open>if\<close>: shift the elements right when that makes room, and the third: step the
  offset and compute the slot pointer (block address and index), or \<open>NULL\<close>.\<close>

definition mtdp_buffer_fifo_shift_back_left ::
  "fifo_config \<Rightarrow> mem \<Rightarrow> mtdp_buffer_fifo \<Rightarrow> ((addr \<times> nat) option \<times> mem \<times> mtdp_buffer_fifo) option" where
  "mtdp_buffer_fifo_shift_back_left cfg m f = do {
     (free_space_on_the_left, capacity, m, f) \<leftarrow> shift_back_left_grow cfg m f;
     (free_space_on_the_left, m, f) \<leftarrow>
       (if \<not> free_space_on_the_left \<and> fsize f \<noteq> bsize (blocks f) * BLOCK_SIZE cfg
        then do { (m, f) \<leftarrow> mtdp_buffer_fifo_rightshift_elements cfg m f;
                  Some (first_element_offset f \<noteq> 0, m, f) }
        else Some (free_space_on_the_left, m, f));
     if free_space_on_the_left then do {
       let f = f\<lparr>fsize := fsize f + 1, first_element_offset := usub (first_element_offset f) 1\<rparr>;
       tmp_block \<leftarrow> vec_get (vec (blocks f))
         (usub capacity (bsize (blocks f)) + first_element_offset f div BLOCK_SIZE cfg);
       Some (Some (tmp_block, first_element_offset f mod BLOCK_SIZE cfg), m, f) }
     else Some (None, m, f) }"

definition mtdp_buffer_fifo_push_back ::
  "fifo_config \<Rightarrow> mem \<Rightarrow> mtdp_buffer_fifo \<Rightarrow> mtdp_buffer \<Rightarrow> (bool \<times> mem \<times> mtdp_buffer_fifo) option" where
  "mtdp_buffer_fifo_push_back cfg m f e = do {
     (back, m, f) \<leftarrow> mtdp_buffer_fifo_shift_back_left cfg m f;
     (case back of
        None \<Rightarrow> Some (False, m, f)
      | Some (a, j) \<Rightarrow> do { m \<leftarrow> store_slot m a j e; Some (True, m, f) }) }"

definition mtdp_buffer_fifo_shift_front_left ::
  "fifo_config \<Rightarrow> mtdp_buffer_fifo \<Rightarrow> ((addr \<times> nat) option \<times> mtdp_buffer_fifo) option" where
  "mtdp_buffer_fifo_shift_front_left cfg f =
    (let B = BLOCK_SIZE cfg; bl = blocks f; capacity = bcapacity bl in
     if fsize f \<noteq> 0 then do {
       let front_index_in_block = usub (bsize bl * B) (fsize f + first_element_offset f);
       last_block \<leftarrow> vec_get (vec bl) (usub capacity 1);
       let tmp = (last_block, usub (usub B front_index_in_block) 1);
       let f = f\<lparr>fsize := usub (fsize f) 1\<rparr>;
       if front_index_in_block = B - 1 \<and> bsize bl \<noteq> 1 then do {
         let k = (first_element_offset f mod B + fsize f) div B;
         v \<leftarrow> for_up 1 k
                (\<lambda>i v. do { a \<leftarrow> vec_get v (usub (usub capacity i) 1); vec_set v (usub capacity i) a }) (vec bl);
         v \<leftarrow> vec_set v (usub capacity (k + 1)) last_block;
         Some (Some tmp, f\<lparr>blocks := bl\<lparr>vec := v\<rparr>,
                           first_element_offset := first_element_offset f + B\<rparr>) }
       else Some (Some tmp, f) }
     else Some (None, f))"

text \<open>\<open>ret\<close> is the out parameter: \<open>Some v\<close> an object holding \<open>v\<close>, \<open>None\<close> a null pointer.\<close>

definition mtdp_buffer_fifo_pop_front ::
  "fifo_config \<Rightarrow> mem \<Rightarrow> mtdp_buffer_fifo \<Rightarrow> mtdp_buffer option \<Rightarrow>
   (bool \<times> mtdp_buffer option \<times> mtdp_buffer_fifo) option" where
  "mtdp_buffer_fifo_pop_front cfg m f ret = do {
     (back, f) \<leftarrow> mtdp_buffer_fifo_shift_front_left cfg f;
     (case back of
        None \<Rightarrow> Some (False, ret, f)
      | Some (a, j) \<Rightarrow>
          (case ret of
             None \<Rightarrow> None
           | Some _ \<Rightarrow> do { e \<leftarrow> load_slot m a j; Some (True, Some e, f) })) }"

definition mtdp_buffer_fifo_size :: "mtdp_buffer_fifo \<Rightarrow> nat" where
  "mtdp_buffer_fifo_size f = fsize f"

end
