(* ===== verification/Fifo_Correct.thy ===== *)
theory Fifo_Correct
  imports Buffer_Fifo
begin

text \<open>
  Correctness of the buffer FIFO. The view that makes its index arithmetic simple counts
  blocks and positions from the right: \<open>rblk f b\<close> is the pointer of the \<open>b\<close>-th block from the
  right end of the vector, \<open>rslot cfg m f r\<close> the slot at distance \<open>r\<close> from the right end; the
  buffers occupy the positions from the gap (the free slots on the right) on, the front one
  first. The FIFO refines a list (\<open>fifo_elems\<close>), oldest buffer first.
\<close>

section \<open>The view from the right\<close>

definition rblk :: "mtdp_buffer_fifo \<Rightarrow> nat \<Rightarrow> addr option" where
  "rblk f b = vec_get (vec (blocks f)) (bcapacity (blocks f) - 1 - b)"

definition rslot :: "fifo_config \<Rightarrow> mem \<Rightarrow> mtdp_buffer_fifo \<Rightarrow> nat \<Rightarrow> slot" where
  "rslot cfg m f r = (case rblk f (r div BLOCK_SIZE cfg) of None \<Rightarrow> None
     | Some a \<Rightarrow> load_slot m a (BLOCK_SIZE cfg - 1 - r mod BLOCK_SIZE cfg))"

definition fifo_gap :: "fifo_config \<Rightarrow> mtdp_buffer_fifo \<Rightarrow> nat" where
  "fifo_gap cfg f = bsize (blocks f) * BLOCK_SIZE cfg - (first_element_offset f + fsize f)"

definition fifo_own :: "mtdp_buffer_fifo \<Rightarrow> addr set" where
  "fifo_own f = {a. \<exists>b < bsize (blocks f). rblk f b = Some a}"

text \<open>The block structure: a vector of \<open>bcapacity\<close> entries whose last \<open>bsize\<close> are distinct live
  blocks of the configured size.\<close>

definition fifo_blocks_wf :: "fifo_config \<Rightarrow> mem \<Rightarrow> mtdp_buffer_fifo \<Rightarrow> bool" where
  "fifo_blocks_wf cfg m f \<longleftrightarrow>
     0 < BLOCK_SIZE cfg \<and> 0 < bsize (blocks f) \<and> bsize (blocks f) \<le> bcapacity (blocks f) \<and>
     length (vec (blocks f)) = bcapacity (blocks f) \<and>
     (\<forall>b < bsize (blocks f). \<exists>a arr. rblk f b = Some a \<and> heap m a = Some arr \<and> length arr = BLOCK_SIZE cfg) \<and>
     (\<forall>b < bsize (blocks f). \<forall>c < bsize (blocks f). rblk f b = rblk f c \<longrightarrow> b = c)"

text \<open>The fields: the buffers lie within the blocks and are initialised; at most one block's
  worth of slots is free on the right, or the only block is empty and used up.\<close>

definition fifo_inv :: "fifo_config \<Rightarrow> mem \<Rightarrow> mtdp_buffer_fifo \<Rightarrow> bool" where
  "fifo_inv cfg m f \<longleftrightarrow> fifo_blocks_wf cfg m f \<and>
     first_element_offset f + fsize f \<le> bsize (blocks f) * BLOCK_SIZE cfg \<and>
     (\<forall>k < fsize f. rslot cfg m f (fifo_gap cfg f + k) \<noteq> None) \<and>
     (fifo_gap cfg f < BLOCK_SIZE cfg \<or> fsize f = 0 \<and> bsize (blocks f) = 1 \<and> first_element_offset f = 0)"

definition fifo_elems :: "fifo_config \<Rightarrow> mem \<Rightarrow> mtdp_buffer_fifo \<Rightarrow> mtdp_buffer list" where
  "fifo_elems cfg m f = map (\<lambda>k. the (rslot cfg m f (fifo_gap cfg f + k))) [0..<fsize f]"

text \<open>The view and the block structure read the \<open>blocks\<close> field only.\<close>

lemma view_upd [simp]:
  "rblk (f\<lparr>first_element_offset := x\<rparr>) = rblk f" "rblk (f\<lparr>fsize := y\<rparr>) = rblk f"
  "rslot cfg m (f\<lparr>first_element_offset := x\<rparr>) = rslot cfg m f" "rslot cfg m (f\<lparr>fsize := y\<rparr>) = rslot cfg m f"
  "fifo_blocks_wf cfg m (f\<lparr>first_element_offset := x\<rparr>) = fifo_blocks_wf cfg m f"
  "fifo_blocks_wf cfg m (f\<lparr>fsize := y\<rparr>) = fifo_blocks_wf cfg m f"
  "fifo_own (f\<lparr>first_element_offset := x\<rparr>) = fifo_own f" "fifo_own (f\<lparr>fsize := y\<rparr>) = fifo_own f"
  by (simp_all add: rblk_def [abs_def] rslot_def [abs_def] fifo_blocks_wf_def fifo_own_def)

definition config_ok :: "fifo_config \<Rightarrow> bool" where
  "config_ok cfg \<longleftrightarrow> 0 < BLOCK_SIZE cfg \<and> 0 < RATIO_NUM cfg \<and> RATIO_NUM cfg \<le> RATIO_DEN cfg"

lemma default_config_ok [simp]: "config_ok default_config"
  by (simp add: config_ok_def default_config_def)

lemma length_fifo_elems [simp]: "length (fifo_elems cfg m f) = fsize f"
  by (simp add: fifo_elems_def)

lemma fifo_elems_empty [simp]: "fifo_elems cfg m f = [] \<longleftrightarrow> fsize f = 0"
  by (simp add: fifo_elems_def)

lemma fifo_elems_eqI:
  assumes "fsize f' = fsize f"
    and "\<And>k. k < fsize f \<Longrightarrow> rslot cfg m' f' (fifo_gap cfg f' + k) = rslot cfg m f (fifo_gap cfg f + k)"
  shows "fifo_elems cfg m' f' = fifo_elems cfg m f"
  using assms by (auto simp: fifo_elems_def)

lemma fifo_blocks_wfD:
  assumes "fifo_blocks_wf cfg m f"
  shows "0 < BLOCK_SIZE cfg" "0 < bsize (blocks f)" "bsize (blocks f) \<le> bcapacity (blocks f)"
    "length (vec (blocks f)) = bcapacity (blocks f)"
    "b < bsize (blocks f) \<Longrightarrow> \<exists>a arr. rblk f b = Some a \<and> heap m a = Some arr \<and> length arr = BLOCK_SIZE cfg"
    "b < bsize (blocks f) \<Longrightarrow> c < bsize (blocks f) \<Longrightarrow> rblk f b = rblk f c \<Longrightarrow> b = c"
  using assms by (auto simp: fifo_blocks_wf_def)

lemma fifo_invD:
  assumes "fifo_inv cfg m f"
  shows "fifo_blocks_wf cfg m f"
    "first_element_offset f + fsize f \<le> bsize (blocks f) * BLOCK_SIZE cfg"
    "k < fsize f \<Longrightarrow> rslot cfg m f (fifo_gap cfg f + k) \<noteq> None"
    "fifo_gap cfg f < BLOCK_SIZE cfg \<or> fsize f = 0 \<and> bsize (blocks f) = 1 \<and> first_element_offset f = 0"
  using assms by (auto simp: fifo_inv_def)

lemma fifo_gap_add:
  "fifo_inv cfg m f \<Longrightarrow>
     fifo_gap cfg f + (first_element_offset f + fsize f) = bsize (blocks f) * BLOCK_SIZE cfg"
  by (simp add: fifo_inv_def fifo_gap_def)

lemma rblk_nth:
  "fifo_blocks_wf cfg m f \<Longrightarrow> b < bsize (blocks f) \<Longrightarrow>
     rblk f b = vec (blocks f) ! (bcapacity (blocks f) - 1 - b)"
  by (simp add: rblk_def vec_get_def fifo_blocks_wf_def)

lemma vec_get_rblk:
  "i < bcapacity (blocks f) \<Longrightarrow> vec_get (vec (blocks f)) i = rblk f (bcapacity (blocks f) - 1 - i)"
  by (simp add: rblk_def)

lemma vec_set_rblk:
  assumes "fifo_blocks_wf cfg m f" "b < bcapacity (blocks f)"
  obtains v where "vec_set (vec (blocks f)) (bcapacity (blocks f) - 1 - b) a = Some v"
    "length v = bcapacity (blocks f)"
    "\<forall>c < bcapacity (blocks f).
       vec_get v (bcapacity (blocks f) - 1 - c) = (if c = b then Some a else rblk f c)"
proof (rule that[of "(vec (blocks f))[bcapacity (blocks f) - 1 - b := Some a]"])
  have len: "length (vec (blocks f)) = bcapacity (blocks f)"
    using assms by (simp add: fifo_blocks_wf_def)
  then show "vec_set (vec (blocks f)) (bcapacity (blocks f) - 1 - b) a =
      Some ((vec (blocks f))[bcapacity (blocks f) - 1 - b := Some a])"
    using assms(2) by (simp add: vec_set_def)
  show "length ((vec (blocks f))[bcapacity (blocks f) - 1 - b := Some a]) = bcapacity (blocks f)"
    using len by simp
  show "\<forall>c < bcapacity (blocks f).
      vec_get ((vec (blocks f))[bcapacity (blocks f) - 1 - b := Some a]) (bcapacity (blocks f) - 1 - c) =
        (if c = b then Some a else rblk f c)"
    using len assms(2) by (auto simp: vec_get_def rblk_def nth_list_update)
qed

text \<open>Storing at a position from the right changes that position only.\<close>

lemma rslot_store:
  assumes wf: "fifo_blocks_wf cfg m f" and r: "r < bsize (blocks f) * BLOCK_SIZE cfg"
    and a: "rblk f (r div BLOCK_SIZE cfg) = Some a"
  obtains m' where "store_slot m a (BLOCK_SIZE cfg - 1 - r mod BLOCK_SIZE cfg) e = Some m'"
    "fifo_blocks_wf cfg m' f"
    "\<forall>s < bsize (blocks f) * BLOCK_SIZE cfg.
       rslot cfg m' f s = (if s = r then Some e else rslot cfg m f s)"
    "\<forall>c. c \<noteq> a \<longrightarrow> heap m' c = heap m c" "brk m' = brk m" "avail m' = avail m"
    "dom (heap m') = dom (heap m)"
    "requests m' = requests m"
proof -
  let ?B = "BLOCK_SIZE cfg"
  have B: "0 < ?B" using fifo_blocks_wfD(1)[OF wf] .
  have rb: "r div ?B < bsize (blocks f)" using div_less_of_mult[OF r] .
  then obtain arr where arr: "heap m a = Some arr" "length arr = ?B"
    using fifo_blocks_wfD(5)[OF wf rb] a by auto
  define j where "j = ?B - 1 - r mod ?B"
  have j: "j < length arr" using B arr by (simp add: j_def)
  define m' where "m' = m\<lparr>heap := (heap m)(a \<mapsto> arr[j := Some e])\<rparr>"
  have st: "store_slot m a j e = Some m'" using arr j by (simp add: store_slot_def m'_def)
  have ld: "load_slot m' c k = (if c = a \<and> k = j then Some e else load_slot m c k)" for c k
    using load_store_slot[OF st] by blast
  show ?thesis
  proof (rule that[of m'])
    show "store_slot m a (?B - 1 - r mod ?B) e = Some m'" using st by (simp add: j_def)
    show "fifo_blocks_wf cfg m' f"
      using wf arr by (fastforce simp: fifo_blocks_wf_def m'_def)
    have "rslot cfg m' f s = (if s = r then Some e else rslot cfg m f s)" if s: "s < bsize (blocks f) * ?B" for s
    proof (cases "s = r")
      case True
      then show ?thesis using a ld by (simp add: rslot_def j_def)
    next
      case False
      have sb: "s div ?B < bsize (blocks f)" using div_less_of_mult[OF s] .
      then obtain c where c: "rblk f (s div ?B) = Some c" using fifo_blocks_wfD(5)[OF wf] by blast
      have "\<not> (c = a \<and> ?B - 1 - s mod ?B = j)"
      proof
        assume h: "c = a \<and> ?B - 1 - s mod ?B = j"
        then have d: "s div ?B = r div ?B" using fifo_blocks_wfD(6)[OF wf sb rb] c a by simp
        have "s mod ?B < ?B" "r mod ?B < ?B" using B by simp_all
        with h have "s mod ?B = r mod ?B" unfolding j_def by arith
        with d have "s = r" by (metis div_mult_mod_eq)
        with False show False ..
      qed
      with False c ld show ?thesis by (auto simp: rslot_def)
    qed
    then show "\<forall>s < bsize (blocks f) * ?B. rslot cfg m' f s = (if s = r then Some e else rslot cfg m f s)"
      by blast
  qed (auto simp: m'_def arr)
qed

section \<open>Initialisation\<close>

lemma block_alloc_simps [mem_simps]:
  "avail m (requests m) \<Longrightarrow> mtdp_buffer_fifo_block_alloc cfg m =
     (Some (brk m), m\<lparr>requests := Suc (requests m),
        heap := (heap m)(brk m \<mapsto> replicate (BLOCK_SIZE cfg) None), brk := Suc (brk m)\<rparr>)"
  "\<not> avail m (requests m) \<Longrightarrow> mtdp_buffer_fifo_block_alloc cfg m = (None, m\<lparr>requests := Suc (requests m)\<rparr>)"
  by (simp_all add: mtdp_buffer_fifo_block_alloc_def request_def)

lemma fifo_init_inv:
  assumes "config_ok cfg" "mem_wf m" "mtdp_buffer_fifo_init cfg m f0 = (True, m', f)"
  shows "fifo_inv cfg m' f" "fifo_elems cfg m' f = []" "fifo_own f = {brk m}" "mem_wf m'"
    "mem_frame {} m m'" "live m' = live m + 1" "bcapacity (blocks f) = 1" "bsize (blocks f) = 1"
proof -
  from assms(3) have f: "f = f0\<lparr>fsize := 0,
      blocks := (blocks f0)\<lparr>vec := [Some (brk m)], bsize := 1, bcapacity := 1\<rparr>,
      first_element_offset := BLOCK_SIZE cfg\<rparr>"
    and m': "m' = m\<lparr>requests := Suc (Suc (requests m)), live := live m + 1,
      heap := (heap m)(brk m \<mapsto> replicate (BLOCK_SIZE cfg) None), brk := Suc (brk m)\<rparr>"
    by (auto simp: mtdp_buffer_fifo_init_def mtdp_buffer_fifo_blocks_init_def malloc_array_def
        request_def mtdp_buffer_fifo_block_alloc_def Let_def split: if_splits prod.splits)
  have B: "0 < BLOCK_SIZE cfg" using assms(1) by (simp add: config_ok_def)
  show "fifo_inv cfg m' f" using B
    by (simp add: fifo_inv_def fifo_blocks_wf_def f m' rblk_def vec_get_def fifo_gap_def)
  show "fifo_elems cfg m' f = []" by (simp add: f)
  show "fifo_own f = {brk m}" by (auto simp: fifo_own_def f rblk_def vec_get_def)
  show "mem_wf m'" using assms(2) by (auto simp: mem_wf_def m')
  show "mem_frame {} m m'" by (simp add: mem_frame_def m')
  show "live m' = live m + 1" "bcapacity (blocks f) = 1" "bsize (blocks f) = 1" by (simp_all add: m' f)
qed

text \<open>A failed initialisation leaves no allocation behind.\<close>

lemma fifo_init_no_leak:
  assumes "mtdp_buffer_fifo_init cfg m f0 = (False, m', f)"
  shows "heap m' = heap m" "live m' = live m" "brk m' = brk m" "avail m' = avail m"
  using assms
  by (auto simp: mtdp_buffer_fifo_init_def mtdp_buffer_fifo_blocks_init_def malloc_array_def free_array_def
      request_def mtdp_buffer_fifo_block_alloc_def Let_def split: if_splits prod.splits)

section \<open>Shifting the elements right\<close>

text \<open>The loop moves the slot at distance \<open>i + delta\<close> to distance \<open>i\<close>, upwards: a source is
  read before it can be overwritten.\<close>

lemma fifo_rightshift:
  assumes inv: "fifo_inv cfg m f"
  obtains m' f' where "mtdp_buffer_fifo_rightshift_elements cfg m f = Some (m', f')"
    "fifo_inv cfg m' f'" "fifo_elems cfg m' f' = fifo_elems cfg m f"
    "fifo_gap cfg f' = 0" "fsize f' = fsize f" "blocks f' = blocks f"
    "mem_frame (fifo_own f) m m'" "brk m' = brk m" "dom (heap m') = dom (heap m)" "live m' = live m"
    "requests m' = requests m"
proof -
  let ?B = "BLOCK_SIZE cfg" and ?bs = "bsize (blocks f)" and ?cap = "bcapacity (blocks f)"
  let ?g = "fifo_gap cfg f"
  note wf = fifo_invD(1)[OF inv] and sum = fifo_gap_add[OF inv]
  note B = fifo_blocks_wfD(1)[OF wf] and bs = fifo_blocks_wfD(2,3)[OF wf]
  let ?body = "\<lambda>i m. do {
     src \<leftarrow> vec_get (vec (blocks f)) (usub (usub ?cap 1) ((i + ?g) div ?B));
     e \<leftarrow> load_slot m src (usub (?B - 1) ((i + ?g) mod ?B));
     dst \<leftarrow> vec_get (vec (blocks f)) (usub (usub ?cap 1) (i div ?B));
     store_slot m dst (usub (?B - 1) (i mod ?B)) e }"
  define P where "P k s \<longleftrightarrow> fifo_blocks_wf cfg s f \<and> mem_frame (fifo_own f) m s \<and> brk s = brk m \<and>
     dom (heap s) = dom (heap m) \<and> live s = live m \<and> requests s = requests m \<and>
     (\<forall>r < ?bs * ?B. rslot cfg s f r = (if r < k then rslot cfg m f (r + ?g) else rslot cfg m f r))"
    for k s
  have acc: "usub (usub ?cap 1) (r div ?B) = ?cap - 1 - r div ?B" "usub (?B - 1) (r mod ?B) = ?B - 1 - r mod ?B"
    "vec_get (vec (blocks f)) (?cap - 1 - r div ?B) = rblk f (r div ?B)" if "r < ?bs * ?B" for r
  proof -
    have "r div ?B < ?bs" using div_less_of_mult[OF that] .
    then show "usub (usub ?cap 1) (r div ?B) = ?cap - 1 - r div ?B" using bs by simp
    have "r mod ?B < ?B" using B by simp
    then show "usub (?B - 1) (r mod ?B) = ?B - 1 - r mod ?B" by simp
    show "vec_get (vec (blocks f)) (?cap - 1 - r div ?B) = rblk f (r div ?B)" by (simp add: rblk_def)
  qed
  have step: "\<exists>s'. ?body (0 + i) s = Some s' \<and> P (Suc i) s'" if i: "i < fsize f" and P: "P i s" for i s
  proof -
    have ri: "i < ?bs * ?B" and rs: "i + ?g < ?bs * ?B" using i sum by linarith+
    from P have wfs: "fifo_blocks_wf cfg s f" and slots: "\<And>r. r < ?bs * ?B \<Longrightarrow>
       rslot cfg s f r = (if r < i then rslot cfg m f (r + ?g) else rslot cfg m f r)"
      by (auto simp: P_def)
    obtain e where e: "rslot cfg m f (i + ?g) = Some e"
      using fifo_invD(3)[OF inv i] by (auto simp: add.commute)
    with slots[OF rs] have es: "rslot cfg s f (i + ?g) = Some e" by simp
    then obtain src where src: "rblk f ((i + ?g) div ?B) = Some src"
      "load_slot s src (?B - 1 - (i + ?g) mod ?B) = Some e"
      by (auto simp: rslot_def split: option.splits)
    obtain dst where dst: "rblk f (i div ?B) = Some dst"
      using fifo_blocks_wfD(5)[OF wfs div_less_of_mult[OF ri]] by blast
    obtain s' where s': "store_slot s dst (?B - 1 - i mod ?B) e = Some s'" "fifo_blocks_wf cfg s' f"
      "\<forall>r < ?bs * ?B. rslot cfg s' f r = (if r = i then Some e else rslot cfg s f r)"
      "\<forall>c. c \<noteq> dst \<longrightarrow> heap s' c = heap s c" "brk s' = brk s" "avail s' = avail s"
      "dom (heap s') = dom (heap s)" "requests s' = requests s"
      by (rule rslot_store[OF wfs ri dst, where e = e])
    have "?body i s = Some s'"
      using src dst s'(1) acc[OF ri] acc[OF rs] by simp
    moreover have "live s' = live s" using s'(1) by (auto simp: store_slot_Some_iff)
    moreover have "mem_frame (fifo_own f) m s'"
    proof -
      have "dst \<in> fifo_own f" using dst div_less_of_mult[OF ri] by (auto simp: fifo_own_def)
      then have "heap s' c = heap s c" if "c \<notin> fifo_own f" for c using s'(4) that by metis
      with P s'(5,6) show ?thesis by (simp add: P_def mem_frame_def)
    qed
    moreover have "rslot cfg s' f r = (if r < Suc i then rslot cfg m f (r + ?g) else rslot cfg m f r)"
      if "r < ?bs * ?B" for r
      using s'(3) slots[OF that] e that by (cases "r = i") auto
    ultimately have "?body i s = Some s' \<and> P (Suc i) s'"
      using P s'(2,5,7,8) by (simp add: P_def)
    then show ?thesis by (auto simp only: add_0)
  qed
  have "P 0 m" using wf by (simp add: P_def)
  from for_up_rule[of P m "fsize f" ?body 0, OF this step]
  obtain m' where m': "for_up 0 (fsize f) ?body m = Some m'" "P (fsize f) m'" by blast
  define f' where "f' = f\<lparr>first_element_offset := first_element_offset f + ?g\<rparr>"
  have g': "fifo_gap cfg f' = 0" using sum by (simp add: fifo_gap_def f'_def)
  have shift: "rslot cfg m' f' (fifo_gap cfg f' + k) = rslot cfg m f (?g + k)" if "k < fsize f" for k
  proof -
    have "k < ?bs * ?B" using that sum by linarith
    with m'(2) that show ?thesis unfolding g' by (simp add: P_def f'_def add.commute)
  qed
  show ?thesis
  proof (rule that[of m' f'])
    show "mtdp_buffer_fifo_rightshift_elements cfg m f = Some (m', f')"
      using m'(1) sum
      by (simp add: mtdp_buffer_fifo_rightshift_elements_def f'_def fifo_gap_def Let_def)
    have "fifo_blocks_wf cfg m' f'" using m'(2) by (simp add: P_def f'_def)
    then show "fifo_inv cfg m' f'"
      using shift fifo_invD(3)[OF inv] B sum g' by (simp add: fifo_inv_def f'_def)
    show "fifo_elems cfg m' f' = fifo_elems cfg m f"
    proof (rule fifo_elems_eqI)
      show "fsize f' = fsize f" by (simp add: f'_def)
    qed (rule shift)
  qed (use m'(2) g' in \<open>auto simp: P_def f'_def\<close>)
qed

section \<open>Making room\<close>

text \<open>The buffers do not depend on where the vector is, only on the blocks seen from the right.\<close>

lemma rslot_cong:
  assumes "\<forall>b < n. rblk f' b = rblk f b" "\<forall>b < n. \<forall>a. rblk f b = Some a \<longrightarrow> heap m' a = heap m a"
    and "r < n * BLOCK_SIZE cfg"
  shows "rslot cfg m' f' r = rslot cfg m f r"
proof -
  have b: "r div BLOCK_SIZE cfg < n" using assms(3) by (rule div_less_of_mult)
  show ?thesis
  proof (cases "rblk f (r div BLOCK_SIZE cfg)")
    case None
    with assms(1) b show ?thesis by (simp add: rslot_def)
  next
    case (Some a)
    with assms(2) b have "heap m' a = heap m a" by blast
    then have "load_slot m' a j = load_slot m a j" for j by (rule load_slot_heap_cong)
    with Some assms(1) b show ?thesis by (simp add: rslot_def)
  qed
qed

lemma fifo_relayout:
  assumes inv: "fifo_inv cfg m f"
    and same: "bsize (blocks f') = bsize (blocks f)" "fsize f' = fsize f"
      "first_element_offset f' = first_element_offset f"
    and vec: "bsize (blocks f') \<le> bcapacity (blocks f')" "length (vec (blocks f')) = bcapacity (blocks f')"
    and rb: "\<forall>b < bsize (blocks f). rblk f' b = rblk f b"
    and hp: "\<forall>b < bsize (blocks f). \<forall>a. rblk f b = Some a \<longrightarrow> heap m' a = heap m a"
  shows "fifo_inv cfg m' f'" "fifo_elems cfg m' f' = fifo_elems cfg m f" "fifo_own f' = fifo_own f"
proof -
  note wf = fifo_invD(1)[OF inv] and sum = fifo_gap_add[OF inv]
  have g: "fifo_gap cfg f' = fifo_gap cfg f" using same by (simp add: fifo_gap_def)
  have sl: "rslot cfg m' f' (fifo_gap cfg f' + k) = rslot cfg m f (fifo_gap cfg f + k)" if "k < fsize f" for k
    unfolding g by (rule rslot_cong[OF rb hp]) (use that sum in linarith)
  have "fifo_blocks_wf cfg m' f'"
    unfolding fifo_blocks_wf_def
  proof (intro conjI allI impI)
    fix b assume b: "b < bsize (blocks f')"
    with fifo_blocks_wfD(5)[OF wf] same(1) obtain a arr where
      "rblk f b = Some a" "heap m a = Some arr" "length arr = BLOCK_SIZE cfg" by metis
    with b same(1) rb hp show "\<exists>a arr. rblk f' b = Some a \<and> heap m' a = Some arr \<and> length arr = BLOCK_SIZE cfg"
      by simp
  next
    fix b c assume "b < bsize (blocks f')" "c < bsize (blocks f')" "rblk f' b = rblk f' c"
    with same(1) rb fifo_blocks_wfD(6)[OF wf] show "b = c" by simp
  qed (use same(1) vec fifo_blocks_wfD(1-4)[OF wf] in auto)
  then show "fifo_inv cfg m' f'"
    using sl fifo_invD(2-4)[OF inv] same g by (auto simp: fifo_inv_def)
  show "fifo_elems cfg m' f' = fifo_elems cfg m f" by (rule fifo_elems_eqI[OF same(2) sl])
  show "fifo_own f' = fifo_own f" using same(1) rb by (auto simp: fifo_own_def)
qed

text \<open>The vector is doubled when it has no free entry: the block pointers are moved to its right
  end, and the old copies stay readable at their old places, which
  \<open>mtdp_buffer_fifo_shift_back_left\<close> relies on when the block allocation that follows fails
  and its local \<open>capacity\<close> is stale.\<close>

lemma reserve_loop:
  assumes len: "length v = n" and n: "0 < n" "2 * n \<le> cap" and ini: "None \<notin> set v"
  obtains w where "for_up 1 n (\<lambda>i w. do { a \<leftarrow> vec_get w (usub n i); vec_set w (usub cap i) a })
      (v @ replicate (cap - n) None) = Some w" "length w = cap"
    "\<forall>j < n. w ! j = v ! j" "\<forall>j < n. w ! (cap - n + j) = v ! j"
proof -
  let ?body = "\<lambda>i w. do { a \<leftarrow> vec_get w (usub n i); vec_set w (usub cap i) a }"
  let ?v = "v @ replicate (cap - n) None"
  define P where "P k w \<longleftrightarrow> length w = cap \<and> (\<forall>j < n. w ! j = v ! j) \<and>
    (\<forall>j < n. n - k \<le> j \<longrightarrow> w ! (cap - n + j) = v ! j)" for k :: nat and w :: "addr option list"
  have step: "\<exists>w'. ?body (1 + k) w = Some w' \<and> P (Suc k) w'" if k: "k < n" and P: "P k w" for k w
  proof -
    have "n - 1 - k < length v" using len n by simp
    then have "v ! (n - 1 - k) \<noteq> None" using ini nth_mem by metis
    then obtain a where a: "v ! (n - 1 - k) = Some a" by auto
    have idx: "usub n (1 + k) = n - 1 - k" "usub cap (1 + k) = cap - 1 - k" using k n by auto
    have get: "vec_get w (n - 1 - k) = Some a" using P a k n by (simp add: P_def vec_get_def)
    let ?w = "w[cap - 1 - k := Some a]"
    have "vec_set w (cap - 1 - k) a = Some ?w" using P k n by (simp add: P_def vec_set_def)
    with get idx have "?body (1 + k) w = Some ?w" by simp
    moreover have "P (Suc k) ?w"
      unfolding P_def
    proof (intro conjI allI impI)
      show "length ?w = cap" using P by (simp add: P_def)
      fix j assume j: "j < n"
      then have "j \<noteq> cap - 1 - k" using k n by linarith
      then show "?w ! j = v ! j" using P j by (simp add: P_def)
      assume jk: "n - Suc k \<le> j"
      show "?w ! (cap - n + j) = v ! j"
      proof (cases "j = n - 1 - k")
        case True
        then have "cap - n + j = cap - 1 - k" using k n by simp
        with True a P k n show ?thesis by (simp add: P_def)
      next
        case False
        with jk k have "n - k \<le> j" by linarith
        moreover have "cap - n + j \<noteq> cap - 1 - k" using False k n j by linarith
        ultimately show ?thesis using P j by (simp add: P_def)
      qed
    qed
    ultimately show ?thesis by blast
  qed
  have "P 0 ?v" using len n by (auto simp: P_def nth_append)
  from for_up_rule[of P ?v n ?body 1, OF this step]
  obtain w where "for_up 1 n ?body ?v = Some w" "P n w" by blast
  then show ?thesis by (intro that[of w]) (auto simp: P_def)
qed

lemma fifo_reserve:
  assumes inv: "fifo_inv cfg m f"
  obtains ok m' f' where "mtdp_buffer_fifo_try_reserve_a_block m f = Some (ok, m', f')"
    "fifo_inv cfg m' f'" "fifo_elems cfg m' f' = fifo_elems cfg m f" "fifo_own f' = fifo_own f"
    "heap m' = heap m" "brk m' = brk m" "avail m' = avail m" "live m' = live m"
    "fsize f' = fsize f" "first_element_offset f' = first_element_offset f"
    "bsize (blocks f') = bsize (blocks f)"
    "ok \<longrightarrow> bsize (blocks f') < bcapacity (blocks f')" "\<not> ok \<longrightarrow> f' = f"
    "\<forall>i < bsize (blocks f). vec_get (vec (blocks f')) (bcapacity (blocks f) - bsize (blocks f) + i) =
       rblk f' (bsize (blocks f) - 1 - i)"
    "\<not> ok \<longrightarrow> \<not> avail m (requests m)"
proof -
  let ?n = "bsize (blocks f)" and ?cap = "bcapacity (blocks f)" and ?v = "vec (blocks f)"
  note wf = fifo_invD(1)[OF inv]
  note n = fifo_blocks_wfD(2-4)[OF wf]
  have here: "vec_get ?v (?cap - ?n + i) = rblk f (?n - 1 - i)" if "i < ?n" for i
    using that n by (simp add: rblk_def)
  show ?thesis
  proof (cases "?cap = ?n")
    case False
    with n have "mtdp_buffer_fifo_try_reserve_a_block m f = Some (True, m, f)"
      by (simp add: mtdp_buffer_fifo_try_reserve_a_block_def Let_def)
    then show ?thesis using inv here False n by (intro that[of True m f]) auto
  next
    case full: True
    show ?thesis
    proof (cases "avail m (requests m)")
      case False
      define m1 where "m1 = m\<lparr>requests := Suc (requests m)\<rparr>"
      have r: "mtdp_buffer_fifo_try_reserve_a_block m f = Some (False, m1, f)"
        using full False
        by (simp add: mtdp_buffer_fifo_try_reserve_a_block_def Let_def request_def m1_def)
      have "heap m1 = heap m" by (simp add: m1_def)
      with fifo_relayout[OF inv refl refl refl n(2,3), of m1]
      have "fifo_inv cfg m1 f" "fifo_elems cfg m1 f = fifo_elems cfg m f" by simp_all
      with r here False show ?thesis by (intro that[of False m1 f]) (simp_all add: m1_def)
    next
      case True
      define cap where "cap = (2::nat) ^ (1 + ceillog2 ?n)"
      have cap: "2 * ?n \<le> cap" using le_two_power_ceillog2[of ?n] by (simp add: cap_def)
      have len: "length ?v = ?n" using n full by simp
      have "None \<notin> set ?v"
      proof
        assume "None \<in> set ?v"
        then obtain i where i: "i < ?n" "?v ! i = None" by (auto simp: in_set_conv_nth len)
        then have "rblk f (?n - 1 - i) = None" using full len by (simp add: rblk_def vec_get_def)
        with fifo_blocks_wfD(5)[OF wf, of "?n - 1 - i"] i show False by simp
      qed
      from reserve_loop[OF len n(1) cap this] obtain w where
        w: "for_up 1 ?n (\<lambda>i w. do { a \<leftarrow> vec_get w (usub ?n i); vec_set w (usub cap i) a })
              (?v @ replicate (cap - ?n) None) = Some w" "length w = cap"
        "\<forall>j < ?n. w ! j = ?v ! j" "\<forall>j < ?n. w ! (cap - ?n + j) = ?v ! j" .
      define m1 where "m1 = m\<lparr>requests := Suc (requests m)\<rparr>"
      define f1 where "f1 = f\<lparr>blocks := (blocks f)\<lparr>vec := w, bcapacity := cap\<rparr>\<rparr>"
      have "take cap ?v = ?v" using len cap by simp
      with w(1) full True len have r: "mtdp_buffer_fifo_try_reserve_a_block m f = Some (True, m1, f1)"
        by (simp add: mtdp_buffer_fifo_try_reserve_a_block_def Let_def request_def m1_def f1_def cap_def)
      have rb: "rblk f1 b = rblk f b" if "b < ?n" for b
      proof -
        have "cap - 1 - b = cap - ?n + (?n - 1 - b)" using that cap by simp
        moreover have "w ! (cap - ?n + (?n - 1 - b)) = ?v ! (?n - 1 - b)"
          using that by (intro w(4)[rule_format]) simp
        ultimately have "w ! (cap - 1 - b) = ?v ! (?n - 1 - b)" by metis
        moreover have "cap - 1 - b < cap" using that cap by simp
        ultimately show ?thesis using w(2) that full len by (simp add: rblk_def f1_def vec_get_def)
      qed
      have stale: "vec_get w (?cap - ?n + i) = rblk f1 (?n - 1 - i)" if "i < ?n" for i
        using here[OF that] rb[of "?n - 1 - i"] that w(2,3) full cap len by (simp add: vec_get_def)
      have "bsize (blocks f1) \<le> bcapacity (blocks f1)" "length (vec (blocks f1)) = bcapacity (blocks f1)"
        "heap m1 = heap m" using cap w(2) by (simp_all add: f1_def m1_def)
      with fifo_relayout[OF inv _ _ _ this(1,2), of m1] rb
      have "fifo_inv cfg m1 f1" "fifo_elems cfg m1 f1 = fifo_elems cfg m f" "fifo_own f1 = fifo_own f"
        by (simp_all add: f1_def)
      with r stale cap n(1) show ?thesis
        by (intro that[of True m1 f1]) (simp_all add: m1_def f1_def)
    qed
  qed
qed

text \<open>Claiming a fresh block on the left of the others.\<close>

lemma fifo_add_block:
  assumes inv: "fifo_inv cfg m f" and mem: "mem_wf m" and full: "first_element_offset f = 0" "0 < fsize f"
    and room: "bsize (blocks f) < bcapacity (blocks f)" and ok: "avail m (requests m)"
  obtains v m' f' where "mtdp_buffer_fifo_block_alloc cfg m = (Some (brk m), m')"
    "vec_set (vec (blocks f)) (usub (bcapacity (blocks f)) (bsize (blocks f) + 1)) (brk m) = Some v"
    "f' = f\<lparr>blocks := (blocks f)\<lparr>vec := v, bsize := bsize (blocks f) + 1\<rparr>,
            first_element_offset := BLOCK_SIZE cfg\<rparr>"
    "fifo_inv cfg m' f'" "fifo_elems cfg m' f' = fifo_elems cfg m f"
    "fifo_own f' = insert (brk m) (fifo_own f)" "mem_wf m'" "mem_frame {} m m'" "live m' = live m"
    "requests m' = Suc (requests m)" "dom (heap m') = insert (brk m) (dom (heap m))"
proof -
  let ?n = "bsize (blocks f)" and ?cap = "bcapacity (blocks f)" and ?B = "BLOCK_SIZE cfg"
  note wf = fifo_invD(1)[OF inv] and sum = fifo_gap_add[OF inv]
  note B = fifo_blocks_wfD(1)[OF wf]
  define m' where "m' = m\<lparr>requests := Suc (requests m),
    heap := (heap m)(brk m \<mapsto> replicate ?B None), brk := Suc (brk m)\<rparr>"
  obtain v where v: "vec_set (vec (blocks f)) (?cap - 1 - ?n) (brk m) = Some v" "length v = ?cap"
    "\<forall>c < ?cap. vec_get v (?cap - 1 - c) = (if c = ?n then Some (brk m) else rblk f c)"
    using vec_set_rblk[OF wf room] by blast
  define f' where "f' = f\<lparr>blocks := (blocks f)\<lparr>vec := v, bsize := ?n + 1\<rparr>, first_element_offset := ?B\<rparr>"
  have rb: "rblk f' b = (if b = ?n then Some (brk m) else rblk f b)" if "b \<le> ?n" for b
    using v(3) that room by (simp add: rblk_def f'_def)
  have old: "a \<noteq> brk m \<and> heap m' a = heap m a" if "rblk f b = Some a" "b < ?n" for a b
  proof -
    have "heap m a \<noteq> None" using fifo_blocks_wfD(5)[OF wf that(2)] that(1) by auto
    then have "a \<noteq> brk m" using mem by (auto simp: mem_wf_def)
    then show ?thesis by (simp add: m'_def)
  qed
  have g: "fifo_gap cfg f' = fifo_gap cfg f" using full by (simp add: fifo_gap_def f'_def)
  have sl: "rslot cfg m' f' (fifo_gap cfg f' + k) = rslot cfg m f (fifo_gap cfg f + k)" if "k < fsize f" for k
    unfolding g by (rule rslot_cong[where n = ?n]) (use rb old that sum in auto)
  have wf': "fifo_blocks_wf cfg m' f'"
    unfolding fifo_blocks_wf_def
  proof (intro conjI allI impI)
    fix b assume b: "b < bsize (blocks f')"
    show "\<exists>a arr. rblk f' b = Some a \<and> heap m' a = Some arr \<and> length arr = ?B"
    proof (cases "b = ?n")
      case True
      then show ?thesis using rb[of b] by (simp add: m'_def)
    next
      case False
      with b have "b < ?n" by (simp add: f'_def)
      with fifo_blocks_wfD(5)[OF wf this] rb[of b] old show ?thesis by auto
    qed
  next
    fix b c assume "b < bsize (blocks f')" "c < bsize (blocks f')" "rblk f' b = rblk f' c"
    then have bc: "b \<le> ?n" "c \<le> ?n" and eq: "rblk f' b = rblk f' c" by (simp_all add: f'_def)
    have fresh: "rblk f d \<noteq> Some (brk m)" if "d < ?n" for d using old that by blast
    from bc eq rb[OF bc(1)] rb[OF bc(2)] fresh[of b] fresh[of c] fifo_blocks_wfD(6)[OF wf, of b c]
    show "b = c" by (cases "b = ?n"; cases "c = ?n") simp_all
  qed (use room B v(2) in \<open>simp_all add: f'_def\<close>)
  show ?thesis
  proof (rule that[of m' v f'])
    show "mtdp_buffer_fifo_block_alloc cfg m = (Some (brk m), m')"
      using ok by (simp add: mem_simps m'_def)
    show "vec_set (vec (blocks f)) (usub ?cap (?n + 1)) (brk m) = Some v" using v(1) room by simp
    show "fifo_inv cfg m' f'"
      using wf' sl fifo_invD(2-4)[OF inv] g full by (auto simp: fifo_inv_def f'_def)
    show "fifo_elems cfg m' f' = fifo_elems cfg m f"
    proof (rule fifo_elems_eqI)
      show "fsize f' = fsize f" by (simp add: f'_def)
    qed (rule sl)
    show "fifo_own f' = insert (brk m) (fifo_own f)"
    proof -
      have "rblk f' ?n = Some (brk m)" "\<forall>b < ?n. rblk f' b = rblk f b" using rb by simp_all
      then show ?thesis by (auto simp: fifo_own_def f'_def less_Suc_eq)
    qed
    show "mem_wf m'" using mem by (simp add: mem_wf_def m'_def)
    show "mem_frame {} m m'" by (simp add: mem_frame_def m'_def)
  qed (simp_all add: f'_def m'_def)
qed

text \<open>The grow step keeps the contents. Afterwards the local \<open>capacity\<close>, fresh or stale, still
  addresses the right blocks; there is space on the left exactly when the offset is positive.\<close>

lemma fifo_grow:
  assumes inv: "fifo_inv cfg m f" and mem: "mem_wf m" and cfg: "config_ok cfg"
  obtains fl c m' f' where "shift_back_left_grow cfg m f = Some (fl, c, m', f')"
    "fifo_inv cfg m' f'" "fifo_elems cfg m' f' = fifo_elems cfg m f" "mem_wf m'" "mem_frame {} m m'"
    "fifo_own f' \<subseteq> fifo_own f \<union> {brk m..<brk m'}" "live m' = live m"
    "fl \<longleftrightarrow> first_element_offset f' \<noteq> 0" "bsize (blocks f') \<le> c"
    "\<forall>i < bsize (blocks f'). vec_get (vec (blocks f')) (c - bsize (blocks f') + i) =
       rblk f' (bsize (blocks f') - 1 - i)"
    "first_element_offset f \<noteq> 0 \<longrightarrow> fl" "fifo_own f \<subseteq> fifo_own f'"
    "fsize f = bsize (blocks f) * BLOCK_SIZE cfg \<longrightarrow> avail m (requests m) \<longrightarrow>
       avail m (requests m + 1) \<longrightarrow> fl"
    "\<not> fl \<longrightarrow> bsize (blocks f') = bsize (blocks f)" "dom (heap m') \<subseteq> dom (heap m) \<union> fifo_own f'"
proof -
  note wf = fifo_invD(1)[OF inv] and gap = fifo_invD(4)[OF inv]
  note B = fifo_blocks_wfD(1)[OF wf] and n = fifo_blocks_wfD(2,3,4)[OF wf]
  let ?o = "first_element_offset f" and ?n = "bsize (blocks f)" and ?cap = "bcapacity (blocks f)"
  let ?high = "?n * BLOCK_SIZE cfg * RATIO_NUM cfg \<le> fsize f * RATIO_DEN cfg"
  have here: "\<forall>i < ?n. vec_get (vec (blocks f)) (?cap - ?n + i) = rblk f (?n - 1 - i)"
    using n by (simp add: rblk_def)
  have high: "fsize f = ?n * BLOCK_SIZE cfg \<Longrightarrow> ?high"
    using cfg by (simp add: config_ok_def)
  show ?thesis
  proof (cases "?o = 0 \<and> ?high")
    case False
    then have "shift_back_left_grow cfg m f = Some (?o \<noteq> 0, ?cap, m, f)"
      by (auto simp: shift_back_left_grow_def Let_def)
    then show ?thesis
      by (intro that[of "?o \<noteq> 0" ?cap m f]) (use inv mem n here False high in auto)
  next
    case True
    have pos: "0 < fsize f"
    proof -
      have "0 < ?n * BLOCK_SIZE cfg * RATIO_NUM cfg" using n B cfg by (simp add: config_ok_def)
      with True have "0 < fsize f * RATIO_DEN cfg" by linarith
      then show ?thesis by simp
    qed
    obtain ok m1 f1 where r: "mtdp_buffer_fifo_try_reserve_a_block m f = Some (ok, m1, f1)"
      "fifo_inv cfg m1 f1" "fifo_elems cfg m1 f1 = fifo_elems cfg m f" "fifo_own f1 = fifo_own f"
      "heap m1 = heap m" "brk m1 = brk m" "avail m1 = avail m" "live m1 = live m"
      "fsize f1 = fsize f" "first_element_offset f1 = ?o" "bsize (blocks f1) = ?n"
      "ok \<longrightarrow> bsize (blocks f1) < bcapacity (blocks f1)" "\<not> ok \<longrightarrow> f1 = f"
      "\<forall>i < ?n. vec_get (vec (blocks f1)) (?cap - ?n + i) = rblk f1 (?n - 1 - i)"
      "\<not> ok \<longrightarrow> \<not> avail m (requests m)"
      using fifo_reserve[OF inv] by blast
    have mem1: "mem_wf m1" using mem r(5,6) by (simp add: mem_wf_def)
    have fr1: "mem_frame {} m m1" using r(5-7) by (simp add: mem_frame_def)
    have req: "requests m1 = requests m \<or> requests m1 = requests m + 1"
      using r(1) by (auto simp: mtdp_buffer_fifo_try_reserve_a_block_def request_def Let_def
          bind_eq_Some_conv split: if_splits)
    show ?thesis
    proof (cases "ok \<and> avail m1 (requests m1)")
      case False
      define m2 where "m2 = (if ok then m1\<lparr>requests := Suc (requests m1)\<rparr> else m1)"
      have "shift_back_left_grow cfg m f = Some (False, ?cap, m2, f1)"
        using True r(1) False by (auto simp: shift_back_left_grow_def Let_def m2_def mem_simps)
      moreover have hp: "heap m2 = heap m1" "brk m2 = brk m1" "avail m2 = avail m1" "live m2 = live m1"
        by (simp_all add: m2_def)
      moreover have "fifo_inv cfg m2 f1" "fifo_elems cfg m2 f1 = fifo_elems cfg m1 f1"
        by (rule fifo_relayout[OF r(2)];
            use fifo_blocks_wfD(3,4)[OF fifo_invD(1)[OF r(2)]] hp(1) in simp)+
      moreover have "mem_wf m2" using mem1 hp by (simp add: mem_wf_def)
      moreover have "mem_frame {} m m2" using fr1 hp by (simp add: mem_frame_def)
      ultimately show ?thesis
        by (intro that[of False ?cap m2 f1]) (use r True n False req in auto)
    next
      case grown: True
      obtain v m2 f2 where a: "mtdp_buffer_fifo_block_alloc cfg m1 = (Some (brk m1), m2)"
        "vec_set (vec (blocks f1)) (usub (bcapacity (blocks f1)) (bsize (blocks f1) + 1)) (brk m1) = Some v"
        "f2 = f1\<lparr>blocks := (blocks f1)\<lparr>vec := v, bsize := bsize (blocks f1) + 1\<rparr>,
                 first_element_offset := BLOCK_SIZE cfg\<rparr>"
        "fifo_inv cfg m2 f2" "fifo_elems cfg m2 f2 = fifo_elems cfg m1 f1"
        "fifo_own f2 = insert (brk m1) (fifo_own f1)" "mem_wf m2" "mem_frame {} m1 m2" "live m2 = live m1"
        "dom (heap m2) = insert (brk m1) (dom (heap m1))"
        using fifo_add_block[OF r(2) mem1, of thesis] r pos True grown by auto
      have "shift_back_left_grow cfg m f = Some (True, bcapacity (blocks f1), m2, f2)"
        using True r(1) grown a(1-3) by (simp add: shift_back_left_grow_def Let_def)
      moreover have "\<forall>i < bsize (blocks f2). vec_get (vec (blocks f2))
          (bcapacity (blocks f1) - bsize (blocks f2) + i) = rblk f2 (bsize (blocks f2) - 1 - i)"
        using fifo_blocks_wfD(3,4)[OF fifo_invD(1)[OF a(4)]] by (simp add: rblk_def a(3))
      moreover have "bsize (blocks f2) \<le> bcapacity (blocks f1)" "first_element_offset f2 \<noteq> 0"
        using r(12) grown a(3) B by simp_all
      moreover have "mem_frame {} m m2" using fr1 a(8) by (auto intro: mem_frame_trans)
      moreover have "brk m1 < brk m2" using a(1) grown by (auto simp: mem_simps)
      ultimately show ?thesis
        by (intro that[of True "bcapacity (blocks f1)" m2 f2]) (use r a in auto)
    qed
  qed
qed

section \<open>Push\<close>

text \<open>The last step of a push, once the offset is positive: the slot addressed from the left
  through any correct \<open>capacity\<close> is the one just behind the youngest buffer.\<close>

lemma fifo_store_back:
  assumes inv: "fifo_inv cfg m f" and room: "first_element_offset f \<noteq> 0"
    and c: "bsize (blocks f) \<le> c" "\<forall>i < bsize (blocks f). vec_get (vec (blocks f)) (c - bsize (blocks f) + i) =
       rblk f (bsize (blocks f) - 1 - i)"
  defines "p \<equiv> first_element_offset f - 1"
  defines "f' \<equiv> f\<lparr>fsize := fsize f + 1, first_element_offset := p\<rparr>"
  obtains a m' where
    "vec_get (vec (blocks f)) (c - bsize (blocks f) + p div BLOCK_SIZE cfg) = Some a"
    "store_slot m a (p mod BLOCK_SIZE cfg) e = Some m'"
    "fifo_inv cfg m' f'" "fifo_elems cfg m' f' = fifo_elems cfg m f @ [e]"
    "mem_frame (fifo_own f) m m'" "brk m' = brk m" "dom (heap m') = dom (heap m)" "live m' = live m"
proof -
  let ?B = "BLOCK_SIZE cfg" and ?n = "bsize (blocks f)" and ?g = "fifo_gap cfg f"
  note wf = fifo_invD(1)[OF inv] and sum = fifo_gap_add[OF inv]
  note B = fifo_blocks_wfD(1)[OF wf]
  let ?r = "?g + fsize f"
  have pr: "p + ?r + 1 = ?n * ?B" using sum room by (simp add: p_def)
  note mi = mirror_index[OF B pr]
  have r: "?r < ?n * ?B" using pr by linarith
  obtain a where a: "rblk f (?r div ?B) = Some a"
    using fifo_blocks_wfD(5)[OF wf div_less_of_mult[OF r]] by blast
  with c(2) mi have va: "vec_get (vec (blocks f)) (c - ?n + p div ?B) = Some a" by simp
  obtain m' where m': "store_slot m a (?B - 1 - ?r mod ?B) e = Some m'" "fifo_blocks_wf cfg m' f"
    "\<forall>s < ?n * ?B. rslot cfg m' f s = (if s = ?r then Some e else rslot cfg m f s)"
    "\<forall>d. d \<noteq> a \<longrightarrow> heap m' d = heap m d" "brk m' = brk m" "avail m' = avail m"
    "dom (heap m') = dom (heap m)"
    by (rule rslot_store[OF wf r a, where e = e])
  have g': "fifo_gap cfg f' = ?g" using sum room by (simp add: fifo_gap_def f'_def p_def)
  have sl: "rslot cfg m' f' (?g + k) = (if k = fsize f then Some e else rslot cfg m f (?g + k))"
    if "k \<le> fsize f" for k
  proof -
    have "?g + k < ?n * ?B" using that r by linarith
    with m'(3) show ?thesis by (simp add: f'_def)
  qed
  show ?thesis
  proof (rule that[OF va])
    show "store_slot m a (p mod ?B) e = Some m'" using m'(1) mi(2) by simp
    show "fifo_inv cfg m' f'"
      unfolding fifo_inv_def g'
    proof (intro conjI allI impI)
      show "fifo_blocks_wf cfg m' f'" using m'(2) by (simp add: f'_def)
      show "first_element_offset f' + fsize f' \<le> bsize (blocks f') * ?B" using pr by (simp add: f'_def)
      fix k assume "k < fsize f'"
      then show "rslot cfg m' f' (?g + k) \<noteq> None"
        using sl[of k] fifo_invD(3)[OF inv, of k] by (auto simp: f'_def)
    next
      show "?g < ?B \<or> fsize f' = 0 \<and> bsize (blocks f') = 1 \<and> first_element_offset f' = 0"
        using fifo_invD(4)[OF inv] room by auto
    qed
    have "map (\<lambda>k. the (rslot cfg m' f' (?g + k))) [0..<fsize f] = map (\<lambda>k. the (rslot cfg m f (?g + k))) [0..<fsize f]"
      using sl by simp
    with sl[of "fsize f"] show "fifo_elems cfg m' f' = fifo_elems cfg m f @ [e]"
      by (simp add: fifo_elems_def g') (simp add: f'_def)
    have "a \<in> fifo_own f" using a div_less_of_mult[OF r] by (auto simp: fifo_own_def)
    then have "heap m' d = heap m d" if "d \<notin> fifo_own f" for d using m'(4) that by metis
    with m'(5,6) show "mem_frame (fifo_own f) m m'" by (simp add: mem_frame_def)
    show "live m' = live m" using m'(1) by (auto simp: store_slot_Some_iff)
  qed (use m' in auto)
qed

text \<open>The whole behaviour of a push: no fault; it appends, or refuses and keeps the contents; it
  refuses only when every slot of every block is taken and a needed allocation fails.\<close>

lemma fifo_push_back:
  assumes inv: "fifo_inv cfg m f" and mem: "mem_wf m" and cfg: "config_ok cfg"
  obtains ok m' f' where "mtdp_buffer_fifo_push_back cfg m f e = Some (ok, m', f')"
    "fifo_inv cfg m' f'" "fifo_elems cfg m' f' = (if ok then fifo_elems cfg m f @ [e] else fifo_elems cfg m f)"
    "mem_wf m'" "mem_frame (fifo_own f) m m'" "fifo_own f' \<subseteq> fifo_own f \<union> {brk m..<brk m'}"
    "live m' = live m" "\<not> ok \<longrightarrow> fsize f = bsize (blocks f) * BLOCK_SIZE cfg"
    "avail m (requests m) \<longrightarrow> avail m (requests m + 1) \<longrightarrow> ok" "fifo_own f \<subseteq> fifo_own f'"
    "dom (heap m') \<subseteq> dom (heap m) \<union> fifo_own f'"
proof -
  let ?B = "BLOCK_SIZE cfg"
  obtain fl c m1 f1 where g: "shift_back_left_grow cfg m f = Some (fl, c, m1, f1)"
    "fifo_inv cfg m1 f1" "fifo_elems cfg m1 f1 = fifo_elems cfg m f" "mem_wf m1" "mem_frame {} m m1"
    "fifo_own f1 \<subseteq> fifo_own f \<union> {brk m..<brk m1}" "live m1 = live m"
    "fl \<longleftrightarrow> first_element_offset f1 \<noteq> 0" "bsize (blocks f1) \<le> c"
    "\<forall>i < bsize (blocks f1). vec_get (vec (blocks f1)) (c - bsize (blocks f1) + i) =
       rblk f1 (bsize (blocks f1) - 1 - i)"
    "first_element_offset f \<noteq> 0 \<longrightarrow> fl" "fifo_own f \<subseteq> fifo_own f1"
    "fsize f = bsize (blocks f) * BLOCK_SIZE cfg \<longrightarrow> avail m (requests m) \<longrightarrow>
       avail m (requests m + 1) \<longrightarrow> fl"
    "\<not> fl \<longrightarrow> bsize (blocks f1) = bsize (blocks f)" "dom (heap m1) \<subseteq> dom (heap m) \<union> fifo_own f1"
    using fifo_grow[OF inv mem cfg] by blast
  have len: "fsize f1 = fsize f" using arg_cong[OF g(3), of length] by simp
  let ?full = "fsize f1 = bsize (blocks f1) * ?B"
  obtain m2 f2 where s: "(if \<not> fl \<and> \<not> ?full
        then do { (m, f) \<leftarrow> mtdp_buffer_fifo_rightshift_elements cfg m1 f1;
                  Some (first_element_offset f \<noteq> 0, m, f) }
        else Some (fl, m1, f1)) = Some (first_element_offset f2 \<noteq> 0, m2, f2)"
    "fifo_inv cfg m2 f2" "fifo_elems cfg m2 f2 = fifo_elems cfg m1 f1" "blocks f2 = blocks f1"
    "mem_frame (fifo_own f1) m1 m2" "brk m2 = brk m1" "dom (heap m2) = dom (heap m1)" "live m2 = live m1"
    "first_element_offset f2 = 0 \<longrightarrow> \<not> fl \<and> ?full"
  proof (cases "fl \<or> ?full")
    case True
    then show ?thesis using g(2,8) by (intro that[of f1 m1]) auto
  next
    case False
    obtain m2 f2 where r: "mtdp_buffer_fifo_rightshift_elements cfg m1 f1 = Some (m2, f2)"
      "fifo_inv cfg m2 f2" "fifo_elems cfg m2 f2 = fifo_elems cfg m1 f1" "fifo_gap cfg f2 = 0"
      "fsize f2 = fsize f1" "blocks f2 = blocks f1" "mem_frame (fifo_own f1) m1 m2" "brk m2 = brk m1"
      "dom (heap m2) = dom (heap m1)" "live m2 = live m1"
      using fifo_rightshift[OF g(2)] by metis
    have "first_element_offset f2 \<noteq> 0" using fifo_gap_add[OF r(2)] r(4-6) False by auto
    with r False show ?thesis by (intro that[of f2 m2]) auto
  qed
  have mem2: "mem_wf m2"
  proof -
    have "heap m2 x = None" if "brk m2 \<le> x" for x
      using g(4) s(6,7) that by (metis domIff mem_wf_def)
    then show ?thesis by (simp add: mem_wf_def)
  qed
  have own2: "fifo_own f2 = fifo_own f1" using s(4) by (simp add: fifo_own_def rblk_def)
  have fr2: "mem_frame (fifo_own f) m m2"
    by (rule mem_frame_trans[OF mem_frame_mono[OF g(5)] s(5)]) (use g(6) in auto)
  show ?thesis
  proof (cases "first_element_offset f2 = 0")
    case True
    then have "mtdp_buffer_fifo_push_back cfg m f e = Some (False, m2, f2)"
      using g(1) s(1) by (simp add: mtdp_buffer_fifo_push_back_def mtdp_buffer_fifo_shift_back_left_def)
    moreover have nofl: "\<not> fl" "?full" using s(9) True by auto
    moreover have "fsize f = bsize (blocks f) * ?B"
    proof -
      have "first_element_offset f = 0" using nofl g(11) by auto
      moreover have "bsize (blocks f1) = bsize (blocks f)" using g(14) nofl(1) by simp
      ultimately show ?thesis using nofl(2) len by simp
    qed
    ultimately show ?thesis
      using g(3,6,7,12,13,15) s(2,3,6-8) mem2 fr2 own2 by (intro that[of False m2 f2]) auto
  next
    case False
    have c2: "bsize (blocks f2) \<le> c" "\<forall>i < bsize (blocks f2).
        vec_get (vec (blocks f2)) (c - bsize (blocks f2) + i) = rblk f2 (bsize (blocks f2) - 1 - i)"
      using g(9,10) s(4) by (simp_all add: rblk_def)
    let ?p = "first_element_offset f2 - 1"
    let ?f3 = "f2\<lparr>fsize := fsize f2 + 1, first_element_offset := ?p\<rparr>"
    obtain a m3 where t: "vec_get (vec (blocks f2)) (c - bsize (blocks f2) + ?p div ?B) = Some a"
      "store_slot m2 a (?p mod ?B) e = Some m3" "fifo_inv cfg m3 ?f3"
      "fifo_elems cfg m3 ?f3 = fifo_elems cfg m2 f2 @ [e]" "mem_frame (fifo_own f2) m2 m3"
      "brk m3 = brk m2" "dom (heap m3) = dom (heap m2)" "live m3 = live m2"
      using fifo_store_back[OF s(2) False c2, of e] by metis
    have "mtdp_buffer_fifo_push_back cfg m f e = Some (True, m3, ?f3)"
      using g(1) s(1) t(1,2) False c2(1)
      by (simp add: mtdp_buffer_fifo_push_back_def mtdp_buffer_fifo_shift_back_left_def Let_def)
    moreover have "mem_wf m3" using mem2 t(6,7) by (metis domIff mem_wf_def)
    moreover have "mem_frame (fifo_own f) m m3"
      by (rule mem_frame_trans[OF fr2 t(5)]) (use g(6) own2 in auto)
    ultimately show ?thesis
      using g(3,6,7,12,15) s(3,6-8) t(3,4,6-8) own2 by (intro that[of True m3 ?f3]) auto
  qed
qed

section \<open>Pop\<close>

text \<open>The rotation that exposes the next block on the right and recycles the emptied one on the
  left, seen from the right.\<close>

definition rot :: "nat \<Rightarrow> nat \<Rightarrow> nat" where
  "rot k b = (if b < k then b + 1 else if b = k then 0 else b)"

lemma rot_inj: "rot k b = rot k c \<longleftrightarrow> b = c"
  by (auto simp: rot_def)

lemma rot_less: "k < n \<Longrightarrow> b < n \<Longrightarrow> rot k b < n"
  by (auto simp: rot_def)

lemma rotate_blocks:
  assumes wf: "fifo_blocks_wf cfg m f" and k: "k < bsize (blocks f)" and last: "rblk f 0 = Some a0"
  obtains w w' where
    "for_up 1 k (\<lambda>i v. do { a \<leftarrow> vec_get v (usub (usub (bcapacity (blocks f)) i) 1);
       vec_set v (usub (bcapacity (blocks f)) i) a }) (vec (blocks f)) = Some w"
    "vec_set w (usub (bcapacity (blocks f)) (k + 1)) a0 = Some w'" "length w' = bcapacity (blocks f)"
    "\<forall>b < bcapacity (blocks f). vec_get w' (bcapacity (blocks f) - 1 - b) = rblk f (rot k b)"
proof -
  let ?cap = "bcapacity (blocks f)" and ?v = "vec (blocks f)"
  let ?body = "\<lambda>i v. do { a \<leftarrow> vec_get v (usub (usub ?cap i) 1); vec_set v (usub ?cap i) a }"
  note n = fifo_blocks_wfD(3,4)[OF wf]
  define P where "P i w \<longleftrightarrow> length w = ?cap \<and>
    (\<forall>b < ?cap. vec_get w (?cap - 1 - b) = (if b < i then rblk f (b + 1) else rblk f b))" for i w
  have step: "\<exists>w'. ?body (1 + i) w = Some w' \<and> P (Suc i) w'" if i: "i < k" and P: "P i w" for i w
  proof -
    obtain a where a: "rblk f (i + 1) = Some a" using fifo_blocks_wfD(5)[OF wf, of "i + 1"] i k by auto
    have idx: "usub ?cap (1 + i) = ?cap - 1 - i" "usub (?cap - 1 - i) 1 = ?cap - 1 - (i + 1)"
      using i k n by auto
    have lt: "i + 1 < ?cap" "?cap - 1 - i < ?cap" using i k n by linarith+
    have "vec_get w (?cap - 1 - (i + 1)) = Some a" using P lt a by (simp add: P_def del: diff_diff_left)
    moreover have "vec_set w (?cap - 1 - i) a = Some (w[?cap - 1 - i := Some a])"
      using P lt by (simp add: P_def vec_set_def)
    moreover have "P (Suc i) (w[?cap - 1 - i := Some a])"
      using P a lt by (auto simp: P_def vec_get_def nth_list_update less_Suc_eq)
    ultimately have "?body (1 + i) w = Some (w[?cap - 1 - i := Some a]) \<and> P (Suc i) (w[?cap - 1 - i := Some a])"
      unfolding idx by simp
    then show ?thesis by blast
  qed
  have "P 0 ?v" using n by (simp add: P_def rblk_def)
  from for_up_rule[of P ?v k ?body 1, OF this step]
  obtain w where w: "for_up 1 k ?body ?v = Some w" "P k w" by blast
  have lt: "k < ?cap" using k n by simp
  show ?thesis
  proof (rule that[OF w(1)])
    show "vec_set w (usub ?cap (k + 1)) a0 = Some (w[?cap - 1 - k := Some a0])"
      using w(2) lt by (simp add: P_def vec_set_def)
    show "length (w[?cap - 1 - k := Some a0]) = ?cap" using w(2) by (simp add: P_def)
    show "\<forall>b < ?cap. vec_get (w[?cap - 1 - k := Some a0]) (?cap - 1 - b) = rblk f (rot k b)"
      using w(2) lt last by (auto simp: P_def vec_get_def nth_list_update rot_def)
  qed
qed

lemma fifo_pop_empty:
  "fsize f = 0 \<Longrightarrow> mtdp_buffer_fifo_pop_front cfg m f ret = Some (False, ret, f)"
  by (simp add: mtdp_buffer_fifo_pop_front_def mtdp_buffer_fifo_shift_front_left_def Let_def)

text \<open>The first part of a pop reads the slot at the gap.\<close>

lemma fifo_front_slot:
  assumes inv: "fifo_inv cfg m f" and ne: "fsize f \<noteq> 0"
  obtains a0 where "vec_get (vec (blocks f)) (bcapacity (blocks f) - 1) = Some a0" "rblk f 0 = Some a0"
    "load_slot m a0 (BLOCK_SIZE cfg - 1 - fifo_gap cfg f) = Some (hd (fifo_elems cfg m f))"
    "fifo_gap cfg f < BLOCK_SIZE cfg"
proof -
  note wf = fifo_invD(1)[OF inv]
  have g: "fifo_gap cfg f < BLOCK_SIZE cfg" using fifo_invD(4)[OF inv] ne by simp
  obtain a0 where a0: "rblk f 0 = Some a0" using fifo_blocks_wfD(2,5)[OF wf] by blast
  have "rslot cfg m f (fifo_gap cfg f) = load_slot m a0 (BLOCK_SIZE cfg - 1 - fifo_gap cfg f)"
    using g a0 by (simp add: rslot_def)
  moreover have "rslot cfg m f (fifo_gap cfg f) = Some (hd (fifo_elems cfg m f))"
    using fifo_invD(3)[OF inv, of 0] ne
    by (auto simp: fifo_elems_def hd_map upt_conv_Cons)
  ultimately show ?thesis using a0 g by (intro that[of a0]) (simp_all add: rblk_def)
qed

lemma fifo_tl_elems:
  assumes "fsize f = Suc n" "fsize f' = n"
    and "\<And>k. k < n \<Longrightarrow> rslot cfg m f' (fifo_gap cfg f' + k) = rslot cfg m f (fifo_gap cfg f + Suc k)"
  shows "fifo_elems cfg m f' = tl (fifo_elems cfg m f)"
proof -
  have "[0..<Suc n] = 0 # map Suc [0..<n]" by (simp add: upt_conv_Cons map_Suc_upt del: upt_Suc)
  with assms show ?thesis by (simp add: fifo_elems_def del: upt_Suc)
qed

text \<open>The whole behaviour of a pop from a non-empty FIFO: the oldest buffer, and the rest in
  order. The blocks stay the same set: nothing is allocated or released.\<close>

lemma fifo_pop_front:
  assumes inv: "fifo_inv cfg m f" and ne: "fsize f \<noteq> 0"
  obtains f' where "mtdp_buffer_fifo_shift_front_left cfg f =
      Some (Some (the (rblk f 0), BLOCK_SIZE cfg - 1 - fifo_gap cfg f), f')"
    "mtdp_buffer_fifo_pop_front cfg m f (Some r) = Some (True, Some (hd (fifo_elems cfg m f)), f')"
    "fifo_inv cfg m f'" "fifo_elems cfg m f' = tl (fifo_elems cfg m f)" "fifo_own f' = fifo_own f"
    "bsize (blocks f') = bsize (blocks f)"
proof -
  let ?B = "BLOCK_SIZE cfg" and ?n = "bsize (blocks f)" and ?cap = "bcapacity (blocks f)"
  let ?g = "fifo_gap cfg f" and ?o = "first_element_offset f" and ?bl = "blocks f"
  note wf = fifo_invD(1)[OF inv] and sum = fifo_gap_add[OF inv]
  note B = fifo_blocks_wfD(1)[OF wf] and n = fifo_blocks_wfD(2-4)[OF wf]
  obtain s where s: "fsize f = Suc s" using ne by (cases "fsize f") auto
  obtain a0 where a0: "vec_get (vec ?bl) (?cap - 1) = Some a0" "rblk f 0 = Some a0"
    "load_slot m a0 (?B - 1 - ?g) = Some (hd (fifo_elems cfg m f))" and g: "?g < ?B"
    using fifo_front_slot[OF inv ne] by blast
  have fi: "usub (?n * ?B) (fsize f + ?o) = ?g" "usub ?cap 1 = ?cap - 1" "usub (usub ?B ?g) 1 = ?B - 1 - ?g"
    using sum n g by (auto simp: fifo_gap_def add.commute)
  define f1 where "f1 = f\<lparr>fsize := s\<rparr>"
  obtain f' where f': "mtdp_buffer_fifo_shift_front_left cfg f = Some (Some (a0, ?B - 1 - ?g), f')"
    "fifo_blocks_wf cfg m f'" "fifo_own f' = fifo_own f" "bsize (blocks f') = ?n" "fsize f' = s"
    "first_element_offset f' + s \<le> ?n * ?B"
    "\<And>k. k < s \<Longrightarrow> rslot cfg m f' (fifo_gap cfg f' + k) = rslot cfg m f (?g + Suc k)"
    "fifo_gap cfg f' < ?B \<or> s = 0 \<and> ?n = 1 \<and> first_element_offset f' = 0"
  proof (cases "?g = ?B - 1 \<and> ?n \<noteq> 1")
    case False
    have g1: "fifo_gap cfg f1 = ?g + 1" using sum s by (simp add: fifo_gap_def f1_def)
    have "mtdp_buffer_fifo_shift_front_left cfg f = Some (Some (a0, ?B - 1 - ?g), f1)"
      using s a0(1) fi False unfolding mtdp_buffer_fifo_shift_front_left_def Let_def f1_def by auto
    moreover have "?g + 1 < ?B \<or> s = 0 \<and> ?n = 1 \<and> ?o = 0"
    proof (cases "?g = ?B - 1")
      case True
      with False have "?n = 1" by simp
      with True sum s B show ?thesis by auto
    next
      case False
      with g show ?thesis by linarith
    qed
    ultimately show ?thesis
      using wf g1 sum s by (intro that[of f1]) (simp_all add: f1_def)
  next
    case True
    define k where "k = (?o mod ?B + s) div ?B"
    have tot: "?o + s = (?n - 1) * ?B"
      using sum s True B by (simp add: diff_mult_distrib)
    have q: "?o div ?B \<le> ?n - 1" using tot B by (metis div_le_mono div_mult_self_is_m le_add1)
    have "?o mod ?B + s = (?n - 1 - ?o div ?B) * ?B"
      using tot div_mult_mod_eq[of ?o ?B] unfolding diff_mult_distrib by linarith
    then have k: "k = ?n - 1 - ?o div ?B" "s \<le> k * ?B" using B by (simp_all add: k_def)
    have kn: "k < ?n" using k n by simp
    obtain w w' where w: "for_up 1 k (\<lambda>i v. do { a \<leftarrow> vec_get v (usub (usub ?cap i) 1);
         vec_set v (usub ?cap i) a }) (vec ?bl) = Some w"
      "vec_set w (usub ?cap (k + 1)) a0 = Some w'" "length w' = ?cap"
      "\<forall>b < ?cap. vec_get w' (?cap - 1 - b) = rblk f (rot k b)"
      by (rule rotate_blocks[OF wf kn a0(2)])
    define f2 where "f2 = f1\<lparr>blocks := ?bl\<lparr>vec := w'\<rparr>, first_element_offset := ?o + ?B\<rparr>"
    have sh: "mtdp_buffer_fifo_shift_front_left cfg f = Some (Some (a0, ?B - 1 - ?g), f2)"
      using s a0(1) fi True w(1,2) unfolding mtdp_buffer_fifo_shift_front_left_def Let_def f2_def f1_def
      by (simp add: k_def)
    have rb: "rblk f2 b = rblk f (rot k b)" if "b < ?n" for b
      using w(4) that n by (simp add: rblk_def f2_def)
    have wf2: "fifo_blocks_wf cfg m f2"
      unfolding fifo_blocks_wf_def
    proof (intro conjI allI impI)
      fix b assume b: "b < bsize (blocks f2)"
      then have "b < ?n" by (simp add: f2_def)
      with fifo_blocks_wfD(5)[OF wf rot_less[OF kn this]] rb
      show "\<exists>a arr. rblk f2 b = Some a \<and> heap m a = Some arr \<and> length arr = ?B" by simp
    next
      fix b c assume "b < bsize (blocks f2)" "c < bsize (blocks f2)" and eq: "rblk f2 b = rblk f2 c"
      then have bc: "b < ?n" "c < ?n" by (simp_all add: f2_def)
      with eq fifo_blocks_wfD(6)[OF wf rot_less[OF kn bc(1)] rot_less[OF kn bc(2)]] rb
      show "b = c" by (simp add: rot_inj)
    qed (use n B w(3) in \<open>simp_all add: f2_def\<close>)
    have own: "fifo_own f2 = fifo_own f"
    proof
      show "fifo_own f2 \<subseteq> fifo_own f" 
      proof
        fix a assume "a \<in> fifo_own f2"
        then obtain b where "b < ?n" "rblk f2 b = Some a" by (auto simp: fifo_own_def f2_def)
        with rb rot_less[OF kn] show "a \<in> fifo_own f" by (auto simp: fifo_own_def)
      qed
      show "fifo_own f \<subseteq> fifo_own f2"
      proof
        fix a assume "a \<in> fifo_own f"
        then obtain c where c: "c < ?n" "rblk f c = Some a" by (auto simp: fifo_own_def)
        define b where "b = (if c = 0 then k else if c \<le> k then c - 1 else c)"
        have "rot k b = c" "b < ?n" using c kn by (auto simp: rot_def b_def)
        with rb[of b] c have "b < bsize (blocks f2) \<and> rblk f2 b = Some a" by (simp add: f2_def)
        then show "a \<in> fifo_own f2" by (auto simp: fifo_own_def)
      qed
    qed
    have off: "?o + ?B + s = ?n * ?B" using tot n by (cases ?n) auto
    have g2: "fifo_gap cfg f2 = 0" using off by (simp add: fifo_gap_def f2_def f1_def)
    have sl: "rslot cfg m f2 (fifo_gap cfg f2 + j) = rslot cfg m f (?g + Suc j)" if j: "j < s" for j
    proof -
      have jk: "j < k * ?B" using j k(2) by linarith
      then have b: "j div ?B < k" by (rule div_less_of_mult)
      have "(?g + Suc j) div ?B = j div ?B + 1" "(?g + Suc j) mod ?B = j mod ?B"
        using True B by simp_all
      with b kn rb[of "j div ?B"] show ?thesis
        by (simp add: g2 rslot_def rot_def split: option.split)
    qed
    show ?thesis
    proof (rule that[OF sh wf2 own _ _ _ sl])
      show "fifo_gap cfg f2 < ?B \<or> s = 0 \<and> ?n = 1 \<and> first_element_offset f2 = 0" using g2 B by simp
      show "first_element_offset f2 + s \<le> ?n * ?B" using off by (simp add: f2_def)
    qed (simp_all add: f2_def f1_def)
  qed
  have el: "fifo_elems cfg m f' = tl (fifo_elems cfg m f)"
    by (rule fifo_tl_elems[OF s f'(5,7)])
  have "rslot cfg m f' (fifo_gap cfg f' + k) \<noteq> None" if "k < s" for k
    unfolding f'(7)[OF that] by (rule fifo_invD(3)[OF inv]) (use that s in simp)
  then have inv': "fifo_inv cfg m f'"
    using f'(2,4-6,8) by (simp add: fifo_inv_def)
  have "mtdp_buffer_fifo_pop_front cfg m f (Some r) = Some (True, Some (hd (fifo_elems cfg m f)), f')"
    using f'(1) a0(3) by (simp add: mtdp_buffer_fifo_pop_front_def)
  with f' el inv' a0(2) show ?thesis by (intro that[of f']) simp_all
qed

section \<open>Release\<close>

lemma fifo_destroy:
  assumes inv: "fifo_inv cfg m f"
  obtains m' f' where "mtdp_buffer_fifo_destroy m f = Some (m', f')"
    "\<forall>a. heap m' a = (if a \<in> fifo_own f then None else heap m a)"
    "live m' = live m - 1" "brk m' = brk m" "avail m' = avail m" "fifo_own f' = {}"
proof -
  note wf = fifo_invD(1)[OF inv]
  let ?n = "bsize (blocks f)" and ?cap = "bcapacity (blocks f)"
  let ?body = "\<lambda>i m. do { a \<leftarrow> vec_get (vec (blocks f)) (usub (usub ?cap i) 1);
                       mtdp_buffer_fifo_block_dealloc m a }"
  define P where "P i s \<longleftrightarrow> (\<forall>a. heap s a = (if \<exists>b < i. rblk f b = Some a then None else heap m a)) \<and>
    live s = live m \<and> brk s = brk m \<and> avail s = avail m" for i and s :: mem
  have step: "\<exists>s'. ?body (0 + i) s = Some s' \<and> P (Suc i) s'" if i: "i < ?n" and P: "P i s" for i s
  proof -
    obtain a arr where a: "rblk f i = Some a" "heap m a = Some arr"
      using fifo_blocks_wfD(5)[OF wf i] by blast
    have "\<not> (\<exists>b < i. rblk f b = Some a)"
    proof
      assume "\<exists>b < i. rblk f b = Some a"
      then obtain b where "b < i" "rblk f b = rblk f i" using a by auto
      with fifo_blocks_wfD(6)[OF wf, of b i] i show False by simp
    qed
    with P a(2) have live: "heap s a = Some arr" by (simp add: P_def)
    have lt: "1 \<le> ?cap - i" "i \<le> ?cap" using i fifo_blocks_wfD(3)[OF wf] by linarith+
    have "vec_get (vec (blocks f)) (usub (usub ?cap i) 1) = Some a"
      using a(1) lt by (simp add: rblk_def)
    with live have "?body (0 + i) s = Some (s\<lparr>heap := (heap s)(a := None)\<rparr>)"
      by (simp add: mtdp_buffer_fifo_block_dealloc_def)
    moreover have "P (Suc i) (s\<lparr>heap := (heap s)(a := None)\<rparr>)"
      using P a(1) by (auto simp: P_def less_Suc_eq)
    ultimately show ?thesis by blast
  qed
  have "P 0 m" by (simp add: P_def)
  from for_up_rule[of P m ?n ?body 0, OF this step]
  obtain m1 where m1: "for_up 0 ?n ?body m = Some m1" "P ?n m1" by blast
  let ?f' = "f\<lparr>blocks := (blocks f)\<lparr>bsize := 0, bcapacity := 0\<rparr>\<rparr>"
  have "mtdp_buffer_fifo_destroy m f = Some (free_array m1, ?f')"
    using m1(1) by (simp add: mtdp_buffer_fifo_destroy_def Let_def)
  moreover have "\<forall>a. heap (free_array m1) a = (if a \<in> fifo_own f then None else heap m a)"
    using m1(2) by (simp add: P_def mem_simps fifo_own_def)
  ultimately show ?thesis
    using m1(2) by (intro that[of "free_array m1" ?f']) (auto simp: P_def mem_simps fifo_own_def)
qed

section \<open>Separation\<close>

lemma fifo_own_dom: "fifo_blocks_wf cfg m f \<Longrightarrow> a \<in> fifo_own f \<Longrightarrow> heap m a \<noteq> None"
  by (fastforce simp: fifo_own_def fifo_blocks_wf_def)

lemma fifo_own_below: "fifo_inv cfg m f \<Longrightarrow> mem_wf m \<Longrightarrow> a \<in> fifo_own f \<Longrightarrow> a < brk m"
  using fifo_own_dom[OF fifo_invD(1)] by (metis mem_wf_def not_le)

text \<open>Code that owns other addresses leaves a FIFO alone.\<close>

lemma fifo_frame:
  assumes "fifo_inv cfg m g" "mem_wf m" "mem_frame S m m'" "fifo_own g \<inter> S = {}"
  shows "fifo_inv cfg m' g" "fifo_elems cfg m' g = fifo_elems cfg m g"
proof -
  have "heap m' a = heap m a" if "a \<in> fifo_own g" for a
    using assms(3,4) that fifo_own_below[OF assms(1,2) that] by (auto simp: mem_frame_def)
  then have hp: "\<forall>b < bsize (blocks g). \<forall>a. rblk g b = Some a \<longrightarrow> heap m' a = heap m a"
    by (auto simp: fifo_own_def)
  note n = fifo_blocks_wfD(3,4)[OF fifo_invD(1)[OF assms(1)]]
  show "fifo_inv cfg m' g" "fifo_elems cfg m' g = fifo_elems cfg m g"
    using fifo_relayout[OF assms(1) refl refl refl n _ hp] by simp_all
qed

section \<open>The FIFO is a queue\<close>

definition fifo_take ::
  "fifo_config \<Rightarrow> mem \<Rightarrow> mtdp_buffer_fifo \<Rightarrow> (mtdp_buffer option \<times> mem \<times> mtdp_buffer_fifo) option" where
  "fifo_take cfg m f = do {
     (ok, r, f) \<leftarrow> mtdp_buffer_fifo_pop_front cfg m f (Some NULL);
     Some (if ok then r else None, m, f) }"

definition fifo_state_ok :: "fifo_config \<Rightarrow> mem \<Rightarrow> mtdp_buffer_fifo \<Rightarrow> bool" where
  "fifo_state_ok cfg m f \<longleftrightarrow> config_ok cfg \<and> mem_wf m \<and> fifo_inv cfg m f"

interpretation fifo_queue: buffer_queue "fifo_state_ok cfg" "fifo_elems cfg"
  "mtdp_buffer_fifo_push_back cfg" "fifo_take cfg" for cfg
proof unfold_locales
  fix m f e assume "fifo_state_ok cfg m f"
  then have inv: "config_ok cfg" "mem_wf m" "fifo_inv cfg m f" by (simp_all add: fifo_state_ok_def)
  obtain ok m' f' where "mtdp_buffer_fifo_push_back cfg m f e = Some (ok, m', f')" "fifo_inv cfg m' f'"
    "fifo_elems cfg m' f' = (if ok then fifo_elems cfg m f @ [e] else fifo_elems cfg m f)" "mem_wf m'"
    using fifo_push_back[OF inv(3,2,1)] by metis
  with inv(1) show "\<exists>ok m' f'. mtdp_buffer_fifo_push_back cfg m f e = Some (ok, m', f') \<and>
      fifo_state_ok cfg m' f' \<and> fifo_elems cfg m' f' = (if ok then fifo_elems cfg m f @ [e] else fifo_elems cfg m f)"
    by (simp add: fifo_state_ok_def)
next
  fix m f assume ok: "fifo_state_ok cfg m f"
  show "\<exists>m' f'. fifo_take cfg m f = Some (if fifo_elems cfg m f = [] then None else
      Some (hd (fifo_elems cfg m f)), m', f') \<and> fifo_state_ok cfg m' f' \<and>
      fifo_elems cfg m' f' = tl (fifo_elems cfg m f)"
  proof (cases "fsize f = 0")
    case True
    then have nil: "fifo_elems cfg m f = []" by simp
    have "fifo_take cfg m f = Some (None, m, f)" using True by (simp add: fifo_take_def fifo_pop_empty)
    with ok nil show ?thesis by (metis list.sel(2))
  next
    case False
    from ok obtain f' where
      "mtdp_buffer_fifo_pop_front cfg m f (Some NULL) = Some (True, Some (hd (fifo_elems cfg m f)), f')"
      "fifo_inv cfg m f'" "fifo_elems cfg m f' = tl (fifo_elems cfg m f)"
      using fifo_pop_front[OF _ False] by (metis fifo_state_ok_def)
    with ok False show ?thesis by (auto simp: fifo_take_def fifo_state_ok_def)
  qed
qed

section \<open>Whole runs\<close>

lemma fifo_take_frame:
  assumes "fifo_state_ok cfg m f" "fifo_take cfg m f = Some (r, m', f')"
  shows "m' = m" "fifo_own f' = fifo_own f"
proof -
  have inv: "fifo_inv cfg m f" using assms(1) by (simp add: fifo_state_ok_def)
  show "m' = m" using assms(2) by (auto simp: fifo_take_def bind_eq_Some_conv)
  show "fifo_own f' = fifo_own f"
  proof (cases "fsize f = 0")
    case True
    then show ?thesis using assms(2) by (auto simp: fifo_take_def fifo_pop_empty)
  next
    case False
    obtain f1 where "mtdp_buffer_fifo_pop_front cfg m f (Some NULL) = Some (True, Some (hd (fifo_elems cfg m f)), f1)"
      "fifo_own f1 = fifo_own f"
      by (rule fifo_pop_front[OF inv False, where r = NULL])
    with assms(2) show ?thesis by (auto simp: fifo_take_def)
  qed
qed

text \<open>What a script of pushes and pops does to the memory: it only touches the FIFO's own blocks
  and fresh ones, keeps every allocation it makes, and releases nothing.\<close>

lemma fifo_run_frame:
  assumes "fifo_state_ok cfg m f"
    and "run_calls (mtdp_buffer_fifo_push_back cfg) (fifo_take cfg) m f cs = Some (ins, outs, m', f')"
  shows "mem_frame (fifo_own f) m m' \<and> live m' = live m \<and> fifo_own f \<subseteq> fifo_own f' \<and>
    fifo_own f' \<subseteq> fifo_own f \<union> {brk m..<brk m'} \<and> dom (heap m') \<subseteq> dom (heap m) \<union> fifo_own f'"
  using assms
proof (induction cs arbitrary: m f ins outs)
  case Nil
  then show ?case by auto
next
  case (Cons c cs)
  show ?case
  proof (cases c)
    case (Put e)
    from Cons.prems(1) have ok: "config_ok cfg" "mem_wf m" "fifo_inv cfg m f" by (simp_all add: fifo_state_ok_def)
    obtain b m1 f1 where p: "mtdp_buffer_fifo_push_back cfg m f e = Some (b, m1, f1)" "fifo_inv cfg m1 f1"
      "mem_wf m1" "mem_frame (fifo_own f) m m1" "fifo_own f1 \<subseteq> fifo_own f \<union> {brk m..<brk m1}"
      "live m1 = live m" "fifo_own f \<subseteq> fifo_own f1" "dom (heap m1) \<subseteq> dom (heap m) \<union> fifo_own f1"
      by (rule fifo_push_back[OF ok(3,2,1), where e = e])
    from Cons.prems(2) Put p(1) obtain ins1 where
      r: "run_calls (mtdp_buffer_fifo_push_back cfg) (fifo_take cfg) m1 f1 cs = Some (ins1, outs, m', f')"
      by (auto simp: bind_eq_Some_conv)
    have IH: "mem_frame (fifo_own f1) m1 m' \<and> live m' = live m1 \<and> fifo_own f1 \<subseteq> fifo_own f' \<and>
      fifo_own f' \<subseteq> fifo_own f1 \<union> {brk m1..<brk m'} \<and> dom (heap m') \<subseteq> dom (heap m1) \<union> fifo_own f'"
      by (rule Cons.IH[OF _ r]) (use p ok in \<open>simp add: fifo_state_ok_def\<close>)
    have "brk m \<le> brk m1" "brk m1 \<le> brk m'" using p(4) IH by (simp_all add: mem_frame_def)
    moreover have "mem_frame (fifo_own f) m m'"
      by (rule mem_frame_trans[OF p(4), of "fifo_own f1"]) (use IH p(5) in auto)
    moreover have "fifo_own f' \<subseteq> fifo_own f \<union> {brk m..<brk m'}"
    proof
      fix a assume "a \<in> fifo_own f'"
      with IH have "a \<in> fifo_own f1 \<or> brk m1 \<le> a \<and> a < brk m'" by auto
      with p(5) calculation(1,2) show "a \<in> fifo_own f \<union> {brk m..<brk m'}" by auto
    qed
    moreover have "live m' = live m" using IH p(6) by simp
    moreover have "fifo_own f \<subseteq> fifo_own f'" using IH p(7) by blast
    moreover have "dom (heap m') \<subseteq> dom (heap m) \<union> fifo_own f'" using IH p(8) by blast
    ultimately show ?thesis by simp
  next
    case Get
    with Cons.prems obtain x m1 f1 outs1 where g: "fifo_take cfg m f = Some (x, m1, f1)"
      "run_calls (mtdp_buffer_fifo_push_back cfg) (fifo_take cfg) m1 f1 cs = Some (ins, outs1, m', f')"
      by (auto simp: bind_eq_Some_conv)
    have "fifo_state_ok cfg m1 f1" using fifo_queue.get_front[OF Cons.prems(1)] g(1) by auto
    from Cons.IH[OF this g(2)] show ?thesis
      using fifo_take_frame[OF Cons.prems(1) g(1)] by simp
  qed
qed

end
