(* ===== verification/Buffer_Properties.thy ===== *)
theory Buffer_Properties
  imports Buffer_Pool Fifo_Correct
begin

text \<open>
  What the two buffer containers promise their callers, over every script of calls and every
  outcome of the allocator: the properties of the FIFO, then those of the pool, each with a
  concrete run.
\<close>

section \<open>Helper facts\<close>

text \<open>A FIFO object before its initialisation, and one right after it.\<close>

definition fifo_blank :: mtdp_buffer_fifo where
  "fifo_blank = \<lparr>blocks = \<lparr>vec = [], bsize = 0, bcapacity = 0\<rparr>, fsize = 0, first_element_offset = 0\<rparr>"

definition pool_blank :: mtdp_buffer_pool where
  "pool_blank = \<lparr>buffers = None, psize = 0, pcapacity = 0\<rparr>"

lemmas fifo_code = mtdp_buffer_fifo_init_def mtdp_buffer_fifo_blocks_init_def
  mtdp_buffer_fifo_block_alloc_def malloc_array_def request_def Let_def mem_start_def

lemma fifo_start:
  assumes "config_ok cfg" "mem_wf m" "mtdp_buffer_fifo_init cfg m f0 = (True, m1, f1)"
  shows "fifo_state_ok cfg m1 f1"
  using fifo_init_inv[OF assms] assms(1) by (simp add: fifo_state_ok_def)

lemma fifo_start_frame:
  assumes "mem_wf m" "config_ok cfg" "mtdp_buffer_fifo_init cfg m f0 = (True, m1, f1)"
  shows "\<forall>a. a \<noteq> brk m \<longrightarrow> heap m1 a = heap m a" "brk m1 = Suc (brk m)" "heap m (brk m) = None"
    "avail m1 = avail m"
  using assms
  by (auto simp: mtdp_buffer_fifo_init_def mtdp_buffer_fifo_blocks_init_def malloc_array_def mem_wf_def
      request_def mtdp_buffer_fifo_block_alloc_def Let_def split: if_splits prod.splits)

text \<open>With an allocator that never refuses, a script of pushes is accepted entirely.\<close>

lemma fifo_pushes_accepted:
  assumes "fifo_state_ok cfg m f" "\<forall>n. avail m n"
  shows "\<exists>m' f'. run_calls (mtdp_buffer_fifo_push_back cfg) (fifo_take cfg) m f (map Put es) = Some (es, [], m', f')
    \<and> fifo_state_ok cfg m' f' \<and> fifo_elems cfg m' f' = fifo_elems cfg m f @ es"
  using assms
proof (induction es arbitrary: m f)
  case Nil
  then show ?case by simp
next
  case (Cons e es)
  then have ok: "config_ok cfg" "mem_wf m" "fifo_inv cfg m f" by (simp_all add: fifo_state_ok_def)
  obtain b m1 f1 where p: "mtdp_buffer_fifo_push_back cfg m f e = Some (b, m1, f1)"
    "fifo_inv cfg m1 f1" "fifo_elems cfg m1 f1 = (if b then fifo_elems cfg m f @ [e] else fifo_elems cfg m f)"
    "mem_wf m1" "mem_frame (fifo_own f) m m1"
    "avail m (requests m) \<longrightarrow> avail m (requests m + 1) \<longrightarrow> b"
    by (rule fifo_push_back[OF ok(3,2,1), where e = e])
  have b: b using p(6) Cons.prems(2) by simp
  have ok1: "fifo_state_ok cfg m1 f1" and av1: "\<forall>n. avail m1 n"
    using p ok Cons.prems(2) by (simp_all add: fifo_state_ok_def mem_frame_def)
  from Cons.IH[OF ok1 av1] show ?case using p(1,3) b by auto
qed

text \<open>\<open>k + n\<close> pops of a FIFO of \<open>n\<close> buffers hand them all out, oldest first.\<close>

lemma fifo_pops_drain:
  assumes "fifo_state_ok cfg m f"
  shows "\<exists>f'. run_calls (mtdp_buffer_fifo_push_back cfg) (fifo_take cfg) m f (replicate (fsize f + k) Get) =
      Some ([], fifo_elems cfg m f, m, f') \<and> fifo_state_ok cfg m f' \<and> fsize f' = 0"
  using assms
proof (induction "fsize f + k" arbitrary: f k)
  case 0
  then show ?case by (auto simp: fifo_elems_def)
next
  case (Suc n)
  obtain m1 f1 where g: "fifo_take cfg m f =
      Some (if fifo_elems cfg m f = [] then None else Some (hd (fifo_elems cfg m f)), m1, f1)"
    "fifo_state_ok cfg m1 f1" "fifo_elems cfg m1 f1 = tl (fifo_elems cfg m f)"
    using fifo_queue.get_front[OF Suc.prems] by blast
  have m1: "m1 = m" using fifo_take_frame[OF Suc.prems g(1)] by simp
  have sz: "fsize f1 = fsize f - 1" using arg_cong[OF g(3), of length] by simp
  define k' where "k' = (if fsize f = 0 then k - 1 else k)"
  have n: "n = fsize f1 + k'" using Suc.hyps(2) sz by (auto simp: k'_def)
  obtain f' where "run_calls (mtdp_buffer_fifo_push_back cfg) (fifo_take cfg) m f1 (replicate n Get) =
      Some ([], fifo_elems cfg m f1, m, f')" "fifo_state_ok cfg m f'" "fsize f' = 0"
    using Suc.hyps(1)[OF n] g(2) m1 n by auto
  with g(1,3) m1 Suc.hyps(2)[symmetric] show ?case
    by (cases "fifo_elems cfg m f") (auto simp del: fifo_elems_empty)
qed


section \<open>The FIFO\<close>

text \<open>C19. The whole life of a FIFO of full buffers. After a successful initialisation every script of
  pushes and pops runs without undefined behaviour, whatever requests the allocator refuses on
  the way. What came out, followed by what is still inside, is exactly what was accepted, in
  the order of acceptance. Destroying the FIFO then gives back all the memory it ever took and
  leaves every other block as it was.\<close>

theorem fifo_lifetime:
  assumes cfg: "config_ok cfg" and m: "mem_wf m" and init: "mtdp_buffer_fifo_init cfg m f0 = (True, m1, f1)"
  shows "\<exists>ins outs m2 f2 m3 f3.
    run_calls (mtdp_buffer_fifo_push_back cfg) (fifo_take cfg) m1 f1 cs = Some (ins, outs, m2, f2) \<and>
    ins = outs @ fifo_elems cfg m2 f2 \<and> mtdp_buffer_fifo_size f2 = length ins - length outs \<and>
    mtdp_buffer_fifo_destroy m2 f2 = Some (m3, f3) \<and> heap m3 = heap m \<and> live m3 = live m"
proof -
  note st = fifo_start[OF cfg m init] and i = fifo_init_inv[OF cfg m init]
  note fr = fifo_start_frame[OF m cfg init]
  obtain ins outs m2 f2 where r: "run_calls (mtdp_buffer_fifo_push_back cfg) (fifo_take cfg) m1 f1 cs =
      Some (ins, outs, m2, f2)" "fifo_state_ok cfg m2 f2" "fifo_elems cfg m1 f1 @ ins = outs @ fifo_elems cfg m2 f2"
    using fifo_queue.run_order[OF st] by blast
  have f: "mem_frame (fifo_own f1) m1 m2" "live m2 = live m1" "fifo_own f1 \<subseteq> fifo_own f2"
    "fifo_own f2 \<subseteq> fifo_own f1 \<union> {brk m1..<brk m2}" "dom (heap m2) \<subseteq> dom (heap m1) \<union> fifo_own f2"
    using fifo_run_frame[OF st r(1)] by simp_all
  have inv2: "fifo_inv cfg m2 f2" using r(2) by (simp add: fifo_state_ok_def)
  obtain m3 f3 where d: "mtdp_buffer_fifo_destroy m2 f2 = Some (m3, f3)"
    "\<forall>a. heap m3 a = (if a \<in> fifo_own f2 then None else heap m2 a)" "live m3 = live m2 - 1"
    by (rule fifo_destroy[OF inv2])
  have "heap m3 a = heap m a" for a
  proof (cases "a \<in> fifo_own f2")
    case True
    then have "brk m \<le> a" using f(4) i(3) fr(2) by fastforce
    with True d(2) m show ?thesis by (simp add: mem_wf_def)
  next
    case False
    then have a: "a \<noteq> brk m" using f(3) i(3) by auto
    have "heap m2 a = heap m1 a"
    proof (cases "a < brk m1")
      case True
      with f(1) i(3) a show ?thesis by (simp add: mem_frame_def)
    next
      case F: False
      then have "heap m1 a = None" using i(4) by (simp add: mem_wf_def)
      moreover from this f(5) False have "heap m2 a = None" by blast
      ultimately show ?thesis by simp
    qed
    with False d(2) fr(1) a show ?thesis by simp
  qed
  then have "heap m3 = heap m" by blast
  moreover have "ins = outs @ fifo_elems cfg m2 f2" using r(3) i(2) by simp
  moreover from this have "mtdp_buffer_fifo_size f2 = length ins - length outs"
    by (simp add: mtdp_buffer_fifo_size_def)
  ultimately show ?thesis using r(1) d(1,3) f(2) i(6) by auto
qed

theorem fifo_lifetime_witness:
  "\<exists>m1 f1 ins outs m2 f2 m3 f3.
    mtdp_buffer_fifo_init default_config (mem_start (\<lambda>n. n \<noteq> 2)) fifo_blank = (True, m1, f1) \<and>
    run_calls (mtdp_buffer_fifo_push_back default_config) (fifo_take default_config) m1 f1
      [Put (Ptr 1), Get, Put (Ptr 2)] = Some (ins, outs, m2, f2) \<and>
    ins = outs @ fifo_elems default_config m2 f2 \<and>
    mtdp_buffer_fifo_destroy m2 f2 = Some (m3, f3) \<and> heap m3 = Map.empty \<and> live m3 = 0"
proof -
  obtain m1 f1 where i: "mtdp_buffer_fifo_init default_config (mem_start (\<lambda>n. n \<noteq> 2)) fifo_blank = (True, m1, f1)"
    by (simp add: fifo_code)
  from fifo_lifetime[OF default_config_ok mem_start_wf i, of "[Put (Ptr 1), Get, Put (Ptr 2)]"] i
  show ?thesis by (auto simp: mem_start_def)
qed

text \<open>C34. A push appends the buffer at the end of the queue, or refuses it and then changes nothing
  that a reader of the queue sees. It refuses only if every slot of every block is used and the
  allocator refuses the block or the longer block vector; it never touches memory that other
  parts own.\<close>

theorem fifo_push_spec:
  assumes "config_ok cfg" "mem_wf m" "fifo_inv cfg m f"
  shows "\<exists>ok m' f'. mtdp_buffer_fifo_push_back cfg m f e = Some (ok, m', f') \<and> fifo_inv cfg m' f' \<and> mem_wf m' \<and>
    fifo_elems cfg m' f' = (if ok then fifo_elems cfg m f @ [e] else fifo_elems cfg m f) \<and>
    (\<not> ok \<longrightarrow> fsize f = bsize (blocks f) * BLOCK_SIZE cfg \<and> (\<exists>n \<in> {requests m, requests m + 1}. \<not> avail m n)) \<and>
    mem_frame (fifo_own f) m m' \<and> live m' = live m"
proof -
  obtain ok m' f' where "mtdp_buffer_fifo_push_back cfg m f e = Some (ok, m', f')"
    "fifo_inv cfg m' f'" "fifo_elems cfg m' f' = (if ok then fifo_elems cfg m f @ [e] else fifo_elems cfg m f)"
    "mem_wf m'" "mem_frame (fifo_own f) m m'" "live m' = live m"
    "\<not> ok \<longrightarrow> fsize f = bsize (blocks f) * BLOCK_SIZE cfg"
    "avail m (requests m) \<longrightarrow> avail m (requests m + 1) \<longrightarrow> ok"
    by (rule fifo_push_back[OF assms(3,2,1), where e = e])
  then show ?thesis by auto
qed

theorem fifo_push_spec_witness:
  "\<exists>m1 f1 ok m' f'. mtdp_buffer_fifo_init default_config (mem_start (\<lambda>_. True)) fifo_blank = (True, m1, f1) \<and>
    mtdp_buffer_fifo_push_back default_config m1 f1 (Ptr 7) = Some (ok, m', f') \<and>
    (ok \<longrightarrow> fifo_elems default_config m' f' = [Ptr 7])"
proof -
  obtain m1 f1 where i: "mtdp_buffer_fifo_init default_config (mem_start (\<lambda>_. True)) fifo_blank = (True, m1, f1)"
    by (simp add: fifo_code)
  note inv = fifo_init_inv[OF default_config_ok mem_start_wf i]
  from fifo_push_spec[OF default_config_ok inv(4,1), of "Ptr 7"] i inv(2)
  show ?thesis by auto
qed

text \<open>C35. A pop hands out the oldest buffer and keeps the rest in order, or reports an empty queue
  without writing the out parameter. It allocates and releases nothing, and a non-empty queue
  popped through a null out pointer is undefined behaviour.\<close>

theorem fifo_pop_spec:
  assumes "fifo_inv cfg m f"
  shows "if fsize f = 0 then \<forall>ret. mtdp_buffer_fifo_pop_front cfg m f ret = Some (False, ret, f)
    else mtdp_buffer_fifo_pop_front cfg m f None = None \<and>
      (\<exists>f'. (\<forall>old. mtdp_buffer_fifo_pop_front cfg m f (Some old) = Some (True, Some (hd (fifo_elems cfg m f)), f')) \<and>
         fifo_inv cfg m f' \<and> fifo_elems cfg m f' = tl (fifo_elems cfg m f) \<and> fifo_own f' = fifo_own f)"
proof (cases "fsize f = 0")
  case True
  then show ?thesis by (simp add: fifo_pop_empty)
next
  case False
  obtain f' where p: "mtdp_buffer_fifo_shift_front_left cfg f =
      Some (Some (the (rblk f 0), BLOCK_SIZE cfg - 1 - fifo_gap cfg f), f')"
    "mtdp_buffer_fifo_pop_front cfg m f (Some NULL) = Some (True, Some (hd (fifo_elems cfg m f)), f')"
    "fifo_inv cfg m f'" "fifo_elems cfg m f' = tl (fifo_elems cfg m f)" "fifo_own f' = fifo_own f"
    by (rule fifo_pop_front[OF assms False, where r = NULL])
  then have "mtdp_buffer_fifo_pop_front cfg m f None = None"
    and "mtdp_buffer_fifo_pop_front cfg m f (Some old) = mtdp_buffer_fifo_pop_front cfg m f (Some NULL)" for old
    by (simp_all add: mtdp_buffer_fifo_pop_front_def)
  with False p show ?thesis by auto
qed

theorem fifo_pop_spec_witness:
  "\<exists>m f f'. fifo_elems default_config m f = [Ptr 4, Ptr 5] \<and> mtdp_buffer_fifo_pop_front default_config m f None = None \<and>
    mtdp_buffer_fifo_pop_front default_config m f (Some NULL) = Some (True, Some (Ptr 4), f') \<and>
    fifo_elems default_config m f' = [Ptr 5]"
proof -
  obtain m1 f1 where i: "mtdp_buffer_fifo_init default_config (mem_start (\<lambda>_. True)) fifo_blank = (True, m1, f1)"
    by (simp add: fifo_code)
  have av: "\<forall>n. avail m1 n" using fifo_start_frame(4)[OF mem_start_wf default_config_ok i] by (simp add: mem_start_def)
  obtain m f where "run_calls (mtdp_buffer_fifo_push_back default_config) (fifo_take default_config) m1 f1
      (map Put [Ptr 4, Ptr 5]) = Some ([Ptr 4, Ptr 5], [], m, f)" "fifo_state_ok default_config m f"
    "fifo_elems default_config m f = fifo_elems default_config m1 f1 @ [Ptr 4, Ptr 5]"
    using fifo_pushes_accepted[OF fifo_start[OF default_config_ok mem_start_wf i] av, of "[Ptr 4, Ptr 5]"] by auto
  moreover from this have el: "fifo_elems default_config m f = [Ptr 4, Ptr 5]"
    using fifo_init_inv(2)[OF default_config_ok mem_start_wf i] by simp
  moreover have "fsize f \<noteq> 0" using arg_cong[OF el, of length] by simp
  ultimately show ?thesis using fifo_pop_spec[of default_config m f] by (auto simp: fifo_state_ok_def)
qed

text \<open>The calls of the repository's test, for every list of buffers and any surplus of pops: with an
  allocator that does not refuse, all pushes succeed, the pops hand the buffers out in the same
  order, the surplus pops report an empty queue, and the queue ends empty.\<close>

theorem fifo_black_box:
  assumes "config_ok cfg" "mem_wf m" "\<forall>n. avail m n" "mtdp_buffer_fifo_init cfg m f0 = (True, m1, f1)"
  shows "\<exists>m2 f2. run_calls (mtdp_buffer_fifo_push_back cfg) (fifo_take cfg) m1 f1
      (map Put es @ replicate (length es + k) Get) = Some (es, es, m2, f2) \<and> mtdp_buffer_fifo_size f2 = 0"
proof -
  have "\<forall>n. avail m1 n" using fifo_start_frame(4)[OF assms(2,1,4)] assms(3) by simp
  then obtain m2 f2 where p: "run_calls (mtdp_buffer_fifo_push_back cfg) (fifo_take cfg) m1 f1 (map Put es) =
      Some (es, [], m2, f2)" "fifo_state_ok cfg m2 f2" "fifo_elems cfg m2 f2 = fifo_elems cfg m1 f1 @ es"
    using fifo_pushes_accepted[OF fifo_start[OF assms(1,2,4)]] by blast
  have el: "fifo_elems cfg m2 f2 = es" using p(3) fifo_init_inv(2)[OF assms(1,2,4)] by simp
  then have sz: "fsize f2 = length es" by (metis length_fifo_elems)
  obtain f3 where "run_calls (mtdp_buffer_fifo_push_back cfg) (fifo_take cfg) m2 f2 (replicate (length es + k) Get) =
      Some ([], es, m2, f3)" "fsize f3 = 0"
    using fifo_pops_drain[OF p(2), of k] el sz by auto
  with p(1) show ?thesis by (simp add: run_calls_append mtdp_buffer_fifo_size_def)
qed

theorem fifo_black_box_witness:
  "\<exists>m1 f1 m2 f2. mtdp_buffer_fifo_init default_config (mem_start (\<lambda>_. True)) fifo_blank = (True, m1, f1) \<and>
    run_calls (mtdp_buffer_fifo_push_back default_config) (fifo_take default_config) m1 f1
      (map Put (map Ptr [0..<100]) @ replicate (100 + 20) Get) = Some (map Ptr [0..<100], map Ptr [0..<100], m2, f2) \<and>
    mtdp_buffer_fifo_size f2 = 0"
proof -
  obtain m1 f1 where i: "mtdp_buffer_fifo_init default_config (mem_start (\<lambda>_. True)) fifo_blank = (True, m1, f1)"
    by (simp add: fifo_code)
  have "\<forall>n. avail (mem_start (\<lambda>_. True)) n" by (simp add: mem_start_def)
  from fifo_black_box[OF default_config_ok mem_start_wf this i, of "map Ptr [0..<100]" 20] i
  show ?thesis by (simp only: length_map length_upt) auto
qed

text \<open>Two FIFOs in the same memory do not disturb each other: while one runs any script, the
  other keeps its invariant, its buffers and their order, and the sets of blocks stay disjoint.\<close>

theorem fifo_separation:
  assumes "fifo_state_ok cfg m f" "fifo_inv cfg' m g" "fifo_own f \<inter> fifo_own g = {}"
    and "run_calls (mtdp_buffer_fifo_push_back cfg) (fifo_take cfg) m f cs = Some (ins, outs, m', f')"
  shows "fifo_inv cfg' m' g \<and> fifo_elems cfg' m' g = fifo_elems cfg' m g \<and> fifo_own f' \<inter> fifo_own g = {}"
proof -
  have r: "mem_frame (fifo_own f) m m'" "fifo_own f' \<subseteq> fifo_own f \<union> {brk m..<brk m'}"
    using fifo_run_frame[OF assms(1,4)] by simp_all
  have mem: "mem_wf m" using assms(1) by (simp add: fifo_state_ok_def)
  have "fifo_own g \<inter> fifo_own f = {}" using assms(3) by blast
  note fr = fifo_frame[OF assms(2) mem r(1) this]
  have "fifo_own f' \<inter> fifo_own g = {}"
    using r(2) assms(3) fifo_own_below[OF assms(2) mem] by fastforce
  with fr show ?thesis by simp
qed

theorem fifo_separation_witness:
  "\<exists>m1 f m2 g m3 f'. mtdp_buffer_fifo_init default_config (mem_start (\<lambda>_. True)) fifo_blank = (True, m1, f) \<and>
    mtdp_buffer_fifo_init default_config m1 fifo_blank = (True, m2, g) \<and>
    run_calls (mtdp_buffer_fifo_push_back default_config) (fifo_take default_config) m2 f [Put (Ptr 1)] =
      Some ([Ptr 1], [], m3, f') \<and> fifo_inv default_config m3 g \<and> fifo_elems default_config m3 g = []"
proof -
  let ?c = default_config
  obtain m1 f where i: "mtdp_buffer_fifo_init ?c (mem_start (\<lambda>_. True)) fifo_blank = (True, m1, f)"
    by (simp add: fifo_code)
  note f1 = fifo_init_inv[OF default_config_ok mem_start_wf i]
  note fr1 = fifo_start_frame[OF mem_start_wf default_config_ok i]
  have av: "\<forall>n. avail m1 n" using fr1(4) by (simp add: mem_start_def)
  then obtain m2 g where j: "mtdp_buffer_fifo_init ?c m1 fifo_blank = (True, m2, g)"
    by (simp add: fifo_code)
  note g1 = fifo_init_inv[OF default_config_ok f1(4) j] and fr2 = fifo_start_frame[OF f1(4) default_config_ok j]
  have f2: "fifo_inv ?c m2 f"
    using fifo_frame[OF f1(1,4) g1(5)] by simp
  then have ok: "fifo_state_ok ?c m2 f" using g1(4) by (simp add: fifo_state_ok_def)
  have dj: "fifo_own f \<inter> fifo_own g = {}" using f1(3) g1(3) fr1(2) by simp
  have av2: "\<forall>n. avail m2 n" using av fr2(4) by simp
  obtain m3 f' where run: "run_calls (mtdp_buffer_fifo_push_back ?c) (fifo_take ?c) m2 f [Put (Ptr 1)] =
      Some ([Ptr 1], [], m3, f')"
    using fifo_pushes_accepted[OF ok av2, of "[Ptr 1]"] by auto
  from fifo_separation[OF ok g1(1) dj run] g1(2) i j run show ?thesis by auto
qed

section \<open>The pool\<close>

lemma pool_start: "pool_state_ok m m (mtdp_buffer_pool_init p)"
  by (simp add: pool_state_ok_def pool_arrays_def) (simp add: mtdp_buffer_pool_init_def)

text \<open>C37. The whole life of a pool of empty buffers. From initialisation on, every script of pushes
  and pops runs without undefined behaviour under any outcome of the allocator; no buffer is
  lost, duplicated or made up; destroying the pool gives back its array, so that nothing is
  left allocated.\<close>

theorem pool_lifetime:
  "\<exists>ins outs m1 p1 m2 p2.
    run_calls mtdp_buffer_pool_push_back pool_take m (mtdp_buffer_pool_init p) cs = Some (ins, outs, m1, p1) \<and>
    mset ins = mset outs + mset (pool_elems p1) \<and> mtdp_buffer_pool_size p1 = length ins - length outs \<and>
    mtdp_buffer_pool_destroy m1 p1 = (m2, p2) \<and> live m2 = live m \<and> heap m2 = heap m"
proof -
  obtain ins outs m1 p1 where r:
    "run_calls mtdp_buffer_pool_push_back pool_take m (mtdp_buffer_pool_init p) cs = Some (ins, outs, m1, p1)"
    "pool_state_ok m m1 p1"
    "mset (pool_elems (mtdp_buffer_pool_init p)) + mset ins = mset outs + mset (pool_elems p1)"
    using pool_lifo.bag.run_safe[OF pool_start] by blast
  obtain m2 p2 where d: "mtdp_buffer_pool_destroy m1 p1 = (m2, p2)" by fastforce
  have el: "mset ins = mset outs + mset (pool_elems p1)" using r(3) by simp
  then have "length ins = length outs + length (pool_elems p1)" by (metis size_mset size_union)
  moreover have "length (pool_elems p1) = psize p1" using r(2) by (simp add: pool_state_ok_def)
  ultimately have "mtdp_buffer_pool_size p1 = length ins - length outs" by (simp add: mtdp_buffer_pool_size_def)
  with r(1,2) el d pool_destroy_live[OF d] show ?thesis
    by (auto simp: pool_state_ok_def)
qed

text \<open>The pool is a stack: popping as many buffers as it holds returns them in the reverse of the
  order in which they lie, and leaves it empty.\<close>

theorem pool_drain:
  assumes "pool_inv p"
  shows "\<exists>m' p'. run_calls mtdp_buffer_pool_push_back pool_take m p (replicate (mtdp_buffer_pool_size p) Get) =
      Some ([], rev (pool_elems p), m', p') \<and> pool_elems p' = []"
proof -
  have "pool_state_ok (m\<lparr>live := live m - pool_arrays p\<rparr>) m p" using assms by (simp add: pool_state_ok_def)
  from pool_lifo.drain[OF this] show ?thesis using assms by (auto simp: mtdp_buffer_pool_size_def)
qed

theorem pool_drain_witness:
  "\<exists>m' p'. run_calls mtdp_buffer_pool_push_back pool_take (mem_start (\<lambda>_. True))
      \<lparr>buffers = Some [Some (Ptr 1), Some (Ptr 2), None], psize = 2, pcapacity = 3\<rparr>
      (replicate (mtdp_buffer_pool_size \<lparr>buffers = Some [Some (Ptr 1), Some (Ptr 2), None], psize = 2, pcapacity = 3\<rparr>) Get) =
    Some ([], [Ptr 2, Ptr 1], m', p') \<and> pool_elems p' = []"
proof -
  let ?p = "\<lparr>buffers = Some [Some (Ptr 1), Some (Ptr 2), None], psize = 2, pcapacity = 3\<rparr>"
  have "pool_inv ?p" "rev (pool_elems ?p) = [Ptr 2, Ptr 1]" by (simp_all add: pool_defs)
  with pool_drain[of ?p "mem_start (\<lambda>_. True)"] show ?thesis by simp
qed

text \<open>A push to the pool stores on top of the stack; it is refused exactly when the array is full
  and the allocator refuses the larger one, and then nothing changes. The array never grows
  beyond the greater of 16 and twice the new number of buffers.\<close>

theorem pool_push_spec:
  assumes "pool_inv p"
  shows "\<exists>ok m' p'. mtdp_buffer_pool_push_back m p e = Some (ok, m', p') \<and> pool_inv p' \<and>
    (ok \<longleftrightarrow> psize p < pcapacity p \<or> avail m (requests m)) \<and>
    (if ok then pool_elems p' = pool_elems p @ [e] else p' = p) \<and>
    pcapacity p' \<le> max (pcapacity p) (max 16 (2 * (psize p + 1)))"
  by (rule pool_push_back[OF assms, of m e]) auto

theorem pool_push_spec_witness:
  "\<exists>ok m' p'. mtdp_buffer_pool_push_back (mem_start (\<lambda>_. False)) (mtdp_buffer_pool_init pool_blank) NULL =
    Some (ok, m', p') \<and> \<not> ok \<and> p' = mtdp_buffer_pool_init pool_blank"
proof -
  have "psize (mtdp_buffer_pool_init pool_blank) = 0" "pcapacity (mtdp_buffer_pool_init pool_blank) = 0"
    "pool_inv (mtdp_buffer_pool_init pool_blank)" "\<not> avail (mem_start (\<lambda>_. False)) n" for n
    by (simp_all add: mtdp_buffer_pool_init_def mem_start_def) (simp add: pool_defs)
  with pool_push_spec[of "mtdp_buffer_pool_init pool_blank" "mem_start (\<lambda>_. False)" NULL]
  show ?thesis by auto
qed

text \<open>Growing a pool whose buffers are all present appends the new slots: the buffers already
  there keep their places, and size and capacity become the requested number. If the allocator
  refuses, the pool is untouched and the call reports failure.\<close>

theorem pool_resize_grows:
  assumes "pool_wf p" "psize p = pcapacity p" "pcapacity p < n"
  shows "\<exists>m' p'. mtdp_buffer_pool_resize m p n = Some (avail m (requests m), m', p') \<and>
    (if avail m (requests m) then pool_wf p' \<and> psize p' = n \<and> pcapacity p' = n \<and>
       take (psize p) (pool_slots p') = pool_slots p else p' = p)"
  by (rule pool_resize_grow[OF assms, of m]) auto

theorem pool_resize_grows_witness:
  "\<exists>m' p'. mtdp_buffer_pool_resize (mem_start (\<lambda>_. True)) (mtdp_buffer_pool_init pool_blank) 4 =
    Some (True, m', p') \<and> psize p' = 4"
proof -
  have "pool_wf (mtdp_buffer_pool_init pool_blank)" by (simp add: pool_wf_def mtdp_buffer_pool_init_def)
  moreover have "psize (mtdp_buffer_pool_init pool_blank) = 0" "pcapacity (mtdp_buffer_pool_init pool_blank) = 0"
    by (simp_all add: mtdp_buffer_pool_init_def)
  ultimately show ?thesis
    using pool_resize_grows[of "mtdp_buffer_pool_init pool_blank" 4 "mem_start (\<lambda>_. True)"]
    by (auto simp: mem_start_def)
qed

text \<open>Shrinking a pool twice corrupts it. A shrink lowers the size but not the capacity, and the
  next resize measures its distance from the capacity: after shrinking a full pool of \<open>c\<close>
  buffers to \<open>n\<close> and then to \<open>k\<close>, the size is \<open>n - (c - k)\<close>, which wraps around below zero
  when \<open>n + k < c\<close>; the size field then exceeds the array.\<close>

theorem pool_resize_shrink_twice:
  assumes p: "pool_wf p" "psize p = pcapacity p" "pcapacity p \<le> 2 ^ 32" and nk: "n + k < pcapacity p"
  shows "\<exists>p'. mtdp_buffer_pool_resize m p n = Some (True, m, p\<lparr>psize := n\<rparr>) \<and>
    mtdp_buffer_pool_resize m (p\<lparr>psize := n\<rparr>) k = Some (True, m, p') \<and>
    psize p' = 2 ^ 64 + n + k - pcapacity p \<and> \<not> pool_wf p'"
proof -
  have "mtdp_buffer_pool_resize m p n = Some (True, m, p\<lparr>psize := n\<rparr>)"
    using pool_resize_shrink[of n p m] p(2) nk by simp
  moreover have "mtdp_buffer_pool_resize m (p\<lparr>psize := n\<rparr>) k =
      Some (True, m, p\<lparr>psize := 2 ^ 64 + n + k - pcapacity p\<rparr>)"
    using pool_resize_shrink[of k "p\<lparr>psize := n\<rparr>" m] nk by (simp add: usub_wrap)
  moreover have "\<not> pool_wf (p\<lparr>psize := 2 ^ 64 + n + k - pcapacity p\<rparr>)"
  proof -
    have "\<not> 2 ^ 64 + n + k - pcapacity p \<le> pcapacity p" using p(3) by simp
    then show ?thesis by (simp add: pool_wf_def)
  qed
  ultimately show ?thesis by simp
qed

theorem pool_resize_shrink_twice_witness:
  "\<exists>p'. mtdp_buffer_pool_resize (mem_start (\<lambda>_. True))
      \<lparr>buffers = Some (replicate 8 (Some NULL)), psize = 3, pcapacity = 8\<rparr> 2 =
    Some (True, mem_start (\<lambda>_. True), p') \<and> psize p' = 18446744073709551613"
proof -
  let ?p = "\<lparr>buffers = Some (replicate 8 (Some NULL)), psize = 8, pcapacity = 8\<rparr>"
  have "pool_wf ?p" "psize ?p = pcapacity ?p" "pcapacity ?p \<le> 2 ^ 32" "3 + 2 < pcapacity ?p"
    by (simp_all add: pool_wf_def)
  from pool_resize_shrink_twice[OF this, of "mem_start (\<lambda>_. True)"] show ?thesis by auto
qed

end
