(* ===== verification/Mtdp_Errno.thy ===== *)
theory Mtdp_Errno
  imports Mtdp_Prelude
begin

text \<open>
  The error codes of \<open>include/mtdp/errno.h\<close> and the message table of \<open>src/errno.c\<close>. The
  thread-local location written through \<open>mtdp_errno_ptr_mutable\<close> is the errno component of
  the states of the callers.
\<close>

datatype mtdp_error =
    MTDP_OK | MTDP_NO_MEM | MTDP_ACTIVE | MTDP_ENABLED | MTDP_NOT_ENABLED | MTDP_BAD_PTR
  | MTDP_THRD_ERROR | MTDP_MTX_ERROR | MTDP_CND_ERROR

text \<open>The integer C gives each enumerator.\<close>

fun mtdp_error_code :: "mtdp_error \<Rightarrow> nat" where
  "mtdp_error_code MTDP_OK = 0"
| "mtdp_error_code MTDP_NO_MEM = 1"
| "mtdp_error_code MTDP_ACTIVE = 2"
| "mtdp_error_code MTDP_ENABLED = 3"
| "mtdp_error_code MTDP_NOT_ENABLED = 4"
| "mtdp_error_code MTDP_BAD_PTR = 5"
| "mtdp_error_code MTDP_THRD_ERROR = 6"
| "mtdp_error_code MTDP_MTX_ERROR = 7"
| "mtdp_error_code MTDP_CND_ERROR = 8"

lemma mtdp_error_code_inj [simp]: "mtdp_error_code a = mtdp_error_code b \<longleftrightarrow> a = b"
  by (cases a; cases b) simp_all

instantiation mtdp_error :: linorder
begin

definition less_eq_mtdp_error :: "mtdp_error \<Rightarrow> mtdp_error \<Rightarrow> bool" where
  "less_eq_mtdp_error a b \<longleftrightarrow> mtdp_error_code a \<le> mtdp_error_code b"

definition less_mtdp_error :: "mtdp_error \<Rightarrow> mtdp_error \<Rightarrow> bool" where
  "less_mtdp_error a b \<longleftrightarrow> mtdp_error_code a < mtdp_error_code b"

instance
  by standard (auto simp: less_eq_mtdp_error_def less_mtdp_error_def)

end

text \<open>\<open>mtdp_strerror\<close> takes any value of the enum's integer type; one that is no enumerator
  falls to the \<open>default\<close> label.\<close>

definition mtdp_strerror :: "nat \<Rightarrow> string" where
  "mtdp_strerror e =
    (if e = mtdp_error_code MTDP_OK then ''ok''
     else if e = mtdp_error_code MTDP_NO_MEM then ''no memory error''
     else if e = mtdp_error_code MTDP_ACTIVE then ''pipeline is active''
     else if e = mtdp_error_code MTDP_ENABLED then ''pipeline is enabled''
     else if e = mtdp_error_code MTDP_NOT_ENABLED then ''pipeline is not enabled''
     else if e = mtdp_error_code MTDP_BAD_PTR then ''bad handle''
     else if e = mtdp_error_code MTDP_THRD_ERROR then ''thrd error''
     else if e = mtdp_error_code MTDP_MTX_ERROR then ''mtx error''
     else if e = mtdp_error_code MTDP_CND_ERROR then ''cnd error''
     else ''errno error'')"

lemma mtdp_strerror_default: "8 < e \<Longrightarrow> mtdp_strerror e = ''errno error''"
  by (simp add: mtdp_strerror_def)

lemma mtdp_strerror_not_default: "mtdp_strerror (mtdp_error_code e) \<noteq> ''errno error''"
  by (cases e) (simp_all add: mtdp_strerror_def)

lemma mtdp_strerror_code_inj:
  "mtdp_strerror (mtdp_error_code a) = mtdp_strerror (mtdp_error_code b) \<longleftrightarrow> a = b"
  by (cases a; cases b) (simp_all add: mtdp_strerror_def)

lemma mtdp_strerror_is_default: "mtdp_strerror k = ''errno error'' \<longleftrightarrow> 8 < k"
proof (cases "8 < k")
  case False
  then consider "k = 0" | "k = 1" | "k = 2" | "k = 3" | "k = 4" | "k = 5" | "k = 6" | "k = 7" | "k = 8" by linarith
  then show ?thesis by cases (simp_all add: mtdp_strerror_def)
qed (simp add: mtdp_strerror_def)

text \<open>The message table is complete and unambiguous: each enumerator has a message of its own,
  and the fallback message is given exactly to the values that are no enumerator.\<close>

theorem mtdp_strerror_table:
  "(mtdp_strerror (mtdp_error_code a) = mtdp_strerror (mtdp_error_code b) \<longleftrightarrow> a = b) \<and>
   (mtdp_strerror k = ''errno error'' \<longleftrightarrow> (\<nexists>e. mtdp_error_code e = k))"
proof -
  have "(\<exists>e. mtdp_error_code e = k) \<longleftrightarrow> k \<le> 8"
  proof
    show "\<exists>e. mtdp_error_code e = k \<Longrightarrow> k \<le> 8"
    proof -
      assume "\<exists>e. mtdp_error_code e = k"
      then obtain e where "mtdp_error_code e = k" ..
      then show ?thesis by (cases e) auto
    qed
    assume "k \<le> 8"
    then consider "k = 0" | "k = 1" | "k = 2" | "k = 3" | "k = 4" | "k = 5" | "k = 6" | "k = 7" | "k = 8" by linarith
    then show "\<exists>e. mtdp_error_code e = k" by cases (metis mtdp_error_code.simps)+
  qed
  then show ?thesis by (auto simp: mtdp_strerror_code_inj mtdp_strerror_is_default)
qed

end
