(* ===== verification/Pipe.thy ===== *)
theory Pipe
  imports Mtdp_Errno Buffer_Pool Fifo_Correct
begin

text \<open>
  The pipes of \<open>src/pipe.c\<close> (\<open>struct mtdp_pipe\<close> of \<open>src/impl/pipe.h\<close>): a pool of empty buffers
  and a FIFO of full ones, each under its own mutex, and the semaphore that counts the buffers
  pushed. Every operation here is one critical section (or, for the ones that take both
  mutexes, one critical section under both; the locking loop \<open>mtdp_lock2\<close> is the theory
  Lock2), so it is a function of the pipe. The assertions are the predicate
  \<open>mtdp_pipe_check_invariants\<close>; they are compiled out in release builds, so they are not part
  of the operations but results about them. A self pointer that may be null is an \<open>option\<close>.
\<close>

section \<open>State and operations\<close>

record mtdp_pipe =
  total_buffers :: nat
  pool :: mtdp_buffer_pool
  fifo :: mtdp_buffer_fifo
  semaphore :: nat

text \<open>The pointer to the pool's array that \<open>mtdp_pipe_resize\<close> and \<open>mtdp_pipe_buffers\<close> return;
  \<open>PoolPtr None\<close> is the indeterminate value of a \<open>buffers\<close> field that was never set.\<close>

datatype pool_ptr = NullPtr | PoolPtr "slot list option"

definition mtdp_pipe_check_invariants :: "mtdp_pipe \<Rightarrow> bool" where
  "mtdp_pipe_check_invariants p =
    (let total = fsize (fifo p) + psize (pool p)
     in total_buffers p = total \<or> total_buffers p = total + 1 \<or> total_buffers p = total + 2)"

text \<open>The casts to \<open>ptrdiff_t\<close> are exact for sizes below \<open>2 ^ 63\<close>, the range for which the definition speaks; an array
  of that many pointers does not fit into the address space, so no pool of the program gets there.\<close>

definition mtdp_pipe_resize ::
  "fifo_config \<Rightarrow> mem \<Rightarrow> mtdp_pipe option \<Rightarrow> nat \<Rightarrow> (pool_ptr \<times> mtdp_error \<times> mem \<times> mtdp_pipe option) option" where
  "mtdp_pipe_resize cfg m self n_buffers =
    (case self of
       None \<Rightarrow> Some (NullPtr, MTDP_BAD_PTR, m, None)
     | Some p \<Rightarrow> do {
         let empty = mtdp_buffer_pool_size (pool p);
         let nonempty = 0 + mtdp_buffer_fifo_size (fifo p);
         let total = nonempty + empty;
         let delta = int n_buffers - int total;
         (ret, err, m, p) \<leftarrow>
           (if 0 < delta then do {
              (ok, m, pl) \<leftarrow> mtdp_buffer_pool_resize m (pool p) (uadds empty delta);
              let p = p\<lparr>pool := pl\<rparr>;
              if \<not> ok then Some (NullPtr, MTDP_NO_MEM, m, p)
              else Some (PoolPtr (buffers (pool p)), MTDP_OK, m, p) }
            else if delta < 0 then do {
              (m, p) \<leftarrow>
                (if nat (- delta) \<le> empty then do {
                   (_, m, pl) \<leftarrow> mtdp_buffer_pool_resize m (pool p) (uadds empty delta);
                   let p = p\<lparr>pool := pl\<rparr>;
                   if nat (- delta) \<le> total then do {
                     f \<leftarrow> for_up 0 (uadds total delta)
                            (\<lambda>i f. do { (_, _, f) \<leftarrow> mtdp_buffer_fifo_pop_front cfg m f None; Some f }) (fifo p);
                     Some (m, p\<lparr>fifo := f\<rparr>) }
                   else Some (m, p) }
                 else Some (m, p));
              Some (PoolPtr (buffers (pool p)), MTDP_OK, m, p) }
            else Some (PoolPtr (buffers (pool p)), MTDP_OK, m, p));
         Some (ret, err, m, Some (p\<lparr>total_buffers := n_buffers\<rparr>)) })"

definition mtdp_pipe_buffers :: "mtdp_pipe option \<Rightarrow> pool_ptr \<times> mtdp_error" where
  "mtdp_pipe_buffers self =
    (case self of None \<Rightarrow> (NullPtr, MTDP_BAD_PTR) | Some p \<Rightarrow> (PoolPtr (buffers (pool p)), MTDP_OK))"

text \<open>\<open>tmp\<close> is the local variable of the loop; the results of the two calls are ignored.\<close>

definition pipe_clear_step ::
  "fifo_config \<Rightarrow> mem \<times> mtdp_pipe \<times> mtdp_buffer \<Rightarrow> (mem \<times> mtdp_pipe \<times> mtdp_buffer) option" where
  "pipe_clear_step cfg s = (case s of (m, p, tmp) \<Rightarrow> do {
     (_, tmp, f) \<leftarrow> mtdp_buffer_fifo_pop_front cfg m (fifo p) (Some tmp);
     tmp \<leftarrow> tmp;
     (_, m, pl) \<leftarrow> mtdp_buffer_pool_push_back m (pool p) tmp;
     Some (m, p\<lparr>fifo := f, pool := pl\<rparr>, tmp) })"

definition mtdp_pipe_clear :: "fifo_config \<Rightarrow> mem \<Rightarrow> mtdp_pipe option \<Rightarrow> (mem \<times> mtdp_pipe option) option" where
  "mtdp_pipe_clear cfg m self =
    (case self of
       None \<Rightarrow> Some (m, None)
     | Some p \<Rightarrow> do {
         (m, p, _) \<leftarrow> for_up 0 (mtdp_buffer_fifo_size (fifo p)) (\<lambda>i. pipe_clear_step cfg) (m, p, NULL);
         Some (m, Some p) })"

definition mtdp_pipe_init :: "fifo_config \<Rightarrow> mem \<Rightarrow> mtdp_pipe \<Rightarrow> (bool \<times> mem \<times> mtdp_pipe) option" where
  "mtdp_pipe_init cfg m p =
    (let p = p\<lparr>pool := mtdp_buffer_pool_init (pool p)\<rparr> in
     case sync_init m of (pool_mutex, m) \<Rightarrow>
     if \<not> pool_mutex then Some (False, m, p) else
     case sync_init m of (fifo_mutex, m) \<Rightarrow>
     if \<not> fifo_mutex then Some (False, sync_destroy m, p) else
     case mtdp_buffer_fifo_init cfg m (fifo p) of (fifo_ok, m, f) \<Rightarrow>
     let p = p\<lparr>fifo := f\<rparr> in
     if \<not> fifo_ok then Some (False, sync_destroy (sync_destroy m), p) else
     case sync_init m of (sem_ok, m) \<Rightarrow>
     if \<not> sem_ok then do {
       (m, f) \<leftarrow> mtdp_buffer_fifo_destroy (sync_destroy (sync_destroy m)) (fifo p);
       Some (False, m, p\<lparr>fifo := f\<rparr>) }
     else Some (True, m, p\<lparr>semaphore := 0\<rparr>))"

definition mtdp_pipe_destroy :: "mem \<Rightarrow> mtdp_pipe \<Rightarrow> (mem \<times> mtdp_pipe) option" where
  "mtdp_pipe_destroy m p =
    (let m = sync_destroy (sync_destroy m) in
     case mtdp_buffer_pool_destroy m (pool p) of (m, pl) \<Rightarrow> do {
       (m, f) \<leftarrow> mtdp_buffer_fifo_destroy m (fifo p);
       Some (sync_destroy m, p\<lparr>pool := pl, fifo := f\<rparr>) })"

definition mtdp_pipe_get_empty_buffer :: "mtdp_pipe \<Rightarrow> (mtdp_buffer \<times> mtdp_pipe) option" where
  "mtdp_pipe_get_empty_buffer p = do {
     (out, pl) \<leftarrow> mtdp_buffer_pool_pop_back (pool p);
     Some (out, p\<lparr>pool := pl\<rparr>) }"

definition mtdp_pipe_push_buffer ::
  "fifo_config \<Rightarrow> mem \<Rightarrow> mtdp_pipe \<Rightarrow> mtdp_buffer \<Rightarrow> (bool \<times> mem \<times> mtdp_pipe) option" where
  "mtdp_pipe_push_buffer cfg m p buf = do {
     (out, m, f) \<leftarrow> mtdp_buffer_fifo_push_back cfg m (fifo p) buf;
     Some (out, m, p\<lparr>fifo := f\<rparr>) }"

definition mtdp_pipe_get_full_buffer ::
  "fifo_config \<Rightarrow> mem \<Rightarrow> mtdp_pipe \<Rightarrow> (mtdp_buffer \<times> mtdp_pipe) option" where
  "mtdp_pipe_get_full_buffer cfg m p = do {
     (_, out, f) \<leftarrow> mtdp_buffer_fifo_pop_front cfg m (fifo p) (Some NULL);
     out \<leftarrow> out;
     Some (out, p\<lparr>fifo := f\<rparr>) }"

definition mtdp_pipe_put_back ::
  "mem \<Rightarrow> mtdp_pipe \<Rightarrow> mtdp_buffer \<Rightarrow> (bool \<times> mem \<times> mtdp_pipe) option" where
  "mtdp_pipe_put_back m p buf = do {
     (out, m, pl) \<leftarrow> mtdp_buffer_pool_push_back m (pool p) buf;
     Some (out, m, p\<lparr>pool := pl\<rparr>) }"

text \<open>A pointer to a pipe is its index in the vector of pipes.\<close>

definition mtdp_pipe_next :: "nat \<Rightarrow> nat" where
  "mtdp_pipe_next pipe = pipe + 1"

lemma mtdp_pipe_next_Suc [simp]: "mtdp_pipe_next pipe = Suc pipe"
  by (simp add: mtdp_pipe_next_def)

text \<open>\<open>mtdp_semaphore_release\<close> posts \<open>amount\<close> times; a successful
  \<open>mtdp_semaphore_try_acquire_for\<close> takes one unit. A timed wait fails only if the count is
  zero, and then only by the deadline (\<open>src/sem.h\<close>).\<close>

definition mtdp_semaphore_release :: "mtdp_pipe \<Rightarrow> nat \<Rightarrow> mtdp_pipe" where
  "mtdp_semaphore_release p amount = ((\<lambda>p. p\<lparr>semaphore := semaphore p + 1\<rparr>) ^^ amount) p"

definition mtdp_semaphore_try_acquire_for :: "mtdp_pipe \<Rightarrow> bool \<times> mtdp_pipe" where
  "mtdp_semaphore_try_acquire_for p =
    (if 0 < semaphore p then (True, p\<lparr>semaphore := semaphore p - 1\<rparr>) else (False, p))"

section \<open>Invariant and contents\<close>

definition pipe_inv :: "fifo_config \<Rightarrow> mem \<Rightarrow> mtdp_pipe \<Rightarrow> bool" where
  "pipe_inv cfg m p \<longleftrightarrow> config_ok cfg \<and> mem_wf m \<and> pool_inv (pool p) \<and> fifo_inv cfg m (fifo p)"

text \<open>The buffers a pipe holds.\<close>

definition pipe_content :: "fifo_config \<Rightarrow> mem \<Rightarrow> mtdp_pipe \<Rightarrow> mtdp_buffer multiset" where
  "pipe_content cfg m p = mset (pool_elems (pool p)) + mset (fifo_elems cfg m (fifo p))"

lemma size_pipe_content:
  "pipe_inv cfg m p \<Longrightarrow> size (pipe_content cfg m p) = psize (pool p) + fsize (fifo p)"
  by (simp add: pipe_inv_def pipe_content_def)

lemma pipe_invD:
  "pipe_inv cfg m p \<Longrightarrow> config_ok cfg" "pipe_inv cfg m p \<Longrightarrow> mem_wf m"
  "pipe_inv cfg m p \<Longrightarrow> pool_inv (pool p)" "pipe_inv cfg m p \<Longrightarrow> fifo_inv cfg m (fifo p)"
  by (simp_all add: pipe_inv_def)

section \<open>The four buffer movements\<close>

text \<open>A move out of the pool: the last empty buffer, or \<open>NULL\<close> if there is none.\<close>

lemma pipe_get_empty_buffer:
  assumes inv: "pipe_inv cfg m p"
  obtains b p' where "mtdp_pipe_get_empty_buffer p = Some (b, p')" "pipe_inv cfg m p'"
    "psize (pool p) = 0 \<longrightarrow> b = NULL \<and> p' = p"
    "psize (pool p) \<noteq> 0 \<longrightarrow> pool_elems (pool p) = pool_elems (pool p') @ [b]"
    "fifo p' = fifo p" "semaphore p' = semaphore p" "total_buffers p' = total_buffers p"
    "pcapacity (pool p') = pcapacity (pool p)"
proof -
  note pl = pipe_invD(3)[OF inv]
  obtain pl' where r: "mtdp_buffer_pool_pop_back (pool p) =
      Some (if pool_elems (pool p) = [] then NULL else last (pool_elems (pool p)), pl')"
    "pool_inv pl'" "pool_elems pl' = butlast (pool_elems (pool p))"
    "pcapacity pl' = pcapacity (pool p)" "pool_elems (pool p) = [] \<longrightarrow> pl' = pool p"
    by (rule pool_pop_back[OF pl])
  have z: "psize (pool p) = 0 \<longleftrightarrow> pool_elems (pool p) = []"
    using length_pool_elems[OF pl] by (metis length_0_conv)
  show ?thesis
  proof (rule that)
    show "mtdp_pipe_get_empty_buffer p =
      Some (if pool_elems (pool p) = [] then NULL else last (pool_elems (pool p)), p\<lparr>pool := pl'\<rparr>)"
      using r(1) by (simp add: mtdp_pipe_get_empty_buffer_def)
    show "pipe_inv cfg m (p\<lparr>pool := pl'\<rparr>)" using inv r(2) by (simp add: pipe_inv_def)
  qed (use r z in auto)
qed

text \<open>A move into the FIFO. The other pipes of the same memory are not affected.\<close>

lemma pipe_push_buffer:
  assumes inv: "pipe_inv cfg m p"
  obtains ok m' p' where "mtdp_pipe_push_buffer cfg m p b = Some (ok, m', p')" "pipe_inv cfg m' p'"
    "fifo_elems cfg m' (fifo p') =
       (if ok then fifo_elems cfg m (fifo p) @ [b] else fifo_elems cfg m (fifo p))"
    "pool p' = pool p" "semaphore p' = semaphore p" "total_buffers p' = total_buffers p"
    "mem_frame (fifo_own (fifo p)) m m'" "fifo_own (fifo p') \<subseteq> fifo_own (fifo p) \<union> {brk m..<brk m'}"
    "(\<forall>n. avail m n) \<longrightarrow> ok" "live m' = live m" "fifo_own (fifo p) \<subseteq> fifo_own (fifo p')"
proof -
  obtain ok m' f' where r: "mtdp_buffer_fifo_push_back cfg m (fifo p) b = Some (ok, m', f')"
    "fifo_inv cfg m' f'"
    "fifo_elems cfg m' f' = (if ok then fifo_elems cfg m (fifo p) @ [b] else fifo_elems cfg m (fifo p))"
    "mem_wf m'" "mem_frame (fifo_own (fifo p)) m m'" "fifo_own f' \<subseteq> fifo_own (fifo p) \<union> {brk m..<brk m'}"
    "live m' = live m" "\<not> ok \<longrightarrow> fsize (fifo p) = bsize (blocks (fifo p)) * BLOCK_SIZE cfg"
    "avail m (requests m) \<longrightarrow> avail m (requests m + 1) \<longrightarrow> ok" "fifo_own (fifo p) \<subseteq> fifo_own f'"
    by (rule fifo_push_back[OF pipe_invD(4,2,1)[OF inv], where e = b])
  show ?thesis
  proof (rule that[of ok m' "p\<lparr>fifo := f'\<rparr>"])
    show "mtdp_pipe_push_buffer cfg m p b = Some (ok, m', p\<lparr>fifo := f'\<rparr>)"
      using r(1) by (simp add: mtdp_pipe_push_buffer_def)
    show "pipe_inv cfg m' (p\<lparr>fifo := f'\<rparr>)" using inv r by (simp add: pipe_inv_def)
  qed (use r in auto)
qed

text \<open>A move out of the FIFO: the oldest full buffer, or \<open>NULL\<close> if there is none.\<close>

lemma pipe_get_full_buffer:
  assumes inv: "pipe_inv cfg m p"
  obtains b p' where "mtdp_pipe_get_full_buffer cfg m p = Some (b, p')" "pipe_inv cfg m p'"
    "fsize (fifo p) = 0 \<longrightarrow> b = NULL \<and> p' = p"
    "fsize (fifo p) \<noteq> 0 \<longrightarrow> fifo_elems cfg m (fifo p) = b # fifo_elems cfg m (fifo p')"
    "pool p' = pool p" "semaphore p' = semaphore p" "total_buffers p' = total_buffers p"
    "fifo_own (fifo p') = fifo_own (fifo p)"
proof (cases "fsize (fifo p) = 0")
  case True
  then show ?thesis using inv
    by (intro that[of NULL p]) (simp_all add: mtdp_pipe_get_full_buffer_def fifo_pop_empty)
next
  case False
  obtain f' where r: "mtdp_buffer_fifo_pop_front cfg m (fifo p) (Some NULL) =
      Some (True, Some (hd (fifo_elems cfg m (fifo p))), f')" "fifo_inv cfg m f'"
    "fifo_elems cfg m f' = tl (fifo_elems cfg m (fifo p))" "fifo_own f' = fifo_own (fifo p)"
    by (rule fifo_pop_front[OF pipe_invD(4)[OF inv] False, where r = NULL])
  have "fifo_elems cfg m (fifo p) \<noteq> []" using False by simp
  with r inv False show ?thesis
    by (intro that[of "hd (fifo_elems cfg m (fifo p))" "p\<lparr>fifo := f'\<rparr>"])
       (simp_all add: mtdp_pipe_get_full_buffer_def pipe_inv_def)
qed

text \<open>A move into the pool: as long as its array has a free slot it needs no memory and cannot
  be refused.\<close>

lemma pipe_inv_mem_cong:
  "heap m' = heap m \<Longrightarrow> brk m' = brk m \<Longrightarrow> fifo_inv cfg m f \<Longrightarrow> mem_wf m \<Longrightarrow>
     fifo_inv cfg m' f \<and> fifo_elems cfg m' f = fifo_elems cfg m f \<and> mem_wf m'"
  using fifo_relayout[of cfg m f f m'] fifo_blocks_wfD(3,4)[OF fifo_invD(1)]
  by (simp add: mem_wf_def)

lemma pipe_put_back:
  assumes inv: "pipe_inv cfg m p"
  obtains ok m' p' where "mtdp_pipe_put_back m p b = Some (ok, m', p')" "pipe_inv cfg m' p'"
    "pool_elems (pool p') = (if ok then pool_elems (pool p) @ [b] else pool_elems (pool p))"
    "fifo p' = fifo p" "fifo_elems cfg m' (fifo p') = fifo_elems cfg m (fifo p)"
    "semaphore p' = semaphore p" "total_buffers p' = total_buffers p"
    "psize (pool p) < pcapacity (pool p) \<longrightarrow> ok \<and> m' = m \<and> pcapacity (pool p') = pcapacity (pool p)"
    "heap m' = heap m" "brk m' = brk m" "avail m' = avail m"
proof -
  obtain ok m' pl where r: "mtdp_buffer_pool_push_back m (pool p) b = Some (ok, m', pl)"
    "pool_inv pl" "pool_elems pl = (if ok then pool_elems (pool p) @ [b] else pool_elems (pool p))"
    "ok \<longleftrightarrow> psize (pool p) < pcapacity (pool p) \<or> avail m (requests m)"
    "heap m' = heap m" "brk m' = brk m" "avail m' = avail m"
    "psize (pool p) < pcapacity (pool p) \<longrightarrow> m' = m \<and> pcapacity pl = pcapacity (pool p)"
    using pool_push_back[OF pipe_invD(3)[OF inv], of m b] by metis
  have f: "fifo_inv cfg m' (fifo p)" "fifo_elems cfg m' (fifo p) = fifo_elems cfg m (fifo p)" "mem_wf m'"
    using pipe_inv_mem_cong[OF r(5,6) pipe_invD(4,2)[OF inv]] by auto
  show ?thesis
  proof (rule that[of ok m' "p\<lparr>pool := pl\<rparr>"])
    show "mtdp_pipe_put_back m p b = Some (ok, m', p\<lparr>pool := pl\<rparr>)"
      using r(1) by (simp add: mtdp_pipe_put_back_def)
    show "pipe_inv cfg m' (p\<lparr>pool := pl\<rparr>)" using inv r(2) f by (simp add: pipe_inv_def)
  qed (use r f in auto)
qed

section \<open>Clearing a pipe\<close>

text \<open>When the pool's array can hold every buffer of the pipe, clearing moves the whole FIFO, in
  order, on top of the pool, with no allocation. The semaphore keeps its count.\<close>

lemma pipe_clear:
  assumes inv: "pipe_inv cfg m p" and cap: "psize (pool p) + fsize (fifo p) \<le> pcapacity (pool p)"
  obtains p' where "mtdp_pipe_clear cfg m (Some p) = Some (m, Some p')" "pipe_inv cfg m p'"
    "pool_elems (pool p') = pool_elems (pool p) @ fifo_elems cfg m (fifo p)" "fsize (fifo p') = 0"
    "semaphore p' = semaphore p" "total_buffers p' = total_buffers p"
    "pcapacity (pool p') = pcapacity (pool p)" "fifo_own (fifo p') = fifo_own (fifo p)"
proof -
  let ?n = "fsize (fifo p)" and ?pl = "pool_elems (pool p)" and ?ff = "fifo_elems cfg m (fifo p)"
  define P where "P k s \<longleftrightarrow> (\<exists>q tmp. s = (m, q, tmp) \<and> pipe_inv cfg m q \<and>
     pool_elems (pool q) = ?pl @ take k ?ff \<and> fifo_elems cfg m (fifo q) = drop k ?ff \<and>
     semaphore q = semaphore p \<and> total_buffers q = total_buffers p \<and>
     pcapacity (pool q) = pcapacity (pool p) \<and> fifo_own (fifo q) = fifo_own (fifo p))"
    for k :: nat and s :: "mem \<times> mtdp_pipe \<times> mtdp_buffer"
  have step: "\<exists>s'. pipe_clear_step cfg s = Some s' \<and> P (Suc k) s'" if k: "k < ?n" and Ps: "P k s" for k s
  proof -
    from Ps obtain q tmp where q: "s = (m, q, tmp)" "pipe_inv cfg m q"
      "pool_elems (pool q) = ?pl @ take k ?ff" "fifo_elems cfg m (fifo q) = drop k ?ff"
      "semaphore q = semaphore p" "total_buffers q = total_buffers p"
      "pcapacity (pool q) = pcapacity (pool p)" "fifo_own (fifo q) = fifo_own (fifo p)"
      by (auto simp: P_def)
    have fs: "fsize (fifo q) = ?n - k" using arg_cong[OF q(4), of length] by simp
    then have ne: "fsize (fifo q) \<noteq> 0" using k by simp
    have "psize (pool q) = length (pool_elems (pool q))"
      using length_pool_elems[OF pipe_invD(3)[OF q(2)]] by simp
    then have ps: "psize (pool q) = psize (pool p) + k"
      unfolding q(3) using length_pool_elems[OF pipe_invD(3)[OF inv]] k by simp
    obtain f' where f': "mtdp_buffer_fifo_pop_front cfg m (fifo q) (Some tmp) =
        Some (True, Some (hd (fifo_elems cfg m (fifo q))), f')" "fifo_inv cfg m f'"
      "fifo_elems cfg m f' = tl (fifo_elems cfg m (fifo q))" "fifo_own f' = fifo_own (fifo q)"
      by (rule fifo_pop_front[OF pipe_invD(4)[OF q(2)] ne, where r = tmp])
    have hd: "hd (fifo_elems cfg m (fifo q)) = ?ff ! k" "tl (fifo_elems cfg m (fifo q)) = drop (Suc k) ?ff"
      using q(4) k by (simp_all add: hd_drop_conv_nth drop_Suc tl_drop)
    have "psize (pool q) < pcapacity (pool q)" using ps k cap q(7) by simp
    then obtain pl where pl: "mtdp_buffer_pool_push_back m (pool q) (?ff ! k) = Some (True, m, pl)" "pool_inv pl"
      "pool_elems pl = pool_elems (pool q) @ [?ff ! k]" "pcapacity pl = pcapacity (pool q)"
      by (rule pool_push_store[OF pipe_invD(3)[OF q(2)], where e = "?ff ! k"])
    have "pipe_clear_step cfg s = Some (m, q\<lparr>fifo := f', pool := pl\<rparr>, ?ff ! k)"
      using f'(1) pl(1) hd(1) by (simp add: pipe_clear_step_def q(1))
    moreover have "P (Suc k) (m, q\<lparr>fifo := f', pool := pl\<rparr>, ?ff ! k)"
      using q(2,3,5-8) f'(2-4) pl(2-4) hd k
      by (simp add: P_def pipe_inv_def take_Suc_conv_app_nth)
    ultimately show ?thesis by blast
  qed
  have "P 0 (m, p, NULL)" using inv by (simp add: P_def)
  from for_up_rule[of P "(m, p, NULL)" ?n "\<lambda>i. pipe_clear_step cfg" 0, OF this step]
  obtain s where s: "for_up 0 ?n (\<lambda>i. pipe_clear_step cfg) (m, p, NULL) = Some s" "P ?n s" by blast
  then obtain q tmp where q: "s = (m, q, tmp)" "pipe_inv cfg m q"
    "pool_elems (pool q) = ?pl @ take ?n ?ff" "fifo_elems cfg m (fifo q) = drop ?n ?ff"
    "semaphore q = semaphore p" "total_buffers q = total_buffers p"
    "pcapacity (pool q) = pcapacity (pool p)" "fifo_own (fifo q) = fifo_own (fifo p)"
    by (auto simp: P_def)
  have "fsize (fifo q) = 0" using arg_cong[OF q(4), of length] by simp
  with s(1) q show ?thesis
    by (intro that[of q]) (simp_all add: mtdp_pipe_clear_def mtdp_buffer_fifo_size_def)
qed

section \<open>Resizing a pipe\<close>

text \<open>An idle pipe: every buffer is in the pool and the pool's array is exactly full, as after
  initialisation or a previous growth.\<close>

definition pipe_idle :: "mtdp_pipe \<Rightarrow> bool" where
  "pipe_idle p \<longleftrightarrow> pool_wf (pool p) \<and> psize (pool p) = pcapacity (pool p) \<and> fsize (fifo p) = 0"

lemma pipe_resize_grow:
  assumes idle: "pipe_idle p" and n: "psize (pool p) < n"
  obtains ok m' p' where "mtdp_pipe_resize cfg m (Some p) n = Some (if ok then PoolPtr (buffers (pool p')) else NullPtr,
       if ok then MTDP_OK else MTDP_NO_MEM, m', Some p')"
    "ok = avail m (requests m)" "ok \<longrightarrow> pipe_idle p' \<and> psize (pool p') = n \<and>
       take (psize (pool p)) (pool_slots (pool p')) = pool_slots (pool p)"
    "total_buffers p' = n" "fifo p' = fifo p" "\<not> ok \<longrightarrow> pool p' = pool p" "heap m' = heap m"
proof -
  obtain ok m' pl where r: "mtdp_buffer_pool_resize m (pool p) n = Some (ok, m', pl)"
    "ok = avail m (requests m)" "heap m' = heap m" "brk m' = brk m" "avail m' = avail m"
    "\<not> ok \<longrightarrow> pl = pool p"
    "ok \<longrightarrow> pool_wf pl \<and> psize pl = n \<and> pcapacity pl = n \<and>
       take (psize (pool p)) (pool_slots pl) = pool_slots (pool p)"
    by (rule pool_resize_grow[of "pool p" n m]) (use idle n in \<open>auto simp: pipe_idle_def\<close>)
  have "uadds (psize (pool p)) (int n - int (psize (pool p))) = n" by (subst uadds_nonneg) auto
  with r(1) n idle have "mtdp_pipe_resize cfg m (Some p) n =
      Some (if ok then PoolPtr (buffers pl) else NullPtr, if ok then MTDP_OK else MTDP_NO_MEM, m',
        Some (p\<lparr>pool := pl, total_buffers := n\<rparr>))"
    by (cases ok) (simp_all add: mtdp_pipe_resize_def Let_def mtdp_buffer_pool_size_def
        mtdp_buffer_fifo_size_def pipe_idle_def)
  with r idle show ?thesis
    by (intro that[of ok "p\<lparr>pool := pl, total_buffers := n\<rparr>" m']) (auto simp: pipe_idle_def)
qed

lemma pop_loop_empty:
  "fsize f = 0 \<Longrightarrow>
     for_up i n (\<lambda>i f. do { (_, _, f) \<leftarrow> mtdp_buffer_fifo_pop_front cfg m f None; Some f }) f = Some f"
  by (induction n arbitrary: i) (simp_all add: fifo_pop_empty)

text \<open>Any shrink of a pipe with an empty FIFO: the new pool size is the old one minus the distance
  of the request to the pool's capacity.\<close>

lemma pipe_resize_shrink:
  assumes "fsize (fifo p) = 0" "n < psize (pool p)" "psize (pool p) \<le> pcapacity (pool p)"
  shows "mtdp_pipe_resize cfg m (Some p) n = Some (PoolPtr (buffers (pool p)), MTDP_OK, m,
    Some (p\<lparr>pool := (pool p)\<lparr>psize := usub (psize (pool p)) (pcapacity (pool p) - n)\<rparr>, total_buffers := n\<rparr>))"
proof -
  have "uadds (psize (pool p)) (int n - int (psize (pool p))) = n" by (subst uadds_nonneg) auto
  moreover have "mtdp_buffer_pool_resize m (pool p) n =
      Some (True, m, (pool p)\<lparr>psize := usub (psize (pool p)) (pcapacity (pool p) - n)\<rparr>)"
    by (rule pool_resize_shrink) (use assms in simp)
  ultimately show ?thesis using assms
    by (simp add: mtdp_pipe_resize_def Let_def mtdp_buffer_pool_size_def mtdp_buffer_fifo_size_def
        pop_loop_empty)
qed

lemma pipe_resize_grow_within:
  assumes "fsize (fifo p) = 0" "psize (pool p) < n" "n < pcapacity (pool p)"
  shows "mtdp_pipe_resize cfg m (Some p) n = Some (PoolPtr (buffers (pool p)), MTDP_OK, m,
    Some (p\<lparr>pool := (pool p)\<lparr>psize := usub (psize (pool p)) (pcapacity (pool p) - n)\<rparr>, total_buffers := n\<rparr>))"
proof -
  have "uadds (psize (pool p)) (int n - int (psize (pool p))) = n" by (subst uadds_nonneg) auto
  moreover have "mtdp_buffer_pool_resize m (pool p) n =
      Some (True, m, (pool p)\<lparr>psize := usub (psize (pool p)) (pcapacity (pool p) - n)\<rparr>)"
    by (rule pool_resize_shrink) (use assms in simp)
  ultimately show ?thesis using assms
    by (simp add: mtdp_pipe_resize_def Let_def mtdp_buffer_pool_size_def mtdp_buffer_fifo_size_def)
qed

text \<open>A shrink while buffers are in the FIFO pops through a null pointer.\<close>

lemma pipe_resize_shrink_fault:
  assumes inv: "fifo_inv cfg m (fifo p)" and ne: "fsize (fifo p) \<noteq> 0"
    and n: "0 < n" "n < psize (pool p) + fsize (fifo p)" "fsize (fifo p) \<le> n"
    and wf: "psize (pool p) \<le> pcapacity (pool p)"
  shows "mtdp_pipe_resize cfg m (Some p) n = None"
proof -
  let ?total = "fsize (fifo p) + psize (pool p)" and ?delta = "int n - int (fsize (fifo p) + psize (pool p))"
  have d: "?delta < 0" "nat (- ?delta) \<le> psize (pool p)" "nat (- ?delta) \<le> ?total" using n by auto
  have sz: "uadds (psize (pool p)) ?delta = n - fsize (fifo p)" "uadds ?total ?delta = n"
    using n by (subst uadds_nonneg; auto)+
  have lt: "n - fsize (fifo p) < pcapacity (pool p)" using n wf by linarith
  obtain k where k: "n = Suc k" using n(1) by (cases n) auto
  obtain q where "mtdp_buffer_fifo_shift_front_left cfg (fifo p) =
      Some (Some (the (rblk (fifo p) 0), BLOCK_SIZE cfg - 1 - fifo_gap cfg (fifo p)), q)"
    using fifo_pop_front[OF inv ne, where r = NULL] by blast
  then have "mtdp_buffer_fifo_pop_front cfg m (fifo p) None = None"
    by (simp add: mtdp_buffer_fifo_pop_front_def)
  then have "for_up 0 n (\<lambda>i f. do { (_, _, f) \<leftarrow> mtdp_buffer_fifo_pop_front cfg m f None; Some f }) (fifo p) = None"
    by (simp add: k)
  then show ?thesis using d sz pool_resize_shrink[OF lt, of m]
    by (simp add: mtdp_pipe_resize_def Let_def mtdp_buffer_pool_size_def mtdp_buffer_fifo_size_def)
qed

text \<open>A shrink below the number of buffers in the FIFO only changes the count.\<close>

lemma pipe_resize_below_fifo:
  assumes "n < fsize (fifo p)"
  shows "mtdp_pipe_resize cfg m (Some p) n = Some (PoolPtr (buffers (pool p)), MTDP_OK, m, Some (p\<lparr>total_buffers := n\<rparr>))"
proof -
  have "\<not> nat (- (int n - int (fsize (fifo p) + psize (pool p)))) \<le> psize (pool p)" "int n - int (fsize (fifo p) + psize (pool p)) < 0"
    using assms by simp_all
  then show ?thesis by (simp add: mtdp_pipe_resize_def Let_def mtdp_buffer_pool_size_def mtdp_buffer_fifo_size_def)
qed

section \<open>Initialisation and destruction\<close>

lemma sync_init_cong:
  "mem_wf (snd (sync_init m)) = mem_wf m" "mem_wf (sync_destroy m) = mem_wf m"
  by (simp_all add: mem_wf_def mem_simps)

lemma fifo_init_syncs:
  "mtdp_buffer_fifo_init cfg m f0 = (ok, m', f) \<Longrightarrow> syncs m' = syncs m"
  by (auto simp: mtdp_buffer_fifo_init_def mtdp_buffer_fifo_blocks_init_def malloc_array_def free_array_def
      request_def mtdp_buffer_fifo_block_alloc_def Let_def split: if_splits prod.splits)

lemma fifo_init_frame:
  "mem_wf m \<Longrightarrow> mtdp_buffer_fifo_init cfg m f0 = (True, m', f) \<Longrightarrow>
     heap m' = (heap m)(brk m \<mapsto> replicate (BLOCK_SIZE cfg) None) \<and> heap m (brk m) = None \<and> brk m' = Suc (brk m)"
  by (auto simp: mtdp_buffer_fifo_init_def mtdp_buffer_fifo_blocks_init_def malloc_array_def request_def
      mtdp_buffer_fifo_block_alloc_def Let_def mem_wf_def split: if_splits prod.splits)

lemma dealloc_syncs: "mtdp_buffer_fifo_block_dealloc m a = Some m' \<Longrightarrow> syncs m' = syncs m"
  by (auto simp: mtdp_buffer_fifo_block_dealloc_def split: option.splits)

lemma for_up_syncs:
  assumes "\<And>i s s'. body i s = Some s' \<Longrightarrow> syncs s' = syncs s"
  shows "for_up i n body m = Some m' \<Longrightarrow> syncs m' = syncs m"
  by (induction n arbitrary: i m) (auto simp: bind_eq_Some_conv dest: assms)

lemma fifo_destroy_syncs: "mtdp_buffer_fifo_destroy m f = Some (m', f') \<Longrightarrow> syncs m' = syncs m"
proof -
  assume "mtdp_buffer_fifo_destroy m f = Some (m', f')"
  then obtain m1 where "for_up 0 (bsize (blocks f)) (\<lambda>i m. do {
      a \<leftarrow> vec_get (vec (blocks f)) (usub (usub (bcapacity (blocks f)) i) 1);
      mtdp_buffer_fifo_block_dealloc m a }) m = Some m1" "m' = free_array m1"
    by (auto simp: mtdp_buffer_fifo_destroy_def Let_def bind_eq_Some_conv)
  moreover from this(1) have "syncs m1 = syncs m"
    by (rule for_up_syncs[rotated]) (auto simp: bind_eq_Some_conv dest: dealloc_syncs)
  ultimately show ?thesis by (simp add: free_array_def)
qed

lemma store_slot_syncs: "store_slot m a j e = Some m' \<Longrightarrow> syncs m' = syncs m"
  by (auto simp: store_slot_Some_iff)

lemma rightshift_syncs:
  "mtdp_buffer_fifo_rightshift_elements cfg m f = Some (m', f') \<Longrightarrow> syncs m' = syncs m"
  unfolding mtdp_buffer_fifo_rightshift_elements_def Let_def
  by (erule bind_eq_Some_conv[THEN iffD1, elim_format], clarsimp, rule for_up_syncs[rotated], assumption)
     (auto simp: bind_eq_Some_conv dest: store_slot_syncs)

lemma reserve_syncs:
  "mtdp_buffer_fifo_try_reserve_a_block m f = Some (ok, m', f') \<Longrightarrow> syncs m' = syncs m"
  by (auto simp: mtdp_buffer_fifo_try_reserve_a_block_def Let_def request_def bind_eq_Some_conv split: if_splits)

lemma block_alloc_syncs: "mtdp_buffer_fifo_block_alloc cfg m = (r, m') \<Longrightarrow> syncs m' = syncs m"
  by (auto simp: mtdp_buffer_fifo_block_alloc_def request_def split: if_splits)

lemma grow_syncs: "shift_back_left_grow cfg m f = Some (fl, c, m', f') \<Longrightarrow> syncs m' = syncs m"
  by (auto simp: shift_back_left_grow_def Let_def bind_eq_Some_conv
      dest!: reserve_syncs block_alloc_syncs split: if_splits prod.splits option.splits)

lemma fifo_push_syncs: "mtdp_buffer_fifo_push_back cfg m f e = Some (ok, m', f') \<Longrightarrow> syncs m' = syncs m"
  by (auto simp: mtdp_buffer_fifo_push_back_def mtdp_buffer_fifo_shift_back_left_def bind_eq_Some_conv
      dest!: grow_syncs rightshift_syncs store_slot_syncs split: if_splits option.splits prod.splits)

text \<open>What the pipe holds of the memory: its mutexes and semaphore, the block vector of its FIFO
  and, when it has one, the array of its pool.\<close>

lemma pipe_init_ok:
  assumes cfg: "config_ok cfg" and m: "mem_wf m" and r: "mtdp_pipe_init cfg m p = Some (True, m', p')"
  shows "pipe_inv cfg m' p'" "pipe_content cfg m' p' = {#}" "fifo_own (fifo p') = {brk m}"
    "mem_frame {} m m'" "live m' = live m + 1" "syncs m' = syncs m + 3" "semaphore p' = 0"
    "psize (pool p') = 0" "pcapacity (pool p') = 0" "fsize (fifo p') = 0"
    "heap m' = (heap m)(brk m \<mapsto> replicate (BLOCK_SIZE cfg) None)" "brk m' = Suc (brk m)"
proof -
  define m1 where "m1 = snd (sync_init (snd (sync_init m)))"
  from r obtain m2 f where f: "mtdp_buffer_fifo_init cfg m1 (fifo p) = (True, m2, f)"
    and a: "avail m (requests m)" "avail (snd (sync_init m)) (requests (snd (sync_init m)))"
      "avail m2 (requests m2)" "m' = snd (sync_init m2)"
      "p' = p\<lparr>pool := mtdp_buffer_pool_init (pool p), fifo := f, semaphore := 0\<rparr>"
    by (auto simp: mtdp_pipe_init_def Let_def m1_def sync_init_def request_def bind_eq_Some_conv
        split: if_splits prod.splits)
  have h1: "heap m1 = heap m" "brk m1 = brk m" "avail m1 = avail m" "live m1 = live m" "syncs m1 = syncs m + 2"
    using a by (simp_all add: m1_def mem_simps)
  have wf1: "mem_wf m1" using m by (simp add: m1_def sync_init_cong)
  note i = fifo_init_inv[OF cfg wf1 f]
  have h': "heap m' = heap m2" "brk m' = brk m2" "live m' = live m2" "syncs m' = syncs m2 + 1" "avail m' = avail m2"
    using a(3,4) by (simp_all add: mem_simps)
  have el: "fifo_inv cfg m' f" "fifo_elems cfg m' f = []" "mem_wf m'"
    using pipe_inv_mem_cong[OF h'(1,2) i(1,4)] i(2) by simp_all
  show "pipe_inv cfg m' p'" using cfg el by (simp add: pipe_inv_def a(5))
  show "pipe_content cfg m' p' = {#}" using el by (simp add: pipe_content_def a(5))
  show "fifo_own (fifo p') = {brk m}" using i(3) h1 by (simp add: a(5))
  show "mem_frame {} m m'" using i(5) h1 h' by (simp add: mem_frame_def)
  show "live m' = live m + 1" using i(6) h1 h' by simp
  show "syncs m' = syncs m + 3" using fifo_init_syncs[OF f] h1 h' by simp
  show "semaphore p' = 0" "psize (pool p') = 0" "pcapacity (pool p') = 0"
    by (simp_all add: a(5) mtdp_buffer_pool_init_def)
  show "fsize (fifo p') = 0" using i(2) by (simp add: a(5))
  show "heap m' = (heap m)(brk m \<mapsto> replicate (BLOCK_SIZE cfg) None)" "brk m' = Suc (brk m)"
    using fifo_init_frame[OF wf1 f] h1 h' by simp_all
qed

text \<open>Every failure of the initialisation releases what was acquired before it.\<close>

lemma pipe_init_cases:
  assumes cfg: "config_ok cfg" and m: "mem_wf m"
  obtains ok m' p' where "mtdp_pipe_init cfg m p = Some (ok, m', p')" "mem_wf m'" "avail m' = avail m"
    "brk m \<le> brk m'" "\<not> ok \<longrightarrow> heap m' = heap m \<and> live m' = live m \<and> syncs m' = syncs m"
proof -
  obtain b1 m1 where s1: "sync_init m = (b1, m1)" by fastforce
  obtain b2 m2 where s2: "sync_init m1 = (b2, m2)" by fastforce
  obtain b3 m3 f where s3: "mtdp_buffer_fifo_init cfg m2 (fifo p) = (b3, m3, f)" by (metis prod_cases3)
  obtain b4 m4 where s4: "sync_init m3 = (b4, m4)" by fastforce
  note sm = sync_simps[of m, unfolded s1] sync_simps[of m1, unfolded s2] sync_simps[of m3, unfolded s4]
  have wf: "mem_wf m1" "mem_wf m2" using m sm by (simp_all add: mem_wf_def)
  note d = mtdp_pipe_init_def Let_def s1 s2 s3 s4
  consider "\<not> b1" | "b1" "\<not> b2" | "b1" "b2" "\<not> b3" | "b1" "b2" "b3" "\<not> b4" | "b1" "b2" "b3" "b4" by blast
  then show ?thesis
  proof cases
    case 1
    then show ?thesis using sm m by (intro that[of False m1 "p\<lparr>pool := mtdp_buffer_pool_init (pool p)\<rparr>"])
      (simp_all add: d mem_wf_def)
  next
    case 2
    then show ?thesis using sm m
      by (intro that[of False "sync_destroy m2" "p\<lparr>pool := mtdp_buffer_pool_init (pool p)\<rparr>"])
         (simp_all add: d mem_wf_def sync_simps)
  next
    case 3
    note l = fifo_init_no_leak[of cfg m2 "fifo p" m3 f, OF s3[unfolded eq_False[THEN iffD2, OF 3(3)]]]
    show ?thesis using sm m l fifo_init_syncs[OF s3] 3
      by (intro that[of False "sync_destroy (sync_destroy m3)" "p\<lparr>pool := mtdp_buffer_pool_init (pool p), fifo := f\<rparr>"])
         (simp_all add: d mem_wf_def sync_simps)
  next
    case 4
    note s3' = s3[unfolded eq_True[THEN iffD2, OF 4(3)]]
    note i = fifo_init_inv[OF cfg wf(2) s3'] and h = fifo_init_frame[OF wf(2) s3']
    let ?m = "sync_destroy (sync_destroy m4)"
    have hm: "heap ?m = heap m3" "brk ?m = brk m3" "live ?m = live m3" "avail ?m = avail m3"
      using sm by (simp_all add: sync_simps)
    have inv: "fifo_inv cfg ?m f" using pipe_inv_mem_cong[OF hm(1,2) i(1,4)] by simp
    obtain m5 f5 where ds: "mtdp_buffer_fifo_destroy ?m f = Some (m5, f5)"
      "\<forall>a. heap m5 a = (if a \<in> fifo_own f then None else heap ?m a)"
      "live m5 = live ?m - 1" "brk m5 = brk ?m" "avail m5 = avail ?m"
      by (rule fifo_destroy[OF inv])
    have hp: "heap m5 = heap m" using ds(2) i(3) h hm(1) sm by (auto simp: fun_eq_iff)
    have av: "avail m3 = avail m2" using i(5) by (simp add: mem_frame_def)
    show ?thesis
    proof (rule that[of False m5 "p\<lparr>pool := mtdp_buffer_pool_init (pool p), fifo := f5\<rparr>"])
      show "mtdp_pipe_init cfg m p = Some (False, m5, p\<lparr>pool := mtdp_buffer_pool_init (pool p), fifo := f5\<rparr>)"
        using 4 ds(1) by (simp add: d)
      show "mem_wf m5" using hp m ds(4) hm(2) h sm by (simp add: mem_wf_def)
      show "avail m5 = avail m" using ds(5) hm(4) av sm by simp
      show "brk m \<le> brk m5" using ds(4) hm(2) h sm by simp
      show "\<not> False \<longrightarrow> heap m5 = heap m \<and> live m5 = live m \<and> syncs m5 = syncs m"
        using hp ds(3) hm(3) i(6) sm 4 fifo_destroy_syncs[OF ds(1)] fifo_init_syncs[OF s3]
        by (simp add: sync_simps)
    qed
  next
    case 5
    note s3' = s3[unfolded eq_True[THEN iffD2, OF 5(3)]]
    note i = fifo_init_inv[OF cfg wf(2) s3']
    show ?thesis using 5 i sm
      by (intro that[of True m4 "p\<lparr>pool := mtdp_buffer_pool_init (pool p), fifo := f, semaphore := 0\<rparr>"])
         (simp_all add: d mem_wf_def mem_frame_def)
  qed
qed

text \<open>Destroying a pipe in any state releases everything it holds.\<close>

lemma pipe_destroy:
  assumes inv: "fifo_inv cfg m (fifo p)" and m: "mem_wf m"
  obtains m' p' where "mtdp_pipe_destroy m p = Some (m', p')"
    "heap m' = (\<lambda>a. if a \<in> fifo_own (fifo p) then None else heap m a)"
    "live m' = live m - 1 - pool_arrays (pool p)" "syncs m' = syncs m - 3" "brk m' = brk m" "avail m' = avail m"
proof -
  let ?m1 = "sync_destroy (sync_destroy m)"
  obtain m2 pl where pd: "mtdp_buffer_pool_destroy ?m1 (pool p) = (m2, pl)" by fastforce
  note l = pool_destroy_live[OF pd]
  have hm: "heap m2 = heap m" "brk m2 = brk m" using l by (simp_all add: sync_simps)
  have inv2: "fifo_inv cfg m2 (fifo p)" using pipe_inv_mem_cong[OF hm inv m] by simp
  obtain m3 f where d: "mtdp_buffer_fifo_destroy m2 (fifo p) = Some (m3, f)"
    "\<forall>a. heap m3 a = (if a \<in> fifo_own (fifo p) then None else heap m2 a)"
    "live m3 = live m2 - 1" "brk m3 = brk m2" "avail m3 = avail m2"
    by (rule fifo_destroy[OF inv2])
  show ?thesis
  proof (rule that[of "sync_destroy m3" "p\<lparr>pool := pl, fifo := f\<rparr>"])
    show "mtdp_pipe_destroy m p = Some (sync_destroy m3, p\<lparr>pool := pl, fifo := f\<rparr>)"
      using pd d(1) by (simp add: mtdp_pipe_destroy_def Let_def)
    show "heap (sync_destroy m3) = (\<lambda>a. if a \<in> fifo_own (fifo p) then None else heap m a)"
      using d(2) hm by (auto simp: sync_simps fun_eq_iff)
  qed (use d(3-5) l fifo_destroy_syncs[OF d(1)] in \<open>simp_all add: sync_simps\<close>)
qed

end
