(* ===== verification/Pipe_Properties.thy ===== *)
theory Pipe_Properties
  imports Pipe
begin

text \<open>
  What a pipe promises. A script is any sequence of the four movements of a pipe in the order
  in which the threads get its mutexes, so the results over scripts are results over every
  interleaving of the threads that share the pipe.
\<close>

section \<open>Scripts of movements\<close>

datatype pipe_call = GetEmpty | PushBuffer mtdp_buffer | GetFull | PutBack mtdp_buffer

text \<open>Collects what the pipe accepted and what it handed out (\<open>NULL\<close> is no buffer).\<close>

fun pipe_run :: "fifo_config \<Rightarrow> mem \<Rightarrow> mtdp_pipe \<Rightarrow> pipe_call list \<Rightarrow>
    (mtdp_buffer multiset \<times> mtdp_buffer multiset \<times> mem \<times> mtdp_pipe) option" where
  "pipe_run cfg m p [] = Some ({#}, {#}, m, p)"
| "pipe_run cfg m p (GetEmpty # cs) = do {
     let n = mtdp_buffer_pool_size (pool p);
     (b, p) \<leftarrow> mtdp_pipe_get_empty_buffer p;
     (i, out, m, p) \<leftarrow> pipe_run cfg m p cs;
     Some (i, if n = 0 then out else add_mset b out, m, p) }"
| "pipe_run cfg m p (PushBuffer b # cs) = do {
     (ok, m, p) \<leftarrow> mtdp_pipe_push_buffer cfg m p b;
     (i, out, m, p) \<leftarrow> pipe_run cfg m p cs;
     Some (if ok then add_mset b i else i, out, m, p) }"
| "pipe_run cfg m p (GetFull # cs) = do {
     let n = mtdp_buffer_fifo_size (fifo p);
     (b, p) \<leftarrow> mtdp_pipe_get_full_buffer cfg m p;
     (i, out, m, p) \<leftarrow> pipe_run cfg m p cs;
     Some (i, if n = 0 then out else add_mset b out, m, p) }"
| "pipe_run cfg m p (PutBack b # cs) = do {
     (ok, m, p) \<leftarrow> mtdp_pipe_put_back m p b;
     (i, out, m, p) \<leftarrow> pipe_run cfg m p cs;
     Some (if ok then add_mset b i else i, out, m, p) }"

text \<open>The state of a pipe that was created in a memory \<open>m0\<close>: everything outside the pipe is as it
  was.\<close>

definition pipe_state_ok :: "fifo_config \<Rightarrow> mem \<Rightarrow> mem \<Rightarrow> mtdp_pipe \<Rightarrow> bool" where
  "pipe_state_ok cfg m0 m p \<longleftrightarrow> pipe_inv cfg m p \<and>
     (\<forall>a. a \<notin> fifo_own (fifo p) \<longrightarrow> heap m a = heap m0 a) \<and> (\<forall>a \<in> fifo_own (fifo p). heap m0 a = None) \<and>
     live m = live m0 + 1 + pool_arrays (pool p) \<and> syncs m = syncs m0 + 3"

lemma pipe_push_state_ok:
  assumes ok: "pipe_state_ok cfg m0 m p" and wf0: "mem_wf m0" "brk m0 \<le> brk m"
    and r: "mtdp_pipe_push_buffer cfg m p b = Some (r, m', p')"
  shows "pipe_state_ok cfg m0 m' p'" "brk m0 \<le> brk m'"
proof -
  have inv: "pipe_inv cfg m p" using ok by (simp add: pipe_state_ok_def)
  obtain r1 m1 f1 where q: "mtdp_buffer_fifo_push_back cfg m (fifo p) b = Some (r1, m1, f1)"
    "fifo_inv cfg m1 f1" "mem_wf m1" "mem_frame (fifo_own (fifo p)) m m1"
    "fifo_own f1 \<subseteq> fifo_own (fifo p) \<union> {brk m..<brk m1}"
    "live m1 = live m" "fifo_own (fifo p) \<subseteq> fifo_own f1" "dom (heap m1) \<subseteq> dom (heap m) \<union> fifo_own f1"
    by (rule fifo_push_back[OF pipe_invD(4,2,1)[OF inv], where e = b])
  have eq: "m' = m1" "p' = p\<lparr>fifo := f1\<rparr>" using q(1) r by (simp_all add: mtdp_pipe_push_buffer_def)
  show "brk m0 \<le> brk m'" using q(4) wf0(2) by (simp add: mem_frame_def eq)
  have "heap m1 a = heap m0 a" if "a \<notin> fifo_own f1" for a
  proof (cases "a < brk m")
    case True
    have "a \<notin> fifo_own (fifo p)" using that q(7) by auto
    with True q(4) ok show ?thesis by (simp add: mem_frame_def pipe_state_ok_def)
  next
    case False
    then have "heap m a = None" "heap m0 a = None"
      using pipe_invD(2)[OF inv] wf0 by (simp_all add: mem_wf_def)
    with that q(8) show ?thesis by (metis UnE domIff subsetD)
  qed
  moreover have "heap m0 a = None" if "a \<in> fifo_own f1" for a
    using that q(5) ok wf0 by (fastforce simp: pipe_state_ok_def mem_wf_def)
  moreover have "syncs m1 = syncs m"
    using fifo_push_syncs[OF q(1)] .
  ultimately show "pipe_state_ok cfg m0 m' p'" using ok q inv
    by (simp add: pipe_state_ok_def eq pipe_inv_def)
qed

lemma pipe_put_state_ok:
  assumes ok: "pipe_state_ok cfg m0 m p" and r: "mtdp_pipe_put_back m p b = Some (r, m', p')"
  shows "pipe_state_ok cfg m0 m' p'" "brk m' = brk m"
proof -
  have inv: "pipe_inv cfg m p" using ok by (simp add: pipe_state_ok_def)
  obtain r1 m1 p1 where q: "mtdp_pipe_put_back m p b = Some (r1, m1, p1)" "pipe_inv cfg m1 p1"
    "fifo p1 = fifo p" "heap m1 = heap m" "brk m1 = brk m"
    by (rule pipe_put_back[OF inv, where b = b])
  from r obtain pl where pl: "mtdp_buffer_pool_push_back m (pool p) b = Some (r, m', pl)" "p' = p\<lparr>pool := pl\<rparr>"
    by (auto simp: mtdp_pipe_put_back_def bind_eq_Some_conv)
  have eq: "m1 = m'" "p1 = p'" using q(1) r by simp_all
  show "brk m' = brk m" using q(5) eq by simp
  show "pipe_state_ok cfg m0 m' p'"
    using ok q(2-4) pl(2) pool_push_live[OF pl(1)] by (simp add: pipe_state_ok_def eq)
qed

lemma pipe_run_safe:
  assumes "pipe_state_ok cfg m0 m p" "mem_wf m0" "brk m0 \<le> brk m"
  shows "\<exists>i out m' p'. pipe_run cfg m p cs = Some (i, out, m', p') \<and> pipe_state_ok cfg m0 m' p' \<and>
    pipe_content cfg m p + i = out + pipe_content cfg m' p'"
  using assms
proof (induction cs arbitrary: m p)
  case Nil
  then show ?case by simp
next
  case (Cons c cs)
  have inv: "pipe_inv cfg m p" using Cons.prems(1) by (simp add: pipe_state_ok_def)
  show ?case
  proof (cases c)
    case GetEmpty
    obtain b p1 where g: "mtdp_pipe_get_empty_buffer p = Some (b, p1)" "pipe_inv cfg m p1"
      "psize (pool p) = 0 \<longrightarrow> b = NULL \<and> p1 = p"
      "psize (pool p) \<noteq> 0 \<longrightarrow> pool_elems (pool p) = pool_elems (pool p1) @ [b]"
      "fifo p1 = fifo p" "pcapacity (pool p1) = pcapacity (pool p)"
      by (rule pipe_get_empty_buffer[OF inv])
    have "pipe_state_ok cfg m0 m p1"
      using Cons.prems(1) g by (simp add: pipe_state_ok_def pool_arrays_def)
    from Cons.IH[OF this Cons.prems(2,3)] obtain i out m' p' where
      "pipe_run cfg m p1 cs = Some (i, out, m', p')" "pipe_state_ok cfg m0 m' p'"
      "pipe_content cfg m p1 + i = out + pipe_content cfg m' p'" by blast
    with g GetEmpty show ?thesis
      by (cases "psize (pool p) = 0") (auto simp: mtdp_buffer_pool_size_def pipe_content_def)
  next
    case (PushBuffer b)
    obtain ok m1 p1 where g: "mtdp_pipe_push_buffer cfg m p b = Some (ok, m1, p1)" "pipe_inv cfg m1 p1"
      "fifo_elems cfg m1 (fifo p1) =
         (if ok then fifo_elems cfg m (fifo p) @ [b] else fifo_elems cfg m (fifo p))" "pool p1 = pool p"
      by (rule pipe_push_buffer[OF inv, where b = b])
    note st = pipe_push_state_ok[OF Cons.prems g(1)]
    from Cons.IH[OF st(1) Cons.prems(2) st(2)] obtain i out m' p' where
      "pipe_run cfg m1 p1 cs = Some (i, out, m', p')" "pipe_state_ok cfg m0 m' p'"
      "pipe_content cfg m1 p1 + i = out + pipe_content cfg m' p'" by blast
    with g PushBuffer show ?thesis by (cases ok) (auto simp: pipe_content_def)
  next
    case GetFull
    obtain b p1 where g: "mtdp_pipe_get_full_buffer cfg m p = Some (b, p1)" "pipe_inv cfg m p1"
      "fsize (fifo p) = 0 \<longrightarrow> b = NULL \<and> p1 = p"
      "fsize (fifo p) \<noteq> 0 \<longrightarrow> fifo_elems cfg m (fifo p) = b # fifo_elems cfg m (fifo p1)"
      "pool p1 = pool p" "fifo_own (fifo p1) = fifo_own (fifo p)"
      by (rule pipe_get_full_buffer[OF inv])
    have "pipe_state_ok cfg m0 m p1" using Cons.prems(1) g by (simp add: pipe_state_ok_def)
    from Cons.IH[OF this Cons.prems(2,3)] obtain i out m' p' where
      "pipe_run cfg m p1 cs = Some (i, out, m', p')" "pipe_state_ok cfg m0 m' p'"
      "pipe_content cfg m p1 + i = out + pipe_content cfg m' p'" by blast
    with g GetFull show ?thesis
      by (cases "fsize (fifo p) = 0") (auto simp: mtdp_buffer_fifo_size_def pipe_content_def)
  next
    case (PutBack b)
    obtain ok m1 p1 where g: "mtdp_pipe_put_back m p b = Some (ok, m1, p1)" "pipe_inv cfg m1 p1"
      "pool_elems (pool p1) = (if ok then pool_elems (pool p) @ [b] else pool_elems (pool p))"
      "fifo_elems cfg m1 (fifo p1) = fifo_elems cfg m (fifo p)"
      by (rule pipe_put_back[OF inv, where b = b])
    note st = pipe_put_state_ok[OF Cons.prems(1) g(1)]
    have "brk m0 \<le> brk m1" using st(2) Cons.prems(3) by simp
    from Cons.IH[OF st(1) Cons.prems(2) this] obtain i out m' p' where
      "pipe_run cfg m1 p1 cs = Some (i, out, m', p')" "pipe_state_ok cfg m0 m' p'"
      "pipe_content cfg m1 p1 + i = out + pipe_content cfg m' p'" by blast
    with g PutBack show ?thesis by (cases ok) (auto simp: pipe_content_def)
  qed
qed

definition pipe_blank :: mtdp_pipe where
  "pipe_blank = \<lparr>total_buffers = 0, pool = \<lparr>buffers = None, psize = 0, pcapacity = 0\<rparr>,
     fifo = \<lparr>blocks = \<lparr>vec = [], bsize = 0, bcapacity = 0\<rparr>, fsize = 0, first_element_offset = 0\<rparr>, semaphore = 0\<rparr>"

lemma pipe_start:
  "\<exists>m p. mtdp_pipe_init default_config (mem_start (\<lambda>_. True)) pipe_blank = Some (True, m, p) \<and> pipe_inv default_config m p \<and>
     pool_elems (pool p) = [] \<and> pcapacity (pool p) = 0 \<and> psize (pool p) = 0 \<and> fsize (fifo p) = 0 \<and> (\<forall>n. avail m n)"
proof -
  obtain ok m p where i: "mtdp_pipe_init default_config (mem_start (\<lambda>_. True)) pipe_blank = Some (ok, m, p)"
    "avail m = avail (mem_start (\<lambda>_. True))"
    by (rule pipe_init_cases[OF default_config_ok mem_start_wf])
  have ok
    using i(1) by (auto simp: mtdp_pipe_init_def Let_def sync_init_def request_def malloc_array_def mem_start_def
      mtdp_buffer_fifo_init_def mtdp_buffer_fifo_blocks_init_def mtdp_buffer_fifo_block_alloc_def)
  then have i': "mtdp_pipe_init default_config (mem_start (\<lambda>_. True)) pipe_blank = Some (True, m, p)" using i by simp
  note l = pipe_init_ok[OF default_config_ok mem_start_wf i']
  have "pool_elems (pool p) = []" using l(8) by (simp add: pool_elems_def pool_slots_def)
  with i' l i(2) show ?thesis by (auto simp: mem_start_def)
qed

section \<open>Properties\<close>

text \<open>C20. The whole life of a pipe. After a successful initialisation, any sequence of the four
  movements, in any interleaving of the threads that share the pipe and under any outcome of
  the allocator, runs without undefined behaviour and neither loses nor duplicates a buffer;
  destroying the pipe at any point releases all its memory, both mutexes and the semaphore,
  and leaves the rest of the memory as it was.\<close>

theorem pipe_lifetime:
  assumes cfg: "config_ok cfg" and m: "mem_wf m" and init: "mtdp_pipe_init cfg m p = Some (True, m1, p1)"
  shows "\<exists>i out m2 p2 m3 p3. pipe_run cfg m1 p1 cs = Some (i, out, m2, p2) \<and>
    i = out + pipe_content cfg m2 p2 \<and> mtdp_pipe_destroy m2 p2 = Some (m3, p3) \<and>
    heap m3 = heap m \<and> live m3 = live m \<and> syncs m3 = syncs m"
proof -
  note i = pipe_init_ok[OF cfg m init]
  have ok: "pipe_state_ok cfg m m1 p1"
    using i m by (simp add: pipe_state_ok_def pool_arrays_def mem_wf_def)
  have "brk m \<le> brk m1" using i(12) by simp
  from pipe_run_safe[OF ok m this] obtain ins out m2 p2 where r:
    "pipe_run cfg m1 p1 cs = Some (ins, out, m2, p2)" "pipe_state_ok cfg m m2 p2"
    "pipe_content cfg m1 p1 + ins = out + pipe_content cfg m2 p2" by blast
  have inv: "pipe_inv cfg m2 p2" using r(2) by (simp add: pipe_state_ok_def)
  obtain m3 p3 where d: "mtdp_pipe_destroy m2 p2 = Some (m3, p3)"
    "heap m3 = (\<lambda>a. if a \<in> fifo_own (fifo p2) then None else heap m2 a)"
    "live m3 = live m2 - 1 - pool_arrays (pool p2)" "syncs m3 = syncs m2 - 3"
    by (rule pipe_destroy[OF pipe_invD(4,2)[OF inv]])
  have "heap m3 = heap m" using d(2) r(2) by (auto simp: pipe_state_ok_def fun_eq_iff)
  with r d i(2) show ?thesis by (auto simp: pipe_state_ok_def)
qed

theorem pipe_lifetime_witness:
  "\<exists>m1 p1 i out m2 p2 m3 p3. mtdp_pipe_init default_config (mem_start (\<lambda>_. True)) pipe_blank = Some (True, m1, p1) \<and>
    pipe_run default_config m1 p1 [PutBack (Ptr 1), GetEmpty, PushBuffer (Ptr 1)] = Some (i, out, m2, p2) \<and>
    i = out + pipe_content default_config m2 p2 \<and>
    mtdp_pipe_destroy m2 p2 = Some (m3, p3) \<and> heap m3 = Map.empty \<and> live m3 = 0 \<and> syncs m3 = 0"
proof -
  obtain m1 p1 where i: "mtdp_pipe_init default_config (mem_start (\<lambda>_. True)) pipe_blank = Some (True, m1, p1)"
    using pipe_start by blast
  from pipe_lifetime[OF default_config_ok mem_start_wf i, of "[PutBack (Ptr 1), GetEmpty, PushBuffer (Ptr 1)]"] i
  show ?thesis by (auto simp: mem_start_def)
qed

text \<open>A failed initialisation of a pipe, at whichever of its steps (two mutexes, the FIFO's
  two allocations, the semaphore), releases everything that was acquired before the failure.\<close>

theorem pipe_init_releases:
  assumes "config_ok cfg" "mem_wf m"
  shows "\<exists>ok m' p'. mtdp_pipe_init cfg m p = Some (ok, m', p') \<and>
    (if ok then pipe_inv cfg m' p' \<and> pipe_content cfg m' p' = {#} \<and> syncs m' = syncs m + 3
     else heap m' = heap m \<and> live m' = live m \<and> syncs m' = syncs m)"
proof -
  obtain ok m' p' where i: "mtdp_pipe_init cfg m p = Some (ok, m', p')"
    "\<not> ok \<longrightarrow> heap m' = heap m \<and> live m' = live m \<and> syncs m' = syncs m"
    by (rule pipe_init_cases[OF assms])
  show ?thesis
  proof (cases ok)
    case True
    with i(1) have "mtdp_pipe_init cfg m p = Some (True, m', p')" by simp
    from pipe_init_ok[OF assms this] True i(1) show ?thesis by auto
  qed (use i in auto)
qed

theorem pipe_init_releases_witness:
  "\<exists>m' p'. mtdp_pipe_init default_config (mem_start (\<lambda>n. n \<noteq> 4)) pipe_blank = Some (False, m', p') \<and>
    heap m' = Map.empty \<and> live m' = 0 \<and> syncs m' = 0"
proof -
  obtain ok m' p' where i: "mtdp_pipe_init default_config (mem_start (\<lambda>n. n \<noteq> 4)) pipe_blank = Some (ok, m', p')"
    "\<not> ok \<longrightarrow> heap m' = heap (mem_start (\<lambda>n. n \<noteq> 4)) \<and> live m' = live (mem_start (\<lambda>n. n \<noteq> 4)) \<and>
       syncs m' = syncs (mem_start (\<lambda>n. n \<noteq> 4))"
    using pipe_init_releases[OF default_config_ok mem_start_wf, of "\<lambda>n. n \<noteq> 4" pipe_blank] by (auto split: if_splits)
  have "\<not> ok"
    using i(1) by (auto simp: mtdp_pipe_init_def Let_def sync_init_def request_def malloc_array_def mem_start_def
      mtdp_buffer_fifo_init_def mtdp_buffer_fifo_blocks_init_def mtdp_buffer_fifo_block_alloc_def bind_eq_Some_conv)
  with i show ?thesis by (auto simp: mem_start_def)
qed

text \<open>Putting a buffer back into a pool whose array has a free slot cannot fail and allocates
  nothing. As the array holds all buffers of the pipe once it was resized, a buffer taken from
  a pipe can always be returned.\<close>

theorem pipe_put_back_accepted:
  assumes "pipe_inv cfg m p" "psize (pool p) < pcapacity (pool p)"
  shows "\<exists>p'. mtdp_pipe_put_back m p b = Some (True, m, p') \<and> pipe_inv cfg m p' \<and> fifo p' = fifo p \<and>
    pool_elems (pool p') = pool_elems (pool p) @ [b]"
proof -
  obtain ok m' p' where "mtdp_pipe_put_back m p b = Some (ok, m', p')" "pipe_inv cfg m' p'"
    "pool_elems (pool p') = (if ok then pool_elems (pool p) @ [b] else pool_elems (pool p))" "fifo p' = fifo p"
    "psize (pool p) < pcapacity (pool p) \<longrightarrow> ok \<and> m' = m \<and> pcapacity (pool p') = pcapacity (pool p)"
    by (rule pipe_put_back[OF assms(1), where b = b])
  with assms(2) show ?thesis by auto
qed

text \<open>A pipe resized to \<open>n\<close> buffers whose slots the user has set to \<open>bs\<close>.\<close>

definition pipe_filled :: "mtdp_pipe \<Rightarrow> mtdp_buffer list \<Rightarrow> mtdp_pipe" where
  "pipe_filled p bs = p\<lparr>pool := \<lparr>buffers = Some (map Some bs), psize = length bs, pcapacity = length bs\<rparr>,
     total_buffers := length bs\<rparr>"

lemma pipe_filled_inv:
  "pipe_inv cfg m p \<Longrightarrow> pipe_inv cfg m (pipe_filled p bs) \<and> pool_elems (pool (pipe_filled p bs)) = bs"
  by (auto simp: pipe_inv_def pipe_filled_def pool_defs comp_def)

theorem pipe_put_back_accepted_witness:
  "\<exists>m p p1 p2. pipe_inv default_config m p \<and> mtdp_pipe_get_empty_buffer (pipe_filled p [Ptr 1, Ptr 2]) = Some (Ptr 2, p1) \<and>
    mtdp_pipe_put_back m p1 (Ptr 2) = Some (True, m, p2) \<and> pool_elems (pool p2) = [Ptr 1, Ptr 2]"
proof -
  obtain m p where p: "pipe_inv default_config m p" using pipe_start by blast
  let ?p = "pipe_filled p [Ptr 1, Ptr 2]"
  have q: "pipe_inv default_config m ?p" "pool_elems (pool ?p) = [Ptr 1, Ptr 2]" using pipe_filled_inv[OF p] by simp_all
  obtain b p1 where g: "mtdp_pipe_get_empty_buffer ?p = Some (b, p1)" "pipe_inv default_config m p1"
    "psize (pool ?p) \<noteq> 0 \<longrightarrow> pool_elems (pool ?p) = pool_elems (pool p1) @ [b]"
    "pcapacity (pool p1) = pcapacity (pool ?p)"
    by (rule pipe_get_empty_buffer[OF q(1)])
  have sz: "psize (pool ?p) = 2" "pcapacity (pool ?p) = 2" by (simp_all add: pipe_filled_def)
  then have b: "b = Ptr 2" "pool_elems (pool p1) = [Ptr 1]" using g(3) q(2) by simp_all
  have "psize (pool p1) = 1" using length_pool_elems[OF pipe_invD(3)[OF g(2)]] b(2) by simp
  then have lt: "psize (pool p1) < pcapacity (pool p1)" using g(4) sz by simp
  from pipe_put_back_accepted[OF g(2) lt, of "Ptr 2"] p g(1) b show ?thesis by auto
qed

text \<open>Clearing a pipe whose pool array can hold all its buffers empties the FIFO onto the pool
  in FIFO order, with no allocation and no loss. The semaphore is not reset: its count stays
  what it was although no buffer is left to take.\<close>

theorem pipe_clear_moves_all:
  assumes "pipe_inv cfg m p" "psize (pool p) + fsize (fifo p) \<le> pcapacity (pool p)"
  shows "\<exists>p'. mtdp_pipe_clear cfg m (Some p) = Some (m, Some p') \<and> pipe_inv cfg m p' \<and>
    pool_elems (pool p') = pool_elems (pool p) @ fifo_elems cfg m (fifo p) \<and>
    mtdp_buffer_fifo_size (fifo p') = 0 \<and> semaphore p' = semaphore p"
  by (rule pipe_clear[OF assms]) (simp add: mtdp_buffer_fifo_size_def)

theorem pipe_clear_moves_all_witness:
  "\<exists>m p p'. mtdp_pipe_clear default_config m (Some p) = Some (m, Some p') \<and>
    fifo_elems default_config m (fifo p) = [Ptr 2] \<and> pool_elems (pool p') = [Ptr 1, Ptr 2] \<and>
    semaphore p = 1 \<and> semaphore p' = 1"
proof -
  let ?c = default_config
  obtain m0 p0 where p0: "pipe_inv ?c m0 p0" "\<forall>n. avail m0 n" "fsize (fifo p0) = 0" using pipe_start by blast
  define q where "q = (pipe_filled p0 [Ptr 1])\<lparr>semaphore := 1,
    pool := \<lparr>buffers = Some [Some (Ptr 1), None], psize = 1, pcapacity = 2\<rparr>\<rparr>"
  have q: "pipe_inv ?c m0 q" using p0(1) by (auto simp: q_def pipe_filled_def pipe_inv_def pool_defs)
  obtain ok m p where r: "mtdp_pipe_push_buffer ?c m0 q (Ptr 2) = Some (ok, m, p)" "pipe_inv ?c m p"
    "fifo_elems ?c m (fifo p) =
       (if ok then fifo_elems ?c m0 (fifo q) @ [Ptr 2] else fifo_elems ?c m0 (fifo q))"
    "pool p = pool q" "semaphore p = semaphore q" "(\<forall>n. avail m0 n) \<longrightarrow> ok"
    by (rule pipe_push_buffer[OF q, where b = "Ptr 2"])
  have el: "fifo_elems ?c m (fifo p) = [Ptr 2]"
    using r(3,6) p0(2,3) by (simp add: q_def pipe_filled_def)
  have pl: "pool_elems (pool p) = [Ptr 1]" by (simp add: r(4) q_def pool_elems_def pool_slots_def)
  have "psize (pool p) + fsize (fifo p) \<le> pcapacity (pool p)"
    using arg_cong[OF el, of length] by (simp add: r(4) q_def)
  from pipe_clear_moves_all[OF r(2) this] el pl r(5) show ?thesis by (auto simp: q_def)
qed

text \<open>Growing an idle pipe (all its buffers in the pool, as before the pipeline is enabled)
  returns the array with every old buffer in place and \<open>MTDP_OK\<close>; if the allocator refuses,
  the pool keeps its state and the call returns null and \<open>MTDP_NO_MEM\<close>. In both cases
  \<open>total_buffers\<close> becomes the requested number.\<close>

theorem pipe_resize_grow_idle:
  assumes "pipe_idle p" "psize (pool p) < n"
  shows "\<exists>m' p'. mtdp_pipe_resize cfg m (Some p) n =
      (if avail m (requests m) then Some (PoolPtr (buffers (pool p')), MTDP_OK, m', Some p')
       else Some (NullPtr, MTDP_NO_MEM, m', Some p')) \<and> total_buffers p' = n \<and>
    (if avail m (requests m) then pipe_idle p' \<and> psize (pool p') = n \<and>
       take (psize (pool p)) (pool_slots (pool p')) = pool_slots (pool p) \<and> mtdp_pipe_check_invariants p'
     else pool p' = pool p)"
proof -
  obtain ok m' p' where r: "mtdp_pipe_resize cfg m (Some p) n =
      Some (if ok then PoolPtr (buffers (pool p')) else NullPtr, if ok then MTDP_OK else MTDP_NO_MEM, m', Some p')"
    "ok = avail m (requests m)" "ok \<longrightarrow> pipe_idle p' \<and> psize (pool p') = n \<and>
       take (psize (pool p)) (pool_slots (pool p')) = pool_slots (pool p)"
    "total_buffers p' = n" "fifo p' = fifo p" "\<not> ok \<longrightarrow> pool p' = pool p"
    by (rule pipe_resize_grow[OF assms, of cfg m])
  then show ?thesis
    by (cases ok) (auto simp: mtdp_pipe_check_invariants_def Let_def pipe_idle_def)
qed

theorem pipe_resize_grow_idle_witness:
  "\<exists>m p m' p'. mtdp_pipe_resize default_config m (Some p) 8 =
    Some (PoolPtr (buffers (pool p')), MTDP_OK, m', Some p') \<and> psize (pool p') = 8 \<and> mtdp_pipe_check_invariants p'"
proof -
  obtain m p where p: "pipe_inv default_config m p" "pcapacity (pool p) = 0" "psize (pool p) = 0"
    "fsize (fifo p) = 0" "\<forall>n. avail m n" using pipe_start by blast
  have "pipe_idle p" using p by (simp add: pipe_idle_def pipe_inv_def pool_inv_def)
  from pipe_resize_grow_idle[OF this, of 8 default_config m] p show ?thesis by (simp) blast
qed

text \<open>After a growth that the allocator refused by more than two buffers, the consistency
  predicate that the pipe asserts on entry of its operations is false: \<open>total_buffers\<close> was
  updated although nothing was allocated.\<close>

theorem pipe_resize_failure_breaks_invariant:
  assumes "pipe_idle p" "psize (pool p) + 2 < n" "\<not> avail m (requests m)"
  shows "\<exists>m' p'. mtdp_pipe_resize cfg m (Some p) n = Some (NullPtr, MTDP_NO_MEM, m', Some p') \<and>
    \<not> mtdp_pipe_check_invariants p'"
proof -
  have n: "psize (pool p) < n" using assms(2) by simp
  obtain ok m' p' where r: "mtdp_pipe_resize cfg m (Some p) n =
      Some (if ok then PoolPtr (buffers (pool p')) else NullPtr, if ok then MTDP_OK else MTDP_NO_MEM, m', Some p')"
    "ok = avail m (requests m)" "total_buffers p' = n" "fifo p' = fifo p" "\<not> ok \<longrightarrow> pool p' = pool p"
    by (rule pipe_resize_grow[OF assms(1) n, of cfg m])
  with assms show ?thesis by (auto simp: mtdp_pipe_check_invariants_def Let_def pipe_idle_def)
qed

theorem pipe_resize_failure_breaks_invariant_witness:
  "\<exists>m' p'. mtdp_pipe_resize default_config (mem_start (\<lambda>_. False)) (Some pipe_blank) 3 =
    Some (NullPtr, MTDP_NO_MEM, m', Some p') \<and> \<not> mtdp_pipe_check_invariants p'"
proof -
  have "pipe_idle pipe_blank" "psize (pool pipe_blank) + 2 < 3" by (simp_all add: pipe_idle_def pipe_blank_def pool_wf_def)
  moreover have "\<not> avail (mem_start (\<lambda>_. False)) (requests (mem_start (\<lambda>_. False)))" by (simp add: mem_start_def)
  ultimately show ?thesis by (rule pipe_resize_failure_breaks_invariant)
qed

text \<open>C38. Asking a pipe for fewer buffers than it has is undefined behaviour (it pops the FIFO through a null pointer)
  exactly when there are buffers in its FIFO and the new size is not below their number. Below it, nothing is
  removed: the function reports success, only the pipe's count becomes the new size, and the
  assertion at its end fails.\<close>

theorem pipe_resize_shrink_null_pop:
  assumes "pipe_inv cfg m p" "n < psize (pool p) + fsize (fifo p)"
  shows "(mtdp_pipe_resize cfg m (Some p) n = None \<longleftrightarrow> fsize (fifo p) \<noteq> 0 \<and> fsize (fifo p) \<le> n) \<and>
    (n < fsize (fifo p) \<longrightarrow>
       mtdp_pipe_resize cfg m (Some p) n = Some (PoolPtr (buffers (pool p)), MTDP_OK, m, Some (p\<lparr>total_buffers := n\<rparr>)) \<and>
       \<not> mtdp_pipe_check_invariants (p\<lparr>total_buffers := n\<rparr>))"
proof -
  have wf: "psize (pool p) \<le> pcapacity (pool p)" using pipe_invD(3)[OF assms(1)] by (simp add: pool_inv_def pool_wf_def)
  consider "fsize (fifo p) = 0" | "fsize (fifo p) \<noteq> 0" "fsize (fifo p) \<le> n" | "n < fsize (fifo p)" by linarith
  then show ?thesis
  proof cases
    case 1
    then show ?thesis using pipe_resize_shrink[OF 1 _ wf, of n cfg m] assms(2) by simp
  next
    case 2
    then show ?thesis using pipe_resize_shrink_fault[OF pipe_invD(4)[OF assms(1)] _ _ assms(2) _ wf] by simp
  next
    case 3
    then show ?thesis using pipe_resize_below_fifo[OF 3, of cfg m] by (simp add: mtdp_pipe_check_invariants_def)
  qed
qed

theorem pipe_resize_shrink_null_pop_witness:
  "\<exists>m p. mtdp_pipe_check_invariants p \<and> fifo_elems default_config m (fifo p) = [Ptr 2] \<and>
    pool_elems (pool p) = [Ptr 1, Ptr 3] \<and> mtdp_pipe_resize default_config m (Some p) 2 = None"
proof -
  let ?c = default_config
  obtain m0 p0 where p0: "pipe_inv ?c m0 p0" "\<forall>n. avail m0 n" "fsize (fifo p0) = 0" using pipe_start by blast
  define q where "q = (pipe_filled p0 [Ptr 1, Ptr 3])\<lparr>total_buffers := 3\<rparr>"
  have q: "pipe_inv ?c m0 q" "pool_elems (pool q) = [Ptr 1, Ptr 3]"
    using pipe_filled_inv[OF p0(1), of "[Ptr 1, Ptr 3]"] by (simp_all add: q_def pipe_inv_def)
  have q3: "psize (pool q) = 2" by (simp add: q_def pipe_filled_def)
  obtain ok m p where r: "mtdp_pipe_push_buffer ?c m0 q (Ptr 2) = Some (ok, m, p)" "pipe_inv ?c m p"
    "fifo_elems ?c m (fifo p) =
       (if ok then fifo_elems ?c m0 (fifo q) @ [Ptr 2] else fifo_elems ?c m0 (fifo q))"
    "pool p = pool q" "total_buffers p = total_buffers q" "(\<forall>n. avail m0 n) \<longrightarrow> ok"
    by (rule pipe_push_buffer[OF q(1), where b = "Ptr 2"])
  have el: "fifo_elems ?c m (fifo p) = [Ptr 2]" using r(3,6) p0(2,3) by (simp add: q_def pipe_filled_def)
  have sz: "fsize (fifo p) = 1" using arg_cong[OF el, of length] by simp
  have "mtdp_pipe_resize ?c m (Some p) 2 = None"
    using pipe_resize_shrink_null_pop[OF r(2), of 2] sz q3 r(4) by simp
  moreover have "mtdp_pipe_check_invariants p"
    using sz q3 r(4,5) by (simp add: mtdp_pipe_check_invariants_def q_def)
  moreover have "pool_elems (pool p) = [Ptr 1, Ptr 3]" using q(2) r(4) by simp
  ultimately show ?thesis using el by blast
qed

end
