(* ===== verification/Worker.thy ===== *)
theory Worker
  imports Mtdp_Errno
begin

text \<open>
  The worker of \<open>src/worker.c\<close> and \<open>src/worker.h\<close>: a thread that calls a routine in a loop while it
  is enabled. This theory holds the functions that other threads call on it, as functions of
  the worker and of the C runtime; the thread itself and its interleaving with these calls
  is the theory Worker_Protocol.

  A call into the C runtime returns a code the runtime chooses: \<open>codes\<close> is the sequence of codes
  to come, over which the theorems quantify. \<open>objects\<close> counts the live mutexes and condition
  variables, \<open>threads\<close> the threads created and not joined, \<open>errno\<close> is the calling thread's error
  location. A function that never returns (locking a mutex the caller already holds) is
  \<open>None\<close>.
\<close>

section \<open>The C runtime\<close>

datatype thrd_result = thrd_success | thrd_busy | thrd_error | thrd_nomem | thrd_timedout

record runtime =
  codes :: "nat \<Rightarrow> thrd_result"
  calls :: nat
  objects :: int
  threads :: int
  errno :: mtdp_error

definition rt_call :: "runtime \<Rightarrow> thrd_result \<times> runtime" where
  "rt_call rt = (codes rt (calls rt), rt\<lparr>calls := Suc (calls rt)\<rparr>)"

text \<open>The error half of \<open>thrd_check\<close>, \<open>mtx_check\<close> and \<open>cnd_check\<close>; \<open>err\<close> is the code of the macro.\<close>

definition check_failed :: "mtdp_error \<Rightarrow> thrd_result \<Rightarrow> runtime \<Rightarrow> runtime" where
  "check_failed err ret rt = rt\<lparr>errno := (if ret = thrd_nomem then MTDP_NO_MEM else err)\<rparr>"

section \<open>The worker and its operations\<close>

text \<open>\<open>cb\<close> and \<open>args\<close>: the routine and the object it is called on, null until they are set.\<close>

datatype worker_routine = Source_routine | Stage_routine | Sink_routine

datatype worker_object = Source_impl | Stage_impl nat | Sink_impl

record mtdp_worker =
  thread :: bool          \<comment> \<open>a thread was created and not joined\<close>
  cv :: bool              \<comment> \<open>initialised\<close>
  mutex :: "bool option"  \<comment> \<open>\<open>None\<close>: not initialised; \<open>Some b\<close>: held by the caller or not\<close>
  enabled :: bool
  destroyed :: bool
  wname :: "string option"
  cb :: "worker_routine option"
  args :: "worker_object option"

definition mtdp_worker_init :: "runtime \<Rightarrow> mtdp_worker \<Rightarrow> bool \<times> runtime \<times> mtdp_worker" where
  "mtdp_worker_init rt w =
    (let w = w\<lparr>enabled := False, destroyed := False\<rparr> in
     case rt_call rt of (ret, rt) \<Rightarrow>
     if ret \<noteq> thrd_success then (False, check_failed MTDP_CND_ERROR ret rt, w) else
     let rt = rt\<lparr>objects := objects rt + 1\<rparr>; w = w\<lparr>cv := True\<rparr> in
     case rt_call rt of (out, rt) \<Rightarrow>
     if out \<noteq> thrd_success then
       (False, check_failed MTDP_MTX_ERROR out (rt\<lparr>objects := objects rt - 1\<rparr>), w\<lparr>cv := False\<rparr>)
     else (True, rt\<lparr>objects := objects rt + 1\<rparr>,
           w\<lparr>mutex := Some False, wname := None, cb := None, args := None\<rparr>))"

definition mtdp_worker_create_thread :: "runtime \<Rightarrow> mtdp_worker \<Rightarrow> bool \<times> runtime \<times> mtdp_worker" where
  "mtdp_worker_create_thread rt w =
    (case rt_call rt of (ret, rt) \<Rightarrow>
     if ret \<noteq> thrd_success then (False, check_failed MTDP_THRD_ERROR ret rt, w)
     else (True, rt\<lparr>threads := threads rt + 1\<rparr>, w\<lparr>thread := True\<rparr>))"

text \<open>Locking a mutex the caller holds does not return; a mutex or condition variable that was
  never initialised must not be used at all. Both are \<open>None\<close>.\<close>

definition worker_mtx_lock :: "runtime \<Rightarrow> mtdp_worker \<Rightarrow> (thrd_result \<times> runtime \<times> mtdp_worker) option" where
  "worker_mtx_lock rt w =
    (if mutex w = Some False then
       (case rt_call rt of (ret, rt) \<Rightarrow>
          Some (ret, rt, if ret = thrd_success then w\<lparr>mutex := Some True\<rparr> else w))
     else None)"

definition worker_mtx_unlock :: "runtime \<Rightarrow> mtdp_worker \<Rightarrow> (thrd_result \<times> runtime \<times> mtdp_worker) option" where
  "worker_mtx_unlock rt w =
    (if mutex w = Some True then
       (case rt_call rt of (ret, rt) \<Rightarrow>
          Some (ret, rt, if ret = thrd_success then w\<lparr>mutex := Some False\<rparr> else w))
     else None)"

definition worker_cnd_signal :: "runtime \<Rightarrow> mtdp_worker \<Rightarrow> (thrd_result \<times> runtime) option" where
  "worker_cnd_signal rt w = (if cv w then Some (rt_call rt) else None)"

text \<open>The common body of the three setters; \<open>upd\<close> is the assignment made under the mutex.\<close>

definition worker_set ::
  "(mtdp_worker \<Rightarrow> mtdp_worker) \<Rightarrow> runtime \<Rightarrow> mtdp_worker \<Rightarrow> (bool \<times> runtime \<times> mtdp_worker) option" where
  "worker_set upd rt w = do {
     (ret, rt, w) \<leftarrow> worker_mtx_lock rt w;
     if ret \<noteq> thrd_success then Some (False, check_failed MTDP_MTX_ERROR ret rt, w) else do {
       let w = upd w;
       (ret, rt, w) \<leftarrow> worker_mtx_unlock rt w;
       if ret \<noteq> thrd_success then Some (False, check_failed MTDP_MTX_ERROR ret rt, w) else do {
         (ret, rt) \<leftarrow> worker_cnd_signal rt w;
         if ret \<noteq> thrd_success then Some (False, check_failed MTDP_CND_ERROR ret rt, w)
         else Some (True, rt, w) } } }"

definition mtdp_worker_enable :: "runtime \<Rightarrow> mtdp_worker \<Rightarrow> (bool \<times> runtime \<times> mtdp_worker) option" where
  "mtdp_worker_enable = worker_set (\<lambda>w. w\<lparr>enabled := True\<rparr>)"

definition mtdp_worker_disable :: "runtime \<Rightarrow> mtdp_worker \<Rightarrow> (bool \<times> runtime \<times> mtdp_worker) option" where
  "mtdp_worker_disable = worker_set (\<lambda>w. w\<lparr>enabled := False\<rparr>)"

definition mtdp_worker_destroy :: "runtime \<Rightarrow> mtdp_worker \<Rightarrow> (bool \<times> runtime \<times> mtdp_worker) option" where
  "mtdp_worker_destroy = worker_set (\<lambda>w. w\<lparr>destroyed := True\<rparr>)"

text \<open>Joining needs a thread that was created; the call returns once the thread has exited.\<close>

definition mtdp_worker_join :: "runtime \<Rightarrow> mtdp_worker \<Rightarrow> (bool \<times> runtime \<times> mtdp_worker) option" where
  "mtdp_worker_join rt w =
    (if thread w then
       (case rt_call rt of (ret, rt) \<Rightarrow>
          if ret \<noteq> thrd_success then Some (False, check_failed MTDP_THRD_ERROR ret rt, w)
          else Some (True, rt\<lparr>threads := threads rt - 1\<rparr>, w\<lparr>thread := False\<rparr>))
     else None)"

section \<open>Facts\<close>

definition worker_ready :: "mtdp_worker \<Rightarrow> bool" where
  "worker_ready w \<longleftrightarrow> cv w \<and> mutex w = Some False"

text \<open>The runtime answers success to the next \<open>n\<close> calls.\<close>

definition rt_ok :: "runtime \<Rightarrow> nat \<Rightarrow> bool" where
  "rt_ok rt n \<longleftrightarrow> (\<forall>k < n. codes rt (calls rt + k) = thrd_success)"

lemma worker_set_cases:
  assumes ready: "worker_ready w" and upd: "\<And>w. mutex (upd w) = mutex w" "\<And>w. cv (upd w) = cv w"
    "\<And>w b. (upd w)\<lparr>mutex := b\<rparr> = upd (w\<lparr>mutex := b\<rparr>)"
  obtains (Ok) "rt_ok rt 3" "worker_set upd rt w = Some (True, rt\<lparr>calls := calls rt + 3\<rparr>, upd w)"
  | (Lock) "\<not> rt_ok rt 1" "worker_set upd rt w = Some (False,
        check_failed MTDP_MTX_ERROR (codes rt (calls rt)) (rt\<lparr>calls := calls rt + 1\<rparr>), w)"
  | (Unlock) "rt_ok rt 1" "\<not> rt_ok rt 2" "worker_set upd rt w = Some (False,
        check_failed MTDP_MTX_ERROR (codes rt (calls rt + 1)) (rt\<lparr>calls := calls rt + 2\<rparr>), (upd w)\<lparr>mutex := Some True\<rparr>)"
  | (Signal) "rt_ok rt 2" "\<not> rt_ok rt 3" "worker_set upd rt w = Some (False,
        check_failed MTDP_CND_ERROR (codes rt (calls rt + 2)) (rt\<lparr>calls := calls rt + 3\<rparr>), upd w)"
proof -
  have w: "w\<lparr>mutex := Some False\<rparr> = w" using ready by (cases w) (simp add: worker_ready_def)
  note d = worker_set_def worker_mtx_lock_def worker_mtx_unlock_def worker_cnd_signal_def rt_call_def
    worker_ready_def rt_ok_def numeral_3_eq_3 numeral_2_eq_2 All_less_Suc
  let ?c = "\<lambda>k. codes rt (calls rt + k) = thrd_success"
  consider "\<not> ?c 0" | "?c 0" "\<not> ?c 1" | "?c 0" "?c 1" "\<not> ?c 2" | "?c 0" "?c 1" "?c 2" by blast
  then show ?thesis
  proof cases
    case 1
    show ?thesis by (rule Lock) (use 1 ready upd in \<open>simp_all add: d w\<close>)
  next
    case 2
    show ?thesis by (rule Unlock) (use 2 ready upd in \<open>simp_all add: d w\<close>)
  next
    case 3
    show ?thesis by (rule Signal) (use 3 ready upd in \<open>simp_all add: d w\<close>)
  next
    case 4
    show ?thesis by (rule Ok) (use 4 ready upd in \<open>simp_all add: d w\<close>)
  qed
qed

lemmas worker_setters = mtdp_worker_enable_def mtdp_worker_disable_def mtdp_worker_destroy_def

lemma rt_ok_mono: "rt_ok rt n \<Longrightarrow> m \<le> n \<Longrightarrow> rt_ok rt m"
  by (simp add: rt_ok_def)

lemma check_failed_errno: "errno (check_failed err ret rt) \<in> {err, MTDP_NO_MEM}"
  by (simp add: check_failed_def)

lemma worker_set_ok:
  assumes "worker_ready w" "rt_ok rt 3" "\<And>w. mutex (upd w) = mutex w" "\<And>w. cv (upd w) = cv w"
    "\<And>w b. (upd w)\<lparr>mutex := b\<rparr> = upd (w\<lparr>mutex := b\<rparr>)"
  shows "worker_set upd rt w = Some (True, rt\<lparr>calls := calls rt + 3\<rparr>, upd w)"
  using assms(1,3-5)
proof (cases rule: worker_set_cases[where rt = rt])
  case Lock
  then show ?thesis using rt_ok_mono[OF assms(2), of 1] by simp
next
  case Unlock
  then show ?thesis using rt_ok_mono[OF assms(2), of 2] by simp
next
  case Signal
  then show ?thesis using assms(2) by simp
qed simp

text \<open>The conditions of the case rule, for the setters.\<close>

lemma setter_laws:
  "mutex ((\<lambda>w. w\<lparr>enabled := b\<rparr>) w) = mutex w" "cv ((\<lambda>w. w\<lparr>enabled := b\<rparr>) w) = cv w"
  "((\<lambda>w. w\<lparr>enabled := b\<rparr>) w)\<lparr>mutex := x\<rparr> = (\<lambda>w. w\<lparr>enabled := b\<rparr>) (w\<lparr>mutex := x\<rparr>)"
  by simp_all

section \<open>Properties\<close>

definition worker_blank :: mtdp_worker where
  "worker_blank = \<lparr>thread = False, cv = False, mutex = None, enabled = False, destroyed = False,
     wname = None, cb = None, args = None\<rparr>"

definition runtime_start :: "(nat \<Rightarrow> thrd_result) \<Rightarrow> runtime" where
  "runtime_start cs = \<lparr>codes = cs, calls = 0, objects = 0, threads = 0, errno = MTDP_OK\<rparr>"

text \<open>Enabling a worker reports success exactly when the three runtime calls (lock, unlock,
  signal) succeed; then the worker is enabled, its mutex is free and the error code is not
  touched. On failure the error code names the kind of call that failed or the lack of memory;
  the flag has then been set all the same, unless it was the lock that failed.\<close>

theorem worker_enable_outcome:
  assumes "worker_ready w"
  shows "\<exists>ok rt' w'. mtdp_worker_enable rt w = Some (ok, rt', w') \<and> (ok \<longleftrightarrow> rt_ok rt 3) \<and>
    (if ok then errno rt' = errno rt \<and> worker_ready w'
     else errno rt' \<in> {MTDP_NO_MEM, if rt_ok rt 2 then MTDP_CND_ERROR else MTDP_MTX_ERROR}) \<and>
    (enabled w' \<longleftrightarrow> enabled w \<or> rt_ok rt 1)"
proof (cases rt rule: worker_set_cases[OF assms setter_laws[where b = True], case_names Ok Lock Unlock Signal])
  case Ok
  then show ?thesis using assms rt_ok_mono[of rt 3 1] by (auto simp: worker_ready_def worker_setters)
next
  case Lock
  then show ?thesis using rt_ok_mono[of rt 3 1] rt_ok_mono[of rt 2 1] by (auto simp: check_failed_def worker_setters)
next
  case Unlock
  then show ?thesis using rt_ok_mono[of rt 3 2] by (auto simp: check_failed_def worker_setters)
next
  case Signal
  then show ?thesis using rt_ok_mono[of rt 2 1] by (auto simp: check_failed_def worker_setters)
qed

text \<open>A worker as \<open>mtdp_worker_init\<close> leaves it.\<close>

definition worker_fresh :: mtdp_worker where
  "worker_fresh = worker_blank\<lparr>cv := True, mutex := Some False\<rparr>"

theorem worker_enable_outcome_witness:
  "\<exists>rt' w'. mtdp_worker_enable (runtime_start (\<lambda>n. if n = 2 then thrd_error else thrd_success)) worker_fresh =
    Some (False, rt', w') \<and> errno rt' \<in> {MTDP_NO_MEM, MTDP_CND_ERROR} \<and> enabled w'"
proof -
  let ?rt = "runtime_start (\<lambda>n. if n = 2 then thrd_error else thrd_success)"
  have "worker_ready worker_fresh" by (simp add: worker_ready_def worker_fresh_def)
  moreover have "\<not> rt_ok ?rt 3" "rt_ok ?rt 2" "rt_ok ?rt 1" by (auto simp: rt_ok_def runtime_start_def)
  ultimately show ?thesis using worker_enable_outcome[of worker_fresh ?rt] by auto
qed

text \<open>If unlocking the worker's mutex ever fails, the worker is lost: the call reports
  failure with the mutex still held, and every later call that enables, disables or destroys
  the worker from the same thread never returns.\<close>

theorem worker_unlock_failure_deadlocks:
  assumes "worker_ready w" "rt_ok rt 1" "\<not> rt_ok rt 2" "mtdp_worker_disable rt w = Some (ok, rt', w')"
  shows "\<not> ok \<and> mtdp_worker_enable rt2 w' = None \<and> mtdp_worker_disable rt2 w' = None \<and>
    mtdp_worker_destroy rt2 w' = None"
proof -
  have "\<not> ok \<and> mutex w' = Some True"
  proof (cases rt rule: worker_set_cases[OF assms(1) setter_laws[where b = False], case_names Ok Lock Unlock Signal])
    case Ok
    then show ?thesis using assms(3) rt_ok_mono[of rt 3 2] by simp
  next
    case Unlock
    then show ?thesis using assms(4) by (auto simp: worker_setters)
  qed (use assms in simp_all)
  then show ?thesis by (simp add: worker_setters worker_set_def worker_mtx_lock_def)
qed

theorem worker_unlock_failure_deadlocks_witness:
  "\<exists>ok rt' w'. mtdp_worker_disable (runtime_start (\<lambda>n. if n = 1 then thrd_error else thrd_success)) worker_fresh =
    Some (ok, rt', w') \<and> \<not> ok \<and> mtdp_worker_destroy rt' w' = None"
proof -
  let ?rt = "runtime_start (\<lambda>n. if n = 1 then thrd_error else thrd_success)"
  have r: "worker_ready worker_fresh" by (simp add: worker_ready_def worker_fresh_def)
  have c: "rt_ok ?rt 1" "\<not> rt_ok ?rt 2" by (auto simp: rt_ok_def runtime_start_def)
  obtain rt' w' where d: "mtdp_worker_disable ?rt worker_fresh = Some (False, rt', w')"
    by (simp add: worker_setters worker_set_def worker_mtx_lock_def worker_mtx_unlock_def rt_call_def
        worker_fresh_def runtime_start_def)
  from worker_unlock_failure_deadlocks[OF r c d, of rt'] d show ?thesis by blast
qed

text \<open>Initialising a worker acquires a condition variable and a mutex or, reporting failure with
  its reason, nothing at all. After success the worker is neither enabled nor destroyed and
  its mutex is free.\<close>

theorem worker_init_outcome:
  "\<exists>ok rt' w'. mtdp_worker_init rt w = (ok, rt', w') \<and> (ok \<longleftrightarrow> rt_ok rt 2) \<and> \<not> enabled w' \<and> \<not> destroyed w' \<and>
    (if ok then objects rt' = objects rt + 2 \<and> errno rt' = errno rt \<and> worker_ready w'
     else objects rt' = objects rt \<and> errno rt' \<in> {MTDP_NO_MEM, MTDP_CND_ERROR, MTDP_MTX_ERROR})"
  by (auto simp: mtdp_worker_init_def rt_call_def Let_def check_failed_def worker_ready_def rt_ok_def
      numeral_2_eq_2 All_less_Suc)

end
