(* ===== verification/Worker_Protocol.thy ===== *)
theory Worker_Protocol
  imports Worker
begin

text \<open>
  The worker thread (\<open>mtdp_worker_routine\<close> of \<open>src/worker.c\<close>) and the threads that enable,
  disable and destroy the worker, as a step relation on the worker's two flags, its mutex and
  its condition variable. A thread does one visible action per step; the program counters
  name the action to come. The calls into the C runtime succeed here (their failures are the
  subject of the theory Worker). A wait may end spuriously. The callback
  returns after finitely many calls of \<open>mtdp_source_finished\<close>, whose second half is
  \<open>mtdp_worker_destroy\<close> called from the worker thread itself.
\<close>

section \<open>The two programs\<close>

datatype wpc = W_Test | W_Lock | W_Loop | W_Waiting | W_Relock | W_Unlock | W_Check | W_Callback
  | W_FinLock | W_FinSet | W_FinUnlock | W_FinSignal | W_Exited

datatype ctl_request = Enable | Disable | Destroy

datatype cpc = C_Idle | C_Lock ctl_request | C_Set ctl_request | C_Unlock | C_Signal

datatype agent = Worker_thread | Ctl nat

text \<open>\<open>late\<close> is a ghost: the callbacks started since \<open>enabled\<close> last became false.\<close>

record wstate =
  w_enabled :: bool
  w_destroyed :: bool
  owner :: "agent option"
  signalled :: bool
  pc :: wpc
  ctl :: "nat \<Rightarrow> cpc"
  late :: nat

definition worker_signal :: "wstate \<Rightarrow> wstate" where
  "worker_signal s = (if pc s = W_Waiting then s\<lparr>signalled := True\<rparr> else s)"

text \<open>The worker thread; \<open>fin\<close>: whether the callback now calls \<open>mtdp_source_finished\<close> (else it
  returns). \<open>None\<close>: blocked, or exited.\<close>

definition routine_step :: "bool \<Rightarrow> wstate \<Rightarrow> wstate option" where
  "routine_step fin s =
    (case pc s of
       W_Test \<Rightarrow> Some (s\<lparr>pc := if w_destroyed s then W_Exited else W_Lock\<rparr>)
     | W_Lock \<Rightarrow> if owner s = None then Some (s\<lparr>owner := Some Worker_thread, pc := W_Loop\<rparr>) else None
     | W_Loop \<Rightarrow> if \<not> (w_enabled s \<or> w_destroyed s)
                 then Some (s\<lparr>owner := None, signalled := False, pc := W_Waiting\<rparr>)
                 else Some (s\<lparr>pc := W_Unlock\<rparr>)
     | W_Waiting \<Rightarrow> if signalled s then Some (s\<lparr>pc := W_Relock\<rparr>) else None
     | W_Relock \<Rightarrow> if owner s = None then Some (s\<lparr>owner := Some Worker_thread, pc := W_Loop\<rparr>) else None
     | W_Unlock \<Rightarrow> Some (s\<lparr>owner := None, pc := W_Check\<rparr>)
     | W_Check \<Rightarrow> if w_destroyed s then Some (s\<lparr>pc := W_Exited\<rparr>)
                  else Some (s\<lparr>pc := W_Callback, late := if w_enabled s then 0 else Suc (late s)\<rparr>)
     | W_Callback \<Rightarrow> Some (s\<lparr>pc := if fin then W_FinLock else W_Test\<rparr>)
     | W_FinLock \<Rightarrow> if owner s = None then Some (s\<lparr>owner := Some Worker_thread, pc := W_FinSet\<rparr>) else None
     | W_FinSet \<Rightarrow> Some (s\<lparr>w_destroyed := True, pc := W_FinUnlock\<rparr>)
     | W_FinUnlock \<Rightarrow> Some (s\<lparr>owner := None, pc := W_FinSignal\<rparr>)
     | W_FinSignal \<Rightarrow> Some ((worker_signal s)\<lparr>pc := W_Callback\<rparr>)
     | W_Exited \<Rightarrow> None)"

definition apply_request :: "ctl_request \<Rightarrow> wstate \<Rightarrow> wstate" where
  "apply_request r s =
    (case r of
       Enable \<Rightarrow> s\<lparr>w_enabled := True\<rparr>
     | Disable \<Rightarrow> s\<lparr>w_enabled := False, late := if w_enabled s then 0 else late s\<rparr>
     | Destroy \<Rightarrow> s\<lparr>w_destroyed := True\<rparr>)"

text \<open>Another thread inside \<open>mtdp_worker_enable\<close>, \<open>_disable\<close> or \<open>_destroy\<close>.\<close>

definition ctl_step :: "nat \<Rightarrow> wstate \<Rightarrow> wstate option" where
  "ctl_step i s =
    (case ctl s i of
       C_Idle \<Rightarrow> None
     | C_Lock r \<Rightarrow> if owner s = None then Some (s\<lparr>owner := Some (Ctl i), ctl := (ctl s)(i := C_Set r)\<rparr>) else None
     | C_Set r \<Rightarrow> Some ((apply_request r s)\<lparr>ctl := (ctl s)(i := C_Unlock)\<rparr>)
     | C_Unlock \<Rightarrow> Some (s\<lparr>owner := None, ctl := (ctl s)(i := C_Signal)\<rparr>)
     | C_Signal \<Rightarrow> Some ((worker_signal s)\<lparr>ctl := (ctl s)(i := C_Idle)\<rparr>))"

inductive worker_step :: "wstate \<Rightarrow> wstate \<Rightarrow> bool" where
  thread: "routine_step fin s = Some s' \<Longrightarrow> worker_step s s'"
| controller: "ctl_step i s = Some s' \<Longrightarrow> worker_step s s'"
| call: "ctl s i = C_Idle \<Longrightarrow> worker_step s (s\<lparr>ctl := (ctl s)(i := C_Lock r)\<rparr>)"
| spurious: "pc s = W_Waiting \<Longrightarrow> worker_step s (s\<lparr>pc := W_Relock\<rparr>)"

text \<open>A thread just created, on a worker that was initialised.\<close>

definition worker_start :: wstate where
  "worker_start = \<lparr>w_enabled = False, w_destroyed = False, owner = None, signalled = False,
     pc = W_Test, ctl = (\<lambda>_. C_Idle), late = 0\<rparr>"

inductive worker_reach :: "wstate \<Rightarrow> bool" where
  start: "worker_reach worker_start"
| step: "worker_reach s \<Longrightarrow> worker_step s s' \<Longrightarrow> worker_reach s'"

inductive_cases worker_stepE: "worker_step s s'"

section \<open>The invariant\<close>

text \<open>Who holds the mutex is determined by the program counters; a waiting worker whose reason to
  wait is gone has been signalled or will be by a thread that is past its assignment; and at
  most one callback starts while the worker is disabled.\<close>

definition holds_mutex :: "cpc \<Rightarrow> bool" where
  "holds_mutex c \<longleftrightarrow> (case c of C_Set _ \<Rightarrow> True | C_Unlock \<Rightarrow> True | _ \<Rightarrow> False)"

definition pending :: "(nat \<Rightarrow> cpc) \<Rightarrow> bool" where
  "pending c \<longleftrightarrow> (\<exists>i. c i \<in> {C_Unlock, C_Signal})"

definition worker_inv :: "wstate \<Rightarrow> bool" where
  "worker_inv s \<longleftrightarrow>
     (owner s = Some Worker_thread \<longleftrightarrow> pc s \<in> {W_Loop, W_Unlock, W_FinSet, W_FinUnlock}) \<and>
     (\<forall>i. owner s = Some (Ctl i) \<longleftrightarrow> holds_mutex (ctl s i)) \<and>
     (pc s = W_Waiting \<longrightarrow> w_enabled s \<or> w_destroyed s \<longrightarrow> signalled s \<or> pending (ctl s)) \<and>
     (\<not> w_enabled s \<longrightarrow> late s \<le> 1 \<and> (pc s \<in> {W_Unlock, W_Check} \<longrightarrow> \<not> w_destroyed s \<longrightarrow> late s = 0)) \<and>
     (pc s = W_Exited \<longrightarrow> w_destroyed s)"

lemma holds_mutex_simps [simp]:
  "\<not> holds_mutex C_Idle" "\<not> holds_mutex (C_Lock r)" "holds_mutex (C_Set r)" "holds_mutex C_Unlock"
  "\<not> holds_mutex C_Signal"
  by (simp_all add: holds_mutex_def)

lemma pending_keep: "pending c \<Longrightarrow> c i \<notin> {C_Unlock, C_Signal} \<Longrightarrow> pending (c(i := x))"
  by (metis fun_upd_other pending_def)

lemma pending_new [simp]: "pending (c(i := C_Unlock))" "pending (c(i := C_Signal))"
  by (metis fun_upd_same insertCI pending_def)+

lemma pending_idle: "(\<And>i. c i \<notin> {C_Unlock, C_Signal}) \<Longrightarrow> \<not> pending c"
  by (simp add: pending_def)

lemma worker_invD:
  assumes "worker_inv s"
  shows "owner s = Some Worker_thread \<longleftrightarrow> pc s \<in> {W_Loop, W_Unlock, W_FinSet, W_FinUnlock}"
    "owner s = Some (Ctl i) \<longleftrightarrow> holds_mutex (ctl s i)"
    "pc s = W_Waiting \<Longrightarrow> w_enabled s \<or> w_destroyed s \<Longrightarrow> signalled s \<or> pending (ctl s)"
    "\<not> w_enabled s \<Longrightarrow> late s \<le> 1"
    "\<not> w_enabled s \<Longrightarrow> pc s \<in> {W_Unlock, W_Check} \<Longrightarrow> \<not> w_destroyed s \<Longrightarrow> late s = 0"
    "pc s = W_Exited \<Longrightarrow> w_destroyed s"
  using assms unfolding worker_inv_def by blast+

lemma worker_invI:
  assumes "owner s = Some Worker_thread \<longleftrightarrow> pc s \<in> {W_Loop, W_Unlock, W_FinSet, W_FinUnlock}"
    "\<And>i. owner s = Some (Ctl i) \<longleftrightarrow> holds_mutex (ctl s i)"
    "pc s = W_Waiting \<Longrightarrow> w_enabled s \<or> w_destroyed s \<Longrightarrow> signalled s \<or> pending (ctl s)"
    "\<not> w_enabled s \<Longrightarrow> late s \<le> 1"
    "\<not> w_enabled s \<Longrightarrow> pc s \<in> {W_Unlock, W_Check} \<Longrightarrow> \<not> w_destroyed s \<Longrightarrow> late s = 0"
    "pc s = W_Exited \<Longrightarrow> w_destroyed s"
  shows "worker_inv s"
  using assms unfolding worker_inv_def by blast

lemma worker_inv_start: "worker_inv worker_start"
  by (simp add: worker_inv_def worker_start_def)

lemma routine_step_inv:
  assumes "worker_inv s" "routine_step fin s = Some s'"
  shows "worker_inv s'"
proof (cases "pc s")
  case W_Loop
  then have "owner s = Some Worker_thread" using assms(1) by (simp add: worker_inv_def)
  with W_Loop assms show ?thesis
    by (auto simp: worker_inv_def routine_step_def split: if_splits)
qed (use assms in \<open>auto simp: worker_inv_def routine_step_def worker_signal_def split: if_splits\<close>)

text \<open>A controller's step that only moves the mutex and its own counter.\<close>

lemma ctl_move_inv:
  assumes inv: "worker_inv s" and own: "owner s \<noteq> Some Worker_thread" "o' \<noteq> Some Worker_thread"
    and ctl: "\<And>j. o' = Some (Ctl j) \<longleftrightarrow> holds_mutex (((ctl s)(i := c)) j)"
    and pend: "pending (ctl s) \<Longrightarrow> pending ((ctl s)(i := c))"
  shows "worker_inv (s\<lparr>owner := o', ctl := (ctl s)(i := c)\<rparr>)"
proof -
  note d = worker_invD[OF inv]
  have "pc s \<notin> {W_Loop, W_Unlock, W_FinSet, W_FinUnlock}" using d(1) own(1) by blast
  then show ?thesis using own(2) ctl d(3-6) pend by (intro worker_invI) auto
qed

lemma ctl_step_inv:
  assumes inv: "worker_inv s" and st: "ctl_step i s = Some s'"
  shows "worker_inv s'"
proof -
  note d = worker_invD[OF inv]
  have own: "owner s = Some (Ctl j) \<longleftrightarrow> holds_mutex (ctl s j)" for j using d(2) .
  show ?thesis
  proof (cases "ctl s i")
    case (C_Lock r)
    then have o: "owner s = None" and s': "s' = s\<lparr>owner := Some (Ctl i), ctl := (ctl s)(i := C_Set r)\<rparr>"
      using st by (simp_all add: ctl_step_def split: if_splits)
    show ?thesis unfolding s'
    proof (rule ctl_move_inv[OF inv])
      show "pending (ctl s) \<Longrightarrow> pending ((ctl s)(i := C_Set r))" using C_Lock by (simp add: pending_keep)
      show "Some (Ctl i) = Some (Ctl j) \<longleftrightarrow> holds_mutex (((ctl s)(i := C_Set r)) j)" for j
        using own[of j] o by auto
    qed (use o in simp_all)
  next
    case (C_Set r)
    have o: "owner s = Some (Ctl i)" using own[of i] C_Set by simp
    have s': "s' = (apply_request r s)\<lparr>ctl := (ctl s)(i := C_Unlock)\<rparr>" using st C_Set by (simp add: ctl_step_def)
    have c: "owner s = Some (Ctl j) \<longleftrightarrow> holds_mutex (((ctl s)(i := C_Unlock)) j)" for j
      using own[of j] C_Set by simp
    have pc: "pc s \<notin> {W_Loop, W_Unlock, W_FinSet, W_FinUnlock}" using d(1) o by simp
    show ?thesis
      unfolding s' using c o pc d(4-6) by (cases r; intro worker_invI) (auto simp: apply_request_def)
  next
    case C_Unlock
    have o: "owner s = Some (Ctl i)" using own[of i] C_Unlock by simp
    have s': "s' = s\<lparr>owner := None, ctl := (ctl s)(i := C_Signal)\<rparr>" using st C_Unlock by (simp add: ctl_step_def)
    show ?thesis unfolding s'
    proof (rule ctl_move_inv[OF inv])
      show "None = Some (Ctl j) \<longleftrightarrow> holds_mutex (((ctl s)(i := C_Signal)) j)" for j
        using own[of j] o by auto
    qed (use o in simp_all)
  next
    case C_Signal
    have s': "s' = (worker_signal s)\<lparr>ctl := (ctl s)(i := C_Idle)\<rparr>" using st C_Signal by (simp add: ctl_step_def)
    have c: "owner s = Some (Ctl j) \<longleftrightarrow> holds_mutex (((ctl s)(i := C_Idle)) j)" for j
      using own[of j] C_Signal by simp
    have f: "owner s' = owner s" "pc s' = pc s" "ctl s' = (ctl s)(i := C_Idle)" "w_enabled s' = w_enabled s"
      "w_destroyed s' = w_destroyed s" "late s' = late s" "pc s = W_Waiting \<Longrightarrow> signalled s'"
      by (simp_all add: s' worker_signal_def)
    show ?thesis by (rule worker_invI; (unfold f(1-6))?) (use c d(1,4-6) f(7) in auto)
  qed (use st in \<open>simp add: ctl_step_def\<close>)
qed

lemma worker_step_inv:
  assumes "worker_step s s'" "worker_inv s"
  shows "worker_inv s'"
  using assms
proof cases
  case (call i r)
  note d = worker_invD[OF assms(2)]
  have c: "owner s = Some (Ctl j) \<longleftrightarrow> holds_mutex (((ctl s)(i := C_Lock r)) j)" for j
    using d(2)[of j] call(2) by simp
  have "pending (ctl s) \<Longrightarrow> pending ((ctl s)(i := C_Lock r))" using call(2) by (simp add: pending_keep)
  then show ?thesis unfolding call(1) using c d(1,3-6) by (intro worker_invI) auto
next
  case spurious
  then show ?thesis unfolding spurious(1) using worker_invD[OF assms(2)] by (intro worker_invI) auto
qed (use assms in \<open>auto intro: routine_step_inv ctl_step_inv\<close>)

lemma worker_reach_inv: "worker_reach s \<Longrightarrow> worker_inv s"
  by (induction rule: worker_reach.induct) (auto intro: worker_inv_start worker_step_inv)

section \<open>Progress\<close>

text \<open>The worker thread on its own, for a number of steps, its callbacks returning at once.\<close>

fun routine_run :: "nat \<Rightarrow> wstate \<Rightarrow> wstate option" where
  "routine_run 0 s = Some s"
| "routine_run (Suc n) s = do { s \<leftarrow> routine_step False s; routine_run n s }"

definition controllers_idle :: "wstate \<Rightarrow> bool" where
  "controllers_idle s \<longleftrightarrow> (\<forall>i. ctl s i = C_Idle)"

lemma idle_owner: "worker_inv s \<Longrightarrow> controllers_idle s \<Longrightarrow> owner s = None \<or> owner s = Some Worker_thread"
  by (metis agent.exhaust controllers_idle_def holds_mutex_simps(1) option.exhaust worker_inv_def)

text \<open>Once no other thread is inside a call, the worker thread is never blocked, unless it waits
  and has nothing to do.\<close>

lemma routine_step_fields:
  "routine_step fin s = Some s' \<Longrightarrow> ctl s' = ctl s \<and> w_enabled s' = w_enabled s \<and> (w_destroyed s \<longrightarrow> w_destroyed s')"
  by (cases "pc s") (auto simp: routine_step_def worker_signal_def split: if_splits)

lemma routine_not_blocked:
  assumes inv: "worker_inv s" and idle: "controllers_idle s"
    and work: "w_enabled s \<or> w_destroyed s" and pc: "pc s \<noteq> W_Exited"
  obtains s' where "routine_step False s = Some s'" "worker_inv s'" "controllers_idle s'"
    "w_enabled s' = w_enabled s" "w_destroyed s \<longrightarrow> w_destroyed s'"
proof -
  note d = worker_invD[OF inv]
  have own: "owner s = None" if "pc s \<in> {W_Lock, W_Relock, W_FinLock}"
  proof -
    have "owner s \<noteq> Some Worker_thread" using d(1) that by auto
    with idle_owner[OF inv idle] show ?thesis by blast
  qed
  have "\<not> pending (ctl s)" by (rule pending_idle) (use idle in \<open>simp add: controllers_idle_def\<close>)
  then have sig: "signalled s" if "pc s = W_Waiting" using d(3)[OF that work] by blast
  have "routine_step False s \<noteq> None"
    using own sig pc by (cases "pc s") (simp_all add: routine_step_def)
  then obtain s' where s': "routine_step False s = Some s'" by blast
  with routine_step_fields[OF s'] routine_step_inv[OF inv s'] idle show ?thesis
    by (intro that[of s']) (simp_all add: controllers_idle_def)
qed

text \<open>The distance of the thread to its exit once \<open>destroyed\<close> is set, and to the next callback once
  \<open>enabled\<close> is set.\<close>

fun exit_distance :: "wpc \<Rightarrow> nat" where
  "exit_distance W_Exited = 0"
| "exit_distance W_Test = 1"
| "exit_distance W_Check = 1"
| "exit_distance W_Unlock = 2"
| "exit_distance W_Loop = 3"
| "exit_distance W_Lock = 4"
| "exit_distance W_Relock = 4"
| "exit_distance W_Waiting = 5"
| "exit_distance W_Callback = 2"
| "exit_distance W_FinSignal = 3"
| "exit_distance W_FinUnlock = 4"
| "exit_distance W_FinSet = 5"
| "exit_distance W_FinLock = 6"

fun start_distance :: "wpc \<Rightarrow> nat" where
  "start_distance W_Callback = 0"
| "start_distance W_Check = 1"
| "start_distance W_Unlock = 2"
| "start_distance W_Loop = 3"
| "start_distance W_Lock = 4"
| "start_distance W_Relock = 4"
| "start_distance W_Waiting = 5"
| "start_distance W_Test = 5"
| "start_distance W_FinSignal = 1"
| "start_distance W_FinUnlock = 2"
| "start_distance W_FinSet = 3"
| "start_distance W_FinLock = 4"
| "start_distance W_Exited = 0"

lemma exit_distance_0: "exit_distance p = 0 \<longleftrightarrow> p = W_Exited" by (cases p) simp_all

lemma exit_distance_step:
  "routine_step False s = Some s' \<Longrightarrow> w_destroyed s \<Longrightarrow> exit_distance (pc s) = Suc (exit_distance (pc s'))"
  by (cases "pc s") (auto simp: routine_step_def split: if_splits)

lemma exits:
  assumes "worker_inv s" "controllers_idle s" "w_destroyed s" "exit_distance (pc s) = n"
  shows "\<exists>s'. routine_run n s = Some s' \<and> pc s' = W_Exited"
  using assms
proof (induction n arbitrary: s)
  case 0
  then show ?case by (simp add: exit_distance_0)
next
  case (Suc n)
  then have "pc s \<noteq> W_Exited" by auto
  then obtain s' where s': "routine_step False s = Some s'" "worker_inv s'" "controllers_idle s'"
    "w_destroyed s \<longrightarrow> w_destroyed s'"
    using routine_not_blocked[OF Suc.prems(1,2)] Suc.prems(3) by metis
  have "exit_distance (pc s') = n" using exit_distance_step[OF s'(1) Suc.prems(3)] Suc.prems(4) by simp
  with Suc.IH[OF s'(2,3)] s'(1,4) Suc.prems(3) show ?case by simp
qed

text \<open>What makes a callback certain: enabled, and not destroyed, except from within the callback.\<close>

definition will_start :: "wstate \<Rightarrow> bool" where
  "will_start s \<longleftrightarrow> w_enabled s \<and> (w_destroyed s \<longrightarrow> pc s \<in> {W_FinUnlock, W_FinSignal, W_Callback})"

lemma start_distance_step:
  "routine_step False s = Some s' \<Longrightarrow> will_start s \<Longrightarrow> pc s \<noteq> W_Callback \<Longrightarrow>
     will_start s' \<and> start_distance (pc s') < start_distance (pc s)"
  by (cases "pc s") (auto simp: will_start_def routine_step_def worker_signal_def split: if_splits)

lemma starts:
  assumes "worker_inv s" "controllers_idle s" "will_start s"
  shows "\<exists>n s'. n \<le> start_distance (pc s) \<and> routine_run n s = Some s' \<and> pc s' = W_Callback"
  using assms
proof (induction "start_distance (pc s)" arbitrary: s rule: less_induct)
  case less
  show ?case
  proof (cases "pc s = W_Callback")
    case True
    then show ?thesis by (intro exI[of _ 0]) simp
  next
    case False
    have "pc s \<noteq> W_Exited" using worker_invD(6)[OF less.prems(1)] less.prems(3) by (auto simp: will_start_def)
    moreover have "w_enabled s \<or> w_destroyed s" using less.prems(3) by (simp add: will_start_def)
    ultimately obtain s' where s': "routine_step False s = Some s'" "worker_inv s'" "controllers_idle s'"
      using routine_not_blocked[OF less.prems(1,2)] by metis
    note st = start_distance_step[OF s'(1) less.prems(3) False]
    obtain n s'' where "n \<le> start_distance (pc s')" "routine_run n s' = Some s''" "pc s'' = W_Callback"
      using less.hyps[OF _ s'(2,3)] st by blast
    then show ?thesis using s'(1) st by (intro exI[of _ "Suc n"]) auto
  qed
qed

section \<open>Properties\<close>

text \<open>C27. No wake-up is lost. In every interleaving of the worker thread with any number of threads
  that enable, disable and destroy the worker, a worker blocked on its condition variable
  without a signal has nothing to do (it is neither enabled nor destroyed) as soon as no thread
  is between its assignment and its signal.\<close>

theorem worker_no_lost_wakeup:
  assumes "worker_reach s" "pc s = W_Waiting" "\<not> signalled s" "\<And>i. ctl s i \<notin> {C_Unlock, C_Signal}"
  shows "\<not> w_enabled s \<and> \<not> w_destroyed s"
  using worker_invD(3)[OF worker_reach_inv[OF assms(1)] assms(2)] assms(3) pending_idle[of "ctl s"] assms(4) by blast

text \<open>The steps to the first wait.\<close>

definition worker_waiting :: wstate where
  "worker_waiting = worker_start\<lparr>pc := W_Waiting\<rparr>"

lemma worker_waiting_reach: "worker_reach worker_waiting"
proof -
  let ?a = "worker_start\<lparr>pc := W_Lock\<rparr>" and ?b = "worker_start\<lparr>pc := W_Loop, owner := Some Worker_thread\<rparr>"
  have "worker_step worker_start ?a" "worker_step ?a ?b" "worker_step ?b worker_waiting"
    by (rule worker_step.thread[of False], simp add: routine_step_def worker_start_def worker_waiting_def)+
  then show ?thesis by (metis worker_reach.intros)
qed

theorem worker_no_lost_wakeup_witness:
  "worker_reach worker_waiting \<and> pc worker_waiting = W_Waiting \<and> \<not> w_enabled worker_waiting"
proof -
  have "pc worker_waiting = W_Waiting" "\<not> signalled worker_waiting" "\<And>i. ctl worker_waiting i \<notin> {C_Unlock, C_Signal}"
    by (simp_all add: worker_waiting_def worker_start_def)
  from worker_no_lost_wakeup[OF worker_waiting_reach this] worker_waiting_reach this(1) show ?thesis by simp
qed

text \<open>A destroyed worker's thread exits: from every reachable state in which the worker was
  destroyed and no other thread is inside a call, the thread reaches its exit by its own steps,
  at most six, so that joining it returns (the callback itself is assumed to return).\<close>

theorem worker_destroy_exits:
  assumes "worker_reach s" "w_destroyed s" "\<And>i. ctl s i = C_Idle"
  shows "\<exists>n s'. n \<le> 6 \<and> routine_run n s = Some s' \<and> pc s' = W_Exited"
proof -
  have "exit_distance p \<le> 6" for p by (cases p) simp_all
  with exits[OF worker_reach_inv[OF assms(1)] _ assms(2) refl] assms(3) show ?thesis
    by (auto simp: controllers_idle_def)
qed

lemma worker_reach_ctl:
  "worker_reach s \<Longrightarrow> ctl_step i s = Some s' \<Longrightarrow> worker_reach s'"
  by (meson worker_reach.step worker_step.controller)

text \<open>A waiting worker that was told to do something and signalled.\<close>

lemma worker_told_reach:
  assumes "r \<in> {Enable, Destroy}"
  shows "worker_reach ((apply_request r worker_waiting)\<lparr>signalled := True\<rparr>)"
proof -
  let ?c = "(\<lambda>_. C_Idle) :: nat \<Rightarrow> cpc"
  let ?a = "worker_waiting\<lparr>ctl := ?c(0 := C_Lock r)\<rparr>"
  let ?b = "worker_waiting\<lparr>ctl := ?c(0 := C_Set r), owner := Some (Ctl 0)\<rparr>"
  let ?d = "(apply_request r worker_waiting)\<lparr>ctl := ?c(0 := C_Unlock), owner := Some (Ctl 0)\<rparr>"
  let ?e = "(apply_request r worker_waiting)\<lparr>ctl := ?c(0 := C_Signal)\<rparr>"
  have a: "worker_reach ?a"
    using worker_reach.step[OF worker_waiting_reach worker_step.call[of worker_waiting 0 r]]
    by (simp add: worker_waiting_def worker_start_def)
  have b: "worker_reach ?b" by (rule worker_reach_ctl[OF a, of 0])
    (simp add: ctl_step_def worker_waiting_def worker_start_def)
  have d: "worker_reach ?d" by (rule worker_reach_ctl[OF b, of 0])
    (use assms in \<open>auto simp: ctl_step_def worker_waiting_def worker_start_def apply_request_def\<close>)
  have e: "worker_reach ?e" by (rule worker_reach_ctl[OF d, of 0])
    (use assms in \<open>auto simp: ctl_step_def worker_waiting_def worker_start_def apply_request_def\<close>)
  show ?thesis by (rule worker_reach_ctl[OF e, of 0])
    (use assms in \<open>auto simp: ctl_step_def worker_waiting_def worker_start_def apply_request_def worker_signal_def\<close>)
qed

theorem worker_destroy_exits_witness:
  "\<exists>n s'. n \<le> 6 \<and> routine_run n ((apply_request Destroy worker_waiting)\<lparr>signalled := True\<rparr>) = Some s' \<and> pc s' = W_Exited"
  by (rule worker_destroy_exits[OF worker_told_reach])
     (simp_all add: apply_request_def worker_waiting_def worker_start_def)

text \<open>An enabled worker runs: from every reachable state in which the worker is enabled and not
  destroyed and no other thread is inside a call, the thread is in its callback after at most
  five steps of its own.\<close>

theorem worker_enable_starts:
  assumes "worker_reach s" "w_enabled s" "\<not> w_destroyed s" "\<And>i. ctl s i = C_Idle"
  shows "\<exists>n s'. n \<le> 5 \<and> routine_run n s = Some s' \<and> pc s' = W_Callback"
proof -
  have "controllers_idle s" "will_start s" using assms(2-4) by (simp_all add: controllers_idle_def will_start_def)
  then obtain n s' where n: "n \<le> start_distance (pc s)" "routine_run n s = Some s'" "pc s' = W_Callback"
    using starts[OF worker_reach_inv[OF assms(1)]] by blast
  moreover have "start_distance (pc s) \<le> 5" by (cases "pc s") simp_all
  ultimately show ?thesis by (meson le_trans)
qed

theorem worker_enable_starts_witness:
  "\<exists>n s'. n \<le> 5 \<and> routine_run n ((apply_request Enable worker_waiting)\<lparr>signalled := True\<rparr>) = Some s' \<and> pc s' = W_Callback"
  by (rule worker_enable_starts[OF worker_told_reach])
     (simp_all add: apply_request_def worker_waiting_def worker_start_def)

text \<open>A disabled worker stops: however the threads interleave, at most one callback starts after
  \<open>enabled\<close> became false and until it is set again.\<close>

theorem worker_disable_stops:
  assumes "worker_reach s" "\<not> w_enabled s"
  shows "late s \<le> 1"
  using worker_invD(4)[OF worker_reach_inv[OF assms(1)] assms(2)] .

theorem worker_disable_stops_witness: "worker_reach worker_waiting \<and> late worker_waiting \<le> 1"
  using worker_disable_stops[OF worker_waiting_reach] worker_waiting_reach
  by (simp add: worker_waiting_def worker_start_def)

text \<open>The worker's mutex excludes: in no reachable state are two threads between locking and
  unlocking it, and the condition variable is waited on with the mutex held.\<close>

theorem worker_mutex_excludes:
  assumes "worker_reach s"
  shows "(holds_mutex (ctl s i) \<and> holds_mutex (ctl s j) \<longrightarrow> i = j) \<and>
    (holds_mutex (ctl s i) \<longrightarrow> pc s \<notin> {W_Loop, W_Unlock, W_FinSet, W_FinUnlock})"
proof -
  note d = worker_invD(1,2)[OF worker_reach_inv[OF assms]]
  have "owner s = Some (Ctl i)" if "holds_mutex (ctl s i)" for i using d(2) that by blast
  then show ?thesis using d(1) by (metis agent.distinct(1) agent.inject option.inject)
qed

theorem worker_mutex_excludes_witness:
  "\<exists>s. worker_reach s \<and> holds_mutex (ctl s 3) \<and> \<not> holds_mutex (ctl s 5)"
proof -
  let ?a = "worker_start\<lparr>ctl := (\<lambda>_. C_Idle)(3 := C_Lock Enable)\<rparr>"
  let ?b = "worker_start\<lparr>ctl := (\<lambda>_. C_Idle)(3 := C_Set Enable), owner := Some (Ctl 3)\<rparr>"
  have "worker_reach ?a"
    using worker_reach.step[OF worker_reach.start worker_step.call[of worker_start 3 Enable]]
    by (simp add: worker_start_def)
  then have b: "worker_reach ?b" by (rule worker_reach_ctl[of _ 3]) (simp add: ctl_step_def worker_start_def)
  have "holds_mutex (ctl ?b 3)" by simp
  moreover from this have "\<not> holds_mutex (ctl ?b 5)" using worker_mutex_excludes[OF b, of 3 5] by force
  ultimately show ?thesis using b by blast
qed

end
