(* ===== verification/Lock2.thy ===== *)
theory Lock2
  imports Mtdp_Prelude
begin

text \<open>
  The locking of a pipe: \<open>mtdp_lock2\<close> of \<open>src/pipe.c\<close>, which takes both mutexes of a pipe by
  locking one and trying the other, and the calls that take a single one. Any number of
  threads; a step is one call on a mutex. \<open>shim\<close> selects the \<open>mtx_trylock\<close> of \<open>src/thread.h\<close> for
  Windows, whose value is \<open>thrd_success\<close> whether or not the section was entered; without it
  \<open>mtx_trylock\<close> is the standard one.
\<close>

section \<open>Threads and mutexes\<close>

datatype mtx = M1 | M2   \<comment> \<open>\<open>pool_mutex\<close> and \<open>fifo_mutex\<close>\<close>

text \<open>\<open>L_*\<close>: inside \<open>mtdp_lock2\<close>, then the critical section and the two unlocks of its caller;
  \<open>S_*\<close>: a call that takes one mutex.\<close>

datatype lpc = L_Idle | L_Lock1 | L_Try2 | L_Unlock1 | L_Lock2 | L_Try1 | L_Unlock2
  | L_Both | L_Rel2 | S_Lock mtx | S_Crit mtx

record lstate =
  lpcs :: "nat \<Rightarrow> lpc"
  owns :: "mtx \<Rightarrow> nat option"

definition goto :: "nat \<Rightarrow> lpc \<Rightarrow> lstate \<Rightarrow> lstate" where
  "goto t p s = s\<lparr>lpcs := (lpcs s)(t := p)\<rparr>"

definition acquire :: "mtx \<Rightarrow> nat \<Rightarrow> lstate \<Rightarrow> lstate" where
  "acquire x t s = s\<lparr>owns := (owns s)(x := Some t)\<rparr>"

definition release :: "mtx \<Rightarrow> lstate \<Rightarrow> lstate" where
  "release x s = s\<lparr>owns := (owns s)(x := None)\<rparr>"

definition trylock :: "bool \<Rightarrow> mtx \<Rightarrow> nat \<Rightarrow> lstate \<Rightarrow> bool \<times> lstate" where
  "trylock shim x t s = (if owns s x = None then (True, acquire x t s) else (shim, s))"

text \<open>One step of thread \<open>t\<close>; \<open>None\<close> when it is blocked in a lock or outside every call.\<close>

definition lock2_step :: "bool \<Rightarrow> nat \<Rightarrow> lstate \<Rightarrow> lstate option" where
  "lock2_step shim t s =
    (case lpcs s t of
       L_Idle \<Rightarrow> None
     | L_Lock1 \<Rightarrow> if owns s M1 = None then Some (goto t L_Try2 (acquire M1 t s)) else None
     | L_Try2 \<Rightarrow> (case trylock shim M2 t s of (ok, s) \<Rightarrow> Some (goto t (if ok then L_Both else L_Unlock1) s))
     | L_Unlock1 \<Rightarrow> Some (goto t L_Lock2 (release M1 s))
     | L_Lock2 \<Rightarrow> if owns s M2 = None then Some (goto t L_Try1 (acquire M2 t s)) else None
     | L_Try1 \<Rightarrow> (case trylock shim M1 t s of (ok, s) \<Rightarrow> Some (goto t (if ok then L_Both else L_Unlock2) s))
     | L_Unlock2 \<Rightarrow> Some (goto t L_Lock1 (release M2 s))
     | L_Both \<Rightarrow> Some (goto t L_Rel2 (release M1 s))
     | L_Rel2 \<Rightarrow> Some (goto t L_Idle (release M2 s))
     | S_Lock x \<Rightarrow> if owns s x = None then Some (goto t (S_Crit x) (acquire x t s)) else None
     | S_Crit x \<Rightarrow> Some (goto t L_Idle (release x s)))"

inductive locks_step :: "bool \<Rightarrow> lstate \<Rightarrow> lstate \<Rightarrow> bool" for shim where
  run: "lock2_step shim t s = Some s' \<Longrightarrow> locks_step shim s s'"
| call_lock2: "lpcs s t = L_Idle \<Longrightarrow> locks_step shim s (goto t L_Lock1 s)"
| call_single: "lpcs s t = L_Idle \<Longrightarrow> locks_step shim s (goto t (S_Lock x) s)"

definition locks_start :: lstate where
  "locks_start = \<lparr>lpcs = (\<lambda>_. L_Idle), owns = (\<lambda>_. None)\<rparr>"

inductive locks_reach :: "bool \<Rightarrow> lstate \<Rightarrow> bool" for shim where
  start: "locks_reach shim locks_start"
| step: "locks_reach shim s \<Longrightarrow> locks_step shim s s' \<Longrightarrow> locks_reach shim s'"

section \<open>The invariant\<close>

text \<open>The mutexes a thread holds are those its program counter says.\<close>

fun holds :: "lpc \<Rightarrow> mtx set" where
  "holds L_Try2 = {M1}"
| "holds L_Unlock1 = {M1}"
| "holds L_Try1 = {M2}"
| "holds L_Unlock2 = {M2}"
| "holds L_Both = {M1, M2}"
| "holds L_Rel2 = {M2}"
| "holds (S_Crit x) = {x}"
| "holds _ = {}"

definition locks_inv :: "lstate \<Rightarrow> bool" where
  "locks_inv s \<longleftrightarrow> (\<forall>x t. owns s x = Some t \<longleftrightarrow> x \<in> holds (lpcs s t))"

lemmas lock_moves = goto_def acquire_def release_def trylock_def

text \<open>Moving one thread from the mutexes \<open>A\<close> to the mutexes \<open>B\<close>.\<close>

lemma locks_inv_move:
  assumes inv: "locks_inv s"
    and free: "\<And>x. x \<in> holds (lpcs s' t) \<Longrightarrow> x \<notin> holds (lpcs s t) \<Longrightarrow> owns s x = None"
    and o': "\<And>x. owns s' x =
      (if x \<in> holds (lpcs s' t) then Some t else if x \<in> holds (lpcs s t) then None else owns s x)"
    and pc': "\<And>u. u \<noteq> t \<Longrightarrow> lpcs s' u = lpcs s u"
  shows "locks_inv s'"
  unfolding locks_inv_def
proof (intro allI)
  fix x u
  have h: "owns s x = Some v \<longleftrightarrow> x \<in> holds (lpcs s v)" for v using inv by (simp add: locks_inv_def)
  show "owns s' x = Some u \<longleftrightarrow> x \<in> holds (lpcs s' u)"
  proof (cases "u = t")
    case True
    then show ?thesis using o'[of x] h[of t] by auto
  next
    case False
    show ?thesis
    proof (cases "x \<in> holds (lpcs s' t)")
      case T: True
      have "x \<notin> holds (lpcs s u)"
        using h[of u] h[of t] free[OF T] False by auto
      then show ?thesis using T False o'[of x] pc' by simp
    next
      case F: False
      then show ?thesis using o'[of x] pc' False h[of u] h[of t] by auto
    qed
  qed
qed

lemma lock2_step_inv:
  assumes inv: "locks_inv s" and st: "lock2_step False t s = Some s'"
  shows "locks_inv s'"
proof (rule locks_inv_move[OF inv, where t = t])
  have own: "owns s x = Some t \<longleftrightarrow> x \<in> holds (lpcs s t)" for x using inv by (simp add: locks_inv_def)
  show "owns s x = None" if "x \<in> holds (lpcs s' t)" "x \<notin> holds (lpcs s t)" for x
    using st that by (cases "lpcs s t") (auto simp: lock2_step_def lock_moves split: if_splits)
  show "owns s' x = (if x \<in> holds (lpcs s' t) then Some t else if x \<in> holds (lpcs s t) then None else owns s x)" for x
    using st own[of M1] own[of M2]
    by (cases "lpcs s t"; cases x) (auto simp: lock2_step_def lock_moves split: if_splits)
  show "lpcs s' u = lpcs s u" if "u \<noteq> t" for u
    using st that by (cases "lpcs s t") (auto simp: lock2_step_def lock_moves split: if_splits)
qed

lemma locks_inv_start: "locks_inv locks_start"
  by (simp add: locks_inv_def locks_start_def)

lemma locks_call_inv:
  "locks_inv s \<Longrightarrow> lpcs s t = L_Idle \<Longrightarrow> holds p = {} \<Longrightarrow> locks_inv (goto t p s)"
  by (auto simp: locks_inv_def goto_def)

lemma locks_reach_inv: "locks_reach False s \<Longrightarrow> locks_inv s"
proof (induction rule: locks_reach.induct)
  case (step s s')
  from step.hyps(2) step.IH show ?case
    by cases (auto intro: lock2_step_inv locks_call_inv)
qed (rule locks_inv_start)

text \<open>A thread that holds a mutex is never blocked.\<close>

lemma holder_runs: "holds (lpcs s t) \<noteq> {} \<Longrightarrow> \<exists>s'. lock2_step shim t s = Some s'"
  by (cases "lpcs s t") (auto simp: lock2_step_def split: prod.split)

lemma blocked_owned:
  "lpcs s t \<noteq> L_Idle \<Longrightarrow> lock2_step shim t s = None \<Longrightarrow> \<exists>x u. owns s x = Some u"
  by (cases "lpcs s t") (auto simp: lock2_step_def split: prod.splits if_splits)

section \<open>Properties\<close>

text \<open>C28. After \<open>mtdp_lock2\<close> has returned, the thread owns both mutexes of the pipe: no other
  thread is in a critical section of either, neither through \<open>mtdp_lock2\<close> nor through one of
  the calls that take a single mutex.\<close>

theorem lock2_excludes:
  assumes "locks_reach False s" "lpcs s t = L_Both" "u \<noteq> t"
  shows "owns s M1 = Some t \<and> owns s M2 = Some t \<and> lpcs s u \<noteq> L_Both \<and> lpcs s u \<noteq> S_Crit x"
proof -
  have h: "owns s y = Some v \<longleftrightarrow> y \<in> holds (lpcs s v)" for y v
    using locks_reach_inv[OF assms(1)] by (simp add: locks_inv_def)
  have o: "owns s y = Some t" for y using h[of y t] assms(2) by (cases y) auto
  then have "y \<notin> holds (lpcs s u)" for y using h[of y u] assms(3) by simp
  then show ?thesis using o by force
qed

text \<open>A run of one thread alone.\<close>

fun lock2_run :: "bool \<Rightarrow> nat \<Rightarrow> nat \<Rightarrow> lstate \<Rightarrow> lstate option" where
  "lock2_run shim 0 t s = Some s"
| "lock2_run shim (Suc n) t s = do { s \<leftarrow> lock2_step shim t s; lock2_run shim n t s }"

lemma lock2_run_reach: "locks_reach shim s \<Longrightarrow> lock2_run shim n t s = Some s' \<Longrightarrow> locks_reach shim s'"
proof (induction n arbitrary: s)
  case (Suc n)
  then obtain s1 where "lock2_step shim t s = Some s1" "lock2_run shim n t s1 = Some s'"
    by (auto simp: bind_eq_Some_conv)
  with Suc show ?case by (meson locks_reach.step locks_step.run)
qed simp

theorem lock2_excludes_witness:
  "\<exists>s. locks_reach False s \<and> lpcs s 0 = L_Both \<and> owns s M2 = Some 0 \<and> lpcs s 1 \<noteq> S_Crit M2"
proof -
  let ?a = "goto 0 L_Lock1 locks_start"
  have "locks_reach False ?a"
    by (rule locks_reach.step[OF locks_reach.start locks_step.call_lock2]) (simp add: locks_start_def)
  moreover have "lock2_run False 2 0 ?a = Some (goto 0 L_Both (acquire M2 0 (acquire M1 0 locks_start)))"
    by (simp add: numeral_2_eq_2 lock2_step_def lock_moves locks_start_def)
  ultimately have r: "locks_reach False (goto 0 L_Both (acquire M2 0 (acquire M1 0 locks_start)))"
    by (rule lock2_run_reach)
  have b: "lpcs (goto 0 L_Both (acquire M2 0 (acquire M1 0 locks_start))) 0 = L_Both" by (simp add: goto_def)
  from lock2_excludes[OF r b, of 1 M2] r b show ?thesis by auto
qed

text \<open>C29. \<open>mtdp_lock2\<close> cannot deadlock, with itself or with the calls that take one mutex: in every
  reachable state in which some thread is inside a call, some thread inside a call can take its
  next step.\<close>

theorem lock2_no_deadlock:
  assumes "locks_reach False s" "lpcs s t \<noteq> L_Idle"
  shows "\<exists>u s'. lpcs s u \<noteq> L_Idle \<and> lock2_step False u s = Some s'"
proof (cases "lock2_step False t s")
  case None
  then obtain x u where "owns s x = Some u" using blocked_owned[OF assms(2)] by blast
  then have "x \<in> holds (lpcs s u)" using locks_reach_inv[OF assms(1)] by (simp add: locks_inv_def)
  then have "holds (lpcs s u) \<noteq> {}" "lpcs s u \<noteq> L_Idle" by auto
  then show ?thesis using holder_runs by blast
qed (use assms in blast)

theorem lock2_no_deadlock_witness:
  "\<exists>u s'. lock2_step False u (goto 5 L_Lock1 locks_start) = Some s'"
proof -
  have r: "locks_reach False (goto 5 L_Lock1 locks_start)"
    by (rule locks_reach.step[OF locks_reach.start locks_step.call_lock2]) (simp add: locks_start_def)
  have "lpcs (goto 5 L_Lock1 locks_start) 5 \<noteq> L_Idle" by (simp add: goto_def)
  from lock2_no_deadlock[OF r this] show ?thesis by blast
qed

text \<open>Without contention \<open>mtdp_lock2\<close> ends: a thread inside it, while no other thread holds a
  mutex of the pipe, has both after at most three steps of its own.\<close>

theorem lock2_completes:
  assumes "locks_reach False s" "lpcs s t \<in> {L_Lock1, L_Try2, L_Unlock1, L_Lock2, L_Try1, L_Unlock2}"
    and "\<And>u. u \<noteq> t \<Longrightarrow> holds (lpcs s u) = {}"
  shows "\<exists>n s'. n \<le> 3 \<and> lock2_run False n t s = Some s' \<and> lpcs s' t = L_Both"
proof -
  have h: "owns s x = Some v \<longleftrightarrow> x \<in> holds (lpcs s v)" for x v
    using locks_reach_inv[OF assms(1)] by (simp add: locks_inv_def)
  have free: "owns s x = None" if "x \<notin> holds (lpcs s t)" for x
  proof (rule ccontr)
    assume "owns s x \<noteq> None"
    then obtain v where "x \<in> holds (lpcs s v)" using h[of x] by auto
    with that assms(3)[of v] show False by (cases "v = t") auto
  qed
  note d = lock2_step_def lock_moves numeral_3_eq_3 numeral_2_eq_2
  consider "lpcs s t = L_Lock1" | "lpcs s t = L_Try2" | "lpcs s t = L_Unlock1" | "lpcs s t = L_Lock2"
    | "lpcs s t = L_Try1" | "lpcs s t = L_Unlock2" using assms(2) by blast
  then show ?thesis
  proof cases
    case 1 then show ?thesis using free by (intro exI[of _ 2]) (simp add: d)
  next
    case 2 then show ?thesis using free by (intro exI[of _ 1]) (simp add: d)
  next
    case 3 then show ?thesis using free by (intro exI[of _ 3]) (simp add: d)
  next
    case 4 then show ?thesis using free by (intro exI[of _ 2]) (simp add: d)
  next
    case 5 then show ?thesis using free by (intro exI[of _ 1]) (simp add: d)
  next
    case 6 then show ?thesis using free by (intro exI[of _ 3]) (simp add: d)
  qed
qed

theorem lock2_completes_witness:
  "\<exists>n s'. n \<le> 3 \<and> lock2_run False n 5 (goto 5 L_Lock1 locks_start) = Some s' \<and> lpcs s' 5 = L_Both"
proof -
  have r: "locks_reach False (goto 5 L_Lock1 locks_start)"
    by (rule locks_reach.step[OF locks_reach.start locks_step.call_lock2]) (simp add: locks_start_def)
  show ?thesis by (rule lock2_completes[OF r]) (simp_all add: goto_def locks_start_def)
qed

text \<open>With the Windows \<open>mtx_trylock\<close> of the repository, whose value is always success, the
  lock does not exclude: a thread can leave \<open>mtdp_lock2\<close> while another thread is in a
  critical section of the FIFO's mutex.\<close>

theorem lock2_windows_broken:
  "\<exists>s. locks_reach True s \<and> lpcs s 0 = L_Both \<and> lpcs s 1 = S_Crit M2 \<and> owns s M2 = Some 1"
proof -
  let ?a = "goto 1 (S_Lock M2) locks_start"
  have "locks_reach True ?a"
    by (rule locks_reach.step[OF locks_reach.start locks_step.call_single]) (simp add: locks_start_def)
  moreover have "lock2_run True 1 1 ?a = Some (goto 1 (S_Crit M2) (acquire M2 1 ?a))"
    by (simp add: lock2_step_def lock_moves locks_start_def)
  ultimately have "locks_reach True (goto 1 (S_Crit M2) (acquire M2 1 ?a))" by (rule lock2_run_reach)
  then have "locks_reach True (goto 0 L_Lock1 (goto 1 (S_Crit M2) (acquire M2 1 ?a)))"
    by (rule locks_reach.step[OF _ locks_step.call_lock2]) (simp add: lock_moves locks_start_def)
  moreover obtain s where s: "lock2_run True 2 0 (goto 0 L_Lock1 (goto 1 (S_Crit M2) (acquire M2 1 ?a))) = Some s"
    "lpcs s 0 = L_Both" "lpcs s 1 = S_Crit M2" "owns s M2 = Some 1"
    by (simp add: numeral_2_eq_2 lock2_step_def lock_moves locks_start_def)
  ultimately have "locks_reach True s" by (meson lock2_run_reach)
  with s show ?thesis by blast
qed

end
