(* ===== verification/Stages.thy ===== *)
theory Stages
  imports Pipe Worker
begin

text \<open>
  The three kinds of processing stages: \<open>src/source.c\<close>, \<open>src/stage.c\<close> and \<open>src/sink.c\<close> with
  their structures (\<open>include/mtdp/{source,stage,sink}.h\<close>, \<open>src/impl/{source,stage,sink}.h\<close>).

  Field names carry the prefix \<open>so_\<close>, \<open>st_\<close> or \<open>sk_\<close> of their structure. A pointer to a pipe is
  its index in the pipeline's vector of pipes, a pointer to a stage's user data the index in
  its vector of stages. The callbacks are user code: they are functions on the user's own
  state \<open>'u\<close>, the context, and the answer of \<open>stop_requested\<close>; a source callback also
  says whether it called \<open>mtdp_source_finished\<close>. A callback pointer that was never set
  is \<open>None\<close>; calling it is undefined behaviour.

  A routine is written as steps between which other threads can run: each step does at most
  one operation on shared data (a pipe operation, a semaphore, the \<open>done\<close> word). The routine
  itself is the run of its steps (\<open>steps_run\<close>).
\<close>

section \<open>Structures\<close>

record mtdp_source_context =
  so_self :: mtdp_buffer
  so_output :: mtdp_buffer
  so_ready_to_push :: bool

type_synonym 'u mtdp_source_callback = "'u \<Rightarrow> bool \<Rightarrow> mtdp_source_context \<Rightarrow> 'u \<times> mtdp_source_context \<times> bool"

record 'u mtdp_source =
  so_name :: "string option"
  so_data :: mtdp_buffer
  so_init :: "'u mtdp_source_callback option"
  so_process :: "'u mtdp_source_callback option"

record 'u mtdp_source_impl =
  so_context :: mtdp_source_context
  so_worker :: mtdp_worker
  so_user_data :: "'u mtdp_source"
  so_output_pipe :: nat
  so_done :: nat
  so_initialized :: bool

record mtdp_stage_context =
  st_self :: mtdp_buffer
  st_input :: mtdp_buffer
  st_output :: mtdp_buffer
  st_ready_to_push :: bool
  st_ready_to_pull :: bool

type_synonym 'u mtdp_stage_callback = "'u \<Rightarrow> bool \<Rightarrow> mtdp_stage_context \<Rightarrow> 'u \<times> mtdp_stage_context"

record 'u mtdp_stage =
  st_name :: "string option"
  st_data :: mtdp_buffer
  st_init :: "'u mtdp_stage_callback option"
  st_process :: "'u mtdp_stage_callback option"

record mtdp_stage_impl =
  st_context :: mtdp_stage_context
  st_worker :: mtdp_worker
  st_user_data :: nat
  st_input_pipe :: nat
  st_output_pipe :: nat
  st_done :: nat
  st_initialized :: bool

record mtdp_sink_context =
  sk_self :: mtdp_buffer
  sk_input :: mtdp_buffer
  sk_ready_to_pull :: bool

type_synonym 'u mtdp_sink_callback = "'u \<Rightarrow> bool \<Rightarrow> mtdp_sink_context \<Rightarrow> 'u \<times> mtdp_sink_context"

record 'u mtdp_sink =
  sk_name :: "string option"
  sk_data :: mtdp_buffer
  sk_init :: "'u mtdp_sink_callback option"
  sk_process :: "'u mtdp_sink_callback option"

record 'u mtdp_sink_impl =
  sk_context :: mtdp_sink_context
  sk_worker :: mtdp_worker
  sk_user_data :: "'u mtdp_sink"
  sk_input_pipe :: nat
  sk_done :: nat
  sk_initialized :: bool

text \<open>What the threads share: the memory, the pipes, the user data of the stages (read only while
  they run) and the user's own state.\<close>

record 'u shared =
  sh_mem :: mem
  sh_pipes :: "mtdp_pipe list"
  sh_stages :: "'u mtdp_stage list"
  sh_user :: 'u

definition pipe_at :: "'u shared \<Rightarrow> nat \<Rightarrow> mtdp_pipe option" where
  "pipe_at sh k = (if k < length (sh_pipes sh) then Some (sh_pipes sh ! k) else None)"

definition set_pipe :: "nat \<Rightarrow> mem \<Rightarrow> mtdp_pipe \<Rightarrow> 'u shared \<Rightarrow> 'u shared" where
  "set_pipe k m p sh = sh\<lparr>sh_mem := m, sh_pipes := (sh_pipes sh)[k := p]\<rparr>"

text \<open>Posting to and trying the semaphore of a pipe, as steps of the shared state.\<close>

definition release_pipe :: "nat \<Rightarrow> 'u shared \<Rightarrow> 'u shared option" where
  "release_pipe k sh = do { p \<leftarrow> pipe_at sh k; Some (set_pipe k (sh_mem sh) (mtdp_semaphore_release p 1) sh) }"

definition try_acquire_pipe :: "nat \<Rightarrow> 'u shared \<Rightarrow> (bool \<times> 'u shared) option" where
  "try_acquire_pipe k sh = do {
     p \<leftarrow> pipe_at sh k;
     let (ok, p) = mtdp_semaphore_try_acquire_for p;
     Some (ok, set_pipe k (sh_mem sh) p sh) }"

text \<open>Runs the steps of a routine to its return; a routine returns after at most \<open>n\<close> steps or the
  result is \<open>None\<close>.\<close>

fun steps_run :: "nat \<Rightarrow> ('pc \<Rightarrow> 's \<Rightarrow> ('pc option \<times> 's) option) \<Rightarrow> 'pc \<Rightarrow> 's \<Rightarrow> 's option" where
  "steps_run 0 f pc s = None"
| "steps_run (Suc n) f pc s =
     do { (next_pc, s) \<leftarrow> f pc s; (case next_pc of None \<Rightarrow> Some s | Some pc \<Rightarrow> steps_run n f pc s) }"

section \<open>The source\<close>

datatype source_pc = So_Entry | So_Release | So_Get | So_Process

definition mtdp_source_stop_requested :: "'u mtdp_source_impl \<Rightarrow> bool" where
  "mtdp_source_stop_requested self \<longleftrightarrow> destroyed (so_worker self) \<or> \<not> enabled (so_worker self)"

text \<open>A callback of the source; the effect of \<open>mtdp_source_finished\<close> is that of its two halves.\<close>

definition call_source ::
  "'u mtdp_source_callback option \<Rightarrow> 'u shared \<Rightarrow> 'u mtdp_source_impl \<Rightarrow> ('u shared \<times> 'u mtdp_source_impl) option" where
  "call_source callback sh self = do {
     f \<leftarrow> callback;
     let (u, ctx, fin) = f (sh_user sh) (mtdp_source_stop_requested self) (so_context self);
     let self = self\<lparr>so_context := ctx\<rparr>;
     let self = (if fin then self\<lparr>so_done := 1, so_worker := (so_worker self)\<lparr>destroyed := True\<rparr>\<rparr> else self);
     Some (sh\<lparr>sh_user := u\<rparr>, self) }"

definition source_step ::
  "fifo_config \<Rightarrow> source_pc \<Rightarrow> 'u shared \<times> 'u mtdp_source_impl \<Rightarrow>
   (source_pc option \<times> 'u shared \<times> 'u mtdp_source_impl) option" where
  "source_step cfg pc s = (case s of (sh, self) \<Rightarrow> let ctx = so_context self in
    (case pc of
       So_Entry \<Rightarrow>
         if so_ready_to_push ctx then do {
           p \<leftarrow> pipe_at sh (so_output_pipe self);
           (ok, m, p) \<leftarrow> mtdp_pipe_push_buffer cfg (sh_mem sh) p (so_output ctx);
           let sh = set_pipe (so_output_pipe self) m p sh;
           if ok then Some (Some So_Release, sh, self)
           else Some (None, sh, self\<lparr>so_done := 1\<rparr>) }
         else Some (Some So_Get, sh, self)
     | So_Release \<Rightarrow> do {
         sh \<leftarrow> release_pipe (so_output_pipe self) sh;
         Some (Some So_Get, sh, self\<lparr>so_context := ctx\<lparr>so_output := NULL, so_ready_to_push := False\<rparr>\<rparr>) }
     | So_Get \<Rightarrow> do {
         (sh, self) \<leftarrow>
           (if so_output ctx = NULL then do {
              p \<leftarrow> pipe_at sh (so_output_pipe self);
              (b, p) \<leftarrow> mtdp_pipe_get_empty_buffer p;
              Some (set_pipe (so_output_pipe self) (sh_mem sh) p sh, self\<lparr>so_context := ctx\<lparr>so_output := b\<rparr>\<rparr>) }
            else Some (sh, self));
         if so_output (so_context self) \<noteq> NULL then Some (Some So_Process, sh, self)
         else Some (None, sh, self) }
     | So_Process \<Rightarrow> do {
         (sh, self) \<leftarrow>
           (if so_initialized self then Some (sh, self)
            else do {
              (sh, self) \<leftarrow>
                (case so_init (so_user_data self) of
                   None \<Rightarrow> Some (sh, self) | Some f \<Rightarrow> call_source (Some f) sh self);
              Some (sh, self\<lparr>so_initialized := True\<rparr>) });
         (sh, self) \<leftarrow> call_source (so_process (so_user_data self)) sh self;
         Some (None, sh, self) }))"

definition mtdp_source_routine ::
  "fifo_config \<Rightarrow> 'u shared \<Rightarrow> 'u mtdp_source_impl \<Rightarrow> ('u shared \<times> 'u mtdp_source_impl) option" where
  "mtdp_source_routine cfg sh self = steps_run 4 (source_step cfg) So_Entry (sh, self)"

definition mtdp_source_create_thread :: "runtime \<Rightarrow> 'u mtdp_source_impl \<Rightarrow> runtime \<times> 'u mtdp_source_impl" where
  "mtdp_source_create_thread rt self =
    (let self = self\<lparr>so_worker := (so_worker self)\<lparr>wname := so_name (so_user_data self)\<rparr>,
       so_context := \<lparr>so_self = so_data (so_user_data self), so_output = NULL, so_ready_to_push = False\<rparr>,
       so_done := 0\<rparr> in
     case mtdp_worker_create_thread rt (so_worker self) of (_, rt, w) \<Rightarrow> (rt, self\<lparr>so_worker := w\<rparr>))"

definition mtdp_source_destroy ::
  "runtime \<Rightarrow> 'u mtdp_source_impl \<Rightarrow> (runtime \<times> 'u mtdp_source_impl) option" where
  "mtdp_source_destroy rt self = do {
     let self = self\<lparr>so_done := 1\<rparr>;
     (_, rt, w) \<leftarrow> mtdp_worker_destroy rt (so_worker self);
     Some (rt, self\<lparr>so_worker := w\<rparr>) }"

definition mtdp_source_configure :: "runtime \<Rightarrow> 'u mtdp_source_impl \<Rightarrow> nat \<Rightarrow> runtime \<times> 'u mtdp_source_impl" where
  "mtdp_source_configure rt self output_pipe =
    (case mtdp_worker_init rt (so_worker self) of (_, rt, w) \<Rightarrow>
     (rt, self\<lparr>so_initialized := False,
       so_user_data := (so_user_data self)\<lparr>so_init := None, so_name := None, so_data := NULL\<rparr>,
       so_worker := w\<lparr>cb := Some Source_routine, args := Some Source_impl\<rparr>, so_output_pipe := output_pipe\<rparr>))"

text \<open>\<open>mtdp_source_finished\<close>, given the source that holds the context.\<close>

definition mtdp_source_finished ::
  "runtime \<Rightarrow> 'u mtdp_source_impl \<Rightarrow> (runtime \<times> 'u mtdp_source_impl) option" where
  "mtdp_source_finished rt self = do {
     let self = self\<lparr>so_done := 1\<rparr>;
     (_, rt, w) \<leftarrow> mtdp_worker_destroy rt (so_worker self);
     Some (rt, self\<lparr>so_worker := w\<rparr>) }"

section \<open>The internal stage\<close>

datatype stage_pc = St_Entry | St_Release | St_Acquire | St_Unset | St_GetFull | St_Return | St_GetEmpty
  | St_Process | St_PutBack

definition mtdp_stage_stop_requested :: "mtdp_stage_impl \<Rightarrow> bool" where
  "mtdp_stage_stop_requested self \<longleftrightarrow> destroyed (st_worker self) \<or> \<not> enabled (st_worker self)"

definition call_stage ::
  "'u mtdp_stage_callback option \<Rightarrow> 'u shared \<Rightarrow> mtdp_stage_impl \<Rightarrow> ('u shared \<times> mtdp_stage_impl) option" where
  "call_stage callback sh self = do {
     f \<leftarrow> callback;
     let (u, ctx) = f (sh_user sh) (mtdp_stage_stop_requested self) (st_context self);
     Some (sh\<lparr>sh_user := u\<rparr>, self\<lparr>st_context := ctx\<rparr>) }"

definition stage_user :: "'u shared \<Rightarrow> mtdp_stage_impl \<Rightarrow> 'u mtdp_stage option" where
  "stage_user sh self = (if st_user_data self < length (sh_stages sh) then Some (sh_stages sh ! st_user_data self) else None)"

definition stage_step ::
  "fifo_config \<Rightarrow> stage_pc \<Rightarrow> 'u shared \<times> mtdp_stage_impl \<Rightarrow>
   (stage_pc option \<times> 'u shared \<times> mtdp_stage_impl) option" where
  "stage_step cfg pc s = (case s of (sh, self) \<Rightarrow> let ctx = st_context self in
    (case pc of
       St_Entry \<Rightarrow>
         if st_ready_to_push ctx then do {
           p \<leftarrow> pipe_at sh (st_output_pipe self);
           (ok, m, p) \<leftarrow> mtdp_pipe_push_buffer cfg (sh_mem sh) p (st_output ctx);
           let sh = set_pipe (st_output_pipe self) m p sh;
           if ok then Some (Some St_Release, sh, self)
           else Some (None, sh, self\<lparr>st_done := 1\<rparr>) }
         else Some (Some St_Acquire, sh, self)
     | St_Release \<Rightarrow> do {
         sh \<leftarrow> release_pipe (st_output_pipe self) sh;
         Some (Some St_Acquire, sh, self\<lparr>st_context := ctx\<lparr>st_output := NULL, st_ready_to_push := False\<rparr>\<rparr>) }
     | St_Acquire \<Rightarrow>
         if st_ready_to_pull ctx then do {
           (ok, sh) \<leftarrow> try_acquire_pipe (st_input_pipe self) sh;
           if ok then Some (Some St_Unset, sh, self)
           else Some (None, sh, self\<lparr>st_done := 1\<rparr>) }
         else Some (Some St_GetEmpty, sh, self)
     | St_Unset \<Rightarrow> Some (Some St_GetFull, sh, self\<lparr>st_done := 0\<rparr>)
     | St_GetFull \<Rightarrow> do {
         p \<leftarrow> pipe_at sh (st_input_pipe self);
         (b, p) \<leftarrow> mtdp_pipe_get_full_buffer cfg (sh_mem sh) p;
         let sh = set_pipe (st_input_pipe self) (sh_mem sh) p sh;
         if b = NULL then Some (Some St_Return, sh, self\<lparr>st_context := ctx\<lparr>st_input := b\<rparr>\<rparr>)
         else Some (Some St_GetEmpty, sh, self\<lparr>st_context := ctx\<lparr>st_input := b, st_ready_to_pull := False\<rparr>\<rparr>) }
     | St_Return \<Rightarrow> do { sh \<leftarrow> release_pipe (st_input_pipe self) sh; Some (None, sh, self) }
     | St_GetEmpty \<Rightarrow>
         if st_input ctx \<noteq> NULL then do {
           (sh, self) \<leftarrow>
             (if st_output ctx = NULL then do {
                p \<leftarrow> pipe_at sh (st_output_pipe self);
                (b, p) \<leftarrow> mtdp_pipe_get_empty_buffer p;
                Some (set_pipe (st_output_pipe self) (sh_mem sh) p sh, self\<lparr>st_context := ctx\<lparr>st_output := b\<rparr>\<rparr>) }
              else Some (sh, self));
           if st_output (st_context self) \<noteq> NULL then Some (Some St_Process, sh, self)
           else Some (None, sh, self) }
         else Some (None, sh, self\<lparr>st_context := ctx\<lparr>st_ready_to_pull := True\<rparr>\<rparr>)
     | St_Process \<Rightarrow> do {
         u \<leftarrow> stage_user sh self;
         (sh, self) \<leftarrow>
           (if st_initialized self then Some (sh, self)
            else do {
              (sh, self) \<leftarrow>
                (case st_init u of None \<Rightarrow> Some (sh, self) | Some f \<Rightarrow> call_stage (Some f) sh self);
              Some (sh, self\<lparr>st_initialized := True\<rparr>) });
         (sh, self) \<leftarrow> call_stage (st_process u) sh self;
         Some (if st_ready_to_pull (st_context self) then Some St_PutBack else None, sh, self) }
     | St_PutBack \<Rightarrow> do {
         p \<leftarrow> pipe_at sh (st_input_pipe self);
         (_, m, p) \<leftarrow> mtdp_pipe_put_back (sh_mem sh) p (st_input ctx);
         Some (None, set_pipe (st_input_pipe self) m p sh, self\<lparr>st_context := ctx\<lparr>st_input := NULL\<rparr>\<rparr>) }))"

definition mtdp_stage_routine ::
  "fifo_config \<Rightarrow> 'u shared \<Rightarrow> mtdp_stage_impl \<Rightarrow> ('u shared \<times> mtdp_stage_impl) option" where
  "mtdp_stage_routine cfg sh self = steps_run 8 (stage_step cfg) St_Entry (sh, self)"

definition mtdp_stage_create_thread ::
  "runtime \<Rightarrow> 'u mtdp_stage \<Rightarrow> mtdp_stage_impl \<Rightarrow> runtime \<times> mtdp_stage_impl" where
  "mtdp_stage_create_thread rt u self =
    (let self = self\<lparr>st_worker := (st_worker self)\<lparr>wname := st_name u\<rparr>,
       st_context := \<lparr>st_self = st_data u, st_input = NULL, st_output = NULL,
                      st_ready_to_push = False, st_ready_to_pull = True\<rparr>,
       st_done := 0\<rparr> in
     case mtdp_worker_create_thread rt (st_worker self) of (_, rt, w) \<Rightarrow> (rt, self\<lparr>st_worker := w\<rparr>))"

definition mtdp_stage_destroy :: "runtime \<Rightarrow> mtdp_stage_impl \<Rightarrow> (runtime \<times> mtdp_stage_impl) option" where
  "mtdp_stage_destroy rt self = do {
     (_, rt, w) \<leftarrow> mtdp_worker_destroy rt (st_worker self);
     Some (rt, self\<lparr>st_worker := w, st_done := 1\<rparr>) }"

definition mtdp_stage_configure ::
  "runtime \<Rightarrow> mtdp_stage_impl \<Rightarrow> nat \<Rightarrow> nat \<Rightarrow> nat \<Rightarrow> 'u mtdp_stage \<Rightarrow> runtime \<times> mtdp_stage_impl \<times> 'u mtdp_stage" where
  "mtdp_stage_configure rt self input_pipe output_pipe user_data u =
    (case mtdp_worker_init rt (st_worker self) of (_, rt, w) \<Rightarrow>
     (rt, self\<lparr>st_initialized := False, st_user_data := user_data,
       st_worker := w\<lparr>cb := Some Stage_routine, args := Some (Stage_impl user_data)\<rparr>,
       st_input_pipe := input_pipe, st_output_pipe := output_pipe\<rparr>,
      u\<lparr>st_init := None, st_name := None, st_data := NULL\<rparr>))"

section \<open>The sink\<close>

datatype sink_pc = Sk_Entry | Sk_Acquire | Sk_Unset | Sk_GetFull | Sk_Return | Sk_Process

definition mtdp_sink_stop_requested :: "'u mtdp_sink_impl \<Rightarrow> bool" where
  "mtdp_sink_stop_requested self \<longleftrightarrow> destroyed (sk_worker self) \<or> \<not> enabled (sk_worker self)"

definition call_sink ::
  "'u mtdp_sink_callback option \<Rightarrow> 'u shared \<Rightarrow> 'u mtdp_sink_impl \<Rightarrow> ('u shared \<times> 'u mtdp_sink_impl) option" where
  "call_sink callback sh self = do {
     f \<leftarrow> callback;
     let (u, ctx) = f (sh_user sh) (mtdp_sink_stop_requested self) (sk_context self);
     Some (sh\<lparr>sh_user := u\<rparr>, self\<lparr>sk_context := ctx\<rparr>) }"

definition sink_step ::
  "fifo_config \<Rightarrow> sink_pc \<Rightarrow> 'u shared \<times> 'u mtdp_sink_impl \<Rightarrow>
   (sink_pc option \<times> 'u shared \<times> 'u mtdp_sink_impl) option" where
  "sink_step cfg pc s = (case s of (sh, self) \<Rightarrow> let ctx = sk_context self in
    (case pc of
       Sk_Entry \<Rightarrow>
         if sk_ready_to_pull ctx then
           if sk_input ctx \<noteq> NULL then do {
             p \<leftarrow> pipe_at sh (sk_input_pipe self);
             (ok, m, p) \<leftarrow> mtdp_pipe_put_back (sh_mem sh) p (sk_input ctx);
             let sh = set_pipe (sk_input_pipe self) m p sh;
             if ok then Some (Some Sk_Acquire, sh, self\<lparr>sk_context := ctx\<lparr>sk_input := NULL\<rparr>\<rparr>)
             else Some (None, sh, self\<lparr>sk_done := 1\<rparr>) }
           else Some (Some Sk_Acquire, sh, self)
         else Some (Some Sk_Process, sh, self)
     | Sk_Acquire \<Rightarrow> do {
         (ok, sh) \<leftarrow> try_acquire_pipe (sk_input_pipe self) sh;
         if ok then Some (Some Sk_Unset, sh, self)
         else Some (None, sh, self\<lparr>sk_done := 1\<rparr>) }
     | Sk_Unset \<Rightarrow> Some (Some Sk_GetFull, sh, self\<lparr>sk_done := 0\<rparr>)
     | Sk_GetFull \<Rightarrow> do {
         p \<leftarrow> pipe_at sh (sk_input_pipe self);
         (b, p) \<leftarrow> mtdp_pipe_get_full_buffer cfg (sh_mem sh) p;
         let sh = set_pipe (sk_input_pipe self) (sh_mem sh) p sh;
         if b = NULL then Some (Some Sk_Return, sh, self\<lparr>sk_context := ctx\<lparr>sk_input := b\<rparr>\<rparr>)
         else Some (Some Sk_Process, sh, self\<lparr>sk_context := ctx\<lparr>sk_input := b, sk_ready_to_pull := False\<rparr>\<rparr>) }
     | Sk_Return \<Rightarrow> do { sh \<leftarrow> release_pipe (sk_input_pipe self) sh; Some (None, sh, self) }
     | Sk_Process \<Rightarrow>
         if sk_input ctx \<noteq> NULL then do {
           (sh, self) \<leftarrow>
             (if sk_initialized self then Some (sh, self)
              else do {
                (sh, self) \<leftarrow>
                  (case sk_init (sk_user_data self) of
                     None \<Rightarrow> Some (sh, self) | Some f \<Rightarrow> call_sink (Some f) sh self);
                Some (sh, self\<lparr>sk_initialized := True\<rparr>) });
           (sh, self) \<leftarrow> call_sink (sk_process (sk_user_data self)) sh self;
           Some (None, sh, self) }
         else Some (None, sh, self\<lparr>sk_context := ctx\<lparr>sk_ready_to_pull := True\<rparr>\<rparr>)))"

definition mtdp_sink_routine ::
  "fifo_config \<Rightarrow> 'u shared \<Rightarrow> 'u mtdp_sink_impl \<Rightarrow> ('u shared \<times> 'u mtdp_sink_impl) option" where
  "mtdp_sink_routine cfg sh self = steps_run 5 (sink_step cfg) Sk_Entry (sh, self)"

definition mtdp_sink_create_thread :: "runtime \<Rightarrow> 'u mtdp_sink_impl \<Rightarrow> runtime \<times> 'u mtdp_sink_impl" where
  "mtdp_sink_create_thread rt self =
    (let self = self\<lparr>sk_worker := (sk_worker self)\<lparr>wname := sk_name (sk_user_data self)\<rparr>,
       sk_context := \<lparr>sk_self = sk_data (sk_user_data self), sk_input = NULL, sk_ready_to_pull = True\<rparr>,
       sk_done := 0\<rparr> in
     case mtdp_worker_create_thread rt (sk_worker self) of (_, rt, w) \<Rightarrow> (rt, self\<lparr>sk_worker := w\<rparr>))"

definition mtdp_sink_destroy ::
  "runtime \<Rightarrow> 'u mtdp_sink_impl \<Rightarrow> (runtime \<times> 'u mtdp_sink_impl) option" where
  "mtdp_sink_destroy rt self = do {
     (_, rt, w) \<leftarrow> mtdp_worker_destroy rt (sk_worker self);
     Some (rt, self\<lparr>sk_worker := w, sk_done := 1\<rparr>) }"

definition mtdp_sink_configure :: "runtime \<Rightarrow> 'u mtdp_sink_impl \<Rightarrow> nat \<Rightarrow> runtime \<times> 'u mtdp_sink_impl" where
  "mtdp_sink_configure rt self input_pipe =
    (let self = self\<lparr>sk_initialized := False\<rparr> in
     case mtdp_worker_init rt (sk_worker self) of (_, rt, w) \<Rightarrow>
     (rt, self\<lparr>sk_user_data := (sk_user_data self)\<lparr>sk_init := None, sk_name := None, sk_data := NULL\<rparr>,
       sk_worker := w\<lparr>cb := Some Sink_routine, args := Some Sink_impl\<rparr>, sk_input_pipe := input_pipe\<rparr>))"

end
