(* ===== verification/Pipe_Link.thy ===== *)
theory Pipe_Link
  imports Pipe
begin

text \<open>
  A pipe between its one producer and its one consumer. The state of such a link adds to the
  pipe what the two threads hold: the output buffer of the producer (\<open>out\<close>) and whether it has
  pushed but not yet posted the semaphore (\<open>rel\<close>); the input buffer of the consumer (\<open>inb\<close>) and
  whether it has passed the semaphore but not yet taken its buffer (\<open>acq\<close>); and the
  sequences of buffers pushed and pulled so far. \<open>B\<close> is the fixed multiset of the buffers of
  the pipe. Each of the six operations on a link keeps the accounting, and changes the view
  of one side only.
\<close>

definition held :: "mtdp_buffer \<Rightarrow> mtdp_buffer multiset" where
  "held b = (if b = NULL then {#} else {#b#})"

lemma held_simps [simp]: "held NULL = {#}" "b \<noteq> NULL \<Longrightarrow> held b = {#b#}"
  by (simp_all add: held_def)

definition pipe_link :: "fifo_config \<Rightarrow> mem \<Rightarrow> mtdp_buffer multiset \<Rightarrow> mtdp_pipe \<Rightarrow>
    mtdp_buffer \<times> bool \<Rightarrow> mtdp_buffer \<times> bool \<Rightarrow> mtdp_buffer list \<Rightarrow> mtdp_buffer list \<Rightarrow> bool" where
  "pipe_link cfg m B p producer consumer pushed pulled \<longleftrightarrow>
     (case (producer, consumer) of ((out, rel), (inb, acq)) \<Rightarrow>
       pipe_inv cfg m p \<and> pipe_content cfg m p + held out + held inb = B \<and> NULL \<notin># B \<and>
       size B \<le> pcapacity (pool p) \<and>
       semaphore p + of_bool acq + of_bool rel = fsize (fifo p) \<and>
       pushed = pulled @ fifo_elems cfg m (fifo p))"

lemma pipe_linkD:
  assumes "pipe_link cfg m B p (out, rel) (inb, acq) pushed pulled"
  shows "pipe_inv cfg m p" "pipe_content cfg m p + held out + held inb = B" "NULL \<notin># B"
    "size B \<le> pcapacity (pool p)" "semaphore p + of_bool acq + of_bool rel = fsize (fifo p)"
    "pushed = pulled @ fifo_elems cfg m (fifo p)"
  using assms by (simp_all add: pipe_link_def)

lemma link_elem:
  assumes "pipe_link cfg m B p (out, rel) (inb, acq) pushed pulled" "b \<in># pipe_content cfg m p"
  shows "b \<noteq> NULL"
  using pipe_linkD(2,3)[OF assms(1)] assms(2) by auto

lemma link_push:
  assumes l: "pipe_link cfg m B p (b, False) c pushed pulled" and b: "b \<noteq> NULL"
  obtains ok m' p' where "mtdp_pipe_push_buffer cfg m p b = Some (ok, m', p')"
    "pipe_link cfg m' B p' (if ok then NULL else b, ok) c (if ok then pushed @ [b] else pushed) pulled"
    "mem_frame (fifo_own (fifo p)) m m'" "fifo_own (fifo p') \<subseteq> fifo_own (fifo p) \<union> {brk m..<brk m'}" "mem_wf m'"
proof -
  obtain inb acq where c: "c = (inb, acq)" by fastforce
  note d = pipe_linkD[OF l[unfolded c]]
  obtain ok m' p' where r: "mtdp_pipe_push_buffer cfg m p b = Some (ok, m', p')" "pipe_inv cfg m' p'"
    "fifo_elems cfg m' (fifo p') =
       (if ok then fifo_elems cfg m (fifo p) @ [b] else fifo_elems cfg m (fifo p))"
    "pool p' = pool p" "semaphore p' = semaphore p"
    "mem_frame (fifo_own (fifo p)) m m'" "fifo_own (fifo p') \<subseteq> fifo_own (fifo p) \<union> {brk m..<brk m'}"
    by (rule pipe_push_buffer[OF d(1), where b = b])
  have sz: "fsize (fifo p') = (if ok then Suc (fsize (fifo p)) else fsize (fifo p))"
    using arg_cong[OF r(3), of length] by (simp split: if_splits)
  have "pipe_link cfg m' B p' (if ok then NULL else b, ok) c (if ok then pushed @ [b] else pushed) pulled"
    using d r(2-5) sz b by (auto simp: pipe_link_def c pipe_content_def)
  with r pipe_invD(2)[OF r(2)] show ?thesis by (intro that) auto
qed

lemma link_release:
  "pipe_link cfg m B p (out, True) c pushed pulled \<Longrightarrow>
     pipe_link cfg m B (mtdp_semaphore_release p 1) (out, False) c pushed pulled"
  by (cases c) (auto simp: pipe_link_def mtdp_semaphore_release_def pipe_inv_def pipe_content_def)

lemma link_acquire:
  assumes "pipe_link cfg m B p q (inb, False) pushed pulled"
  obtains ok p' where "mtdp_semaphore_try_acquire_for p = (ok, p')" "fifo p' = fifo p"
    "pipe_link cfg m B p' q (inb, ok) pushed pulled" "ok \<longleftrightarrow> 0 < semaphore p"
proof (rule that)
  define p' where "p' = (if 0 < semaphore p then p\<lparr>semaphore := semaphore p - 1\<rparr> else p)"
  show "mtdp_semaphore_try_acquire_for p = (0 < semaphore p, p')" "fifo p' = fifo p"
    by (simp_all add: mtdp_semaphore_try_acquire_for_def p'_def)
  show "pipe_link cfg m B p' q (inb, 0 < semaphore p) pushed pulled"
    using assms by (cases q) (auto simp: pipe_link_def p'_def pipe_inv_def pipe_content_def)
qed simp

lemma link_get_empty:
  assumes l: "pipe_link cfg m B p (NULL, rel) c pushed pulled"
  obtains b p' where "mtdp_pipe_get_empty_buffer p = Some (b, p')" "fifo p' = fifo p"
    "pipe_link cfg m B p' (b, rel) c pushed pulled" "b = NULL \<longleftrightarrow> psize (pool p) = 0"
proof -
  obtain inb acq where c: "c = (inb, acq)" by fastforce
  note d = pipe_linkD[OF l[unfolded c]]
  obtain b p' where g: "mtdp_pipe_get_empty_buffer p = Some (b, p')" "pipe_inv cfg m p'"
    "psize (pool p) = 0 \<longrightarrow> b = NULL \<and> p' = p"
    "psize (pool p) \<noteq> 0 \<longrightarrow> pool_elems (pool p) = pool_elems (pool p') @ [b]"
    "fifo p' = fifo p" "semaphore p' = semaphore p" "pcapacity (pool p') = pcapacity (pool p)"
    by (rule pipe_get_empty_buffer[OF d(1)])
  have b: "b \<noteq> NULL" if "psize (pool p) \<noteq> 0"
    by (rule link_elem[OF l[unfolded c]]) (use g(4) that in \<open>simp add: pipe_content_def\<close>)
  have "pipe_link cfg m B p' (b, rel) c pushed pulled"
  proof (cases "psize (pool p) = 0")
    case True
    then show ?thesis using g(3) l by simp
  next
    case False
    then show ?thesis using d g(2,4-7) b by (auto simp: pipe_link_def c pipe_content_def)
  qed
  with g b show ?thesis by (intro that[of b p']) auto
qed

text \<open>Past the semaphore there is a buffer to take: the branch of the routines for a missing buffer
  is never needed.\<close>

lemma link_get_full:
  assumes l: "pipe_link cfg m B p q (NULL, True) pushed pulled"
  obtains b p' where "mtdp_pipe_get_full_buffer cfg m p = Some (b, p')" "b \<noteq> NULL"
    "pipe_link cfg m B p' q (b, False) pushed (pulled @ [b])" "fifo_own (fifo p') = fifo_own (fifo p)"
proof -
  obtain out rel where q: "q = (out, rel)" by fastforce
  note d = pipe_linkD[OF l[unfolded q]]
  have ne: "fsize (fifo p) \<noteq> 0" using d(5) by simp
  obtain b p' where g: "mtdp_pipe_get_full_buffer cfg m p = Some (b, p')" "pipe_inv cfg m p'"
    "fsize (fifo p) \<noteq> 0 \<longrightarrow> fifo_elems cfg m (fifo p) = b # fifo_elems cfg m (fifo p')"
    "pool p' = pool p" "semaphore p' = semaphore p" "fifo_own (fifo p') = fifo_own (fifo p)"
    by (rule pipe_get_full_buffer[OF d(1)])
  have el: "fifo_elems cfg m (fifo p) = b # fifo_elems cfg m (fifo p')" using g(3) ne by blast
  have "length (fifo_elems cfg m (fifo p)) = Suc (length (fifo_elems cfg m (fifo p')))" using el by simp
  then have sz: "fsize (fifo p) = Suc (fsize (fifo p'))" by simp
  have b: "b \<noteq> NULL"
    by (rule link_elem[OF l[unfolded q]]) (simp add: pipe_content_def el)
  have "pipe_link cfg m B p' q (b, False) pushed (pulled @ [b])"
    using d g(2,4,5) el sz b by (auto simp: pipe_link_def q pipe_content_def)
  with g b show ?thesis by (intro that)
qed

text \<open>Returning a buffer always succeeds and needs no memory.\<close>

lemma link_put_back:
  assumes l: "pipe_link cfg m B p q (b, acq) pushed pulled" and b: "b \<noteq> NULL"
  obtains p' where "mtdp_pipe_put_back m p b = Some (True, m, p')" "fifo p' = fifo p"
    "pipe_link cfg m B p' q (NULL, acq) pushed pulled"
proof -
  obtain out rel where q: "q = (out, rel)" by fastforce
  note d = pipe_linkD[OF l[unfolded q]]
  have "size (pipe_content cfg m p) + size (held out) + size (held b) \<le> pcapacity (pool p)"
    using d(4) unfolding d(2)[symmetric] by simp
  then have lt: "psize (pool p) < pcapacity (pool p)" using b size_pipe_content[OF d(1)] by simp
  obtain ok m' p' where g: "mtdp_pipe_put_back m p b = Some (ok, m', p')" "pipe_inv cfg m' p'"
    "pool_elems (pool p') = (if ok then pool_elems (pool p) @ [b] else pool_elems (pool p))"
    "fifo p' = fifo p" "semaphore p' = semaphore p"
    "psize (pool p) < pcapacity (pool p) \<longrightarrow> ok \<and> m' = m \<and> pcapacity (pool p') = pcapacity (pool p)"
    by (rule pipe_put_back[OF d(1), where b = b])
  then have ok: "ok" "m' = m" "pcapacity (pool p') = pcapacity (pool p)" using lt by simp_all
  have "pipe_link cfg m B p' q (NULL, acq) pushed pulled"
    using d g(2-5) ok b by (auto simp: pipe_link_def q pipe_content_def)
  with g ok show ?thesis by (intro that) auto
qed

text \<open>Work on the memory of other pipes leaves a link alone.\<close>

lemma link_frame:
  assumes l: "pipe_link cfg m B p q c pushed pulled" and fr: "mem_frame S m m'" "mem_wf m'"
    and dis: "fifo_own (fifo p) \<inter> S = {}"
  shows "pipe_link cfg m' B p q c pushed pulled"
proof -
  obtain out rel inb acq where v: "q = (out, rel)" "c = (inb, acq)" by (meson surj_pair)
  note d = pipe_linkD[OF l[unfolded v]]
  note f = fifo_frame[OF pipe_invD(4,2)[OF d(1)] fr(1) dis]
  show ?thesis using d f fr(2) by (simp add: pipe_link_def v pipe_inv_def pipe_content_def)
qed

end
