(* ===== verification/Stage_Steps.thy ===== *)
theory Stage_Steps
  imports Stages Pipe_Link
begin

text \<open>
  What one step of a source, an internal stage or a sink does to the links it works on,
  provided the user's callbacks leave the buffer pointers of their context alone
  (\<open>include/mtdp/source.h\<close>, \<open>stage.h\<close>, \<open>sink.h\<close>: the buffers are set by the library). A step is
  always defined, i.e. free of undefined behaviour, and changes at most one link.
\<close>

section \<open>Well-behaved user code\<close>

definition polite_source :: "'u mtdp_source_callback \<Rightarrow> bool" where
  "polite_source f \<longleftrightarrow> (\<forall>u b c. so_output (fst (snd (f u b c))) = so_output c)"

definition polite_stage :: "'u mtdp_stage_callback \<Rightarrow> bool" where
  "polite_stage f \<longleftrightarrow> (\<forall>u b c. st_input (snd (f u b c)) = st_input c \<and> st_output (snd (f u b c)) = st_output c)"

definition polite_sink :: "'u mtdp_sink_callback \<Rightarrow> bool" where
  "polite_sink f \<longleftrightarrow> (\<forall>u b c. sk_input (snd (f u b c)) = sk_input c)"

definition source_user_ok :: "'u mtdp_source \<Rightarrow> bool" where
  "source_user_ok d \<longleftrightarrow> (\<forall>f. so_init d = Some f \<longrightarrow> polite_source f) \<and> (\<exists>f. so_process d = Some f \<and> polite_source f)"

definition stage_user_ok :: "'u mtdp_stage \<Rightarrow> bool" where
  "stage_user_ok d \<longleftrightarrow> (\<forall>f. st_init d = Some f \<longrightarrow> polite_stage f) \<and> (\<exists>f. st_process d = Some f \<and> polite_stage f)"

definition sink_user_ok :: "'u mtdp_sink \<Rightarrow> bool" where
  "sink_user_ok d \<longleftrightarrow> (\<forall>f. sk_init d = Some f \<longrightarrow> polite_sink f) \<and> (\<exists>f. sk_process d = Some f \<and> polite_sink f)"

lemma call_source_polite:
  "polite_source f \<Longrightarrow> \<exists>sh' self'. call_source (Some f) sh self = Some (sh', self') \<and>
     sh_mem sh' = sh_mem sh \<and> sh_pipes sh' = sh_pipes sh \<and> sh_stages sh' = sh_stages sh \<and>
     so_output (so_context self') = so_output (so_context self) \<and> so_user_data self' = so_user_data self \<and>
     so_output_pipe self' = so_output_pipe self"
  by (auto simp: call_source_def polite_source_def Let_def split: prod.split) (metis fst_conv snd_conv)+

lemma call_stage_polite:
  "polite_stage f \<Longrightarrow> \<exists>sh' self'. call_stage (Some f) sh self = Some (sh', self') \<and>
     sh_mem sh' = sh_mem sh \<and> sh_pipes sh' = sh_pipes sh \<and> sh_stages sh' = sh_stages sh \<and>
     st_output (st_context self') = st_output (st_context self) \<and>
     st_input (st_context self') = st_input (st_context self) \<and> st_user_data self' = st_user_data self \<and>
     st_input_pipe self' = st_input_pipe self \<and> st_output_pipe self' = st_output_pipe self"
  by (auto simp: call_stage_def polite_stage_def split: prod.split) (metis snd_conv)+

lemma call_sink_polite:
  "polite_sink f \<Longrightarrow> \<exists>sh' self'. call_sink (Some f) sh self = Some (sh', self') \<and>
     sh_mem sh' = sh_mem sh \<and> sh_pipes sh' = sh_pipes sh \<and> sh_stages sh' = sh_stages sh \<and>
     sk_input (sk_context self') = sk_input (sk_context self) \<and> sk_user_data self' = sk_user_data self \<and>
     sk_input_pipe self' = sk_input_pipe self"
  by (auto simp: call_sink_def polite_sink_def split: prod.split) (metis snd_conv)+

section \<open>Updates of one link\<close>

text \<open>The pipe \<open>k\<close> and the memory after a step that worked on pipe \<open>k\<close>, as the other pipes see
  them.\<close>

definition pipe_update :: "nat \<Rightarrow> 'u shared \<Rightarrow> 'u shared \<Rightarrow> bool" where
  "pipe_update k sh sh' \<longleftrightarrow> length (sh_pipes sh') = length (sh_pipes sh) \<and> sh_stages sh' = sh_stages sh \<and>
     (\<forall>j. j \<noteq> k \<longrightarrow> sh_pipes sh' ! j = sh_pipes sh ! j) \<and>
     mem_frame (fifo_own (fifo (sh_pipes sh ! k))) (sh_mem sh) (sh_mem sh') \<and> mem_wf (sh_mem sh') \<and>
     fifo_own (fifo (sh_pipes sh' ! k)) \<subseteq> fifo_own (fifo (sh_pipes sh ! k)) \<union> {brk (sh_mem sh)..<brk (sh_mem sh')}"

lemma pipe_update_refl:
  "sh_mem sh' = sh_mem sh \<Longrightarrow> sh_pipes sh' = sh_pipes sh \<Longrightarrow> sh_stages sh' = sh_stages sh \<Longrightarrow> mem_wf (sh_mem sh) \<Longrightarrow>
     pipe_update k sh sh'"
  by (simp add: pipe_update_def)

lemma pipe_update_set:
  assumes "k < length (sh_pipes sh)" "mem_frame (fifo_own (fifo (sh_pipes sh ! k))) (sh_mem sh) m'" "mem_wf m'"
    "fifo_own (fifo p') \<subseteq> fifo_own (fifo (sh_pipes sh ! k)) \<union> {brk (sh_mem sh)..<brk m'}"
  shows "pipe_update k sh (set_pipe k m' p' sh)"
  using assms by (simp add: pipe_update_def set_pipe_def)

lemma pipe_update_same_mem:
  assumes "k < length (sh_pipes sh)" "mem_wf (sh_mem sh)"
    "fifo_own (fifo p') = fifo_own (fifo (sh_pipes sh ! k))"
  shows "pipe_update k sh (set_pipe k (sh_mem sh) p' sh)"
  using assms by (intro pipe_update_set) auto

lemma set_pipe_simps [simp]:
  "sh_mem (set_pipe k m p sh) = m" "k < length (sh_pipes sh) \<Longrightarrow> sh_pipes (set_pipe k m p sh) ! k = p"
  "length (sh_pipes (set_pipe k m p sh)) = length (sh_pipes sh)" "sh_stages (set_pipe k m p sh) = sh_stages sh"
  by (simp_all add: set_pipe_def)

abbreviation link_at where
  "link_at cfg B sh k \<equiv> pipe_link cfg (sh_mem sh) B (sh_pipes sh ! k)"

lemma link_mem_wf: "link_at cfg B sh k q c x y \<Longrightarrow> mem_wf (sh_mem sh)"
  by (cases q; cases c) (auto simp: pipe_link_def pipe_inv_def)

section \<open>The source\<close>

definition source_view :: "source_pc \<Rightarrow> 'u mtdp_source_impl \<Rightarrow> mtdp_buffer \<times> bool" where
  "source_view pc self = (if pc = So_Release then NULL else so_output (so_context self), pc = So_Release)"

definition source_ok :: "source_pc \<Rightarrow> 'u mtdp_source_impl \<Rightarrow> bool" where
  "source_ok pc self \<longleftrightarrow> so_output_pipe self = 0 \<and> source_user_ok (so_user_data self) \<and>
     (so_ready_to_push (so_context self) \<longrightarrow> so_output (so_context self) \<noteq> NULL) \<and>
     (pc = So_Process \<longrightarrow> so_output (so_context self) \<noteq> NULL)"

definition source_next :: "source_pc option \<Rightarrow> source_pc" where
  "source_next r = (case r of None \<Rightarrow> So_Entry | Some pc \<Rightarrow> pc)"

definition source_pushes :: "source_pc \<Rightarrow> source_pc option \<Rightarrow> 'u mtdp_source_impl \<Rightarrow> mtdp_buffer list" where
  "source_pushes pc r self = (if pc = So_Entry \<and> r = Some So_Release then [so_output (so_context self)] else [])"

lemma source_step_process:
  assumes ok: "source_ok So_Process self"
  obtains sh' self' where "source_step cfg So_Process (sh, self) = Some (None, sh', self')"
    "sh_mem sh' = sh_mem sh" "sh_pipes sh' = sh_pipes sh" "sh_stages sh' = sh_stages sh"
    "so_output (so_context self') = so_output (so_context self)" "source_ok So_Entry self'"
proof -
  from ok have u: "source_user_ok (so_user_data self)" by (simp add: source_ok_def)
  obtain f where f: "so_process (so_user_data self) = Some f" "polite_source f"
    using u by (auto simp: source_user_ok_def)
  obtain sh1 self1 where i: "(if so_initialized self then Some (sh, self)
      else do { (sh, self) \<leftarrow> (case so_init (so_user_data self) of
                   None \<Rightarrow> Some (sh, self) | Some f \<Rightarrow> call_source (Some f) sh self);
                Some (sh, self\<lparr>so_initialized := True\<rparr>) }) = Some (sh1, self1)"
    "sh_mem sh1 = sh_mem sh" "sh_pipes sh1 = sh_pipes sh" "sh_stages sh1 = sh_stages sh"
    "so_output (so_context self1) = so_output (so_context self)" "so_user_data self1 = so_user_data self"
    "so_output_pipe self1 = so_output_pipe self"
  proof (cases "so_initialized self \<or> so_init (so_user_data self) = None")
    case True
    then show ?thesis by (intro that[of sh "self\<lparr>so_initialized := True\<rparr>"]) auto
  next
    case False
    then obtain g where g: "so_init (so_user_data self) = Some g" "polite_source g" "\<not> so_initialized self"
      using u by (auto simp: source_user_ok_def)
    from call_source_polite[OF g(2), of sh self] obtain sh2 self2 where
      "call_source (Some g) sh self = Some (sh2, self2)" "sh_mem sh2 = sh_mem sh" "sh_pipes sh2 = sh_pipes sh"
      "sh_stages sh2 = sh_stages sh" "so_output (so_context self2) = so_output (so_context self)"
      "so_user_data self2 = so_user_data self" "so_output_pipe self2 = so_output_pipe self" by blast
    with g show ?thesis by (intro that[of sh2 "self2\<lparr>so_initialized := True\<rparr>"]) simp_all
  qed
  from call_source_polite[OF f(2), of sh1 self1] obtain sh' self' where c:
    "call_source (Some f) sh1 self1 = Some (sh', self')" "sh_mem sh' = sh_mem sh1" "sh_pipes sh' = sh_pipes sh1"
    "sh_stages sh' = sh_stages sh1" "so_output (so_context self') = so_output (so_context self1)"
    "so_user_data self' = so_user_data self1" "so_output_pipe self' = so_output_pipe self1" by blast
  have "source_step cfg So_Process (sh, self) = Some (None, sh', self')"
    using i(1,6) f(1) c(1) by (simp add: source_step_def)
  with i c ok show ?thesis by (intro that[of sh' self']) (simp_all add: source_ok_def)
qed

lemma source_step_link:
  assumes ok: "source_ok pc self" and len: "0 < length (sh_pipes sh)"
    and l: "link_at cfg B sh 0 (source_view pc self) c pushed pulled"
  obtains r sh' self' where "source_step cfg pc (sh, self) = Some (r, sh', self')" "pipe_update 0 sh sh'"
    "source_ok (source_next r) self'"
    "link_at cfg B sh' 0 (source_view (source_next r) self') c (pushed @ source_pushes pc r self) pulled"
proof -
  let ?p = "sh_pipes sh ! 0" and ?b = "so_output (so_context self)"
  note wf = link_mem_wf[OF l]
  have pa: "pipe_at sh (so_output_pipe self) = Some ?p" and k: "so_output_pipe self = 0"
    using ok len by (simp_all add: pipe_at_def source_ok_def)
  note d = source_step_def Let_def source_view_def source_next_def source_pushes_def
  show ?thesis
  proof (cases pc)
    case So_Entry
    show ?thesis
    proof (cases "so_ready_to_push (so_context self)")
      case True
      then have b: "?b \<noteq> NULL" using ok by (simp add: source_ok_def)
      have "pipe_link cfg (sh_mem sh) B ?p (?b, False) c pushed pulled"
        using l So_Entry by (simp add: source_view_def)
      then obtain okp m' p' where r: "mtdp_pipe_push_buffer cfg (sh_mem sh) ?p ?b = Some (okp, m', p')"
        "pipe_link cfg m' B p' (if okp then NULL else ?b, okp) c (if okp then pushed @ [?b] else pushed) pulled"
        "mem_frame (fifo_own (fifo ?p)) (sh_mem sh) m'"
        "fifo_own (fifo p') \<subseteq> fifo_own (fifo ?p) \<union> {brk (sh_mem sh)..<brk m'}" "mem_wf m'"
        by (rule link_push[OF _ b])
      have "pipe_update 0 sh (set_pipe 0 m' p' sh)" by (rule pipe_update_set[OF len r(3,5,4)])
      then show ?thesis
        using r(1,2) True So_Entry ok pa k len b
        by (cases okp; intro that[of "if okp then Some So_Release else None" "set_pipe 0 m' p' sh"
            "if okp then self else self\<lparr>so_done := 1\<rparr>"]) (simp_all add: d source_ok_def)
    next
      case False
      then show ?thesis using So_Entry ok l wf
        by (intro that[of "Some So_Get" sh self]) (simp_all add: d source_ok_def pipe_update_refl)
    qed
  next
    case So_Release
    let ?sh = "set_pipe 0 (sh_mem sh) (mtdp_semaphore_release ?p 1) sh"
    have "pipe_link cfg (sh_mem sh) B (mtdp_semaphore_release ?p 1) (NULL, False) c pushed pulled"
      by (rule link_release) (use l So_Release in \<open>simp add: source_view_def\<close>)
    moreover have "pipe_update 0 sh ?sh"
      by (rule pipe_update_same_mem[OF len wf]) (simp add: mtdp_semaphore_release_def)
    ultimately show ?thesis using So_Release ok pa k len
      by (intro that[of "Some So_Get" ?sh "self\<lparr>so_context := (so_context self)\<lparr>so_output := NULL, so_ready_to_push := False\<rparr>\<rparr>"])
         (simp_all add: d source_ok_def release_pipe_def)
  next
    case So_Get
    show ?thesis
    proof (cases "?b = NULL")
      case True
      have "pipe_link cfg (sh_mem sh) B ?p (NULL, False) c pushed pulled"
        using l So_Get True by (simp add: source_view_def)
      then obtain b p' where g: "mtdp_pipe_get_empty_buffer ?p = Some (b, p')" "fifo p' = fifo ?p"
        "pipe_link cfg (sh_mem sh) B p' (b, False) c pushed pulled" by (rule link_get_empty)
      have "pipe_update 0 sh (set_pipe 0 (sh_mem sh) p' sh)"
        by (rule pipe_update_same_mem[OF len wf]) (simp add: g(2))
      then show ?thesis using g(1,3) True So_Get ok pa k len
        by (intro that[of "if b = NULL then None else Some So_Process" "set_pipe 0 (sh_mem sh) p' sh"
              "self\<lparr>so_context := (so_context self)\<lparr>so_output := b\<rparr>\<rparr>"])
           (auto simp: d source_ok_def)
    next
      case False
      then show ?thesis using So_Get ok l wf
        by (intro that[of "Some So_Process" sh self]) (simp_all add: d source_ok_def pipe_update_refl)
    qed
  next
    case So_Process
    obtain sh' self' where s: "source_step cfg So_Process (sh, self) = Some (None, sh', self')"
      "sh_mem sh' = sh_mem sh" "sh_pipes sh' = sh_pipes sh" "sh_stages sh' = sh_stages sh"
      "so_output (so_context self') = ?b" "source_ok So_Entry self'"
      by (rule source_step_process[OF ok[unfolded So_Process]])
    then show ?thesis using So_Process l wf
      by (intro that[of None sh' self'])
         (simp_all add: source_view_def source_next_def source_pushes_def pipe_update_refl)
  qed
qed

section \<open>The internal stage\<close>

definition stage_out_view :: "stage_pc \<Rightarrow> mtdp_stage_impl \<Rightarrow> mtdp_buffer \<times> bool" where
  "stage_out_view pc self = (if pc = St_Release then NULL else st_output (st_context self), pc = St_Release)"

definition stage_in_view :: "stage_pc \<Rightarrow> mtdp_stage_impl \<Rightarrow> mtdp_buffer \<times> bool" where
  "stage_in_view pc self = (st_input (st_context self), pc = St_Unset \<or> pc = St_GetFull)"

definition stage_ok :: "nat \<Rightarrow> stage_pc \<Rightarrow> mtdp_stage_impl \<Rightarrow> bool" where
  "stage_ok i pc self \<longleftrightarrow> st_input_pipe self = i \<and> st_output_pipe self = Suc i \<and> st_user_data self = i \<and>
     pc \<noteq> St_Return \<and>
     (st_ready_to_push (st_context self) \<longrightarrow> st_output (st_context self) \<noteq> NULL) \<and>
     (if pc = St_PutBack then st_input (st_context self) \<noteq> NULL
      else st_ready_to_pull (st_context self) \<longrightarrow> st_input (st_context self) = NULL) \<and>
     (pc = St_Unset \<or> pc = St_GetFull \<longrightarrow> st_ready_to_pull (st_context self)) \<and>
     (pc = St_Process \<longrightarrow> st_input (st_context self) \<noteq> NULL \<and> st_output (st_context self) \<noteq> NULL)"

definition stage_next :: "stage_pc option \<Rightarrow> stage_pc" where
  "stage_next r = (case r of None \<Rightarrow> St_Entry | Some pc \<Rightarrow> pc)"

definition stage_pushes :: "stage_pc \<Rightarrow> stage_pc option \<Rightarrow> mtdp_stage_impl \<Rightarrow> mtdp_buffer list" where
  "stage_pushes pc r self = (if pc = St_Entry \<and> r = Some St_Release then [st_output (st_context self)] else [])"

definition stage_pulls :: "stage_pc \<Rightarrow> stage_pc option \<Rightarrow> mtdp_stage_impl \<Rightarrow> mtdp_buffer list" where
  "stage_pulls pc r self' = (if pc = St_GetFull \<and> r = Some St_GetEmpty then [st_input (st_context self')] else [])"

lemmas stage_views = stage_out_view_def stage_in_view_def stage_next_def stage_pushes_def stage_pulls_def

text \<open>The steps that work on the output pipe.\<close>

lemma stage_step_out:
  assumes ok: "stage_ok i pc self" and len: "Suc i < length (sh_pipes sh)" and pc: "pc \<in> {St_Entry, St_Release, St_GetEmpty}"
    and l: "link_at cfg B sh (Suc i) (stage_out_view pc self) c pushed pulled"
  obtains r sh' self' where "stage_step cfg pc (sh, self) = Some (r, sh', self')" "pipe_update (Suc i) sh sh'"
    "stage_ok i (stage_next r) self'" "stage_in_view (stage_next r) self' = stage_in_view pc self"
    "link_at cfg B sh' (Suc i) (stage_out_view (stage_next r) self') c (pushed @ stage_pushes pc r self) pulled"
proof -
  let ?p = "sh_pipes sh ! Suc i" and ?b = "st_output (st_context self)"
  note wf = link_mem_wf[OF l]
  have pa: "pipe_at sh (st_output_pipe self) = Some ?p" and k: "st_output_pipe self = Suc i"
    using ok len by (simp_all add: pipe_at_def stage_ok_def)
  note d = stage_step_def Let_def stage_views
  show ?thesis
  proof (cases pc)
    case St_Entry
    show ?thesis
    proof (cases "st_ready_to_push (st_context self)")
      case True
      then have b: "?b \<noteq> NULL" using ok by (simp add: stage_ok_def)
      have "pipe_link cfg (sh_mem sh) B ?p (?b, False) c pushed pulled"
        using l St_Entry by (simp add: stage_out_view_def)
      then obtain okp m' p' where r: "mtdp_pipe_push_buffer cfg (sh_mem sh) ?p ?b = Some (okp, m', p')"
        "pipe_link cfg m' B p' (if okp then NULL else ?b, okp) c (if okp then pushed @ [?b] else pushed) pulled"
        "mem_frame (fifo_own (fifo ?p)) (sh_mem sh) m'"
        "fifo_own (fifo p') \<subseteq> fifo_own (fifo ?p) \<union> {brk (sh_mem sh)..<brk m'}" "mem_wf m'"
        by (rule link_push[OF _ b])
      have "pipe_update (Suc i) sh (set_pipe (Suc i) m' p' sh)" by (rule pipe_update_set[OF len r(3,5,4)])
      then show ?thesis
        using r(1,2) True St_Entry ok pa k len b
        by (cases okp; intro that[of "if okp then Some St_Release else None" "set_pipe (Suc i) m' p' sh"
            "if okp then self else self\<lparr>st_done := 1\<rparr>"]) (simp_all add: d stage_ok_def)
    next
      case False
      then show ?thesis using St_Entry ok l wf
        by (intro that[of "Some St_Acquire" sh self]) (simp_all add: d stage_ok_def pipe_update_refl)
    qed
  next
    case St_Release
    let ?sh = "set_pipe (Suc i) (sh_mem sh) (mtdp_semaphore_release ?p 1) sh"
    have "pipe_link cfg (sh_mem sh) B (mtdp_semaphore_release ?p 1) (NULL, False) c pushed pulled"
      by (rule link_release) (use l St_Release in \<open>simp add: stage_out_view_def\<close>)
    moreover have "pipe_update (Suc i) sh ?sh"
      by (rule pipe_update_same_mem[OF len wf]) (simp add: mtdp_semaphore_release_def)
    ultimately show ?thesis using St_Release ok pa k len
      by (intro that[of "Some St_Acquire" ?sh "self\<lparr>st_context := (st_context self)\<lparr>st_output := NULL, st_ready_to_push := False\<rparr>\<rparr>"])
         (simp_all add: d stage_ok_def release_pipe_def)
  next
    case St_GetEmpty
    show ?thesis
    proof (cases "st_input (st_context self) \<noteq> NULL \<and> ?b = NULL")
      case True
      have "pipe_link cfg (sh_mem sh) B ?p (NULL, False) c pushed pulled"
        using l St_GetEmpty True by (simp add: stage_out_view_def)
      then obtain b p' where g: "mtdp_pipe_get_empty_buffer ?p = Some (b, p')" "fifo p' = fifo ?p"
        "pipe_link cfg (sh_mem sh) B p' (b, False) c pushed pulled" by (rule link_get_empty)
      have "pipe_update (Suc i) sh (set_pipe (Suc i) (sh_mem sh) p' sh)"
        by (rule pipe_update_same_mem[OF len wf]) (simp add: g(2))
      then show ?thesis using g(1,3) True St_GetEmpty ok pa k len
        by (intro that[of "if b = NULL then None else Some St_Process" "set_pipe (Suc i) (sh_mem sh) p' sh"
              "self\<lparr>st_context := (st_context self)\<lparr>st_output := b\<rparr>\<rparr>"])
           (auto simp: d stage_ok_def)
    next
      case False
      let ?self = "if st_input (st_context self) = NULL
        then self\<lparr>st_context := (st_context self)\<lparr>st_ready_to_pull := True\<rparr>\<rparr> else self"
      show ?thesis using False St_GetEmpty ok l wf
        by (intro that[of "if st_input (st_context self) = NULL then None else Some St_Process" sh ?self])
           (auto simp: d stage_ok_def pipe_update_refl)
    qed
  qed (use pc in simp_all)
qed

text \<open>The steps that work on the input pipe.\<close>

lemma stage_step_in:
  assumes ok: "stage_ok i pc self" and len: "i < length (sh_pipes sh)"
    and pc: "pc \<in> {St_Acquire, St_Unset, St_GetFull, St_PutBack}"
    and l: "link_at cfg B sh i q (stage_in_view pc self) pushed pulled"
  obtains r sh' self' where "stage_step cfg pc (sh, self) = Some (r, sh', self')" "pipe_update i sh sh'"
    "stage_ok i (stage_next r) self'" "stage_out_view (stage_next r) self' = stage_out_view pc self"
    "link_at cfg B sh' i q (stage_in_view (stage_next r) self') pushed (pulled @ stage_pulls pc r self')"
proof -
  let ?p = "sh_pipes sh ! i" and ?b = "st_input (st_context self)"
  note wf = link_mem_wf[OF l]
  have pa: "pipe_at sh (st_input_pipe self) = Some ?p" and k: "st_input_pipe self = i"
    using ok len by (simp_all add: pipe_at_def stage_ok_def)
  note d = stage_step_def Let_def stage_views
  show ?thesis
  proof (cases pc)
    case St_Acquire
    show ?thesis
    proof (cases "st_ready_to_pull (st_context self)")
      case True
      have "pipe_link cfg (sh_mem sh) B ?p q (?b, False) pushed pulled"
        using l St_Acquire by (simp add: stage_in_view_def)
      then obtain oka p' where a: "mtdp_semaphore_try_acquire_for ?p = (oka, p')" "fifo p' = fifo ?p"
        "pipe_link cfg (sh_mem sh) B p' q (?b, oka) pushed pulled" by (rule link_acquire)
      have "pipe_update i sh (set_pipe i (sh_mem sh) p' sh)"
        by (rule pipe_update_same_mem[OF len wf]) (simp add: a(2))
      then show ?thesis using a(1,3) True St_Acquire ok pa k len
        by (cases oka; intro that[of "if oka then Some St_Unset else None" "set_pipe i (sh_mem sh) p' sh"
              "if oka then self else self\<lparr>st_done := 1\<rparr>"])
           (simp_all add: d stage_ok_def try_acquire_pipe_def)
    next
      case False
      then show ?thesis using St_Acquire ok l wf
        by (intro that[of "Some St_GetEmpty" sh self]) (simp_all add: d stage_ok_def pipe_update_refl)
    qed
  next
    case St_Unset
    then show ?thesis using ok l wf
      by (intro that[of "Some St_GetFull" sh "self\<lparr>st_done := 0\<rparr>"]) (simp_all add: d stage_ok_def pipe_update_refl)
  next
    case St_GetFull
    have "pipe_link cfg (sh_mem sh) B ?p q (NULL, True) pushed pulled"
      using l St_GetFull ok by (simp add: stage_in_view_def stage_ok_def)
    then obtain b p' where g: "mtdp_pipe_get_full_buffer cfg (sh_mem sh) ?p = Some (b, p')" "b \<noteq> NULL"
      "pipe_link cfg (sh_mem sh) B p' q (b, False) pushed (pulled @ [b])" "fifo_own (fifo p') = fifo_own (fifo ?p)"
      by (rule link_get_full)
    have "pipe_update i sh (set_pipe i (sh_mem sh) p' sh)" by (rule pipe_update_same_mem[OF len wf g(4)])
    then show ?thesis using g(1-3) St_GetFull ok pa k len
      by (intro that[of "Some St_GetEmpty" "set_pipe i (sh_mem sh) p' sh"
            "self\<lparr>st_context := (st_context self)\<lparr>st_input := b, st_ready_to_pull := False\<rparr>\<rparr>"])
         (simp_all add: d stage_ok_def)
  next
    case St_PutBack
    then have b: "?b \<noteq> NULL" using ok by (simp add: stage_ok_def)
    have "pipe_link cfg (sh_mem sh) B ?p q (?b, False) pushed pulled"
      using l St_PutBack by (simp add: stage_in_view_def)
    then obtain p' where g: "mtdp_pipe_put_back (sh_mem sh) ?p ?b = Some (True, sh_mem sh, p')" "fifo p' = fifo ?p"
      "pipe_link cfg (sh_mem sh) B p' q (NULL, False) pushed pulled" by (rule link_put_back[OF _ b])
    have "pipe_update i sh (set_pipe i (sh_mem sh) p' sh)"
      by (rule pipe_update_same_mem[OF len wf]) (simp add: g(2))
    then show ?thesis using g(1,3) St_PutBack ok pa k len
      by (intro that[of None "set_pipe i (sh_mem sh) p' sh" "self\<lparr>st_context := (st_context self)\<lparr>st_input := NULL\<rparr>\<rparr>"])
         (simp_all add: d stage_ok_def)
  qed (use pc in simp_all)
qed

text \<open>The step that calls the user's code.\<close>

lemma stage_step_process:
  assumes ok: "stage_ok i St_Process self" and u: "i < length (sh_stages sh)" "stage_user_ok (sh_stages sh ! i)"
  obtains r sh' self' where "stage_step cfg St_Process (sh, self) = Some (r, sh', self')"
    "sh_mem sh' = sh_mem sh" "sh_pipes sh' = sh_pipes sh" "sh_stages sh' = sh_stages sh"
    "stage_ok i (stage_next r) self'" "r = None \<or> r = Some St_PutBack"
    "stage_out_view (stage_next r) self' = stage_out_view St_Process self"
    "stage_in_view (stage_next r) self' = stage_in_view St_Process self"
proof -
  let ?u = "sh_stages sh ! i"
  have su: "stage_user sh self = Some ?u" using ok u(1) by (simp add: stage_user_def stage_ok_def)
  obtain f where f: "st_process ?u = Some f" "polite_stage f" using u(2) by (auto simp: stage_user_ok_def)
  obtain sh1 self1 where i: "(if st_initialized self then Some (sh, self)
      else do { (sh, self) \<leftarrow> (case st_init ?u of None \<Rightarrow> Some (sh, self) | Some f \<Rightarrow> call_stage (Some f) sh self);
                Some (sh, self\<lparr>st_initialized := True\<rparr>) }) = Some (sh1, self1)"
    "sh_mem sh1 = sh_mem sh" "sh_pipes sh1 = sh_pipes sh" "sh_stages sh1 = sh_stages sh"
    "st_output (st_context self1) = st_output (st_context self)" "st_input (st_context self1) = st_input (st_context self)"
    "st_user_data self1 = st_user_data self" "st_input_pipe self1 = st_input_pipe self"
    "st_output_pipe self1 = st_output_pipe self"
  proof (cases "st_initialized self \<or> st_init ?u = None")
    case True
    then show ?thesis by (intro that[of sh "self\<lparr>st_initialized := True\<rparr>"]) auto
  next
    case False
    then obtain g where g: "st_init ?u = Some g" "polite_stage g" "\<not> st_initialized self"
      using u(2) by (auto simp: stage_user_ok_def)
    from call_stage_polite[OF g(2), of sh self] g show ?thesis
      by (auto intro: that)
  qed
  from call_stage_polite[OF f(2), of sh1 self1] obtain sh' self' where c:
    "call_stage (Some f) sh1 self1 = Some (sh', self')" "sh_mem sh' = sh_mem sh1" "sh_pipes sh' = sh_pipes sh1"
    "sh_stages sh' = sh_stages sh1" "st_output (st_context self') = st_output (st_context self1)"
    "st_input (st_context self') = st_input (st_context self1)" "st_user_data self' = st_user_data self1"
    "st_input_pipe self' = st_input_pipe self1" "st_output_pipe self' = st_output_pipe self1" by blast
  let ?r = "if st_ready_to_pull (st_context self') then Some St_PutBack else None"
  have "stage_step cfg St_Process (sh, self) = Some (?r, sh', self')"
    using i(1) f(1) c(1) su by (simp add: stage_step_def)
  with i c ok show ?thesis by (intro that[of ?r sh' self']) (simp_all add: stage_ok_def stage_views)
qed

section \<open>The sink\<close>

definition sink_view :: "sink_pc \<Rightarrow> 'u mtdp_sink_impl \<Rightarrow> mtdp_buffer \<times> bool" where
  "sink_view pc self = (sk_input (sk_context self), pc = Sk_Unset \<or> pc = Sk_GetFull)"

definition sink_ok :: "nat \<Rightarrow> sink_pc \<Rightarrow> 'u mtdp_sink_impl \<Rightarrow> bool" where
  "sink_ok n pc self \<longleftrightarrow> sk_input_pipe self = n \<and> sink_user_ok (sk_user_data self) \<and> pc \<noteq> Sk_Return \<and>
     (pc = Sk_Acquire \<or> pc = Sk_Unset \<or> pc = Sk_GetFull \<longrightarrow> sk_input (sk_context self) = NULL)"

definition sink_next :: "sink_pc option \<Rightarrow> sink_pc" where
  "sink_next r = (case r of None \<Rightarrow> Sk_Entry | Some pc \<Rightarrow> pc)"

definition sink_pulls :: "sink_pc \<Rightarrow> sink_pc option \<Rightarrow> 'u mtdp_sink_impl \<Rightarrow> mtdp_buffer list" where
  "sink_pulls pc r self' = (if pc = Sk_GetFull \<and> r = Some Sk_Process then [sk_input (sk_context self')] else [])"

lemmas sink_views = sink_view_def sink_next_def sink_pulls_def

lemma sink_step_process:
  assumes ok: "sink_ok n Sk_Process self"
  obtains sh' self' where "sink_step cfg Sk_Process (sh, self) = Some (None, sh', self')"
    "sh_mem sh' = sh_mem sh" "sh_pipes sh' = sh_pipes sh" "sh_stages sh' = sh_stages sh"
    "sk_input (sk_context self') = sk_input (sk_context self)" "sink_ok n Sk_Entry self'"
proof (cases "sk_input (sk_context self) = NULL")
  case True
  then show ?thesis using ok
    by (intro that[of sh "self\<lparr>sk_context := (sk_context self)\<lparr>sk_ready_to_pull := True\<rparr>\<rparr>"])
       (simp_all add: sink_step_def Let_def sink_ok_def)
next
  case ne: False
  from ok have u: "sink_user_ok (sk_user_data self)" by (simp add: sink_ok_def)
  obtain f where f: "sk_process (sk_user_data self) = Some f" "polite_sink f"
    using u by (auto simp: sink_user_ok_def)
  obtain sh1 self1 where i: "(if sk_initialized self then Some (sh, self)
      else do { (sh, self) \<leftarrow> (case sk_init (sk_user_data self) of
                   None \<Rightarrow> Some (sh, self) | Some f \<Rightarrow> call_sink (Some f) sh self);
                Some (sh, self\<lparr>sk_initialized := True\<rparr>) }) = Some (sh1, self1)"
    "sh_mem sh1 = sh_mem sh" "sh_pipes sh1 = sh_pipes sh" "sh_stages sh1 = sh_stages sh"
    "sk_input (sk_context self1) = sk_input (sk_context self)" "sk_user_data self1 = sk_user_data self"
    "sk_input_pipe self1 = sk_input_pipe self"
  proof (cases "sk_initialized self \<or> sk_init (sk_user_data self) = None")
    case True
    then show ?thesis by (intro that[of sh "self\<lparr>sk_initialized := True\<rparr>"]) auto
  next
    case False
    then obtain g where g: "sk_init (sk_user_data self) = Some g" "polite_sink g" "\<not> sk_initialized self"
      using u by (auto simp: sink_user_ok_def)
    from call_sink_polite[OF g(2), of sh self] g show ?thesis by (auto intro: that)
  qed
  from call_sink_polite[OF f(2), of sh1 self1] obtain sh' self' where c:
    "call_sink (Some f) sh1 self1 = Some (sh', self')" "sh_mem sh' = sh_mem sh1" "sh_pipes sh' = sh_pipes sh1"
    "sh_stages sh' = sh_stages sh1" "sk_input (sk_context self') = sk_input (sk_context self1)"
    "sk_user_data self' = sk_user_data self1" "sk_input_pipe self' = sk_input_pipe self1" by blast
  have "sink_step cfg Sk_Process (sh, self) = Some (None, sh', self')"
    using i(1,6) f(1) c(1) ne by (simp add: sink_step_def)
  with i c ok show ?thesis by (intro that[of sh' self']) (simp_all add: sink_ok_def)
qed

lemma sink_step_link:
  assumes ok: "sink_ok n pc self" and len: "n < length (sh_pipes sh)"
    and l: "link_at cfg B sh n q (sink_view pc self) pushed pulled"
  obtains r sh' self' where "sink_step cfg pc (sh, self) = Some (r, sh', self')" "pipe_update n sh sh'"
    "sink_ok n (sink_next r) self'"
    "link_at cfg B sh' n q (sink_view (sink_next r) self') pushed (pulled @ sink_pulls pc r self')"
proof -
  let ?p = "sh_pipes sh ! n" and ?b = "sk_input (sk_context self)"
  note wf = link_mem_wf[OF l]
  have pa: "pipe_at sh (sk_input_pipe self) = Some ?p" and k: "sk_input_pipe self = n"
    using ok len by (simp_all add: pipe_at_def sink_ok_def)
  note d = sink_step_def Let_def sink_views
  show ?thesis
  proof (cases pc)
    case Sk_Entry
    show ?thesis
    proof (cases "sk_ready_to_pull (sk_context self) \<and> ?b \<noteq> NULL")
      case True
      then have b: "?b \<noteq> NULL" by blast
      have "pipe_link cfg (sh_mem sh) B ?p q (?b, False) pushed pulled"
        using l Sk_Entry by (simp add: sink_view_def)
      then obtain p' where g: "mtdp_pipe_put_back (sh_mem sh) ?p ?b = Some (True, sh_mem sh, p')" "fifo p' = fifo ?p"
        "pipe_link cfg (sh_mem sh) B p' q (NULL, False) pushed pulled" by (rule link_put_back[OF _ b])
      have "pipe_update n sh (set_pipe n (sh_mem sh) p' sh)"
        by (rule pipe_update_same_mem[OF len wf]) (simp add: g(2))
      then show ?thesis using g(1,3) True Sk_Entry ok pa k len
        by (intro that[of "Some Sk_Acquire" "set_pipe n (sh_mem sh) p' sh"
              "self\<lparr>sk_context := (sk_context self)\<lparr>sk_input := NULL\<rparr>\<rparr>"])
           (simp_all add: d sink_ok_def)
    next
      case False
      then show ?thesis using Sk_Entry ok l wf
        by (intro that[of "if sk_ready_to_pull (sk_context self) then Some Sk_Acquire else Some Sk_Process" sh self])
           (auto simp: d sink_ok_def pipe_update_refl)
    qed
  next
    case Sk_Acquire
    have "pipe_link cfg (sh_mem sh) B ?p q (?b, False) pushed pulled"
      using l Sk_Acquire by (simp add: sink_view_def)
    then obtain oka p' where a: "mtdp_semaphore_try_acquire_for ?p = (oka, p')" "fifo p' = fifo ?p"
      "pipe_link cfg (sh_mem sh) B p' q (?b, oka) pushed pulled" by (rule link_acquire)
    have "pipe_update n sh (set_pipe n (sh_mem sh) p' sh)"
      by (rule pipe_update_same_mem[OF len wf]) (simp add: a(2))
    then show ?thesis using a(1,3) Sk_Acquire ok pa k len
      by (cases oka; intro that[of "if oka then Some Sk_Unset else None" "set_pipe n (sh_mem sh) p' sh"
            "if oka then self else self\<lparr>sk_done := 1\<rparr>"])
         (simp_all add: d sink_ok_def try_acquire_pipe_def)
  next
    case Sk_Unset
    then show ?thesis using ok l wf
      by (intro that[of "Some Sk_GetFull" sh "self\<lparr>sk_done := 0\<rparr>"]) (simp_all add: d sink_ok_def pipe_update_refl)
  next
    case Sk_GetFull
    have "pipe_link cfg (sh_mem sh) B ?p q (NULL, True) pushed pulled"
      using l Sk_GetFull ok by (simp add: sink_view_def sink_ok_def)
    then obtain b p' where g: "mtdp_pipe_get_full_buffer cfg (sh_mem sh) ?p = Some (b, p')" "b \<noteq> NULL"
      "pipe_link cfg (sh_mem sh) B p' q (b, False) pushed (pulled @ [b])" "fifo_own (fifo p') = fifo_own (fifo ?p)"
      by (rule link_get_full)
    have "pipe_update n sh (set_pipe n (sh_mem sh) p' sh)" by (rule pipe_update_same_mem[OF len wf g(4)])
    then show ?thesis using g(1-3) Sk_GetFull ok pa k len
      by (intro that[of "Some Sk_Process" "set_pipe n (sh_mem sh) p' sh"
            "self\<lparr>sk_context := (sk_context self)\<lparr>sk_input := b, sk_ready_to_pull := False\<rparr>\<rparr>"])
         (simp_all add: d sink_ok_def)
  next
    case Sk_Return
    then show ?thesis using ok by (simp add: sink_ok_def)
  next
    case Sk_Process
    obtain sh' self' where s: "sink_step cfg Sk_Process (sh, self) = Some (None, sh', self')"
      "sh_mem sh' = sh_mem sh" "sh_pipes sh' = sh_pipes sh" "sh_stages sh' = sh_stages sh"
      "sk_input (sk_context self') = ?b" "sink_ok n Sk_Entry self'"
      by (rule sink_step_process[OF ok[unfolded Sk_Process]])
    then show ?thesis using Sk_Process l wf
      by (intro that[of None sh' self']) (simp_all add: sink_views pipe_update_refl)
  qed
qed

end
