(* ===== verification/Dataflow.thy ===== *)
theory Dataflow
  imports Stage_Steps
begin

text \<open>
  The running pipeline: the source, the internal stages and the sink, each stepping through its
  routine (theory Stages) on the shared pipes, in any interleaving. A thread may begin a new
  iteration of its routine at any time, which covers every schedule the workers allow (theory
  Worker_Protocol). The allocator may refuse any request.

  Pipe 0 links the source to the first stage, pipe \<open>i + 1\<close> stage \<open>i\<close> to the next, the last pipe the
  last stage to the sink. \<open>pushed\<close> and \<open>pulled\<close> are ghosts: the sequences of buffers pushed to
  and pulled from each pipe.
\<close>

section \<open>All links of a pipeline\<close>

definition links_inv :: "fifo_config \<Rightarrow> (nat \<Rightarrow> mtdp_buffer multiset) \<Rightarrow> 'u shared \<Rightarrow>
    (nat \<Rightarrow> mtdp_buffer \<times> bool) \<Rightarrow> (nat \<Rightarrow> mtdp_buffer \<times> bool) \<Rightarrow>
    (nat \<Rightarrow> mtdp_buffer list) \<Rightarrow> (nat \<Rightarrow> mtdp_buffer list) \<Rightarrow> bool" where
  "links_inv cfg B sh prd csm push pull \<longleftrightarrow>
     (\<forall>k < length (sh_pipes sh). link_at cfg (B k) sh k (prd k) (csm k) (push k) (pull k)) \<and>
     (\<forall>i < length (sh_pipes sh). \<forall>j < length (sh_pipes sh). i \<noteq> j \<longrightarrow>
        fifo_own (fifo (sh_pipes sh ! i)) \<inter> fifo_own (fifo (sh_pipes sh ! j)) = {})"

lemma links_invD:
  assumes "links_inv cfg B sh prd csm push pull"
  shows "k < length (sh_pipes sh) \<Longrightarrow> link_at cfg (B k) sh k (prd k) (csm k) (push k) (pull k)"
    "i < length (sh_pipes sh) \<Longrightarrow> j < length (sh_pipes sh) \<Longrightarrow> i \<noteq> j \<Longrightarrow>
       fifo_own (fifo (sh_pipes sh ! i)) \<inter> fifo_own (fifo (sh_pipes sh ! j)) = {}"
  using assms by (simp_all add: links_inv_def)

lemma link_own_below:
  "link_at cfg B sh k q c x y \<Longrightarrow> a \<in> fifo_own (fifo (sh_pipes sh ! k)) \<Longrightarrow> a < brk (sh_mem sh)"
  by (cases q; cases c) (auto simp: pipe_link_def pipe_inv_def dest: fifo_own_below)

text \<open>A step that updates one pipe keeps all links if it keeps that one.\<close>

lemma links_inv_update:
  assumes inv: "links_inv cfg B sh prd csm push pull" and up: "pipe_update k sh sh'"
    and k: "k < length (sh_pipes sh)"
    and l: "link_at cfg (B k) sh' k (prd' k) (csm' k) (push' k) (pull' k)"
    and same: "\<And>j. j \<noteq> k \<Longrightarrow> prd' j = prd j \<and> csm' j = csm j \<and> push' j = push j \<and> pull' j = pull j"
  shows "links_inv cfg B sh' prd' csm' push' pull'"
proof -
  note d = links_invD[OF inv]
  have u: "length (sh_pipes sh') = length (sh_pipes sh)" "\<And>j. j \<noteq> k \<Longrightarrow> sh_pipes sh' ! j = sh_pipes sh ! j"
    "mem_frame (fifo_own (fifo (sh_pipes sh ! k))) (sh_mem sh) (sh_mem sh')" "mem_wf (sh_mem sh')"
    "fifo_own (fifo (sh_pipes sh' ! k)) \<subseteq> fifo_own (fifo (sh_pipes sh ! k)) \<union> {brk (sh_mem sh)..<brk (sh_mem sh')}"
    using up by (auto simp: pipe_update_def)
  have "link_at cfg (B j) sh' j (prd' j) (csm' j) (push' j) (pull' j)" if "j < length (sh_pipes sh)" for j
  proof (cases "j = k")
    case False
    have "fifo_own (fifo (sh_pipes sh ! j)) \<inter> fifo_own (fifo (sh_pipes sh ! k)) = {}" using d(2)[OF that k False] .
    from link_frame[OF d(1)[OF that] u(3,4) this] same[OF False] u(2)[OF False] show ?thesis by simp
  qed (simp add: l)
  moreover have dk: "fifo_own (fifo (sh_pipes sh' ! k)) \<inter> fifo_own (fifo (sh_pipes sh' ! j)) = {}"
    if "j < length (sh_pipes sh)" "j \<noteq> k" for j
  proof -
    have "fifo_own (fifo (sh_pipes sh ! k)) \<inter> fifo_own (fifo (sh_pipes sh ! j)) = {}" using d(2)[OF k that(1)] that(2) by blast
    moreover have "a < brk (sh_mem sh)" if "a \<in> fifo_own (fifo (sh_pipes sh ! j))" for a
      using link_own_below[OF d(1)[OF \<open>j < length (sh_pipes sh)\<close>] that] .
    ultimately show ?thesis using u(5) u(2)[OF that(2)] by fastforce
  qed
  moreover have "fifo_own (fifo (sh_pipes sh' ! i)) \<inter> fifo_own (fifo (sh_pipes sh' ! j)) = {}"
    if "i < length (sh_pipes sh)" "j < length (sh_pipes sh)" "i \<noteq> j" for i j
  proof -
    consider "i = k" | "j = k" | "i \<noteq> k" "j \<noteq> k" by blast
    then show ?thesis
    proof cases
      case 1 then show ?thesis using dk[OF that(2)] that(3) by simp
    next
      case 2 then show ?thesis using dk[OF that(1)] that(3) by (metis inf_commute)
    next
      case 3 then show ?thesis using d(2)[OF that] u(2) by simp
    qed
  qed
  ultimately show ?thesis by (simp add: links_inv_def u(1))
qed

section \<open>One thread among the links\<close>

lemma source_step_links:
  assumes ok: "source_ok pc self" and len: "0 < length (sh_pipes sh)"
    and inv: "links_inv cfg B sh prd csm push pull" and v: "prd 0 = source_view pc self"
  obtains r sh' self' where "source_step cfg pc (sh, self) = Some (r, sh', self')" "source_ok (source_next r) self'"
    "links_inv cfg B sh' (prd(0 := source_view (source_next r) self')) csm
       (push(0 := push 0 @ source_pushes pc r self)) pull"
    "length (sh_pipes sh') = length (sh_pipes sh)" "sh_stages sh' = sh_stages sh"
proof -
  obtain r sh' self' where s: "source_step cfg pc (sh, self) = Some (r, sh', self')" "pipe_update 0 sh sh'"
    "source_ok (source_next r) self'"
    "link_at cfg (B 0) sh' 0 (source_view (source_next r) self') (csm 0) (push 0 @ source_pushes pc r self) (pull 0)"
    by (rule source_step_link[OF ok len]) (use links_invD(1)[OF inv len] v in auto)
  from links_inv_update[OF inv s(2) len, where prd' = "prd(0 := source_view (source_next r) self')"
      and csm' = csm and push' = "push(0 := push 0 @ source_pushes pc r self)" and pull' = pull] s
  show ?thesis by (intro that[of r sh' self']) (auto simp: pipe_update_def)
qed

lemma stage_step_links:
  assumes ok: "stage_ok i pc self" and len: "Suc i < length (sh_pipes sh)"
    and users: "i < length (sh_stages sh)" "stage_user_ok (sh_stages sh ! i)"
    and inv: "links_inv cfg B sh prd csm push pull"
    and v: "prd (Suc i) = stage_out_view pc self" "csm i = stage_in_view pc self"
  obtains r sh' self' where "stage_step cfg pc (sh, self) = Some (r, sh', self')" "stage_ok i (stage_next r) self'"
    "links_inv cfg B sh' (prd(Suc i := stage_out_view (stage_next r) self'))
       (csm(i := stage_in_view (stage_next r) self'))
       (push(Suc i := push (Suc i) @ stage_pushes pc r self)) (pull(i := pull i @ stage_pulls pc r self'))"
    "length (sh_pipes sh') = length (sh_pipes sh)" "sh_stages sh' = sh_stages sh"
proof -
  have leni: "i < length (sh_pipes sh)" using len by simp
  consider (out) "pc \<in> {St_Entry, St_Release, St_GetEmpty}" | (inp) "pc \<in> {St_Acquire, St_Unset, St_GetFull, St_PutBack}"
    | (user) "pc = St_Process" using ok by (cases pc) (auto simp: stage_ok_def)
  then show ?thesis
  proof cases
    case out
    obtain r sh' self' where s: "stage_step cfg pc (sh, self) = Some (r, sh', self')" "pipe_update (Suc i) sh sh'"
      "stage_ok i (stage_next r) self'" "stage_in_view (stage_next r) self' = stage_in_view pc self"
      "link_at cfg (B (Suc i)) sh' (Suc i) (stage_out_view (stage_next r) self') (csm (Suc i))
         (push (Suc i) @ stage_pushes pc r self) (pull (Suc i))"
      by (rule stage_step_out[OF ok len out]) (use links_invD(1)[OF inv len] v in auto)
    have "stage_pulls pc r self' = []" using out by (auto simp: stage_pulls_def)
    with links_inv_update[OF inv s(2) len, where prd' = "prd(Suc i := stage_out_view (stage_next r) self')"
        and csm' = "csm(i := stage_in_view (stage_next r) self')"
        and push' = "push(Suc i := push (Suc i) @ stage_pushes pc r self)"
        and pull' = "pull(i := pull i @ stage_pulls pc r self')"] s v
    show ?thesis by (intro that[of r sh' self']) (auto simp: pipe_update_def)
  next
    case inp
    obtain r sh' self' where s: "stage_step cfg pc (sh, self) = Some (r, sh', self')" "pipe_update i sh sh'"
      "stage_ok i (stage_next r) self'" "stage_out_view (stage_next r) self' = stage_out_view pc self"
      "link_at cfg (B i) sh' i (prd i) (stage_in_view (stage_next r) self') (push i) (pull i @ stage_pulls pc r self')"
      by (rule stage_step_in[OF ok leni inp]) (use links_invD(1)[OF inv leni] v in auto)
    have "stage_pushes pc r self = []" using inp by (auto simp: stage_pushes_def)
    with links_inv_update[OF inv s(2) leni, where prd' = "prd(Suc i := stage_out_view (stage_next r) self')"
        and csm' = "csm(i := stage_in_view (stage_next r) self')"
        and push' = "push(Suc i := push (Suc i) @ stage_pushes pc r self)"
        and pull' = "pull(i := pull i @ stage_pulls pc r self')"] s v
    show ?thesis by (intro that[of r sh' self']) (auto simp: pipe_update_def)
  next
    case user
    obtain r sh' self' where s: "stage_step cfg St_Process (sh, self) = Some (r, sh', self')"
      "sh_mem sh' = sh_mem sh" "sh_pipes sh' = sh_pipes sh" "sh_stages sh' = sh_stages sh"
      "stage_ok i (stage_next r) self'" "r = None \<or> r = Some St_PutBack"
      "stage_out_view (stage_next r) self' = stage_out_view St_Process self"
      "stage_in_view (stage_next r) self' = stage_in_view St_Process self"
      by (rule stage_step_process[OF ok[unfolded user] users])
    have "stage_pushes pc r self = []" "stage_pulls pc r self' = []" using user by (simp_all add: stage_views)
    moreover have "prd(Suc i := stage_out_view pc self) = prd" "csm(i := stage_in_view pc self) = csm"
      using v by (simp_all add: fun_upd_idem)
    moreover have "links_inv cfg B sh' prd csm push pull" using inv s(2,3) by (simp add: links_inv_def)
    ultimately show ?thesis using s user by (intro that[of r sh' self']) simp_all
  qed
qed

lemma sink_step_links:
  assumes ok: "sink_ok n pc self" and len: "n < length (sh_pipes sh)"
    and inv: "links_inv cfg B sh prd csm push pull" and v: "csm n = sink_view pc self"
  obtains r sh' self' where "sink_step cfg pc (sh, self) = Some (r, sh', self')" "sink_ok n (sink_next r) self'"
    "links_inv cfg B sh' prd (csm(n := sink_view (sink_next r) self')) push
       (pull(n := pull n @ sink_pulls pc r self'))"
    "length (sh_pipes sh') = length (sh_pipes sh)" "sh_stages sh' = sh_stages sh"
proof -
  obtain r sh' self' where s: "sink_step cfg pc (sh, self) = Some (r, sh', self')" "pipe_update n sh sh'"
    "sink_ok n (sink_next r) self'"
    "link_at cfg (B n) sh' n (prd n) (sink_view (sink_next r) self') (push n) (pull n @ sink_pulls pc r self')"
    by (rule sink_step_link[OF ok len]) (use links_invD(1)[OF inv len] v in auto)
  from links_inv_update[OF inv s(2) len, where csm' = "csm(n := sink_view (sink_next r) self')"
      and prd' = prd and push' = push and pull' = "pull(n := pull n @ sink_pulls pc r self')"] s
  show ?thesis by (intro that[of r sh' self']) (auto simp: pipe_update_def)
qed

end
