(* ===== verification/Flow.thy ===== *)
theory Flow
  imports Dataflow
begin

text \<open>
  The interleaving of the threads of a running pipeline, its reachable states and what holds
  in all of them.
\<close>

section \<open>States and steps\<close>

record 'u flow =
  fl_sh :: "'u shared"
  fl_source :: "'u mtdp_source_impl"
  so_at :: source_pc
  fl_stages :: "mtdp_stage_impl list"
  st_at :: "stage_pc list"
  fl_sink :: "'u mtdp_sink_impl"
  sk_at :: sink_pc
  pushed :: "nat \<Rightarrow> mtdp_buffer list"
  pulled :: "nat \<Rightarrow> mtdp_buffer list"

definition source_move :: "fifo_config \<Rightarrow> 'u flow \<Rightarrow> 'u flow option" where
  "source_move cfg s = do {
     (r, sh, self) \<leftarrow> source_step cfg (so_at s) (fl_sh s, fl_source s);
     let k = so_output_pipe (fl_source s);
     Some (s\<lparr>fl_sh := sh, fl_source := self, so_at := source_next r,
       pushed := (pushed s)(k := pushed s k @ source_pushes (so_at s) r (fl_source s))\<rparr>) }"

definition stage_move :: "fifo_config \<Rightarrow> nat \<Rightarrow> 'u flow \<Rightarrow> 'u flow option" where
  "stage_move cfg i s = do {
     let old = fl_stages s ! i;
     let pc = st_at s ! i;
     let k = st_output_pipe old;
     let j = st_input_pipe old;
     (r, sh, self) \<leftarrow> stage_step cfg pc (fl_sh s, old);
     Some (s\<lparr>fl_sh := sh, fl_stages := (fl_stages s)[i := self], st_at := (st_at s)[i := stage_next r],
       pushed := (pushed s)(k := pushed s k @ stage_pushes pc r old),
       pulled := (pulled s)(j := pulled s j @ stage_pulls pc r self)\<rparr>) }"

definition sink_move :: "fifo_config \<Rightarrow> 'u flow \<Rightarrow> 'u flow option" where
  "sink_move cfg s = do {
     (r, sh, self) \<leftarrow> sink_step cfg (sk_at s) (fl_sh s, fl_sink s);
     let k = sk_input_pipe (fl_sink s);
     Some (s\<lparr>fl_sh := sh, fl_sink := self, sk_at := sink_next r,
       pulled := (pulled s)(k := pulled s k @ sink_pulls (sk_at s) r self)\<rparr>) }"

datatype flow_thread = Source_thread | Stage_thread nat | Sink_thread

definition flow_threads :: "'u flow \<Rightarrow> flow_thread set" where
  "flow_threads s = {Source_thread, Sink_thread} \<union> Stage_thread ` {..<length (fl_stages s)}"

fun move :: "fifo_config \<Rightarrow> flow_thread \<Rightarrow> 'u flow \<Rightarrow> 'u flow option" where
  "move cfg Source_thread s = source_move cfg s"
| "move cfg (Stage_thread i) s = stage_move cfg i s"
| "move cfg Sink_thread s = sink_move cfg s"

text \<open>Other threads (those that enable, disable or destroy workers, or set the \<open>done\<close> words) may at any
  time change the worker and the \<open>done\<close> word of a stage.\<close>

inductive flow_step :: "fifo_config \<Rightarrow> 'u flow \<Rightarrow> 'u flow \<Rightarrow> bool" for cfg where
  thread: "t \<in> flow_threads s \<Longrightarrow> move cfg t s = Some s' \<Longrightarrow> flow_step cfg s s'"
| source_control: "flow_step cfg s (s\<lparr>fl_source := (fl_source s)\<lparr>so_worker := w, so_done := d\<rparr>\<rparr>)"
| stage_control: "i < length (fl_stages s) \<Longrightarrow>
    flow_step cfg s (s\<lparr>fl_stages := (fl_stages s)[i := (fl_stages s ! i)\<lparr>st_worker := w, st_done := d\<rparr>]\<rparr>)"
| sink_control: "flow_step cfg s (s\<lparr>fl_sink := (fl_sink s)\<lparr>sk_worker := w, sk_done := d\<rparr>\<rparr>)"

inductive flow_reach :: "fifo_config \<Rightarrow> 'u flow \<Rightarrow> 'u flow \<Rightarrow> bool" for cfg s0 where
  start: "flow_reach cfg s0 s0"
| step: "flow_reach cfg s0 s \<Longrightarrow> flow_step cfg s s' \<Longrightarrow> flow_reach cfg s0 s'"

section \<open>The invariant\<close>

text \<open>The two sides of pipe \<open>k\<close>.\<close>

definition producer :: "'u flow \<Rightarrow> nat \<Rightarrow> mtdp_buffer \<times> bool" where
  "producer s k = (if k = 0 then source_view (so_at s) (fl_source s)
     else stage_out_view (st_at s ! (k - 1)) (fl_stages s ! (k - 1)))"

definition consumer :: "'u flow \<Rightarrow> nat \<Rightarrow> mtdp_buffer \<times> bool" where
  "consumer s k = (if k < length (fl_stages s) then stage_in_view (st_at s ! k) (fl_stages s ! k)
     else sink_view (sk_at s) (fl_sink s))"

definition flow_inv :: "fifo_config \<Rightarrow> (nat \<Rightarrow> mtdp_buffer multiset) \<Rightarrow> 'u flow \<Rightarrow> bool" where
  "flow_inv cfg B s \<longleftrightarrow>
     (let n = length (fl_stages s) in
      length (sh_pipes (fl_sh s)) = Suc n \<and> length (st_at s) = n \<and> length (sh_stages (fl_sh s)) = n \<and>
      (\<forall>u \<in> set (sh_stages (fl_sh s)). stage_user_ok u) \<and> source_ok (so_at s) (fl_source s) \<and>
      (\<forall>i < n. stage_ok i (st_at s ! i) (fl_stages s ! i)) \<and> sink_ok n (sk_at s) (fl_sink s) \<and>
      links_inv cfg B (fl_sh s) (producer s) (consumer s) (pushed s) (pulled s))"

lemma flow_invD:
  assumes "flow_inv cfg B s"
  shows "length (sh_pipes (fl_sh s)) = Suc (length (fl_stages s))" "length (st_at s) = length (fl_stages s)"
    "length (sh_stages (fl_sh s)) = length (fl_stages s)" "\<forall>u \<in> set (sh_stages (fl_sh s)). stage_user_ok u"
    "source_ok (so_at s) (fl_source s)"
    "i < length (fl_stages s) \<Longrightarrow> stage_ok i (st_at s ! i) (fl_stages s ! i)"
    "sink_ok (length (fl_stages s)) (sk_at s) (fl_sink s)"
    "links_inv cfg B (fl_sh s) (producer s) (consumer s) (pushed s) (pulled s)"
  using assms by (simp_all add: flow_inv_def Let_def)

lemma links_inv_cong:
  "links_inv cfg B sh p c x y \<Longrightarrow> (\<And>k. k < length (sh_pipes sh) \<Longrightarrow> p' k = p k \<and> c' k = c k) \<Longrightarrow> links_inv cfg B sh p' c' x y"
  by (simp add: links_inv_def)

lemma source_move_inv:
  assumes inv: "flow_inv cfg B s"
  obtains s' where "source_move cfg s = Some s'" "flow_inv cfg B s'"
proof -
  note d = flow_invD[OF inv]
  obtain r sh self where s: "source_step cfg (so_at s) (fl_sh s, fl_source s) = Some (r, sh, self)"
    "source_ok (source_next r) self"
    "links_inv cfg B sh ((producer s)(0 := source_view (source_next r) self)) (consumer s)
       ((pushed s)(0 := pushed s 0 @ source_pushes (so_at s) r (fl_source s))) (pulled s)"
    "length (sh_pipes sh) = length (sh_pipes (fl_sh s))" "sh_stages sh = sh_stages (fl_sh s)"
    by (rule source_step_links[OF d(5) _ d(8)]) (simp_all add: d(1) producer_def)
  have k: "so_output_pipe (fl_source s) = 0" using d(5) by (simp add: source_ok_def)
  let ?s = "s\<lparr>fl_sh := sh, fl_source := self, so_at := source_next r,
      pushed := (pushed s)(0 := pushed s 0 @ source_pushes (so_at s) r (fl_source s))\<rparr>"
  have "links_inv cfg B sh (producer ?s) (consumer ?s)
      ((pushed s)(0 := pushed s 0 @ source_pushes (so_at s) r (fl_source s))) (pulled s)"
    by (rule links_inv_cong[OF s(3)]) (simp add: producer_def consumer_def)
  then have "flow_inv cfg B ?s" using d s by (simp add: flow_inv_def Let_def)
  moreover have "source_move cfg s = Some ?s" using s(1) k by (simp add: source_move_def Let_def)
  ultimately show ?thesis by (intro that)
qed

lemma stage_move_inv:
  assumes inv: "flow_inv cfg B s" and i: "i < length (fl_stages s)"
  obtains s' where "stage_move cfg i s = Some s'" "flow_inv cfg B s'"
proof -
  note d = flow_invD[OF inv]
  let ?old = "fl_stages s ! i" and ?pc = "st_at s ! i"
  have len: "Suc i < length (sh_pipes (fl_sh s))" "i < length (sh_stages (fl_sh s))" using i d(1,3) by simp_all
  have user: "stage_user_ok (sh_stages (fl_sh s) ! i)" using d(4) len(2) by simp
  obtain r sh self where s: "stage_step cfg ?pc (fl_sh s, ?old) = Some (r, sh, self)"
    "stage_ok i (stage_next r) self"
    "links_inv cfg B sh ((producer s)(Suc i := stage_out_view (stage_next r) self))
       ((consumer s)(i := stage_in_view (stage_next r) self))
       ((pushed s)(Suc i := pushed s (Suc i) @ stage_pushes ?pc r ?old))
       ((pulled s)(i := pulled s i @ stage_pulls ?pc r self))"
    "length (sh_pipes sh) = length (sh_pipes (fl_sh s))" "sh_stages sh = sh_stages (fl_sh s)"
    by (rule stage_step_links[OF d(6)[OF i] len user d(8)]) (simp_all add: i producer_def consumer_def)
  have k: "st_output_pipe ?old = Suc i" "st_input_pipe ?old = i" using d(6)[OF i] by (simp_all add: stage_ok_def)
  let ?s = "s\<lparr>fl_sh := sh, fl_stages := (fl_stages s)[i := self], st_at := (st_at s)[i := stage_next r],
      pushed := (pushed s)(Suc i := pushed s (Suc i) @ stage_pushes ?pc r ?old),
      pulled := (pulled s)(i := pulled s i @ stage_pulls ?pc r self)\<rparr>"
  have "links_inv cfg B sh (producer ?s) (consumer ?s)
      ((pushed s)(Suc i := pushed s (Suc i) @ stage_pushes ?pc r ?old))
      ((pulled s)(i := pulled s i @ stage_pulls ?pc r self))"
    by (rule links_inv_cong[OF s(3)]) (use i d(2) in \<open>auto simp: producer_def consumer_def nth_list_update\<close>)
  moreover have "stage_ok j ((st_at s)[i := stage_next r] ! j) ((fl_stages s)[i := self] ! j)"
    if "j < length (fl_stages s)" for j
    using d(2) d(6)[OF that] s(2) that by (cases "j = i") simp_all
  ultimately have "flow_inv cfg B ?s" using d s by (simp add: flow_inv_def Let_def)
  moreover have "stage_move cfg i s = Some ?s" using s(1) k by (simp add: stage_move_def Let_def)
  ultimately show ?thesis by (intro that)
qed

lemma sink_move_inv:
  assumes inv: "flow_inv cfg B s"
  obtains s' where "sink_move cfg s = Some s'" "flow_inv cfg B s'"
proof -
  note d = flow_invD[OF inv]
  let ?n = "length (fl_stages s)"
  obtain r sh self where s: "sink_step cfg (sk_at s) (fl_sh s, fl_sink s) = Some (r, sh, self)"
    "sink_ok ?n (sink_next r) self"
    "links_inv cfg B sh (producer s) ((consumer s)(?n := sink_view (sink_next r) self)) (pushed s)
       ((pulled s)(?n := pulled s ?n @ sink_pulls (sk_at s) r self))"
    "length (sh_pipes sh) = length (sh_pipes (fl_sh s))" "sh_stages sh = sh_stages (fl_sh s)"
    by (rule sink_step_links[OF d(7) _ d(8)]) (simp_all add: d(1) consumer_def)
  have k: "sk_input_pipe (fl_sink s) = ?n" using d(7) by (simp add: sink_ok_def)
  let ?s = "s\<lparr>fl_sh := sh, fl_sink := self, sk_at := sink_next r,
      pulled := (pulled s)(?n := pulled s ?n @ sink_pulls (sk_at s) r self)\<rparr>"
  have "links_inv cfg B sh (producer ?s) (consumer ?s) (pushed s)
      ((pulled s)(?n := pulled s ?n @ sink_pulls (sk_at s) r self))"
    by (rule links_inv_cong[OF s(3)]) (use s(4) d(1) in \<open>auto simp: producer_def consumer_def\<close>)
  then have "flow_inv cfg B ?s" using d s by (simp add: flow_inv_def Let_def)
  moreover have "sink_move cfg s = Some ?s" using s(1) k by (simp add: sink_move_def Let_def)
  ultimately show ?thesis by (intro that)
qed

lemma move_inv:
  assumes "flow_inv cfg B s" "t \<in> flow_threads s"
  shows "\<exists>s'. move cfg t s = Some s' \<and> flow_inv cfg B s'"
proof (cases t)
  case Source_thread
  then show ?thesis by (simp) (rule source_move_inv[OF assms(1)], blast)
next
  case (Stage_thread i)
  then have "i < length (fl_stages s)" using assms(2) by (auto simp: flow_threads_def)
  then show ?thesis unfolding Stage_thread move.simps by (rule stage_move_inv[OF assms(1)]) blast
next
  case Sink_thread
  then show ?thesis by (simp) (rule sink_move_inv[OF assms(1)], blast)
qed

text \<open>The views and the conditions of the threads do not read the workers and \<open>done\<close> words.\<close>

lemma control_views:
  "source_view pc (self\<lparr>so_worker := w, so_done := d\<rparr>) = source_view pc self"
  "source_ok pc (self\<lparr>so_worker := w, so_done := d\<rparr>) = source_ok pc self"
  "stage_out_view spc (g\<lparr>st_worker := w, st_done := d\<rparr>) = stage_out_view spc g"
  "stage_in_view spc (g\<lparr>st_worker := w, st_done := d\<rparr>) = stage_in_view spc g"
  "stage_ok i spc (g\<lparr>st_worker := w, st_done := d\<rparr>) = stage_ok i spc g"
  "sink_view kpc (k\<lparr>sk_worker := w, sk_done := d\<rparr>) = sink_view kpc k"
  "sink_ok n kpc (k\<lparr>sk_worker := w, sk_done := d\<rparr>) = sink_ok n kpc k"
  by (simp_all add: source_view_def source_ok_def stage_out_view_def stage_in_view_def stage_ok_def sink_view_def
      sink_ok_def)

lemma control_inv:
  assumes "flow_inv cfg B s"
  shows "flow_inv cfg B (s\<lparr>fl_source := (fl_source s)\<lparr>so_worker := w, so_done := d\<rparr>\<rparr>)"
    "flow_inv cfg B (s\<lparr>fl_sink := (fl_sink s)\<lparr>sk_worker := w, sk_done := d\<rparr>\<rparr>)"
    "i < length (fl_stages s) \<Longrightarrow>
       flow_inv cfg B (s\<lparr>fl_stages := (fl_stages s)[i := (fl_stages s ! i)\<lparr>st_worker := w, st_done := d\<rparr>]\<rparr>)"
proof -
  note d = flow_invD[OF assms]
  show "flow_inv cfg B (s\<lparr>fl_source := (fl_source s)\<lparr>so_worker := w, so_done := d\<rparr>\<rparr>)"
    using d by (simp add: flow_inv_def control_views producer_def consumer_def Let_def cong: if_cong)
       (rule links_inv_cong[OF d(8)], simp add: producer_def consumer_def control_views)
  show "flow_inv cfg B (s\<lparr>fl_sink := (fl_sink s)\<lparr>sk_worker := w, sk_done := d\<rparr>\<rparr>)"
    using d by (simp add: flow_inv_def control_views Let_def)
       (rule links_inv_cong[OF d(8)], simp add: producer_def consumer_def control_views)
  assume i: "i < length (fl_stages s)"
  let ?gs = "(fl_stages s)[i := (fl_stages s ! i)\<lparr>st_worker := w, st_done := d\<rparr>]"
  have ok: "stage_ok j (st_at s ! j) (?gs ! j)" if "j < length (fl_stages s)" for j
    using d(6)[OF that] i that by (cases "j = i") (simp_all add: control_views)
  have "links_inv cfg B (fl_sh s) (producer (s\<lparr>fl_stages := ?gs\<rparr>)) (consumer (s\<lparr>fl_stages := ?gs\<rparr>)) (pushed s) (pulled s)"
    by (rule links_inv_cong[OF d(8)])
       (use i d(1) in \<open>auto simp: producer_def consumer_def control_views nth_list_update\<close>)
  then show "flow_inv cfg B (s\<lparr>fl_stages := ?gs\<rparr>)" using d ok by (simp add: flow_inv_def Let_def)
qed

lemma flow_step_inv: "flow_step cfg s s' \<Longrightarrow> flow_inv cfg B s \<Longrightarrow> flow_inv cfg B s'"
proof (induction rule: flow_step.induct)
  case (thread t s s')
  then show ?case using move_inv[of cfg B s t] by auto
qed (simp_all only: control_inv)

lemma flow_reach_inv: "flow_reach cfg s0 s \<Longrightarrow> flow_inv cfg B s0 \<Longrightarrow> flow_inv cfg B s"
  by (induction rule: flow_reach.induct) (simp_all add: flow_step_inv)

lemma flow_step_stages: "flow_step cfg s s' \<Longrightarrow> length (fl_stages s') = length (fl_stages s)"
proof (induction rule: flow_step.induct)
  case (thread t s s')
  then show ?case
    by (cases t) (auto simp: source_move_def stage_move_def sink_move_def bind_eq_Some_conv Let_def)
qed simp_all

lemma flow_reach_stages: "flow_reach cfg s0 s \<Longrightarrow> length (fl_stages s) = length (fl_stages s0)"
  by (induction rule: flow_reach.induct) (simp_all add: flow_step_stages)

section \<open>Starting states\<close>

text \<open>What enabling a freshly set up pipeline gives: empty contexts, empty FIFOs, semaphores at zero,
  all buffers in the pools, every pipe with its own memory.\<close>

definition flow_start :: "fifo_config \<Rightarrow> (nat \<Rightarrow> mtdp_buffer multiset) \<Rightarrow> 'u flow \<Rightarrow> bool" where
  "flow_start cfg B s \<longleftrightarrow>
     (let n = length (fl_stages s); sh = fl_sh s; ps = sh_pipes sh in
      length ps = Suc n \<and> length (sh_stages sh) = n \<and> st_at s = replicate n St_Entry \<and>
      so_at s = So_Entry \<and> sk_at s = Sk_Entry \<and> (\<forall>k. pushed s k = [] \<and> pulled s k = []) \<and>
      (\<forall>u \<in> set (sh_stages sh). stage_user_ok u) \<and>
      so_output_pipe (fl_source s) = 0 \<and> source_user_ok (so_user_data (fl_source s)) \<and>
      so_output (so_context (fl_source s)) = NULL \<and> \<not> so_ready_to_push (so_context (fl_source s)) \<and>
      (\<forall>i < n. let g = fl_stages s ! i in st_input_pipe g = i \<and> st_output_pipe g = Suc i \<and> st_user_data g = i \<and>
         st_input (st_context g) = NULL \<and> st_output (st_context g) = NULL \<and> \<not> st_ready_to_push (st_context g)) \<and>
      sk_input_pipe (fl_sink s) = n \<and> sink_user_ok (sk_user_data (fl_sink s)) \<and>
      sk_input (sk_context (fl_sink s)) = NULL \<and>
      (\<forall>k < Suc n. let p = ps ! k in pipe_inv cfg (sh_mem sh) p \<and> fsize (fifo p) = 0 \<and> semaphore p = 0 \<and>
         mset (pool_elems (pool p)) = B k \<and> NULL \<notin># B k) \<and>
      (\<forall>i < Suc n. \<forall>j < Suc n. i \<noteq> j \<longrightarrow> fifo_own (fifo (ps ! i)) \<inter> fifo_own (fifo (ps ! j)) = {}))"

lemma flow_start_inv:
  assumes "flow_start cfg B s"
  shows "flow_inv cfg B s"
proof -
  let ?n = "length (fl_stages s)" and ?sh = "fl_sh s"
  have st: "length (sh_pipes ?sh) = Suc ?n" "length (sh_stages ?sh) = ?n" "st_at s = replicate ?n St_Entry"
    "so_at s = So_Entry" "sk_at s = Sk_Entry" "\<And>k. pushed s k = [] \<and> pulled s k = []"
    "\<forall>u \<in> set (sh_stages ?sh). stage_user_ok u"
    and so: "source_ok So_Entry (fl_source s)" "so_output (so_context (fl_source s)) = NULL"
    and stg: "\<And>i. i < ?n \<Longrightarrow> stage_ok i St_Entry (fl_stages s ! i)"
    "\<And>i. i < ?n \<Longrightarrow> st_input (st_context (fl_stages s ! i)) = NULL \<and> st_output (st_context (fl_stages s ! i)) = NULL"
    and sk: "sink_ok ?n Sk_Entry (fl_sink s)" "sk_input (sk_context (fl_sink s)) = NULL"
    and ps: "\<And>k. k < Suc ?n \<Longrightarrow> pipe_inv cfg (sh_mem ?sh) (sh_pipes ?sh ! k) \<and> fsize (fifo (sh_pipes ?sh ! k)) = 0 \<and>
      semaphore (sh_pipes ?sh ! k) = 0 \<and> mset (pool_elems (pool (sh_pipes ?sh ! k))) = B k \<and> NULL \<notin># B k"
    and dj: "\<And>i j. i < Suc ?n \<Longrightarrow> j < Suc ?n \<Longrightarrow> i \<noteq> j \<Longrightarrow>
      fifo_own (fifo (sh_pipes ?sh ! i)) \<inter> fifo_own (fifo (sh_pipes ?sh ! j)) = {}"
    using assms by (auto simp: flow_start_def Let_def source_ok_def stage_ok_def sink_ok_def)
  have v: "producer s k = (NULL, False)" "consumer s k = (NULL, False)" if "k < Suc ?n" for k
    using that st so(2) stg(2) sk(2)
    by (auto simp: producer_def consumer_def source_view_def stage_out_view_def stage_in_view_def sink_view_def)
  have "link_at cfg (B k) ?sh k (producer s k) (consumer s k) (pushed s k) (pulled s k)" if k: "k < Suc ?n" for k
  proof -
    let ?p = "sh_pipes ?sh ! k"
    have "[] = fifo_elems cfg (sh_mem ?sh) (fifo ?p)" using ps[OF k] by (metis fifo_elems_empty)
    moreover have "size (B k) \<le> pcapacity (pool ?p)"
    proof -
      have "pool_inv (pool ?p)" using ps[OF k] by (simp add: pipe_inv_def)
      then have "size (mset (pool_elems (pool ?p))) \<le> pcapacity (pool ?p)"
        by (simp add: pool_inv_def pool_wf_def)
      then show ?thesis using ps[OF k] by simp
    qed
    ultimately show ?thesis using ps[OF k] v[OF k] st(6)[of k]
      by (simp add: pipe_link_def pipe_content_def)
  qed
  then have "links_inv cfg B ?sh (producer s) (consumer s) (pushed s) (pulled s)"
    using st(1) dj by (simp add: links_inv_def)
  then show ?thesis using st so stg sk by (simp add: flow_inv_def Let_def)
qed

end
