(* ===== verification/Pipeline.thy ===== *)
theory Pipeline
  imports Stages
begin

text \<open>
  The pipeline of \<open>src/pipeline.c\<close> (\<open>struct mtdp_pipeline\<close> of \<open>src/impl/pipeline.h\<close>): creation with
  its error unwinding, enabling and disabling of the threads, starting and stopping, the
  collection of the buffers, destruction.

  The functions are those of one controlling thread. Its state is the pipeline, the memory
  and the C runtime, whose \<open>errno\<close> is the thread's \<open>mtdp_errno\<close>. While it waits for the threads
  to exit, these still work on the pipes: \<open>settle\<close> is what they do to memory and pipeline until
  the last one is joined. Memory that \<open>malloc\<close> leaves indeterminate comes from parameters
  (\<open>raw\<close>). A pipeline pointer that may be null is an \<open>option\<close>.
\<close>

section \<open>State\<close>

record 'u mtdp_pipeline =
  source_impl :: "'u mtdp_source_impl"
  stage_impls :: "mtdp_stage_impl list"
  sink_impl :: "'u mtdp_sink_impl"
  stages :: "'u mtdp_stage list"
  pipes :: "mtdp_pipe list"
  n_stages :: nat
  pl_enabled :: bool
  pl_active :: bool
  destroying :: nat

definition list_get :: "'a list \<Rightarrow> nat \<Rightarrow> 'a option" where
  "list_get xs i = (if i < length xs then Some (xs ! i) else None)"

lemma list_get_less [simp]: "i < length xs \<Longrightarrow> list_get xs i = Some (xs ! i)"
  by (simp add: list_get_def)

definition set_errno :: "mtdp_error \<Rightarrow> runtime \<Rightarrow> runtime" where
  "set_errno e rt = rt\<lparr>errno := e\<rparr>"

section \<open>Vectors\<close>

text \<open>The vectors of the pipeline are heap arrays: the stages zeroed (\<open>calloc\<close>), the other two
  indeterminate.\<close>

definition zero_stage :: "'u mtdp_stage" where
  "zero_stage = \<lparr>st_name = None, st_data = NULL, st_init = None, st_process = None\<rparr>"

definition mtdp_stage_vector_resize :: "mem \<Rightarrow> nat \<Rightarrow> ('u mtdp_stage list) option \<times> mem" where
  "mtdp_stage_vector_resize m n =
    (case malloc_array m of (ok, m) \<Rightarrow> (if ok then Some (replicate n zero_stage) else None, m))"

definition mtdp_stage_impl_vector_resize :: "mtdp_stage_impl \<Rightarrow> mem \<Rightarrow> nat \<Rightarrow> (mtdp_stage_impl list) option \<times> mem" where
  "mtdp_stage_impl_vector_resize raw m n =
    (case malloc_array m of (ok, m) \<Rightarrow> (if ok then Some (replicate n raw) else None, m))"

definition mtdp_pipe_vector_resize :: "mtdp_pipe \<Rightarrow> mem \<Rightarrow> nat \<Rightarrow> (mtdp_pipe list) option \<times> mem" where
  "mtdp_pipe_vector_resize raw m n =
    (case malloc_array m of (ok, m) \<Rightarrow> (if ok then Some (replicate n raw) else None, m))"

definition mtdp_stage_vector_destroy :: "mem \<Rightarrow> mem" where
  "mtdp_stage_vector_destroy m = free_array m"

definition mtdp_stage_impl_vector_destroy :: "mem \<Rightarrow> mem" where
  "mtdp_stage_impl_vector_destroy m = free_array m"

definition mtdp_pipe_vector_destroy :: "mem \<Rightarrow> mem" where
  "mtdp_pipe_vector_destroy m = free_array m"

definition mtdp_pipeline_alloc :: "mem \<Rightarrow> bool \<times> mem" where
  "mtdp_pipeline_alloc m = malloc_array m"

definition mtdp_pipeline_dealloc :: "mem \<Rightarrow> mem" where
  "mtdp_pipeline_dealloc m = free_array m"

section \<open>Creation and destruction\<close>

definition configure_stage :: "nat \<Rightarrow> runtime \<times> 'u mtdp_pipeline \<Rightarrow> (runtime \<times> 'u mtdp_pipeline) option" where
  "configure_stage i s = (case s of (rt, pl) \<Rightarrow> do {
     g \<leftarrow> list_get (stage_impls pl) i;
     u \<leftarrow> list_get (stages pl) i;
     let (rt, g, u) = mtdp_stage_configure rt g i (i + 1) i u;
     Some (rt, pl\<lparr>stage_impls := (stage_impls pl)[i := g], stages := (stages pl)[i := u]\<rparr>) })"

definition mtdp_pipeline_configure :: "runtime \<Rightarrow> 'u mtdp_pipeline \<Rightarrow> (runtime \<times> 'u mtdp_pipeline) option" where
  "mtdp_pipeline_configure rt pl = do {
     let (rt, so) = mtdp_source_configure rt (source_impl pl) 0;
     let pl = pl\<lparr>source_impl := so\<rparr>;
     (rt, pl) \<leftarrow> for_up 0 (n_stages pl) configure_stage (rt, pl);
     let (rt, sk) = mtdp_sink_configure rt (sink_impl pl) (n_stages pl);
     Some (rt, pl\<lparr>sink_impl := sk, pl_enabled := False, pl_active := False, destroying := 0\<rparr>) }"

text \<open>The loop over \<open>mtdp_pipe_init\<close>: \<open>n\<close> pipes from index \<open>i\<close> on; the index of the pipe that failed,
  if one did.\<close>

fun init_pipes :: "fifo_config \<Rightarrow> nat \<Rightarrow> nat \<Rightarrow> mem \<Rightarrow> mtdp_pipe list \<Rightarrow> (nat option \<times> mem \<times> mtdp_pipe list) option" where
  "init_pipes cfg i 0 m ps = Some (None, m, ps)"
| "init_pipes cfg i (Suc n) m ps = do {
     p \<leftarrow> list_get ps i;
     (ok, m, p) \<leftarrow> mtdp_pipe_init cfg m p;
     let ps = ps[i := p];
     if ok then init_pipes cfg (Suc i) n m ps else Some (Some i, m, ps) }"

definition destroy_pipe :: "nat \<Rightarrow> mem \<times> mtdp_pipe list \<Rightarrow> (mem \<times> mtdp_pipe list) option" where
  "destroy_pipe j s = (case s of (m, ps) \<Rightarrow> do {
     p \<leftarrow> list_get ps j;
     (m, p) \<leftarrow> mtdp_pipe_destroy m p;
     Some (m, ps[j := p]) })"

definition mtdp_pipeline_create ::
  "fifo_config \<Rightarrow> 'u mtdp_pipeline \<Rightarrow> mtdp_stage_impl \<Rightarrow> mtdp_pipe \<Rightarrow> mem \<Rightarrow> runtime \<Rightarrow> nat \<Rightarrow>
   ('u mtdp_pipeline option \<times> mem \<times> runtime) option" where
  "mtdp_pipeline_create cfg raw raw_impl raw_pipe m rt internal_stages =
    (case mtdp_pipeline_alloc m of (out, m) \<Rightarrow>
     if \<not> out then Some (None, m, set_errno MTDP_BAD_PTR rt) else
     case mtdp_stage_vector_resize m internal_stages of
       (None, m) \<Rightarrow> Some (None, mtdp_pipeline_dealloc m, set_errno MTDP_NO_MEM rt)
     | (Some sv, m) \<Rightarrow>
     (case mtdp_stage_impl_vector_resize raw_impl m internal_stages of
       (None, m) \<Rightarrow> Some (None, mtdp_pipeline_dealloc (mtdp_stage_vector_destroy m), set_errno MTDP_NO_MEM rt)
     | (Some iv, m) \<Rightarrow>
     (case mtdp_pipe_vector_resize raw_pipe m (internal_stages + 1) of
       (None, m) \<Rightarrow> Some (None, mtdp_pipeline_dealloc (mtdp_stage_vector_destroy (mtdp_stage_impl_vector_destroy m)),
                          set_errno MTDP_NO_MEM rt)
     | (Some pv, m) \<Rightarrow> do {
         (failed, m, pv) \<leftarrow> init_pipes cfg 0 (internal_stages + 1) m pv;
         (case failed of
            Some i \<Rightarrow> do {
              (m, pv) \<leftarrow> for_up 0 i destroy_pipe (m, pv);
              Some (None, mtdp_pipeline_dealloc (mtdp_stage_vector_destroy
                     (mtdp_stage_impl_vector_destroy (mtdp_pipe_vector_destroy m))), set_errno MTDP_NO_MEM rt) }
          | None \<Rightarrow> do {
              (rt, pl) \<leftarrow> mtdp_pipeline_configure rt
                (raw\<lparr>stages := sv, stage_impls := iv, pipes := pv, n_stages := internal_stages\<rparr>);
              Some (Some pl, m, set_errno MTDP_OK rt) }) })))"

section \<open>Enabling and disabling\<close>

definition enable_stage :: "nat \<Rightarrow> runtime \<times> 'u mtdp_pipeline \<Rightarrow> (runtime \<times> 'u mtdp_pipeline) option" where
  "enable_stage i s = (case s of (rt, pl) \<Rightarrow> do {
     g \<leftarrow> list_get (stage_impls pl) i;
     u \<leftarrow> list_get (stages pl) (st_user_data g);
     let (rt, g) = mtdp_stage_create_thread rt u g;
     Some (rt, pl\<lparr>stage_impls := (stage_impls pl)[i := g]\<rparr>) })"

definition mtdp_pipeline_enable ::
  "runtime \<Rightarrow> 'u mtdp_pipeline option \<Rightarrow> (bool \<times> runtime \<times> 'u mtdp_pipeline option) option" where
  "mtdp_pipeline_enable rt pipeline =
    (case pipeline of
       None \<Rightarrow> Some (False, set_errno MTDP_BAD_PTR rt, None)
     | Some pl \<Rightarrow>
         if \<not> pl_enabled pl then do {
           let (rt, sk) = mtdp_sink_create_thread rt (sink_impl pl);
           let pl = pl\<lparr>sink_impl := sk\<rparr>;
           (rt, pl) \<leftarrow> for_down (n_stages pl) enable_stage (rt, pl);
           let (rt, so) = mtdp_source_create_thread rt (source_impl pl);
           Some (True, set_errno MTDP_OK rt, Some (pl\<lparr>source_impl := so, pl_enabled := True, pl_active := False\<rparr>)) }
         else Some (False, set_errno MTDP_ENABLED rt, Some pl))"

definition destroy_stage :: "nat \<Rightarrow> runtime \<times> 'u mtdp_pipeline \<Rightarrow> (runtime \<times> 'u mtdp_pipeline) option" where
  "destroy_stage i s = (case s of (rt, pl) \<Rightarrow> do {
     g \<leftarrow> list_get (stage_impls pl) i;
     (rt, g) \<leftarrow> mtdp_stage_destroy rt g;
     Some (rt, pl\<lparr>stage_impls := (stage_impls pl)[i := g]\<rparr>) })"

definition join_stage :: "nat \<Rightarrow> runtime \<times> 'u mtdp_pipeline \<Rightarrow> (runtime \<times> 'u mtdp_pipeline) option" where
  "join_stage i s = (case s of (rt, pl) \<Rightarrow> do {
     g \<leftarrow> list_get (stage_impls pl) i;
     (_, rt, w) \<leftarrow> mtdp_worker_join rt (st_worker g);
     Some (rt, pl\<lparr>stage_impls := (stage_impls pl)[i := g\<lparr>st_worker := w\<rparr>]\<rparr>) })"

definition mtdp_pipeline_join :: "runtime \<Rightarrow> 'u mtdp_pipeline \<Rightarrow> (runtime \<times> 'u mtdp_pipeline) option" where
  "mtdp_pipeline_join rt pl = do {
     (_, rt, w) \<leftarrow> mtdp_worker_join rt (so_worker (source_impl pl));
     let pl = pl\<lparr>source_impl := (source_impl pl)\<lparr>so_worker := w\<rparr>\<rparr>;
     (rt, pl) \<leftarrow> for_up 0 (n_stages pl) join_stage (rt, pl);
     (_, rt, w) \<leftarrow> mtdp_worker_join rt (sk_worker (sink_impl pl));
     Some (rt, pl\<lparr>sink_impl := (sink_impl pl)\<lparr>sk_worker := w\<rparr>\<rparr>) }"

text \<open>Clearing: the pipes, then what the sink, the stages and the source still hold. The results of
  \<open>mtdp_pipe_put_back\<close> are ignored.\<close>

definition clear_pipe ::
  "fifo_config \<Rightarrow> nat \<Rightarrow> mem \<times> mtdp_pipe list \<Rightarrow> (mem \<times> mtdp_pipe list) option" where
  "clear_pipe cfg i s = (case s of (m, ps) \<Rightarrow> do {
     p \<leftarrow> list_get ps i;
     (m, p) \<leftarrow> mtdp_pipe_clear cfg m (Some p);
     p \<leftarrow> p;
     Some (m, ps[i := p]) })"

text \<open>\<open>if(ctx.b) { put_back(&pipes[k], ctx.b); ctx.b = NULL; }\<close>\<close>

definition give_back :: "nat \<Rightarrow> mtdp_buffer \<Rightarrow> mem \<times> mtdp_pipe list \<Rightarrow> (mem \<times> mtdp_pipe list) option" where
  "give_back k b s = (case s of (m, ps) \<Rightarrow>
     if b \<noteq> NULL then do {
       p \<leftarrow> list_get ps k;
       (_, m, p) \<leftarrow> mtdp_pipe_put_back m p b;
       Some (m, ps[k := p]) }
     else Some (m, ps))"

definition clear_stage ::
  "nat \<Rightarrow> (mem \<times> mtdp_pipe list) \<times> mtdp_stage_impl list \<Rightarrow> ((mem \<times> mtdp_pipe list) \<times> mtdp_stage_impl list) option" where
  "clear_stage i s = (case s of (mp, gs) \<Rightarrow> do {
     g \<leftarrow> list_get gs i;
     mp \<leftarrow> give_back i (st_input (st_context g)) mp;
     mp \<leftarrow> give_back (i + 1) (st_output (st_context g)) mp;
     Some (mp, gs[i := g\<lparr>st_context := (st_context g)\<lparr>st_input := NULL, st_output := NULL\<rparr>\<rparr>]) })"

definition mtdp_pipeline_clear :: "fifo_config \<Rightarrow> mem \<Rightarrow> 'u mtdp_pipeline \<Rightarrow> (mem \<times> 'u mtdp_pipeline) option" where
  "mtdp_pipeline_clear cfg m pl = do {
     mp \<leftarrow> for_down (n_stages pl + 1) (clear_pipe cfg) (m, pipes pl);
     mp \<leftarrow> give_back (n_stages pl) (sk_input (sk_context (sink_impl pl))) mp;
     let sk = (sink_impl pl)\<lparr>sk_context := (sk_context (sink_impl pl))\<lparr>sk_input := NULL\<rparr>\<rparr>;
     (mp, gs) \<leftarrow> for_down (n_stages pl) clear_stage (mp, stage_impls pl);
     mp \<leftarrow> give_back 0 (so_output (so_context (source_impl pl))) mp;
     let so = (source_impl pl)\<lparr>so_context := (so_context (source_impl pl))\<lparr>so_output := NULL\<rparr>\<rparr>;
     Some (fst mp, pl\<lparr>pipes := snd mp, source_impl := so, stage_impls := gs, sink_impl := sk\<rparr>) }"

definition done_stage :: "nat \<Rightarrow> mtdp_stage_impl list \<Rightarrow> mtdp_stage_impl list option" where
  "done_stage i gs = do { g \<leftarrow> list_get gs i; Some (gs[i := g\<lparr>st_done := 1\<rparr>]) }"

definition mtdp_pipeline_disable ::
  "(mem \<times> 'u mtdp_pipeline \<Rightarrow> mem \<times> 'u mtdp_pipeline) \<Rightarrow> fifo_config \<Rightarrow> mem \<Rightarrow> runtime \<Rightarrow> 'u mtdp_pipeline option \<Rightarrow>
   (bool \<times> mem \<times> runtime \<times> 'u mtdp_pipeline option) option" where
  "mtdp_pipeline_disable settle cfg m rt pipeline =
    (case pipeline of
       None \<Rightarrow> Some (False, m, set_errno MTDP_BAD_PTR rt, None)
     | Some pl \<Rightarrow>
         if pl_enabled pl then do {
           let pl = pl\<lparr>destroying := 1\<rparr>;
           (rt, so) \<leftarrow> mtdp_source_destroy rt (source_impl pl);
           (rt, pl) \<leftarrow> for_up 0 (n_stages pl) destroy_stage (rt, pl\<lparr>source_impl := so\<rparr>);
           (rt, sk) \<leftarrow> mtdp_sink_destroy rt (sink_impl pl);
           let (m, pl) = settle (m, pl\<lparr>sink_impl := sk\<rparr>);
           (rt, pl) \<leftarrow> mtdp_pipeline_join rt pl;
           (m, pl) \<leftarrow> mtdp_pipeline_clear cfg m pl;
           gs \<leftarrow> for_up 0 (n_stages pl) done_stage (stage_impls pl);
           Some (True, m, set_errno MTDP_OK rt,
             Some (pl\<lparr>stage_impls := gs, pl_active := False, pl_enabled := False, destroying := 0\<rparr>)) }
         else Some (False, m, set_errno MTDP_NOT_ENABLED rt, Some pl))"

definition mtdp_pipeline_destroy ::
  "(mem \<times> 'u mtdp_pipeline \<Rightarrow> mem \<times> 'u mtdp_pipeline) \<Rightarrow> fifo_config \<Rightarrow> mem \<Rightarrow> runtime \<Rightarrow> 'u mtdp_pipeline option \<Rightarrow>
   (mem \<times> runtime) option" where
  "mtdp_pipeline_destroy settle cfg m rt pipeline =
    (case pipeline of
       None \<Rightarrow> Some (m, set_errno MTDP_BAD_PTR rt)
     | Some pl \<Rightarrow> do {
         (_, m, rt, out) \<leftarrow> mtdp_pipeline_disable settle cfg m rt (Some pl);
         pl \<leftarrow> out;
         (m, ps) \<leftarrow> for_up 0 (1 + n_stages pl) destroy_pipe (m, pipes pl);
         Some (mtdp_pipeline_dealloc (mtdp_stage_vector_destroy
                 (mtdp_stage_impl_vector_destroy (mtdp_pipe_vector_destroy m))), set_errno MTDP_OK rt) })"

section \<open>Starting and stopping\<close>

definition set_stage_worker ::
  "(runtime \<Rightarrow> mtdp_worker \<Rightarrow> (bool \<times> runtime \<times> mtdp_worker) option) \<Rightarrow> nat \<Rightarrow>
   runtime \<times> 'u mtdp_pipeline \<Rightarrow> (runtime \<times> 'u mtdp_pipeline) option" where
  "set_stage_worker op i s = (case s of (rt, pl) \<Rightarrow> do {
     g \<leftarrow> list_get (stage_impls pl) i;
     (_, rt, w) \<leftarrow> op rt (st_worker g);
     Some (rt, pl\<lparr>stage_impls := (stage_impls pl)[i := g\<lparr>st_worker := w\<rparr>]\<rparr>) })"

definition set_source_worker ::
  "(runtime \<Rightarrow> mtdp_worker \<Rightarrow> (bool \<times> runtime \<times> mtdp_worker) option) \<Rightarrow>
   runtime \<times> 'u mtdp_pipeline \<Rightarrow> (runtime \<times> 'u mtdp_pipeline) option" where
  "set_source_worker op s = (case s of (rt, pl) \<Rightarrow> do {
     (_, rt, w) \<leftarrow> op rt (so_worker (source_impl pl));
     Some (rt, pl\<lparr>source_impl := (source_impl pl)\<lparr>so_worker := w\<rparr>\<rparr>) })"

definition set_sink_worker ::
  "(runtime \<Rightarrow> mtdp_worker \<Rightarrow> (bool \<times> runtime \<times> mtdp_worker) option) \<Rightarrow>
   runtime \<times> 'u mtdp_pipeline \<Rightarrow> (runtime \<times> 'u mtdp_pipeline) option" where
  "set_sink_worker op s = (case s of (rt, pl) \<Rightarrow> do {
     (_, rt, w) \<leftarrow> op rt (sk_worker (sink_impl pl));
     Some (rt, pl\<lparr>sink_impl := (sink_impl pl)\<lparr>sk_worker := w\<rparr>\<rparr>) })"

definition mtdp_pipeline_start ::
  "runtime \<Rightarrow> 'u mtdp_pipeline option \<Rightarrow> (bool \<times> runtime \<times> 'u mtdp_pipeline option) option" where
  "mtdp_pipeline_start rt pipeline =
    (case pipeline of
       None \<Rightarrow> Some (False, set_errno MTDP_BAD_PTR rt, None)
     | Some pl \<Rightarrow>
         if pl_enabled pl then
           if pl_active pl then Some (False, set_errno MTDP_ACTIVE rt, Some pl)
           else do {
             s \<leftarrow> set_sink_worker mtdp_worker_enable (rt, pl);
             s \<leftarrow> for_down (n_stages pl) (set_stage_worker mtdp_worker_enable) s;
             (rt, pl) \<leftarrow> set_source_worker mtdp_worker_enable s;
             Some (True, set_errno MTDP_OK rt, Some (pl\<lparr>pl_active := True\<rparr>)) }
         else Some (False, set_errno MTDP_NOT_ENABLED rt, Some pl))"

definition mtdp_pipeline_stop ::
  "runtime \<Rightarrow> 'u mtdp_pipeline option \<Rightarrow> (bool \<times> runtime \<times> 'u mtdp_pipeline option) option" where
  "mtdp_pipeline_stop rt pipeline =
    (case pipeline of
       None \<Rightarrow> Some (False, set_errno MTDP_BAD_PTR rt, None)
     | Some pl \<Rightarrow>
         if pl_enabled pl then
           if \<not> pl_active pl then Some (False, set_errno MTDP_ENABLED rt, Some pl)
           else do {
             s \<leftarrow> set_source_worker mtdp_worker_disable (rt, pl);
             s \<leftarrow> for_up 0 (n_stages pl) (set_stage_worker mtdp_worker_disable) s;
             (rt, pl) \<leftarrow> set_sink_worker mtdp_worker_disable s;
             Some (True, set_errno MTDP_OK rt, Some (pl\<lparr>pl_active := False\<rparr>)) }
         else Some (False, set_errno MTDP_NOT_ENABLED rt, Some pl))"

section \<open>Access\<close>

definition mtdp_pipeline_get_source :: "'u mtdp_pipeline option \<Rightarrow> 'u mtdp_source option" where
  "mtdp_pipeline_get_source pipeline = map_option (\<lambda>pl. so_user_data (source_impl pl)) pipeline"

definition mtdp_pipeline_get_stages :: "'u mtdp_pipeline option \<Rightarrow> ('u mtdp_stage list) option" where
  "mtdp_pipeline_get_stages pipeline = map_option stages pipeline"

definition mtdp_pipeline_get_sink :: "'u mtdp_pipeline option \<Rightarrow> 'u mtdp_sink option" where
  "mtdp_pipeline_get_sink pipeline = map_option (\<lambda>pl. sk_user_data (sink_impl pl)) pipeline"

definition mtdp_pipeline_get_pipes :: "'u mtdp_pipeline option \<Rightarrow> (mtdp_pipe list) option" where
  "mtdp_pipeline_get_pipes pipeline = map_option pipes pipeline"

end
