(* ===== verification/Pipeline_Memory.thy ===== *)
theory Pipeline_Memory
  imports Pipe_Properties Pipeline
begin

text \<open>
  What a list of pipes holds of the memory: the blocks and vectors of their FIFOs, the arrays of
  their pools, their mutexes and semaphores. Creating a pipeline initialises its pipes one
  after the other and destroys the first ones when one fails; every movement of buffers keeps
  the account; destroying the pipes settles it.
\<close>

section \<open>The account of a list of pipes\<close>

definition pipes_hold :: "fifo_config \<Rightarrow> mem \<Rightarrow> mem \<Rightarrow> mtdp_pipe list \<Rightarrow> bool" where
  "pipes_hold cfg m0 m ps \<longleftrightarrow> mem_wf m \<and> brk m0 \<le> brk m \<and> avail m = avail m0 \<and>
     (\<forall>p \<in> set ps. pipe_inv cfg m p \<and> (\<forall>a \<in> fifo_own (fifo p). heap m0 a = None)) \<and>
     sorted_wrt (\<lambda>p q. fifo_own (fifo p) \<inter> fifo_own (fifo q) = {}) ps \<and>
     (\<forall>a. (\<forall>p \<in> set ps. a \<notin> fifo_own (fifo p)) \<longrightarrow> heap m a = heap m0 a) \<and>
     live m = live m0 + (\<Sum>p\<leftarrow>ps. 1 + pool_arrays (pool p)) \<and> syncs m = syncs m0 + 3 * int (length ps)"

lemma pipes_holdD:
  assumes "pipes_hold cfg m0 m ps"
  shows "mem_wf m" "brk m0 \<le> brk m" "avail m = avail m0"
    "p \<in> set ps \<Longrightarrow> pipe_inv cfg m p" "p \<in> set ps \<Longrightarrow> a \<in> fifo_own (fifo p) \<Longrightarrow> heap m0 a = None"
    "sorted_wrt (\<lambda>p q. fifo_own (fifo p) \<inter> fifo_own (fifo q) = {}) ps"
    "(\<And>p. p \<in> set ps \<Longrightarrow> a \<notin> fifo_own (fifo p)) \<Longrightarrow> heap m a = heap m0 a"
    "live m = live m0 + (\<Sum>p\<leftarrow>ps. 1 + pool_arrays (pool p))" "syncs m = syncs m0 + 3 * int (length ps)"
  using assms by (auto simp: pipes_hold_def)

lemma pipes_hold_Nil [simp]:
  "pipes_hold cfg m0 m [] \<longleftrightarrow> mem_wf m \<and> brk m0 \<le> brk m \<and> avail m = avail m0 \<and> heap m = heap m0 \<and>
     live m = live m0 \<and> syncs m = syncs m0"
  by (auto simp: pipes_hold_def)

lemma pipe_inv_frame:
  "pipe_inv cfg m p \<Longrightarrow> mem_frame S m m' \<Longrightarrow> mem_wf m' \<Longrightarrow> fifo_own (fifo p) \<inter> S = {} \<Longrightarrow> pipe_inv cfg m' p"
  by (auto simp: pipe_inv_def intro: fifo_frame(1))

lemma pipe_own_below: "pipe_inv cfg m p \<Longrightarrow> a \<in> fifo_own (fifo p) \<Longrightarrow> a < brk m"
  by (auto simp: pipe_inv_def intro: fifo_own_below)

text \<open>Memory that changed outside the pipes only.\<close>

lemma pipes_hold_frame:
  assumes h: "pipes_hold cfg m0 m ps" and wf: "mem_wf m'" and le: "brk m \<le> brk m'" and av: "avail m' = avail m"
    and same: "heap m' = heap m" "live m' = live m" "syncs m' = syncs m"
  shows "pipes_hold cfg m0 m' ps"
proof -
  have fr: "mem_frame {} m m'" using le av same by (simp add: mem_frame_def)
  have "pipe_inv cfg m' p" if "p \<in> set ps" for p
    using pipe_inv_frame[OF pipes_holdD(4)[OF h that] fr wf] by simp
  then show ?thesis using h wf le av same by (auto simp: pipes_hold_def)
qed

lemma pipes_hold_snoc:
  assumes cfg: "config_ok cfg" and h: "pipes_hold cfg m0 m ps" and wf0: "mem_wf m0"
    and i: "mtdp_pipe_init cfg m p = Some (True, m', p')"
  shows "pipes_hold cfg m0 m' (ps @ [p'])"
proof -
  note d = pipes_holdD[OF h]
  note n = pipe_init_ok[OF cfg d(1) i]
  have new: "heap m0 (brk m) = None" using wf0 d(2) by (simp add: mem_wf_def)
  have wf: "mem_wf m'" using n(1) by (simp add: pipe_inv_def)
  have "pipe_inv cfg m' p" if "p \<in> set ps" for p
    using pipe_inv_frame[OF d(4)[OF that] n(4) wf] by simp
  moreover have "pool_arrays (pool p') = 0" using n(9) by (simp add: pool_arrays_def)
  moreover have "fifo_own (fifo p) \<inter> {brk m} = {}" if "p \<in> set ps" for p
    using pipe_own_below[OF d(4)[OF that]] by fastforce
  moreover have "avail m' = avail m" "brk m \<le> brk m'" using n(4) by (simp_all add: mem_frame_def)
  ultimately show ?thesis using d n(1,3,5,6,11) new wf
    by (auto simp: pipes_hold_def sorted_wrt_append)
qed

lemma pipes_hold_destroy:
  assumes h: "pipes_hold cfg m0 m (p # ps)"
  obtains m' p' where "mtdp_pipe_destroy m p = Some (m', p')" "pipes_hold cfg m0 m' ps"
proof -
  note d = pipes_holdD[OF h]
  have inv: "fifo_inv cfg m (fifo p)" using d(4)[of p] by (simp add: pipe_inv_def)
  obtain m' p' where r: "mtdp_pipe_destroy m p = Some (m', p')"
    "heap m' = (\<lambda>a. if a \<in> fifo_own (fifo p) then None else heap m a)"
    "live m' = live m - 1 - pool_arrays (pool p)" "syncs m' = syncs m - 3" "brk m' = brk m" "avail m' = avail m"
    using pipe_destroy[OF inv d(1)] by auto
  have fr: "mem_frame (fifo_own (fifo p)) m m'" using r by (simp add: mem_frame_def)
  have wf: "mem_wf m'" using d(1) r by (simp add: mem_wf_def)
  have dj: "fifo_own (fifo q) \<inter> fifo_own (fifo p) = {}" if "q \<in> set ps" for q using d(6) that by auto
  have "pipe_inv cfg m' q" if "q \<in> set ps" for q
    using pipe_inv_frame[OF d(4)[of q] fr wf] dj[OF that] that by simp
  moreover have "heap m' a = heap m0 a" if "\<forall>q \<in> set ps. a \<notin> fifo_own (fifo q)" for a
    using d(5)[of p a] d(7)[of a] that by (auto simp: r(2))
  ultimately have "pipes_hold cfg m0 m' ps" using h r(3-6) wf by (auto simp: pipes_hold_def)
  with r(1) show ?thesis by (rule that)
qed

section \<open>Operations on one of the pipes\<close>

lemma sorted_wrt_update:
  assumes "sorted_wrt R xs" "k < length xs" "\<And>j. j < length xs \<Longrightarrow> j \<noteq> k \<Longrightarrow> R (xs ! j) x \<and> R x (xs ! j)"
  shows "sorted_wrt R (xs[k := x])"
  using assms by (auto simp: sorted_wrt_iff_nth_less nth_list_update)

lemma sum_list_update:
  "k < length xs \<Longrightarrow> (\<Sum>p\<leftarrow>xs[k := x]. f p) = (\<Sum>p\<leftarrow>xs. f p) + f x - (f (xs ! k) :: int)"
  by (induction xs arbitrary: k) (auto split: nat.split)

lemma pipes_hold_update:
  assumes h: "pipes_hold cfg m0 m ps" and k: "k < length ps" and wf0: "mem_wf m0"
    and inv: "pipe_inv cfg m' p'"
    and fr: "mem_frame (fifo_own (fifo (ps ! k))) m m'"
    and own: "fifo_own (fifo p') \<subseteq> fifo_own (fifo (ps ! k)) \<union> {brk m..<brk m'}" "fifo_own (fifo (ps ! k)) \<subseteq> fifo_own (fifo p')"
    and dom: "dom (heap m') \<subseteq> dom (heap m) \<union> fifo_own (fifo p')"
    and acc: "live m' - pool_arrays (pool p') = live m - pool_arrays (pool (ps ! k))" "syncs m' = syncs m"
  shows "pipes_hold cfg m0 m' (ps[k := p'])"
proof -
  note d = pipes_holdD[OF h]
  have wf: "mem_wf m'" using inv by (simp add: pipe_inv_def)
  have at: "ps ! k \<in> set ps" using k by simp
  have dj: "fifo_own (fifo (ps ! j)) \<inter> fifo_own (fifo (ps ! k)) = {}" if "j < length ps" "j \<noteq> k" for j
    using d(6) that k unfolding sorted_wrt_iff_nth_less by (metis inf_commute linorder_neqE_nat)
  have djn: "fifo_own (fifo (ps ! j)) \<inter> fifo_own (fifo p') = {}" if "j < length ps" "j \<noteq> k" for j
    using dj[OF that] own(1) pipe_own_below[OF d(4)[of "ps ! j"]] that(1) by fastforce
  have inv': "pipe_inv cfg m' (ps ! j)" if "j < length ps" "j \<noteq> k" for j
    using pipe_inv_frame[OF d(4) fr wf dj[OF that]] that(1) by simp
  have new: "heap m0 a = None" if "a \<in> fifo_own (fifo p')" for a
    using that own(1) d(5)[OF at] wf0 d(2) by (fastforce simp: mem_wf_def)
  have old: "heap m' a = heap m0 a" if "\<forall>p \<in> set (ps[k := p']). a \<notin> fifo_own (fifo p)" for a
  proof -
    have n: "a \<notin> fifo_own (fifo p')" using that k by (simp add: set_update_memI)
    then have nk: "a \<notin> fifo_own (fifo (ps ! k))" using own(2) by blast
    have "a \<notin> fifo_own (fifo p)" if "p \<in> set ps" for p
    proof -
      from that obtain j where j: "j < length ps" "p = ps ! j" by (metis in_set_conv_nth)
      show ?thesis
      proof (cases "j = k")
        case False
        then have "p \<in> set (ps[k := p'])" using j by (metis length_list_update nth_list_update_neq nth_mem)
        with \<open>\<forall>p \<in> set (ps[k := p']). a \<notin> fifo_own (fifo p)\<close> show ?thesis by blast
      qed (use nk j in simp)
    qed
    then have hm: "heap m a = heap m0 a" by (rule d(7))
    show ?thesis
    proof (cases "a < brk m")
      case True
      with fr nk hm show ?thesis by (simp add: mem_frame_def)
    next
      case False
      then have "heap m a = None" using d(1) by (simp add: mem_wf_def)
      with hm n dom show ?thesis by (metis UnE domIff subsetD)
    qed
  qed
  have srt: "sorted_wrt (\<lambda>p q. fifo_own (fifo p) \<inter> fifo_own (fifo q) = {}) (ps[k := p'])"
    by (rule sorted_wrt_update[OF d(6) k]) (use djn in blast)
  have "pipe_inv cfg m' p \<and> (\<forall>a \<in> fifo_own (fifo p). heap m0 a = None)" if "p \<in> set (ps[k := p'])" for p
  proof -
    from that obtain j where j: "j < length ps" "p = ps[k := p'] ! j" by (metis in_set_conv_nth length_list_update)
    show ?thesis
    proof (cases "j = k")
      case True
      then show ?thesis using j k inv new by simp
    next
      case False
      then show ?thesis using j inv'[OF j(1) False] d(5)[of "ps ! j"] by simp
    qed
  qed
  moreover have "brk m \<le> brk m'" "avail m' = avail m" using fr by (simp_all add: mem_frame_def)
  ultimately show ?thesis using d wf old srt acc
    by (auto simp: pipes_hold_def sum_list_update[OF k])
qed

text \<open>An operation that leaves the memory alone.\<close>

lemma pipes_hold_same_mem:
  assumes "pipes_hold cfg m0 m ps" "k < length ps" "mem_wf m0" "pipe_inv cfg m p'"
    "fifo_own (fifo p') = fifo_own (fifo (ps ! k))" "pool_arrays (pool p') = pool_arrays (pool (ps ! k))"
  shows "pipes_hold cfg m0 m (ps[k := p'])"
  by (rule pipes_hold_update[OF assms(1-4)]) (use assms in auto)

lemma pipes_hold_push:
  assumes h: "pipes_hold cfg m0 m ps" and k: "k < length ps" and wf0: "mem_wf m0"
    and r: "mtdp_pipe_push_buffer cfg m (ps ! k) b = Some (ok, m', p')"
  shows "pipes_hold cfg m0 m' (ps[k := p'])"
proof -
  have inv: "pipe_inv cfg m (ps ! k)" using pipes_holdD(4)[OF h] k by simp
  obtain ok1 m1 f1 where q: "mtdp_buffer_fifo_push_back cfg m (fifo (ps ! k)) b = Some (ok1, m1, f1)"
    "fifo_inv cfg m1 f1" "mem_wf m1" "mem_frame (fifo_own (fifo (ps ! k))) m m1"
    "fifo_own f1 \<subseteq> fifo_own (fifo (ps ! k)) \<union> {brk m..<brk m1}" "live m1 = live m"
    "fifo_own (fifo (ps ! k)) \<subseteq> fifo_own f1" "dom (heap m1) \<subseteq> dom (heap m) \<union> fifo_own f1"
    by (rule fifo_push_back[OF pipe_invD(4,2,1)[OF inv], where e = b])
  have eq: "m' = m1" "p' = (ps ! k)\<lparr>fifo := f1\<rparr>" using q(1) r by (simp_all add: mtdp_pipe_push_buffer_def)
  show ?thesis
    by (rule pipes_hold_update[OF h k wf0])
       (use q fifo_push_syncs[OF q(1)] inv in \<open>simp_all add: eq pipe_inv_def\<close>)
qed

lemma pipes_hold_put_back:
  assumes h: "pipes_hold cfg m0 m ps" and k: "k < length ps" and wf0: "mem_wf m0"
    and r: "mtdp_pipe_put_back m (ps ! k) b = Some (ok, m', p')"
  shows "pipes_hold cfg m0 m' (ps[k := p'])"
proof -
  have inv: "pipe_inv cfg m (ps ! k)" using pipes_holdD(4)[OF h] k by simp
  obtain ok1 m1 p1 where q: "mtdp_pipe_put_back m (ps ! k) b = Some (ok1, m1, p1)" "pipe_inv cfg m1 p1"
    "fifo p1 = fifo (ps ! k)" "heap m1 = heap m" "brk m1 = brk m" "avail m1 = avail m"
    by (rule pipe_put_back[OF inv, where b = b])
  from r obtain pl where pl: "mtdp_buffer_pool_push_back m (pool (ps ! k)) b = Some (ok, m', pl)" "p' = (ps ! k)\<lparr>pool := pl\<rparr>"
    by (auto simp: mtdp_pipe_put_back_def bind_eq_Some_conv)
  have eq: "m1 = m'" "p1 = p'" using q(1) r by simp_all
  have fr: "mem_frame (fifo_own (fifo (ps ! k))) m m'" using q(4-6) eq by (simp add: mem_frame_def)
  show ?thesis
    by (rule pipes_hold_update[OF h k wf0 _ fr])
       (use q(2-4) pool_push_live[OF pl(1)] pl(2) in \<open>simp_all add: eq\<close>)
qed

lemma pipes_hold_get_empty:
  assumes h: "pipes_hold cfg m0 m ps" and k: "k < length ps" and wf0: "mem_wf m0"
    and r: "mtdp_pipe_get_empty_buffer (ps ! k) = Some (b, p')"
  shows "pipes_hold cfg m0 m (ps[k := p'])"
proof -
  have inv: "pipe_inv cfg m (ps ! k)" using pipes_holdD(4)[OF h] k by simp
  obtain b1 p1 where q: "mtdp_pipe_get_empty_buffer (ps ! k) = Some (b1, p1)" "pipe_inv cfg m p1"
    "fifo p1 = fifo (ps ! k)" "pcapacity (pool p1) = pcapacity (pool (ps ! k))"
    by (rule pipe_get_empty_buffer[OF inv])
  show ?thesis by (rule pipes_hold_same_mem[OF h k wf0]) (use q r in \<open>auto simp: pool_arrays_def\<close>)
qed

lemma pipes_hold_get_full:
  assumes h: "pipes_hold cfg m0 m ps" and k: "k < length ps" and wf0: "mem_wf m0"
    and r: "mtdp_pipe_get_full_buffer cfg m (ps ! k) = Some (b, p')"
  shows "pipes_hold cfg m0 m (ps[k := p'])"
proof -
  have inv: "pipe_inv cfg m (ps ! k)" using pipes_holdD(4)[OF h] k by simp
  obtain b1 p1 where q: "mtdp_pipe_get_full_buffer cfg m (ps ! k) = Some (b1, p1)" "pipe_inv cfg m p1"
    "pool p1 = pool (ps ! k)" "fifo_own (fifo p1) = fifo_own (fifo (ps ! k))"
    by (rule pipe_get_full_buffer[OF inv])
  show ?thesis by (rule pipes_hold_same_mem[OF h k wf0]) (use q r in auto)
qed

text \<open>The semaphore is not part of the account.\<close>

lemma pipes_hold_semaphore:
  assumes h: "pipes_hold cfg m0 m ps" and k: "k < length ps" and wf0: "mem_wf m0"
  shows "mtdp_semaphore_try_acquire_for (ps ! k) = (ok, p') \<Longrightarrow> pipes_hold cfg m0 m (ps[k := p'])"
    "pipes_hold cfg m0 m (ps[k := mtdp_semaphore_release (ps ! k) 1])"
proof -
  have inv: "pipe_inv cfg m ((ps ! k)\<lparr>semaphore := n\<rparr>)" for n
    using pipes_holdD(4)[OF h, of "ps ! k"] k by (simp add: pipe_inv_def)
  have a: "pipes_hold cfg m0 m (ps[k := (ps ! k)\<lparr>semaphore := n\<rparr>])" for n
    by (rule pipes_hold_same_mem[OF h k wf0 inv]) simp_all
  show "pipes_hold cfg m0 m (ps[k := mtdp_semaphore_release (ps ! k) 1])"
    using a by (simp add: mtdp_semaphore_release_def)
  show "pipes_hold cfg m0 m (ps[k := p'])" if "mtdp_semaphore_try_acquire_for (ps ! k) = (ok, p')"
    using that a h by (auto simp: mtdp_semaphore_try_acquire_for_def list_update_id split: if_splits)
qed

section \<open>Steps of the threads\<close>

definition shared_hold :: "fifo_config \<Rightarrow> mem \<Rightarrow> 'u shared \<Rightarrow> bool" where
  "shared_hold cfg m0 sh \<longleftrightarrow> mem_wf m0 \<and> pipes_hold cfg m0 (sh_mem sh) (sh_pipes sh)"

lemma shared_hold_cong:
  "sh_mem sh' = sh_mem sh \<Longrightarrow> sh_pipes sh' = sh_pipes sh \<Longrightarrow> shared_hold cfg m0 sh' = shared_hold cfg m0 sh"
  by (simp add: shared_hold_def)

lemma shared_hold_set:
  assumes h: "shared_hold cfg m0 sh" and p: "pipe_at sh k = Some p"
  shows "mtdp_pipe_push_buffer cfg (sh_mem sh) p b = Some (ok, m', p') \<Longrightarrow> shared_hold cfg m0 (set_pipe k m' p' sh)"
    "mtdp_pipe_put_back (sh_mem sh) p b = Some (ok, m', p') \<Longrightarrow> shared_hold cfg m0 (set_pipe k m' p' sh)"
    "mtdp_pipe_get_empty_buffer p = Some (b', p') \<Longrightarrow> shared_hold cfg m0 (set_pipe k (sh_mem sh) p' sh)"
    "mtdp_pipe_get_full_buffer cfg (sh_mem sh) p = Some (b', p') \<Longrightarrow> shared_hold cfg m0 (set_pipe k (sh_mem sh) p' sh)"
proof -
  have k: "k < length (sh_pipes sh)" "sh_pipes sh ! k = p" using p by (auto simp: pipe_at_def split: if_splits)
  have d: "pipes_hold cfg m0 (sh_mem sh) (sh_pipes sh)" "mem_wf m0" using h by (simp_all add: shared_hold_def)
  note r = pipes_hold_push[OF d(1) k(1) d(2), unfolded k(2)] pipes_hold_put_back[OF d(1) k(1) d(2), unfolded k(2)]
    pipes_hold_get_empty[OF d(1) k(1) d(2), unfolded k(2)] pipes_hold_get_full[OF d(1) k(1) d(2), unfolded k(2)]
  show "mtdp_pipe_push_buffer cfg (sh_mem sh) p b = Some (ok, m', p') \<Longrightarrow> shared_hold cfg m0 (set_pipe k m' p' sh)"
    "mtdp_pipe_put_back (sh_mem sh) p b = Some (ok, m', p') \<Longrightarrow> shared_hold cfg m0 (set_pipe k m' p' sh)"
    "mtdp_pipe_get_empty_buffer p = Some (b', p') \<Longrightarrow> shared_hold cfg m0 (set_pipe k (sh_mem sh) p' sh)"
    "mtdp_pipe_get_full_buffer cfg (sh_mem sh) p = Some (b', p') \<Longrightarrow> shared_hold cfg m0 (set_pipe k (sh_mem sh) p' sh)"
    using r d(2) by (simp_all add: shared_hold_def set_pipe_def)
qed

lemma shared_hold_semaphore:
  assumes h: "shared_hold cfg m0 sh"
  shows "release_pipe k sh = Some sh' \<Longrightarrow> shared_hold cfg m0 sh'"
    "try_acquire_pipe k sh = Some (ok, sh') \<Longrightarrow> shared_hold cfg m0 sh'"
proof -
  have d: "pipes_hold cfg m0 (sh_mem sh) (sh_pipes sh)" "mem_wf m0" using h by (simp_all add: shared_hold_def)
  show "release_pipe k sh = Some sh' \<Longrightarrow> shared_hold cfg m0 sh'"
    using pipes_hold_semaphore(2)[OF d(1) _ d(2), of k] d(2)
    by (auto simp: release_pipe_def pipe_at_def shared_hold_def set_pipe_def bind_eq_Some_conv split: if_splits)
  show "try_acquire_pipe k sh = Some (ok, sh') \<Longrightarrow> shared_hold cfg m0 sh'"
    using pipes_hold_semaphore(1)[OF d(1) _ d(2), of k ok] d(2)
    by (auto simp: try_acquire_pipe_def pipe_at_def shared_hold_def set_pipe_def bind_eq_Some_conv
        split: if_splits prod.splits)
qed

text \<open>The callbacks cannot reach the pipes.\<close>

lemma call_keeps_pipes:
  "call_source f sh so = Some (sh', so') \<Longrightarrow> shared_hold cfg m0 sh \<Longrightarrow> shared_hold cfg m0 sh'"
  "call_stage g sh st = Some (sh', st') \<Longrightarrow> shared_hold cfg m0 sh \<Longrightarrow> shared_hold cfg m0 sh'"
  "call_sink h sh sk = Some (sh', sk') \<Longrightarrow> shared_hold cfg m0 sh \<Longrightarrow> shared_hold cfg m0 sh'"
  by (auto simp: call_source_def call_stage_def call_sink_def bind_eq_Some_conv Let_def shared_hold_def
      case_prod_unfold)

lemmas shared_hold_intros = shared_hold_set shared_hold_semaphore call_keeps_pipes

lemma source_step_hold:
  "source_step cfg pc (sh, self) = Some (r, sh', self') \<Longrightarrow> shared_hold cfg m0 sh \<Longrightarrow> shared_hold cfg m0 sh'"
  by (cases pc) (auto simp: source_step_def Let_def bind_eq_Some_conv split: if_splits option.splits
      intro: shared_hold_intros)

lemma stage_step_hold:
  "stage_step cfg pc (sh, self) = Some (r, sh', self') \<Longrightarrow> shared_hold cfg m0 sh \<Longrightarrow> shared_hold cfg m0 sh'"
  by (cases pc) (auto simp: stage_step_def Let_def bind_eq_Some_conv split: if_splits option.splits
      intro: shared_hold_intros)

lemma sink_step_hold:
  "sink_step cfg pc (sh, self) = Some (r, sh', self') \<Longrightarrow> shared_hold cfg m0 sh \<Longrightarrow> shared_hold cfg m0 sh'"
  by (cases pc) (auto simp: sink_step_def Let_def bind_eq_Some_conv split: if_splits option.splits
      intro: shared_hold_intros)

section \<open>The loops\<close>

definition pipe_fresh :: "mtdp_pipe \<Rightarrow> bool" where
  "pipe_fresh p \<longleftrightarrow> psize (pool p) = 0 \<and> pcapacity (pool p) = 0 \<and> fsize (fifo p) = 0 \<and> semaphore p = 0"

lemma take_update: "i < length ps \<Longrightarrow> take (Suc i) (ps[i := p]) = take i ps @ [p]"
  by (simp add: take_Suc_conv_app_nth)

lemma init_pipes_cases:
  assumes cfg: "config_ok cfg" and wf0: "mem_wf m0" and h: "pipes_hold cfg m0 m (take i ps)"
    and len: "i + n \<le> length ps" and fresh: "\<forall>p \<in> set (take i ps). pipe_fresh p"
  obtains r m' ps' where "init_pipes cfg i n m ps = Some (r, m', ps')" "length ps' = length ps"
    "case r of None \<Rightarrow> pipes_hold cfg m0 m' (take (i + n) ps') \<and> (\<forall>p \<in> set (take (i + n) ps'). pipe_fresh p)
     | Some k \<Rightarrow> k < length ps \<and> pipes_hold cfg m0 m' (take k ps')"
  using assms
proof (induction n arbitrary: i m ps thesis)
  case 0
  then show ?case by auto
next
  case (Suc n)
  have i: "i < length ps" using Suc.prems(5) by simp
  note d = pipes_holdD[OF Suc.prems(4)]
  obtain ok m1 p1 where p: "mtdp_pipe_init cfg m (ps ! i) = Some (ok, m1, p1)" "mem_wf m1" "avail m1 = avail m"
    "brk m \<le> brk m1" "\<not> ok \<longrightarrow> heap m1 = heap m \<and> live m1 = live m \<and> syncs m1 = syncs m"
    by (rule pipe_init_cases[OF cfg d(1)])
  show ?case
  proof (cases ok)
    case False
    have "pipes_hold cfg m0 m1 (take i ps)"
      by (rule pipes_hold_frame[OF Suc.prems(4)]) (use p False in auto)
    then show ?thesis using p(1) False i by (intro Suc.prems(1)[of "Some i" m1 "ps[i := p1]"]) auto
  next
    case True
    then have ok: "mtdp_pipe_init cfg m (ps ! i) = Some (True, m1, p1)" using p(1) by simp
    have fr: "pipe_fresh p1" using pipe_init_ok[OF cfg d(1) ok] by (simp add: pipe_fresh_def)
    have h1: "pipes_hold cfg m0 m1 (take (Suc i) (ps[i := p1]))"
      using pipes_hold_snoc[OF cfg Suc.prems(4) wf0 ok] i by (simp add: take_update)
    have f1: "\<forall>p \<in> set (take (Suc i) (ps[i := p1])). pipe_fresh p"
      unfolding take_update[OF i] using Suc.prems(6) fr by auto
    obtain r m' ps' where r: "init_pipes cfg (Suc i) n m1 (ps[i := p1]) = Some (r, m', ps')"
      "length ps' = length (ps[i := p1])"
      "case r of None \<Rightarrow> pipes_hold cfg m0 m' (take (Suc i + n) ps') \<and> (\<forall>p \<in> set (take (Suc i + n) ps'). pipe_fresh p)
       | Some k \<Rightarrow> k < length (ps[i := p1]) \<and> pipes_hold cfg m0 m' (take k ps')"
      using Suc.IH[OF _ cfg wf0 h1 _ f1] Suc.prems(5) by auto
    then show ?thesis using ok i by (intro Suc.prems(1)[of r m' ps']) (auto split: option.splits)
  qed
qed

lemma destroy_pipes:
  assumes h: "pipes_hold cfg m0 m (take n ps)" and len: "n \<le> length ps"
  obtains m' ps' where "for_up 0 n destroy_pipe (m, ps) = Some (m', ps')" "pipes_hold cfg m0 m' []"
proof -
  define P where "P k s \<longleftrightarrow> (case s of (m, qs) \<Rightarrow> length qs = length ps \<and> (\<forall>j \<ge> k. qs ! j = ps ! j) \<and>
      pipes_hold cfg m0 m (drop k (take n ps)))" for k s
  have "\<exists>s'. for_up 0 n destroy_pipe (m, ps) = Some s' \<and> P n s'"
  proof (rule for_up_rule)
    show "P 0 (m, ps)" using h by (simp add: P_def)
  next
    fix k s assume k: "k < n" and P: "P k s"
    obtain m1 qs where s: "s = (m1, qs)" by fastforce
    from P s have q: "length qs = length ps" "\<forall>j \<ge> k. qs ! j = ps ! j" "pipes_hold cfg m0 m1 (drop k (take n ps))"
      by (simp_all add: P_def)
    have "drop k (take n ps) = ps ! k # drop (Suc k) (take n ps)"
      using k len by (simp add: Cons_nth_drop_Suc[symmetric])
    with q(3) obtain m2 p2 where r: "mtdp_pipe_destroy m1 (ps ! k) = Some (m2, p2)"
      "pipes_hold cfg m0 m2 (drop (Suc k) (take n ps))"
      by (metis pipes_hold_destroy)
    have "destroy_pipe (0 + k) s = Some (m2, qs[k := p2])"
      using q(1,2) k len r(1) by (simp add: destroy_pipe_def s)
    then show "\<exists>s'. destroy_pipe (0 + k) s = Some s' \<and> P (Suc k) s'"
      using q(1,2) r(2) by (auto simp: P_def nth_list_update)
  qed
  then show ?thesis using that len by (auto simp: P_def)
qed

end
