(* ===== verification/Pipeline_Flow.thy ===== *)
theory Pipeline_Flow
  imports Flow Pipeline_Memory
begin

text \<open>
  A pipeline and its running threads: the state of the flow an enabled pipeline starts in, the
  pipeline seen from a state of the flow, the account of its memory along every run, and what
  \<open>mtdp_pipeline_clear\<close> does once the threads are at rest.
\<close>

section \<open>From the pipeline to the flow and back\<close>

definition flow_of :: "mem \<Rightarrow> 'u mtdp_pipeline \<Rightarrow> 'u \<Rightarrow> 'u flow" where
  "flow_of m pl u =
    \<lparr>fl_sh = \<lparr>sh_mem = m, sh_pipes = pipes pl, sh_stages = stages pl, sh_user = u\<rparr>,
     fl_source = source_impl pl, so_at = So_Entry, fl_stages = stage_impls pl,
     st_at = replicate (length (stage_impls pl)) St_Entry, fl_sink = sink_impl pl, sk_at = Sk_Entry,
     pushed = (\<lambda>_. []), pulled = (\<lambda>_. [])\<rparr>"

text \<open>The workers are the controlling thread's own record of them.\<close>

definition pipeline_at :: "'u flow \<Rightarrow> 'u mtdp_pipeline \<Rightarrow> 'u mtdp_pipeline" where
  "pipeline_at s pl = pl\<lparr>pipes := sh_pipes (fl_sh s),
     source_impl := (fl_source s)\<lparr>so_worker := so_worker (source_impl pl)\<rparr>,
     stage_impls := map2 (\<lambda>g h. g\<lparr>st_worker := st_worker h\<rparr>) (fl_stages s) (stage_impls pl),
     sink_impl := (fl_sink s)\<lparr>sk_worker := sk_worker (sink_impl pl)\<rparr>\<rparr>"

definition settle_at :: "'u flow \<Rightarrow> mem \<times> 'u mtdp_pipeline \<Rightarrow> mem \<times> 'u mtdp_pipeline" where
  "settle_at s mp = (sh_mem (fl_sh s), pipeline_at s (snd mp))"

definition at_rest :: "'u flow \<Rightarrow> bool" where
  "at_rest s \<longleftrightarrow> so_at s = So_Entry \<and> (\<forall>pc \<in> set (st_at s). pc = St_Entry) \<and> sk_at s = Sk_Entry"

section \<open>The memory of a run\<close>

lemma move_hold: "move cfg t s = Some s' \<Longrightarrow> shared_hold cfg m0 (fl_sh s) \<Longrightarrow> shared_hold cfg m0 (fl_sh s')"
  by (cases t) (auto simp: source_move_def stage_move_def sink_move_def bind_eq_Some_conv Let_def
      dest: source_step_hold stage_step_hold sink_step_hold)

lemma flow_reach_hold:
  "flow_reach cfg s0 s \<Longrightarrow> shared_hold cfg m0 (fl_sh s0) \<Longrightarrow> shared_hold cfg m0 (fl_sh s)"
proof (induction rule: flow_reach.induct)
  case (step s s')
  from step.hyps(2) show ?case by cases (use step in \<open>auto intro: move_hold\<close>)
qed

section \<open>Clearing\<close>

text \<open>A pipe whose FIFO was emptied, with the buffers \<open>C\<close> in its pool; the rest of the pipe as in \<open>p0\<close>.\<close>

definition pipe_cleared ::
  "fifo_config \<Rightarrow> mem \<Rightarrow> mtdp_pipe \<Rightarrow> mtdp_buffer multiset \<Rightarrow> mtdp_pipe \<Rightarrow> bool" where
  "pipe_cleared cfg m p0 C p \<longleftrightarrow> pipe_inv cfg m p \<and> mset (pool_elems (pool p)) = C \<and> fsize (fifo p) = 0 \<and>
     semaphore p = semaphore p0 \<and> fifo_own (fifo p) = fifo_own (fifo p0) \<and>
     pcapacity (pool p) = pcapacity (pool p0)"

definition all_cleared ::
  "fifo_config \<Rightarrow> mem \<Rightarrow> mtdp_pipe list \<Rightarrow> (nat \<Rightarrow> mtdp_buffer multiset) \<Rightarrow> mtdp_pipe list \<Rightarrow> bool" where
  "all_cleared cfg m ps0 D ps \<longleftrightarrow> length ps = length ps0 \<and>
     (\<forall>k < length ps0. pipe_cleared cfg m (ps0 ! k) (D k) (ps ! k))"

lemma clear_pipe_cleared:
  assumes inv: "pipe_inv cfg m p" and cap: "size (pipe_content cfg m p) \<le> pcapacity (pool p)"
  obtains p' where "mtdp_pipe_clear cfg m (Some p) = Some (m, Some p')"
    "pipe_cleared cfg m p (pipe_content cfg m p) p'"
proof -
  have c: "psize (pool p) + fsize (fifo p) \<le> pcapacity (pool p)" using cap size_pipe_content[OF inv] by simp
  obtain p' where p': "mtdp_pipe_clear cfg m (Some p) = Some (m, Some p')" "pipe_inv cfg m p'"
    "pool_elems (pool p') = pool_elems (pool p) @ fifo_elems cfg m (fifo p)" "fsize (fifo p') = 0"
    "semaphore p' = semaphore p" "pcapacity (pool p') = pcapacity (pool p)" "fifo_own (fifo p') = fifo_own (fifo p)"
    by (rule pipe_clear[OF inv c])
  have "mset (pool_elems (pool p')) = pipe_content cfg m p" unfolding p'(3) pipe_content_def by simp
  with p' show ?thesis by (intro that[of p']) (simp_all add: pipe_cleared_def)
qed

lemma clear_pipes:
  assumes "\<And>k. k < length ps \<Longrightarrow> pipe_inv cfg m (ps ! k) \<and> size (pipe_content cfg m (ps ! k)) \<le> pcapacity (pool (ps ! k))"
  obtains ps' where "for_down (length ps) (clear_pipe cfg) (m, ps) = Some (m, ps')"
    "all_cleared cfg m ps (\<lambda>k. pipe_content cfg m (ps ! k)) ps'"
proof -
  define P where "P k s \<longleftrightarrow> (\<exists>qs. s = (m, qs) \<and> length qs = length ps \<and> (\<forall>j < k. qs ! j = ps ! j) \<and>
      (\<forall>j. k \<le> j \<longrightarrow> j < length ps \<longrightarrow> pipe_cleared cfg m (ps ! j) (pipe_content cfg m (ps ! j)) (qs ! j)))"
    for k and s :: "mem \<times> mtdp_pipe list"
  have "\<exists>s'. for_down (length ps) (clear_pipe cfg) (m, ps) = Some s' \<and> P 0 s'"
  proof (rule for_down_rule)
    show "P (length ps) (m, ps)" by (simp add: P_def)
  next
    fix k s assume k: "k < length ps" and "P (Suc k) s"
    then obtain qs where q: "s = (m, qs)" "length qs = length ps" "\<forall>j < Suc k. qs ! j = ps ! j"
      "\<forall>j. Suc k \<le> j \<longrightarrow> j < length ps \<longrightarrow> pipe_cleared cfg m (ps ! j) (pipe_content cfg m (ps ! j)) (qs ! j)"
      by (auto simp: P_def)
    obtain p' where p': "mtdp_pipe_clear cfg m (Some (ps ! k)) = Some (m, Some p')"
      "pipe_cleared cfg m (ps ! k) (pipe_content cfg m (ps ! k)) p'"
      using clear_pipe_cleared[of cfg m "ps ! k"] assms[OF k] by blast
    have "clear_pipe cfg k s = Some (m, qs[k := p'])" using q(1-3) k p'(1) by (simp add: clear_pipe_def)
    moreover have "P k (m, qs[k := p'])" using q(2-4) k p'(2) by (auto simp: P_def nth_list_update)
    ultimately show "\<exists>s'. clear_pipe cfg k s = Some s' \<and> P k s'" by blast
  qed
  then show ?thesis using that by (auto simp: P_def all_cleared_def)
qed

lemma give_back_cleared:
  assumes c: "all_cleared cfg m ps0 D ps" and k: "k < length ps0"
    and cap: "size (D k + held b) \<le> pcapacity (pool (ps0 ! k))"
  obtains ps' where "give_back k b (m, ps) = Some (m, ps')" "all_cleared cfg m ps0 (D(k := D k + held b)) ps'"
proof (cases "b = NULL")
  case True
  then show ?thesis using c by (intro that[of ps]) (simp_all add: give_back_def fun_upd_idem)
next
  case False
  let ?p = "ps ! k"
  have l: "length ps = length ps0" using c by (simp add: all_cleared_def)
  have p: "pipe_cleared cfg m (ps0 ! k) (D k) ?p" using c k by (simp add: all_cleared_def)
  then have inv: "pipe_inv cfg m ?p" by (simp add: pipe_cleared_def)
  have "psize (pool ?p) = size (D k)"
    using p length_pool_elems[OF pipe_invD(3)[OF inv]] unfolding pipe_cleared_def by (metis size_mset)
  then have lt: "psize (pool ?p) < pcapacity (pool ?p)" using cap False p by (simp add: pipe_cleared_def)
  obtain ok m' p' where g: "mtdp_pipe_put_back m ?p b = Some (ok, m', p')" "pipe_inv cfg m' p'"
    "pool_elems (pool p') = (if ok then pool_elems (pool ?p) @ [b] else pool_elems (pool ?p))"
    "fifo p' = fifo ?p" "semaphore p' = semaphore ?p"
    "psize (pool ?p) < pcapacity (pool ?p) \<longrightarrow> ok \<and> m' = m \<and> pcapacity (pool p') = pcapacity (pool ?p)"
    by (rule pipe_put_back[OF inv, where b = b])
  have ok: "ok" "m' = m" "pcapacity (pool p') = pcapacity (pool ?p)" using g(6) lt by simp_all
  show ?thesis
  proof (rule that[of "ps[k := p']"])
    show "give_back k b (m, ps) = Some (m, ps[k := p'])" using False k l g(1) ok by (simp add: give_back_def)
    have "pipe_cleared cfg m (ps0 ! k) (D k + held b) p'"
      using p g(2-5) ok False by (simp add: pipe_cleared_def)
    then show "all_cleared cfg m ps0 (D(k := D k + held b)) (ps[k := p'])"
      using c k by (simp add: all_cleared_def nth_list_update)
  qed
qed

text \<open>Clearing does not touch the account of the memory.\<close>

lemma pipes_hold_cong:
  assumes h: "pipes_hold cfg m0 m ps" and l: "length ps' = length ps"
    and same: "\<And>k. k < length ps \<Longrightarrow> pipe_inv cfg m (ps' ! k) \<and> fifo_own (fifo (ps' ! k)) = fifo_own (fifo (ps ! k)) \<and>
      pool_arrays (pool (ps' ! k)) = pool_arrays (pool (ps ! k))"
  shows "pipes_hold cfg m0 m ps'"
proof -
  note d = pipes_holdD[OF h]
  have own: "fifo_own (fifo (ps' ! k)) = fifo_own (fifo (ps ! k))" if "k < length ps" for k using same[OF that] by simp
  have "pipe_inv cfg m p \<and> (\<forall>a \<in> fifo_own (fifo p). heap m0 a = None)" if p: "p \<in> set ps'" for p
  proof -
    obtain k where "k < length ps" "p = ps' ! k" using p l by (metis in_set_conv_nth)
    then show ?thesis using same d(5)[of "ps ! k"] by simp
  qed
  moreover have "sorted_wrt (\<lambda>p q. fifo_own (fifo p) \<inter> fifo_own (fifo q) = {}) ps'"
    using d(6) own l by (simp add: sorted_wrt_iff_nth_less)
  moreover have "heap m a = heap m0 a" if a: "\<forall>p \<in> set ps'. a \<notin> fifo_own (fifo p)" for a
  proof (rule d(7))
    fix p assume "p \<in> set ps"
    then obtain k where "k < length ps" "p = ps ! k" by (metis in_set_conv_nth)
    then show "a \<notin> fifo_own (fifo p)" using a own[of k] l by (metis nth_mem)
  qed
  moreover have "map (\<lambda>p. 1 + pool_arrays (pool p)) ps' = map (\<lambda>p. 1 + pool_arrays (pool p)) ps"
    by (rule nth_equalityI) (use same l in simp_all)
  ultimately show ?thesis using d(1-3,8,9) l unfolding pipes_hold_def by simp
qed

lemma all_cleared_hold: "all_cleared cfg m ps0 D ps \<Longrightarrow> pipes_hold cfg m0 m ps0 \<Longrightarrow> pipes_hold cfg m0 m ps"
  by (rule pipes_hold_cong) (auto simp: all_cleared_def pipe_cleared_def pool_arrays_def)

text \<open>What the two neighbours of pipe \<open>k\<close> hold when no thread is inside its routine.\<close>

definition held_out :: "'u mtdp_pipeline \<Rightarrow> nat \<Rightarrow> mtdp_buffer" where
  "held_out pl k = (if k = 0 then so_output (so_context (source_impl pl))
     else st_output (st_context (stage_impls pl ! (k - 1))))"

definition held_in :: "'u mtdp_pipeline \<Rightarrow> nat \<Rightarrow> mtdp_buffer" where
  "held_in pl k = (if k < n_stages pl then st_input (st_context (stage_impls pl ! k))
     else sk_input (sk_context (sink_impl pl)))"

definition stage_emptied :: "mtdp_stage_impl \<Rightarrow> mtdp_stage_impl" where
  "stage_emptied g = g\<lparr>st_context := (st_context g)\<lparr>st_input := NULL, st_output := NULL\<rparr>\<rparr>"

definition pipeline_emptied :: "'u mtdp_pipeline \<Rightarrow> mtdp_pipe list \<Rightarrow> 'u mtdp_pipeline" where
  "pipeline_emptied pl ps = pl\<lparr>pipes := ps,
     source_impl := (source_impl pl)\<lparr>so_context := (so_context (source_impl pl))\<lparr>so_output := NULL\<rparr>\<rparr>,
     stage_impls := map stage_emptied (stage_impls pl),
     sink_impl := (sink_impl pl)\<lparr>sk_context := (sk_context (sink_impl pl))\<lparr>sk_input := NULL\<rparr>\<rparr>\<rparr>"

lemma prefix_update:
  "k < length xs \<Longrightarrow> (take (Suc k) xs @ map f (drop (Suc k) xs))[k := f (xs ! k)] = take k xs @ map f (drop k xs)"
  by (simp add: take_Suc_conv_app_nth list_update_append flip: Cons_nth_drop_Suc)

lemma clear_stages:
  fixes E :: "nat \<Rightarrow> nat \<Rightarrow> mtdp_buffer multiset"
  assumes c: "all_cleared cfg m ps0 (E n) ps" and l: "length ps0 = Suc n" "length gs = n"
    and E: "\<And>k. k < n \<Longrightarrow> E k = (let D = (E (Suc k))(k := E (Suc k) k + held (st_input (st_context (gs ! k)))) in
        D(Suc k := D (Suc k) + held (st_output (st_context (gs ! k)))))"
    and cap: "\<And>k j. k \<le> n \<Longrightarrow> j \<le> n \<Longrightarrow> size (E k j) \<le> pcapacity (pool (ps0 ! j))"
  obtains ps' where "for_down n clear_stage ((m, ps), gs) = Some ((m, ps'), map stage_emptied gs)"
    "all_cleared cfg m ps0 (E 0) ps'"
proof -
  define P where "P k s \<longleftrightarrow> (\<exists>qs hs. s = ((m, qs), hs) \<and> all_cleared cfg m ps0 (E k) qs \<and>
      hs = take k gs @ map stage_emptied (drop k gs))" for k and s :: "(mem \<times> mtdp_pipe list) \<times> mtdp_stage_impl list"
  have "\<exists>s'. for_down n clear_stage ((m, ps), gs) = Some s' \<and> P 0 s'"
  proof (rule for_down_rule)
    show "P n ((m, ps), gs)" using c l by (simp add: P_def)
  next
    fix k s assume k: "k < n" and "P (Suc k) s"
    then obtain qs hs where q: "s = ((m, qs), hs)" "all_cleared cfg m ps0 (E (Suc k)) qs"
      "hs = take (Suc k) gs @ map stage_emptied (drop (Suc k) gs)" by (auto simp: P_def)
    have hk: "hs ! k = gs ! k" "length hs = n" using k l q(3) by (simp_all add: nth_append)
    let ?g = "st_context (gs ! k)"
    let ?D = "(E (Suc k))(k := E (Suc k) k + held (st_input ?g))"
    have Ek: "E k = ?D(Suc k := ?D (Suc k) + held (st_output ?g))" using E[OF k] by (simp only: Let_def)
    have s1: "size (E (Suc k) k + held (st_input ?g)) \<le> pcapacity (pool (ps0 ! k))"
      using cap[of k k] k unfolding Ek by simp
    have s2: "size (?D (Suc k) + held (st_output ?g)) \<le> pcapacity (pool (ps0 ! Suc k))"
      using cap[of k "Suc k"] k unfolding Ek by simp
    have kl: "k < length ps0" "Suc k < length ps0" using k l by simp_all
    obtain q1 where g1: "give_back k (st_input ?g) (m, qs) = Some (m, q1)" "all_cleared cfg m ps0 ?D q1"
      by (rule give_back_cleared[OF q(2) kl(1) s1])
    obtain q2 where "give_back (Suc k) (st_output ?g) (m, q1) = Some (m, q2)"
      "all_cleared cfg m ps0 (?D(Suc k := ?D (Suc k) + held (st_output ?g))) q2"
      by (rule give_back_cleared[OF g1(2) kl(2) s2])
    then have g2: "give_back (k + 1) (st_output ?g) (m, q1) = Some (m, q2)" "all_cleared cfg m ps0 (E k) q2"
      using Ek by simp_all
    have u: "hs[k := stage_emptied (gs ! k)] = take k gs @ map stage_emptied (drop k gs)"
      unfolding q(3) by (rule prefix_update) (use k l in simp)
    have "clear_stage k s = Some ((m, q2), hs[k := stage_emptied (gs ! k)])"
      using g1(1) g2(1) hk k by (simp add: clear_stage_def q(1) stage_emptied_def)
    with g2(2) u show "\<exists>s'. clear_stage k s = Some s' \<and> P k s'" by (auto simp: P_def)
  qed
  then show ?thesis using that by (auto simp: P_def)
qed

lemma pipeline_clear_all:
  assumes l: "length (pipes pl) = Suc (n_stages pl)" "length (stage_impls pl) = n_stages pl"
    and p: "\<And>k. k \<le> n_stages pl \<Longrightarrow> pipe_inv cfg m (pipes pl ! k) \<and> size (B k) \<le> pcapacity (pool (pipes pl ! k)) \<and>
      pipe_content cfg m (pipes pl ! k) + held (held_out pl k) + held (held_in pl k) = B k"
  obtains ps where "mtdp_pipeline_clear cfg m pl = Some (m, pipeline_emptied pl ps)"
    "all_cleared cfg m (pipes pl) B ps"
proof -
  let ?n = "n_stages pl" and ?ps = "pipes pl"
  define C where "C j = pipe_content cfg m (?ps ! j)" for j
  define E where "E k j = C j + (if j = ?n \<or> k \<le> j then held (held_in pl j) else {#}) +
      (if k < j then held (held_out pl j) else {#})" for k j
  have le: "size (E k j) \<le> pcapacity (pool (?ps ! j))" "size (C j) \<le> pcapacity (pool (?ps ! j))" if "j \<le> ?n" for k j
  proof -
    have "size (C j) + size (held (held_out pl j)) + size (held (held_in pl j)) = size (B j)"
      using p[OF that] by (metis C_def size_union)
    then show "size (E k j) \<le> pcapacity (pool (?ps ! j))" "size (C j) \<le> pcapacity (pool (?ps ! j))"
      using p[OF that] by (auto simp: E_def)
  qed
  obtain ps1 where c1: "for_down (?n + 1) (clear_pipe cfg) (m, ?ps) = Some (m, ps1)" "all_cleared cfg m ?ps C ps1"
    using clear_pipes[of ?ps cfg m] p le(2) l(1) unfolding C_def[abs_def] by (metis Suc_eq_plus1 less_Suc_eq_le)
  have En: "\<forall>j \<le> ?n. (C(?n := C ?n + held (held_in pl ?n))) j = E ?n j" by (auto simp: E_def)
  obtain ps2 where c2: "give_back ?n (held_in pl ?n) (m, ps1) = Some (m, ps2)"
    "all_cleared cfg m ?ps (C(?n := C ?n + held (held_in pl ?n))) ps2"
    using give_back_cleared[OF c1(2), of ?n "held_in pl ?n"] le(1)[of ?n ?n] l(1) by (auto simp: E_def)
  have c2': "all_cleared cfg m ?ps (E ?n) ps2" using c2(2) En l(1) by (simp add: all_cleared_def)
  obtain ps3 where c3: "for_down ?n clear_stage ((m, ps2), stage_impls pl) = Some ((m, ps3), map stage_emptied (stage_impls pl))"
    "all_cleared cfg m ?ps (E 0) ps3"
  proof (rule clear_stages[where E = E, OF c2' l])
    fix k assume k: "k < ?n"
    have "held_in pl k = st_input (st_context (stage_impls pl ! k))"
      "held_out pl (Suc k) = st_output (st_context (stage_impls pl ! k))" using k by (simp_all add: held_in_def held_out_def)
    with k show "E k = (let D = (E (Suc k))(k := E (Suc k) k + held (st_input (st_context (stage_impls pl ! k)))) in
        D(Suc k := D (Suc k) + held (st_output (st_context (stage_impls pl ! k)))))"
      by (auto simp: E_def fun_eq_iff Let_def)
  qed (use le(1) in auto)
  have sz: "size (E 0 0 + held (held_out pl 0)) \<le> pcapacity (pool (?ps ! 0))"
    using p[of 0] by (auto simp: E_def C_def ac_simps)
  obtain ps4 where c4: "give_back 0 (held_out pl 0) (m, ps3) = Some (m, ps4)"
    "all_cleared cfg m ?ps ((E 0)(0 := E 0 0 + held (held_out pl 0))) ps4"
    using give_back_cleared[OF c3(2) _ sz] l(1) by auto
  have "\<forall>k \<le> ?n. ((E 0)(0 := E 0 0 + held (held_out pl 0))) k = B k"
    using p by (auto simp: E_def C_def ac_simps)
  then have c5: "all_cleared cfg m ?ps B ps4" using c4(2) l(1) by (simp add: all_cleared_def)
  have "mtdp_pipeline_clear cfg m pl = Some (m, pipeline_emptied pl ps4)"
    using c1(1) c2(1) c3(1) c4(1)
    by (simp add: mtdp_pipeline_clear_def held_in_def held_out_def pipeline_emptied_def Let_def)
  then show ?thesis using c5 by (rule that)
qed

end
