(* ===== verification/Pipeline_Create.thy ===== *)
theory Pipeline_Create
  imports Pipeline_Memory
begin

text \<open>
  Creation: \<open>mtdp_pipeline_create\<close> with every failure of an allocation, a mutex, a semaphore, and
  what the preconfiguration leaves; destruction of a pipeline that is not enabled.
\<close>

section \<open>Configuration\<close>

lemma worker_init_facts:
  assumes "mtdp_worker_init rt w = (ok, rt', w')"
  shows "codes rt' = codes rt" "threads rt' = threads rt" "\<not> enabled w'" "\<not> destroyed w'" "thread w' = thread w"
    "rt_ok rt 2 \<Longrightarrow> ok \<and> worker_ready w' \<and> calls rt' = calls rt + 2 \<and> objects rt' = objects rt + 2 \<and> errno rt' = errno rt"
  using assms by (auto simp: mtdp_worker_init_def Let_def rt_call_def check_failed_def worker_ready_def rt_ok_def
      numeral_2_eq_2 All_less_Suc split: if_splits prod.splits)

text \<open>The wiring of a configured pipeline: every stage between its two pipes, its worker unstarted.\<close>

definition stage_configured :: "nat \<Rightarrow> mtdp_stage_impl \<Rightarrow> bool" where
  "stage_configured i g \<longleftrightarrow> st_input_pipe g = i \<and> st_output_pipe g = Suc i \<and> st_user_data g = i \<and> \<not> st_initialized g \<and>
     cb (st_worker g) = Some Stage_routine \<and> args (st_worker g) = Some (Stage_impl i) \<and>
     \<not> enabled (st_worker g) \<and> \<not> destroyed (st_worker g)"

definition pipeline_configured :: "nat \<Rightarrow> 'u mtdp_pipeline \<Rightarrow> bool" where
  "pipeline_configured n pl \<longleftrightarrow> n_stages pl = n \<and> length (stages pl) = n \<and> length (stage_impls pl) = n \<and>
     length (pipes pl) = Suc n \<and> \<not> pl_enabled pl \<and> \<not> pl_active pl \<and> destroying pl = 0 \<and>
     so_output_pipe (source_impl pl) = 0 \<and> cb (so_worker (source_impl pl)) = Some Source_routine \<and>
     args (so_worker (source_impl pl)) = Some Source_impl \<and>
     \<not> enabled (so_worker (source_impl pl)) \<and> \<not> destroyed (so_worker (source_impl pl)) \<and>
     so_init (so_user_data (source_impl pl)) = None \<and>
     (\<forall>i < n. stage_configured i (stage_impls pl ! i) \<and> st_init (stages pl ! i) = None) \<and>
     sk_input_pipe (sink_impl pl) = n \<and> cb (sk_worker (sink_impl pl)) = Some Sink_routine \<and>
     args (sk_worker (sink_impl pl)) = Some Sink_impl \<and>
     \<not> enabled (sk_worker (sink_impl pl)) \<and> \<not> destroyed (sk_worker (sink_impl pl)) \<and>
     sk_init (sk_user_data (sink_impl pl)) = None"

definition workers_ready :: "'u mtdp_pipeline \<Rightarrow> bool" where
  "workers_ready pl \<longleftrightarrow> worker_ready (so_worker (source_impl pl)) \<and>
     (\<forall>g \<in> set (stage_impls pl). worker_ready (st_worker g)) \<and> worker_ready (sk_worker (sink_impl pl))"

text \<open>A runtime that never fails.\<close>

definition runtime_ok :: "runtime \<Rightarrow> bool" where
  "runtime_ok rt \<longleftrightarrow> codes rt = (\<lambda>_. thrd_success)"

lemma runtime_ok_rt_ok: "runtime_ok rt \<Longrightarrow> rt_ok rt n"
  by (simp add: runtime_ok_def rt_ok_def)

lemma configure_stages:
  fixes pl :: "'a mtdp_pipeline" and rt :: runtime
  assumes l: "length (stage_impls pl) = n" "length (stages pl) = n"
  obtains rt' gs us where "for_up 0 n configure_stage (rt, pl) = Some (rt', pl\<lparr>stage_impls := gs, stages := us\<rparr>)"
    "length gs = n" "length us = n" "\<forall>i < n. stage_configured i (gs ! i) \<and> st_init (us ! i) = None"
    "codes rt' = codes rt" "threads rt' = threads rt"
    "runtime_ok rt \<longrightarrow> (\<forall>g \<in> set gs. worker_ready (st_worker g)) \<and> objects rt' = objects rt + 2 * int n"
proof -
  define P where "P k s \<longleftrightarrow> (\<exists>rt' gs us. s = (rt', pl\<lparr>stage_impls := gs, stages := us\<rparr>) \<and> length gs = n \<and> length us = n \<and>
      (\<forall>i < k. stage_configured i (gs ! i) \<and> st_init (us ! i) = None) \<and> codes rt' = codes rt \<and> threads rt' = threads rt \<and>
      (runtime_ok rt \<longrightarrow> (\<forall>i < k. worker_ready (st_worker (gs ! i))) \<and> objects rt' = objects rt + 2 * int k))" for k and s :: "runtime \<times> 'a mtdp_pipeline"
  have "\<exists>s'. for_up 0 n configure_stage (rt, pl) = Some s' \<and> P n s'"
  proof (rule for_up_rule)
    show "P 0 (rt, pl)" using l by (auto simp: P_def intro!: exI[of _ "stage_impls pl"] exI[of _ "stages pl"])
  next
    fix k s assume k: "k < n" and "P k s"
    then obtain rt1 gs us where q: "s = (rt1, pl\<lparr>stage_impls := gs, stages := us\<rparr>)" "length gs = n" "length us = n"
      "\<forall>i < k. stage_configured i (gs ! i) \<and> st_init (us ! i) = None" "codes rt1 = codes rt" "threads rt1 = threads rt"
      "runtime_ok rt \<longrightarrow> (\<forall>i < k. worker_ready (st_worker (gs ! i))) \<and> objects rt1 = objects rt + 2 * int k"
      by (auto simp: P_def)
    obtain ok rt2 w where w: "mtdp_worker_init rt1 (st_worker (gs ! k)) = (ok, rt2, w)" by (metis prod_cases3)
    note f = worker_init_facts[OF w]
    let ?g = "(gs ! k)\<lparr>st_initialized := False, st_user_data := k,
        st_worker := w\<lparr>cb := Some Stage_routine, args := Some (Stage_impl k)\<rparr>, st_input_pipe := k, st_output_pipe := k + 1\<rparr>"
    let ?u = "(us ! k)\<lparr>st_init := None, st_name := None, st_data := NULL\<rparr>"
    have "configure_stage (0 + k) s = Some (rt2, pl\<lparr>stage_impls := gs[k := ?g], stages := us[k := ?u]\<rparr>)"
      using q(1-3) k w by (simp add: configure_stage_def mtdp_stage_configure_def)
    moreover have "runtime_ok rt \<longrightarrow> rt_ok rt1 2" using q(5) by (simp add: runtime_ok_def rt_ok_def)
    then have "P (Suc k) (rt2, pl\<lparr>stage_impls := gs[k := ?g], stages := us[k := ?u]\<rparr>)"
      using q f k unfolding P_def
      by (intro exI[of _ rt2] exI[of _ "gs[k := ?g]"] exI[of _ "us[k := ?u]"])
         (auto simp: less_Suc_eq nth_list_update stage_configured_def worker_ready_def)
    ultimately show "\<exists>s'. configure_stage (0 + k) s = Some s' \<and> P (Suc k) s'" by blast
  qed
  then obtain rt' gs us where r: "for_up 0 n configure_stage (rt, pl) = Some (rt', pl\<lparr>stage_impls := gs, stages := us\<rparr>)"
    "length gs = n" "length us = n" "\<forall>i < n. stage_configured i (gs ! i) \<and> st_init (us ! i) = None"
    "codes rt' = codes rt" "threads rt' = threads rt"
    "runtime_ok rt \<longrightarrow> (\<forall>i < n. worker_ready (st_worker (gs ! i))) \<and> objects rt' = objects rt + 2 * int n"
    by (auto simp: P_def)
  show ?thesis by (rule that[OF r(1-6)]) (use r(2,7) in \<open>auto simp: in_set_conv_nth\<close>)
qed

lemma pipeline_configure:
  assumes l: "length (stage_impls pl) = n" "length (stages pl) = n" "n_stages pl = n" "length (pipes pl) = Suc n"
  obtains rt' pl' where "mtdp_pipeline_configure rt pl = Some (rt', pl')" "pipeline_configured n pl'" "pipes pl' = pipes pl"
    "runtime_ok rt \<longrightarrow> runtime_ok rt' \<and> workers_ready pl' \<and> objects rt' = objects rt + 2 * (int n + 2)"
    "codes rt' = codes rt" "threads rt' = threads rt"
proof -
  obtain ok1 rt1 w1 where w1: "mtdp_worker_init rt (so_worker (source_impl pl)) = (ok1, rt1, w1)" by (metis prod_cases3)
  note f1 = worker_init_facts[OF w1]
  let ?so = "(source_impl pl)\<lparr>so_initialized := False,
       so_user_data := (so_user_data (source_impl pl))\<lparr>so_init := None, so_name := None, so_data := NULL\<rparr>,
       so_worker := w1\<lparr>cb := Some Source_routine, args := Some Source_impl\<rparr>, so_output_pipe := 0\<rparr>"
  let ?pl = "pl\<lparr>source_impl := ?so\<rparr>"
  obtain rt2 gs us where c: "for_up 0 n configure_stage (rt1, ?pl) = Some (rt2, ?pl\<lparr>stage_impls := gs, stages := us\<rparr>)"
    "length gs = n" "length us = n" "\<forall>i < n. stage_configured i (gs ! i) \<and> st_init (us ! i) = None"
    "codes rt2 = codes rt1" "threads rt2 = threads rt1"
    "runtime_ok rt1 \<longrightarrow> (\<forall>g \<in> set gs. worker_ready (st_worker g)) \<and> objects rt2 = objects rt1 + 2 * int n"
    by (rule configure_stages[of ?pl n]) (use l in simp_all)
  obtain ok3 rt3 w3 where w3: "mtdp_worker_init rt2 (sk_worker (sink_impl pl)) = (ok3, rt3, w3)" by (metis prod_cases3)
  note f3 = worker_init_facts[OF w3]
  let ?sk = "(sink_impl pl)\<lparr>sk_initialized := False,
       sk_user_data := (sk_user_data (sink_impl pl))\<lparr>sk_init := None, sk_name := None, sk_data := NULL\<rparr>,
       sk_worker := w3\<lparr>cb := Some Sink_routine, args := Some Sink_impl\<rparr>, sk_input_pipe := n\<rparr>"
  let ?r = "?pl\<lparr>stage_impls := gs, stages := us, sink_impl := ?sk, pl_enabled := False, pl_active := False, destroying := 0\<rparr>"
  show ?thesis
  proof (rule that[of rt3 ?r])
    show "mtdp_pipeline_configure rt pl = Some (rt3, ?r)"
      using w1 c(1) w3 l(3) by (simp add: mtdp_pipeline_configure_def mtdp_source_configure_def mtdp_sink_configure_def Let_def)
    show "pipeline_configured n ?r" using c(2-4) f1 f3 l(3,4) by (simp add: pipeline_configured_def)
    show "runtime_ok rt \<longrightarrow> runtime_ok rt3 \<and> workers_ready ?r \<and> objects rt3 = objects rt + 2 * (int n + 2)"
    proof
      assume ok: "runtime_ok rt"
      then have o: "runtime_ok rt1" "runtime_ok rt2" "runtime_ok rt3" using f1 c(5) f3 by (simp_all add: runtime_ok_def)
      show "runtime_ok rt3 \<and> workers_ready ?r \<and> objects rt3 = objects rt + 2 * (int n + 2)"
        using o f1(6)[OF runtime_ok_rt_ok[OF ok]] c(7) f3(6)[OF runtime_ok_rt_ok[OF o(2)]]
        by (auto simp: workers_ready_def worker_ready_def)
    qed
  qed (use f1 f3 c in simp_all)
qed

section \<open>Creation\<close>

lemma malloc_array_cases:
  obtains ok m' where "malloc_array m = (ok, m')" "heap m' = heap m" "brk m' = brk m" "avail m' = avail m"
    "syncs m' = syncs m" "live m' = live m + of_bool ok" "ok \<longleftrightarrow> avail m (requests m)" "mem_wf m' = mem_wf m"
  by (rule that[of "fst (malloc_array m)" "snd (malloc_array m)"]) (auto simp: malloc_array_def request_def mem_wf_def)

lemma free_array_syncs [simp]: "syncs (free_array m) = syncs m"
  by (simp add: free_array_def)

lemma pipeline_create_cases:
  fixes raw :: "'u mtdp_pipeline"
  assumes cfg: "config_ok cfg" and m: "mem_wf m"
  obtains (None) m' rt' where "mtdp_pipeline_create cfg raw raw_impl raw_pipe m rt n = Some (None, m', rt')"
      "heap m' = heap m" "live m' = live m" "syncs m' = syncs m"
      "rt' = set_errno (if avail m (requests m) then MTDP_NO_MEM else MTDP_BAD_PTR) rt"
    | (Some) m0 pl m' rt' rt1 where "mtdp_pipeline_create cfg raw raw_impl raw_pipe m rt n = Some (Some pl, m', rt')"
      "pipeline_configured n pl" "pipes_hold cfg m0 m' (pipes pl)" "\<forall>p \<in> set (pipes pl). pipe_fresh p" "mem_wf m0"
      "heap m0 = heap m" "live m0 = live m + 4" "syncs m0 = syncs m" "rt' = set_errno MTDP_OK rt1"
      "runtime_ok rt \<longrightarrow> runtime_ok rt' \<and> workers_ready pl \<and> objects rt' = objects rt + 2 * (int n + 2)"
      "codes rt' = codes rt" "threads rt' = threads rt"
proof -
  obtain b1 m1 where a1: "malloc_array m = (b1, m1)" "heap m1 = heap m" "brk m1 = brk m" "avail m1 = avail m"
    "syncs m1 = syncs m" "live m1 = live m + of_bool b1" "b1 \<longleftrightarrow> avail m (requests m)" "mem_wf m1 = mem_wf m"
    by (rule malloc_array_cases)
  obtain b2 m2 where a2: "malloc_array m1 = (b2, m2)" "heap m2 = heap m1" "brk m2 = brk m1" "avail m2 = avail m1"
    "syncs m2 = syncs m1" "live m2 = live m1 + of_bool b2" "b2 \<longleftrightarrow> avail m1 (requests m1)" "mem_wf m2 = mem_wf m1"
    by (rule malloc_array_cases)
  obtain b3 m3 where a3: "malloc_array m2 = (b3, m3)" "heap m3 = heap m2" "brk m3 = brk m2" "avail m3 = avail m2"
    "syncs m3 = syncs m2" "live m3 = live m2 + of_bool b3" "b3 \<longleftrightarrow> avail m2 (requests m2)" "mem_wf m3 = mem_wf m2"
    by (rule malloc_array_cases)
  obtain b4 m4 where a4: "malloc_array m3 = (b4, m4)" "heap m4 = heap m3" "brk m4 = brk m3" "avail m4 = avail m3"
    "syncs m4 = syncs m3" "live m4 = live m3 + of_bool b4" "b4 \<longleftrightarrow> avail m3 (requests m3)" "mem_wf m4 = mem_wf m3"
    by (rule malloc_array_cases)
  note d = mtdp_pipeline_create_def mtdp_pipeline_alloc_def mtdp_stage_vector_resize_def mtdp_stage_impl_vector_resize_def
    mtdp_pipe_vector_resize_def mtdp_pipeline_dealloc_def mtdp_stage_vector_destroy_def mtdp_stage_impl_vector_destroy_def
    mtdp_pipe_vector_destroy_def a1(1) a2(1) a3(1) a4(1)
  consider "\<not> b1" | "b1" "\<not> b2" | "b1" "b2" "\<not> b3" | "b1" "b2" "b3" "\<not> b4" | "b1" "b2" "b3" "b4" by blast
  then show ?thesis
  proof cases
    case 1
    show ?thesis by (rule None[of m1]) (use 1 a1 in \<open>simp_all add: d\<close>)
  next
    case 2
    show ?thesis by (rule None[of "free_array m2"])
      (use 2 a1(2-) a2(2-) in \<open>simp_all add: d mem_simps\<close>)
  next
    case 3
    show ?thesis by (rule None[of "free_array (free_array m3)"])
      (use 3 a1(2-) a2(2-) a3(2-) in \<open>simp_all add: d mem_simps\<close>)
  next
    case 4
    show ?thesis by (rule None[of "free_array (free_array (free_array m4))"])
      (use 4 a1(2-) a2(2-) a3(2-) a4(2-) in \<open>simp_all add: d mem_simps\<close>)
  next
    case 5
    have wf4: "mem_wf m4" using m a1(8) a2(8) a3(8) a4(8) by simp
    have base: "pipes_hold cfg m4 m4 (take 0 (replicate (n + 1) raw_pipe))" using wf4 by simp
    obtain r m5 ps where i: "init_pipes cfg 0 (n + 1) m4 (replicate (n + 1) raw_pipe) = Some (r, m5, ps)"
      "length ps = length (replicate (n + 1) raw_pipe)"
      "case r of None \<Rightarrow> pipes_hold cfg m4 m5 (take (0 + (n + 1)) ps) \<and> (\<forall>p \<in> set (take (0 + (n + 1)) ps). pipe_fresh p)
       | Some k \<Rightarrow> k < length (replicate (n + 1) raw_pipe) \<and> pipes_hold cfg m4 m5 (take k ps)"
      by (rule init_pipes_cases[OF cfg wf4 base, of "n + 1"]) (simp, simp, assumption)
    have l4: "heap m4 = heap m" "live m4 = live m + 4" "syncs m4 = syncs m"
      using 5 a1(2-) a2(2-) a3(2-) a4(2-) by simp_all
    show ?thesis
    proof (cases r)
      case (Some k)
      with i(3) have k: "k < n + 1" "pipes_hold cfg m4 m5 (take k ps)" by simp_all
      obtain m6 qs where dp: "for_up 0 k destroy_pipe (m5, ps) = Some (m6, qs)" "pipes_hold cfg m4 m6 []"
        by (rule destroy_pipes[OF k(2)]) (use k(1) i(2) in auto)
      show ?thesis
        by (rule None[of "free_array (free_array (free_array (free_array m6)))"])
           (use 5 i(1) Some dp l4 a1(7) in \<open>simp_all add: d mem_simps del: init_pipes.simps for_up.simps\<close>)
    next
      case None
      with i(2,3) have p: "pipes_hold cfg m4 m5 ps" "\<forall>p \<in> set ps. pipe_fresh p" by simp_all
      let ?pl = "raw\<lparr>stages := replicate n zero_stage, stage_impls := replicate n raw_impl, pipes := ps, n_stages := n\<rparr>"
      obtain rt1 pl where c: "mtdp_pipeline_configure rt ?pl = Some (rt1, pl)" "pipeline_configured n pl" "pipes pl = pipes ?pl"
        "runtime_ok rt \<longrightarrow> runtime_ok rt1 \<and> workers_ready pl \<and> objects rt1 = objects rt + 2 * (int n + 2)"
        "codes rt1 = codes rt" "threads rt1 = threads rt"
        by (rule pipeline_configure[of ?pl n]) (use i(2) in simp_all)
      show ?thesis
        by (rule Some[of pl m5 "set_errno MTDP_OK rt1" m4 rt1])
           (use 5 i(1) None c p l4 wf4 in \<open>simp_all add: d set_errno_def runtime_ok_def del: init_pipes.simps\<close>)
    qed
  qed
qed

section \<open>Destruction of a disabled pipeline\<close>

lemma pipeline_destroy_disabled:
  assumes "\<not> pl_enabled pl" and h: "pipes_hold cfg m0 m (pipes pl)" and l: "length (pipes pl) = Suc (n_stages pl)"
  obtains m' where "mtdp_pipeline_destroy settle cfg m rt (Some pl) = Some (m', set_errno MTDP_OK (set_errno MTDP_NOT_ENABLED rt))"
    "heap m' = heap m0" "live m' = live m0 - 4" "syncs m' = syncs m0"
proof -
  have h': "pipes_hold cfg m0 m (take (1 + n_stages pl) (pipes pl))" using h l by simp
  obtain m1 ps where d: "for_up 0 (1 + n_stages pl) destroy_pipe (m, pipes pl) = Some (m1, ps)" "pipes_hold cfg m0 m1 []"
    by (rule destroy_pipes[OF h']) (use l in auto)
  show ?thesis
    by (rule that[of "free_array (free_array (free_array (free_array m1)))"])
       (use assms(1) d in \<open>simp_all add: mtdp_pipeline_destroy_def mtdp_pipeline_disable_def mem_simps
         mtdp_pipeline_dealloc_def mtdp_stage_vector_destroy_def mtdp_stage_impl_vector_destroy_def mtdp_pipe_vector_destroy_def
         del: for_up.simps\<close>)
qed

end
