(* ===== verification/Pipeline_Life.thy ===== *)
theory Pipeline_Life
  imports Pipeline_Flow Pipeline_Create
begin

text \<open>
  The life of a pipeline: filling its pipes with buffers (as the main program of
  \<open>examples/finite_datastream.c\<close> does), enabling it, the run of its threads, disabling it.
\<close>

section \<open>Filling the pipes\<close>

text \<open>One iteration of the client's loop over the pipes: \<open>bs\<close> are the buffers it creates. The result
  tells whether the client goes on. The pointer \<open>mtdp_pipe_buffers\<close> returns is the pool's own
  array, so the client writes there.\<close>

definition load_pipe :: "fifo_config \<Rightarrow> mem \<Rightarrow> mtdp_pipe \<Rightarrow> mtdp_buffer list \<Rightarrow> (bool \<times> mem \<times> mtdp_pipe) option" where
  "load_pipe cfg m p bs = do {
     (ret, _, m, p) \<leftarrow> mtdp_pipe_resize cfg m (Some p) (length bs);
     p \<leftarrow> p;
     (case ret of
        NullPtr \<Rightarrow> Some (False, m, p)
      | PoolPtr _ \<Rightarrow>
          (case mtdp_pipe_buffers (Some p) of
             (PoolPtr (Some arr), _) \<Rightarrow>
               if length bs \<le> length arr
               then Some (True, m, p\<lparr>pool := (pool p)\<lparr>buffers := Some (map Some bs @ drop (length bs) arr)\<rparr>\<rparr>)
               else None
           | _ \<Rightarrow> None)) }"

fun load_pipes :: "fifo_config \<Rightarrow> nat \<Rightarrow> mtdp_buffer list list \<Rightarrow> mem \<Rightarrow> mtdp_pipe list \<Rightarrow>
    (bool \<times> mem \<times> mtdp_pipe list) option" where
  "load_pipes cfg i [] m ps = Some (True, m, ps)"
| "load_pipes cfg i (bs # bss) m ps = do {
     p \<leftarrow> list_get ps i;
     (ok, m, p) \<leftarrow> load_pipe cfg m p bs;
     if ok then load_pipes cfg (mtdp_pipe_next i) bss m (ps[i := p]) else Some (False, m, ps[i := p]) }"

lemma load_pipe_fresh:
  assumes fresh: "pipe_fresh p" and bs: "bs \<noteq> []"
  obtains ok m' p' where "load_pipe cfg m p bs = Some (ok, m', p')" "malloc_array m = (ok, m')" "fifo p' = fifo p"
    "semaphore p' = 0" "ok \<longrightarrow> pool p' = \<lparr>buffers = Some (map Some bs), psize = length bs, pcapacity = length bs\<rparr>"
    "\<not> ok \<longrightarrow> pool p' = pool p"
proof -
  obtain ok m' where a: "malloc_array m = (ok, m')" by fastforce
  let ?n = "length bs"
  have n: "0 < ?n" using bs by simp
  have f: "psize (pool p) = 0" "pcapacity (pool p) = 0" "fsize (fifo p) = 0" "semaphore p = 0"
    using fresh by (simp_all add: pipe_fresh_def)
  let ?pl = "if ok then (pool p)\<lparr>pcapacity := ?n, buffers := Some (replicate ?n (Some NULL)), psize := ?n\<rparr> else pool p"
  have u: "uadds 0 (int ?n) = ?n" by (simp add: uadds_def)
  have "mtdp_buffer_pool_resize m (pool p) ?n = Some (ok, m', ?pl)"
    using f n a u by (simp add: mtdp_buffer_pool_resize_def mtdp_buffer_pool_realloc_def Let_def)
  then have r: "mtdp_pipe_resize cfg m (Some p) ?n = Some (if ok then PoolPtr (buffers ?pl) else NullPtr,
      if ok then MTDP_OK else MTDP_NO_MEM, m', Some (p\<lparr>pool := ?pl, total_buffers := ?n\<rparr>))"
    using f n u by (simp add: mtdp_pipe_resize_def mtdp_buffer_pool_size_def mtdp_buffer_fifo_size_def Let_def)
  show ?thesis
  proof (cases ok)
    case True
    have "(pool p)\<lparr>pcapacity := ?n, buffers := Some (map Some bs), psize := ?n\<rparr> =
        \<lparr>buffers = Some (map Some bs), psize = ?n, pcapacity = ?n\<rparr>" by (cases "pool p") simp
    then show ?thesis using True r a f
      by (intro that[of ok m' "p\<lparr>pool := \<lparr>buffers = Some (map Some bs), psize = ?n, pcapacity = ?n\<rparr>, total_buffers := ?n\<rparr>"])
         (simp_all add: load_pipe_def mtdp_pipe_buffers_def)
  next
    case False
    then show ?thesis using r a f
      by (intro that[of ok m' "p\<lparr>total_buffers := ?n\<rparr>"]) (simp_all add: load_pipe_def)
  qed
qed

text \<open>A pipe that is ready to run: its buffers, none of them null, wait in the pool.\<close>

definition pipe_loaded :: "mtdp_buffer list \<Rightarrow> mtdp_pipe \<Rightarrow> bool" where
  "pipe_loaded bs p \<longleftrightarrow> pool_elems (pool p) = bs \<and> fsize (fifo p) = 0 \<and> semaphore p = 0"

lemma load_pipe_hold:
  assumes h: "pipes_hold cfg m0 m ps" and k: "k < length ps" and wf0: "mem_wf m0" and fresh: "pipe_fresh (ps ! k)"
    and bs: "bs \<noteq> []"
  obtains ok m' p' where "load_pipe cfg m (ps ! k) bs = Some (ok, m', p')" "pipes_hold cfg m0 m' (ps[k := p'])"
    "ok \<longrightarrow> pipe_loaded bs p'"
proof -
  obtain ok m' p' where r: "load_pipe cfg m (ps ! k) bs = Some (ok, m', p')" "malloc_array m = (ok, m')"
    "fifo p' = fifo (ps ! k)" "semaphore p' = 0"
    "ok \<longrightarrow> pool p' = \<lparr>buffers = Some (map Some bs), psize = length bs, pcapacity = length bs\<rparr>"
    "\<not> ok \<longrightarrow> pool p' = pool (ps ! k)"
    by (rule load_pipe_fresh[OF fresh bs])
  have inv: "pipe_inv cfg m (ps ! k)" using pipes_holdD(4)[OF h] k by simp
  obtain ok1 m1 where a: "malloc_array m = (ok1, m1)" "heap m1 = heap m" "brk m1 = brk m" "avail m1 = avail m"
    "syncs m1 = syncs m" "live m1 = live m + of_bool ok1"
    by (rule malloc_array_cases)
  have a': "heap m' = heap m" "brk m' = brk m" "avail m' = avail m" "syncs m' = syncs m" "live m' = live m + of_bool ok"
    using a r(2) by simp_all
  have pl: "pool_inv (pool p')"
  proof (cases ok)
    case True
    then show ?thesis using r(5) by (auto simp: pool_inv_def pool_wf_def pool_slots_def)
  qed (use r(6) inv in \<open>simp add: pipe_inv_def\<close>)
  have "pipe_inv cfg m' p'"
    using pipe_inv_mem_cong[OF a'(1,2) pipe_invD(4,2)[OF inv]] pl r(3) inv by (simp add: pipe_inv_def)
  moreover have "mem_frame (fifo_own (fifo (ps ! k))) m m'" using a' by (simp add: mem_frame_def)
  moreover have "live m' - pool_arrays (pool p') = live m - pool_arrays (pool (ps ! k))"
  proof (cases ok)
    case True
    then show ?thesis using a'(5) r(5) fresh bs by (simp add: pool_arrays_def pipe_fresh_def)
  qed (use a'(5) r(6) in simp)
  ultimately have "pipes_hold cfg m0 m' (ps[k := p'])"
    by (intro pipes_hold_update[OF h k wf0]) (use r(3) a' in auto)
  moreover have "ok \<longrightarrow> pipe_loaded bs p'"
    using r(3,4,5) fresh bs by (simp add: pipe_loaded_def pool_elems_def pool_slots_def pipe_fresh_def)
  ultimately show ?thesis using r(1) that by blast
qed

lemma load_pipes_hold:
  assumes "pipes_hold cfg m0 m ps" "mem_wf m0" "i + length bss \<le> length ps"
    "\<forall>k. i \<le> k \<longrightarrow> k < length ps \<longrightarrow> pipe_fresh (ps ! k)" "[] \<notin> set bss"
  obtains ok m' ps' where "load_pipes cfg i bss m ps = Some (ok, m', ps')" "pipes_hold cfg m0 m' ps'" "length ps' = length ps"
    "\<forall>k < i. ps' ! k = ps ! k" "ok \<longrightarrow> (\<forall>k < length bss. pipe_loaded (bss ! k) (ps' ! (i + k)))"
  using assms
proof (induction bss arbitrary: i m ps thesis)
  case Nil
  then show ?case by (intro Nil(1)[of True m ps]) simp_all
next
  case (Cons bs bss)
  have i: "i < length ps" "bs \<noteq> []" using Cons.prems(4,6) by auto
  obtain ok m1 p1 where l: "load_pipe cfg m (ps ! i) bs = Some (ok, m1, p1)" "pipes_hold cfg m0 m1 (ps[i := p1])"
    "ok \<longrightarrow> pipe_loaded bs p1"
    by (rule load_pipe_hold[OF Cons.prems(2) i(1) Cons.prems(3) _ i(2)]) (use Cons.prems(5) i in simp)
  show ?case
  proof (cases ok)
    case False
    then show ?thesis using l i by (intro Cons.prems(1)[of False m1 "ps[i := p1]"]) simp_all
  next
    case True
    obtain ok' m' ps' where r: "load_pipes cfg (Suc i) bss m1 (ps[i := p1]) = Some (ok', m', ps')" "pipes_hold cfg m0 m' ps'"
      "length ps' = length (ps[i := p1])" "\<forall>k < Suc i. ps' ! k = ps[i := p1] ! k"
      "ok' \<longrightarrow> (\<forall>k < length bss. pipe_loaded (bss ! k) (ps' ! (Suc i + k)))"
      by (rule Cons.IH[OF _ l(2) Cons.prems(3), of "Suc i"]) (use Cons.prems(4-6) in auto)
    have "pipe_loaded ((bs # bss) ! k) (ps' ! (i + k))" if "ok'" "k < length (bs # bss)" for k
      using that r(4,5) l(3) True i by (cases k) auto
    then show ?thesis using l(1) r True i by (intro Cons.prems(1)[of ok' m' ps']) auto
  qed
qed

section \<open>Enabling\<close>

definition stage_started :: "'u mtdp_stage \<Rightarrow> mtdp_stage_impl \<Rightarrow> mtdp_stage_impl" where
  "stage_started u g = g\<lparr>st_context := \<lparr>st_self = st_data u, st_input = NULL, st_output = NULL,
                    st_ready_to_push = False, st_ready_to_pull = True\<rparr>, st_done := 0,
     st_worker := (st_worker g)\<lparr>wname := st_name u, thread := True\<rparr>\<rparr>"

definition pipeline_started :: "'u mtdp_pipeline \<Rightarrow> 'u mtdp_pipeline" where
  "pipeline_started pl =
    (let so = source_impl pl; sk = sink_impl pl in
     pl\<lparr>source_impl := so\<lparr>so_worker := (so_worker so)\<lparr>wname := so_name (so_user_data so), thread := True\<rparr>,
          so_context := \<lparr>so_self = so_data (so_user_data so), so_output = NULL, so_ready_to_push = False\<rparr>, so_done := 0\<rparr>,
        stage_impls := map (\<lambda>k. stage_started (stages pl ! st_user_data (stage_impls pl ! k)) (stage_impls pl ! k))
          [0..<n_stages pl],
        sink_impl := sk\<lparr>sk_worker := (sk_worker sk)\<lparr>wname := sk_name (sk_user_data sk), thread := True\<rparr>,
          sk_context := \<lparr>sk_self = sk_data (sk_user_data sk), sk_input = NULL, sk_ready_to_pull = True\<rparr>, sk_done := 0\<rparr>,
        pl_enabled := True, pl_active := False\<rparr>)"

lemma create_thread_ok:
  "runtime_ok rt \<Longrightarrow> mtdp_worker_create_thread rt w =
     (True, rt\<lparr>calls := Suc (calls rt), threads := threads rt + 1\<rparr>, w\<lparr>thread := True\<rparr>)"
  by (simp add: mtdp_worker_create_thread_def rt_call_def runtime_ok_def)

lemma runtime_ok_upd [simp]:
  "runtime_ok (rt\<lparr>calls := n\<rparr>) = runtime_ok rt" "runtime_ok (rt\<lparr>threads := t\<rparr>) = runtime_ok rt"
  "runtime_ok (set_errno e rt) = runtime_ok rt"
  by (simp_all add: runtime_ok_def set_errno_def)

lemma pipeline_enable_ok:
  assumes rt: "runtime_ok rt" and off: "\<not> pl_enabled pl" and l: "length (stage_impls pl) = n_stages pl"
    and u: "\<And>k. k < n_stages pl \<Longrightarrow> st_user_data (stage_impls pl ! k) < length (stages pl)"
  obtains rt' where "mtdp_pipeline_enable rt (Some pl) = Some (True, rt', Some (pipeline_started pl))"
    "runtime_ok rt'" "threads rt' = threads rt + int (n_stages pl) + 2" "errno rt' = MTDP_OK"
proof -
  let ?n = "n_stages pl"
  obtain rt1 sk where sk: "mtdp_sink_create_thread rt (sink_impl pl) = (rt1, sk)" "runtime_ok rt1"
    "threads rt1 = threads rt + 1" "sk = sink_impl (pipeline_started pl)"
    using rt by (simp add: mtdp_sink_create_thread_def create_thread_ok pipeline_started_def Let_def)
  let ?pl = "pl\<lparr>sink_impl := sk\<rparr>"
  obtain rt2 where st: "for_down ?n enable_stage (rt1, ?pl\<lparr>stage_impls := stage_impls pl\<rparr>) =
      Some (rt2, ?pl\<lparr>stage_impls := map (\<lambda>k. stage_started (stages pl ! st_user_data (stage_impls pl ! k)) (stage_impls pl ! k)) [0..<?n]\<rparr>)"
    "runtime_ok rt2 \<and> threads rt2 = threads rt + 1 + int (?n - 0)"
  proof (rule for_down_map[where Q = "\<lambda>k r. runtime_ok r \<and> threads r = threads rt + 1 + int (?n - k)" and r = rt1
        and u = "\<lambda>gs. ?pl\<lparr>stage_impls := gs\<rparr>" and body = enable_stage and xs = "stage_impls pl"
        and f = "\<lambda>k g. stage_started (stages pl ! st_user_data g) g" and n = ?n])
    fix k and r :: runtime and ys
    assume a: "k < ?n" "length ys = ?n" "ys ! k = stage_impls pl ! k"
      "runtime_ok r \<and> threads r = threads rt + 1 + int (?n - Suc k)"
    then have "enable_stage k (r, ?pl\<lparr>stage_impls := ys\<rparr>) = Some (r\<lparr>calls := Suc (calls r), threads := threads r + 1\<rparr>,
        ?pl\<lparr>stage_impls := ys[k := stage_started (stages pl ! st_user_data (stage_impls pl ! k)) (stage_impls pl ! k)]\<rparr>)"
      using u[OF a(1)] by (simp add: enable_stage_def mtdp_stage_create_thread_def create_thread_ok Let_def stage_started_def)
    then show "\<exists>r'. enable_stage k (r, ?pl\<lparr>stage_impls := ys\<rparr>) =
        Some (r', ?pl\<lparr>stage_impls := ys[k := stage_started (stages pl ! st_user_data (stage_impls pl ! k)) (stage_impls pl ! k)]\<rparr>) \<and>
        (runtime_ok r' \<and> threads r' = threads rt + 1 + int (?n - k))"
      using a by (intro exI conjI) (auto simp: of_nat_diff)
  qed (use sk l in simp_all)
  let ?pl2 = "?pl\<lparr>stage_impls := map (\<lambda>k. stage_started (stages pl ! st_user_data (stage_impls pl ! k)) (stage_impls pl ! k)) [0..<?n]\<rparr>"
  obtain rt3 so where so: "mtdp_source_create_thread rt2 (source_impl pl) = (rt3, so)" "runtime_ok rt3"
    "threads rt3 = threads rt2 + 1" "so = source_impl (pipeline_started pl)"
    using st(2) by (simp add: mtdp_source_create_thread_def create_thread_ok pipeline_started_def Let_def)
  have "mtdp_pipeline_enable rt (Some pl) = Some (True, set_errno MTDP_OK rt3, Some (pipeline_started pl))"
    using off sk(1,4) st(1) so(1,4) by (simp add: mtdp_pipeline_enable_def Let_def pipeline_started_def)
  then show ?thesis
    by (rule that) (use so st(2) in \<open>simp_all add: set_errno_def runtime_ok_def\<close>)
qed

text \<open>What the client must have done before: set the callbacks, fill the pipes.\<close>

definition pipeline_ready :: "fifo_config \<Rightarrow> mem \<Rightarrow> mem \<Rightarrow> mtdp_buffer list list \<Rightarrow> 'u mtdp_pipeline \<Rightarrow> bool" where
  "pipeline_ready cfg m0 m bss pl \<longleftrightarrow> length (stages pl) = n_stages pl \<and> length (stage_impls pl) = n_stages pl \<and>
     length (pipes pl) = Suc (n_stages pl) \<and> so_output_pipe (source_impl pl) = 0 \<and>
     (\<forall>i < n_stages pl. st_input_pipe (stage_impls pl ! i) = i \<and> st_output_pipe (stage_impls pl ! i) = Suc i \<and>
        st_user_data (stage_impls pl ! i) = i) \<and> sk_input_pipe (sink_impl pl) = n_stages pl \<and>
     source_user_ok (so_user_data (source_impl pl)) \<and> (\<forall>u \<in> set (stages pl). stage_user_ok u) \<and>
     sink_user_ok (sk_user_data (sink_impl pl)) \<and> mem_wf m0 \<and> pipes_hold cfg m0 m (pipes pl) \<and>
     (\<forall>k \<le> n_stages pl. pipe_loaded (bss ! k) (pipes pl ! k) \<and> NULL \<notin> set (bss ! k))"

lemma pipeline_ready_start:
  assumes r: "pipeline_ready cfg m0 m bss pl"
  shows "flow_start cfg (\<lambda>k. mset (bss ! k)) (flow_of m (pipeline_started pl) u)"
    "shared_hold cfg m0 (fl_sh (flow_of m (pipeline_started pl) u))"
proof -
  have h: "pipes_hold cfg m0 m (pipes pl)" and l: "length (pipes pl) = Suc (n_stages pl)"
    using r by (simp_all add: pipeline_ready_def)
  have inv: "pipe_inv cfg m (pipes pl ! k)" if "k \<le> n_stages pl" for k
    using pipes_holdD(4)[OF h] that l by simp
  have dj: "fifo_own (fifo (pipes pl ! i)) \<inter> fifo_own (fifo (pipes pl ! j)) = {}"
    if "i \<le> n_stages pl" "j \<le> n_stages pl" "i \<noteq> j" for i j
  proof -
    have "fifo_own (fifo (pipes pl ! min i j)) \<inter> fifo_own (fifo (pipes pl ! max i j)) = {}"
      using pipes_holdD(6)[OF h] that l by (auto simp: sorted_wrt_iff_nth_less)
    then show ?thesis using that(3) by (cases "i < j") (auto simp: min_def max_def split: if_splits)
  qed
  show "flow_start cfg (\<lambda>k. mset (bss ! k)) (flow_of m (pipeline_started pl) u)"
    using r inv dj
    by (simp add: flow_start_def flow_of_def pipeline_started_def Let_def stage_started_def pipeline_ready_def pipe_loaded_def
        less_Suc_eq_le)
  show "shared_hold cfg m0 (fl_sh (flow_of m (pipeline_started pl) u))"
    using r by (simp add: shared_hold_def flow_of_def pipeline_started_def Let_def pipeline_ready_def)
qed

section \<open>A client\<close>

text \<open>The client's assignments through \<open>mtdp_pipeline_get_source\<close>, \<open>_get_stages\<close>, \<open>_get_sink\<close> and
  \<open>_get_pipes\<close>, and its program up to the enabled pipeline. \<open>None\<close>: it gives up.\<close>

definition client_setup :: "'u mtdp_source \<Rightarrow> 'u mtdp_stage list \<Rightarrow> 'u mtdp_sink \<Rightarrow> mtdp_pipe list \<Rightarrow>
    'u mtdp_pipeline \<Rightarrow> 'u mtdp_pipeline" where
  "client_setup so us sk ps pl = pl\<lparr>pipes := ps, stages := us, source_impl := (source_impl pl)\<lparr>so_user_data := so\<rparr>,
     sink_impl := (sink_impl pl)\<lparr>sk_user_data := sk\<rparr>\<rparr>"

definition client_start :: "fifo_config \<Rightarrow> 'u mtdp_pipeline \<Rightarrow> mtdp_stage_impl \<Rightarrow> mtdp_pipe \<Rightarrow> mem \<Rightarrow> runtime \<Rightarrow>
    mtdp_buffer list list \<Rightarrow> 'u mtdp_source \<Rightarrow> 'u mtdp_stage list \<Rightarrow> 'u mtdp_sink \<Rightarrow>
    (mem \<times> runtime \<times> 'u mtdp_pipeline) option" where
  "client_start cfg raw raw_impl raw_pipe m rt bss so us sk = do {
     (pl, m, rt) \<leftarrow> mtdp_pipeline_create cfg raw raw_impl raw_pipe m rt (length us);
     pl \<leftarrow> pl;
     (ok, m, ps) \<leftarrow> load_pipes cfg 0 bss m (pipes pl);
     (if ok then do {
        (_, rt, pl) \<leftarrow> mtdp_pipeline_enable rt (Some (client_setup so us sk ps pl));
        pl \<leftarrow> pl;
        Some (m, rt, pl) }
      else None) }"

lemma client_start_facts:
  assumes cfg: "config_ok cfg" and m: "mem_wf m" and rt: "runtime_ok rt"
    and bss: "length bss = Suc (length us)" "[] \<notin> set bss" "\<And>bs. bs \<in> set bss \<Longrightarrow> NULL \<notin> set bs"
    and users: "source_user_ok so" "\<And>u. u \<in> set us \<Longrightarrow> stage_user_ok u" "sink_user_ok sk"
    and run: "client_start cfg raw raw_impl raw_pipe m rt bss so us sk = Some (m2, rt2, pl2)"
  obtains m0 pl where "pipeline_ready cfg m0 m2 bss pl" "pl2 = pipeline_started pl" "workers_ready pl" "n_stages pl = length us"
    "heap m0 = heap m" "live m0 = live m + 4" "syncs m0 = syncs m" "runtime_ok rt2" "threads rt2 = threads rt + int (length us) + 2"
    "so_user_data (source_impl pl) = so" "stages pl = us" "sk_user_data (sink_impl pl) = sk"
proof -
  let ?n = "length us"
  from run obtain pl m1 rt1 ps ok where c: "mtdp_pipeline_create cfg raw raw_impl raw_pipe m rt ?n = Some (Some pl, m1, rt1)"
    and l: "load_pipes cfg 0 bss m1 (pipes pl) = Some (True, m2, ps)"
    and e: "mtdp_pipeline_enable rt1 (Some (client_setup so us sk ps pl)) = Some (ok, rt2, Some pl2)"
    by (auto simp: client_start_def bind_eq_Some_conv split: if_splits)
  show ?thesis
  proof (cases rule: pipeline_create_cases[OF cfg m, of raw raw_impl raw_pipe rt ?n, case_names None Some])
    case (None m' rt')
    then show ?thesis using c by simp
  next
    case (Some m0 pl' m' rt' rt1')
    have eq: "pl' = pl" "m' = m1" "rt' = rt1" using Some(1) c by simp_all
    note conf = Some(2)[unfolded eq pipeline_configured_def]
    have h: "pipes_hold cfg m0 m1 (pipes pl)" using Some(3) eq by simp
    obtain ok1 m3 ps1 where r: "load_pipes cfg 0 bss m1 (pipes pl) = Some (ok1, m3, ps1)" "pipes_hold cfg m0 m3 ps1"
      "length ps1 = length (pipes pl)" "\<forall>k < 0. ps1 ! k = pipes pl ! k"
      "ok1 \<longrightarrow> (\<forall>k < length bss. pipe_loaded (bss ! k) (ps1 ! (0 + k)))"
      by (rule load_pipes_hold[OF h Some(5), of 0 bss]) (use Some(4) eq conf bss in auto)
    have p: "pipes_hold cfg m0 m2 ps" "length ps = Suc ?n" "\<forall>k \<le> ?n. pipe_loaded (bss ! k) (ps ! k)"
      using r l conf bss(1) by auto
    let ?pl = "client_setup so us sk ps pl"
    have nn: "NULL \<notin> set (bss ! k)" if "k \<le> ?n" for k using bss(1,3) that by simp
    have ready: "pipeline_ready cfg m0 m2 bss ?pl"
      using conf p nn users Some(5) unfolding pipeline_ready_def stage_configured_def by (simp add: client_setup_def)
    have w: "runtime_ok rt1" "workers_ready ?pl" using Some(10) rt eq by (simp_all add: workers_ready_def client_setup_def)
    obtain rt3 where en: "mtdp_pipeline_enable rt1 (Some ?pl) = Some (True, rt3, Some (pipeline_started ?pl))" "runtime_ok rt3"
      "threads rt3 = threads rt1 + int (n_stages ?pl) + 2" "errno rt3 = MTDP_OK"
      by (rule pipeline_enable_ok[OF w(1), of ?pl]) (use conf ready in \<open>simp_all add: client_setup_def pipeline_ready_def\<close>)
    have n: "n_stages ?pl = ?n" using conf by (simp add: client_setup_def)
    have user: "so_user_data (source_impl ?pl) = so" "stages ?pl = us" "sk_user_data (sink_impl ?pl) = sk"
      by (simp_all add: client_setup_def)
    show ?thesis by (rule that[OF ready _ w(2) n _ _ _ _ _ user]) (use e en n Some(6-8,12) eq in simp_all)
  qed
qed

end
