(* ===== verification/Pipeline_Off.thy ===== *)
theory Pipeline_Off
  imports Pipeline_Life
begin

text \<open>
  Disabling an enabled pipeline: the workers are destroyed, the threads end wherever the run
  has taken them, they are joined, and the buffers are collected. Enabling it again.
\<close>

definition all_workers :: "(mtdp_worker \<Rightarrow> bool) \<Rightarrow> 'u mtdp_pipeline \<Rightarrow> bool" where
  "all_workers P pl \<longleftrightarrow> P (so_worker (source_impl pl)) \<and> (\<forall>g \<in> set (stage_impls pl). P (st_worker g)) \<and>
     P (sk_worker (sink_impl pl))"

lemma workers_ready_all: "workers_ready pl = all_workers worker_ready pl"
  by (simp add: workers_ready_def all_workers_def)

lemma all_workers_conj: "all_workers (\<lambda>w. P w \<and> Q w) pl \<longleftrightarrow> all_workers P pl \<and> all_workers Q pl"
  by (auto simp: all_workers_def)

lemma worker_destroy_ok:
  "runtime_ok rt \<Longrightarrow> worker_ready w \<Longrightarrow>
     mtdp_worker_destroy rt w = Some (True, rt\<lparr>calls := calls rt + 3\<rparr>, w\<lparr>destroyed := True\<rparr>)"
  unfolding mtdp_worker_destroy_def by (rule worker_set_ok) (simp_all add: runtime_ok_rt_ok)

lemma worker_join_ok:
  "runtime_ok rt \<Longrightarrow> thread w \<Longrightarrow>
     mtdp_worker_join rt w = Some (True, rt\<lparr>calls := Suc (calls rt), threads := threads rt - 1\<rparr>, w\<lparr>thread := False\<rparr>)"
  by (simp add: mtdp_worker_join_def rt_call_def runtime_ok_def)

lemma destroy_stages:
  fixes pl :: "'u mtdp_pipeline"
  assumes rt: "runtime_ok rt" and l: "length gs = n" and w: "\<And>g. g \<in> set gs \<Longrightarrow> worker_ready (st_worker g)"
  obtains rt' where "for_up 0 n destroy_stage (rt, pl\<lparr>stage_impls := gs\<rparr>) = Some (rt',
      pl\<lparr>stage_impls := map (\<lambda>g. g\<lparr>st_worker := (st_worker g)\<lparr>destroyed := True\<rparr>, st_done := 1\<rparr>) gs\<rparr>)"
    "runtime_ok rt' \<and> threads rt' = threads rt"
proof (rule for_up_map_all[where Q = "\<lambda>k r. runtime_ok r \<and> threads r = threads rt" and r = rt
      and u = "\<lambda>gs. pl\<lparr>stage_impls := gs\<rparr>" and body = destroy_stage and xs = gs and n = n
      and f = "\<lambda>g. g\<lparr>st_worker := (st_worker g)\<lparr>destroyed := True\<rparr>, st_done := 1\<rparr>"])
  fix k and r :: runtime and ys
  assume a: "k < n" "length ys = n" "ys ! k = gs ! k" "runtime_ok r \<and> threads r = threads rt"
  have "worker_ready (st_worker (gs ! k))" using w a(1) l by simp
  then show "\<exists>r'. destroy_stage k (r, pl\<lparr>stage_impls := ys\<rparr>) = Some (r', pl\<lparr>stage_impls :=
      ys[k := (gs ! k)\<lparr>st_worker := (st_worker (gs ! k))\<lparr>destroyed := True\<rparr>, st_done := 1\<rparr>]\<rparr>) \<and>
      (runtime_ok r' \<and> threads r' = threads rt)"
    using a by (simp add: destroy_stage_def mtdp_stage_destroy_def worker_destroy_ok)
qed (use rt l in simp_all)

lemma join_stages:
  fixes pl :: "'u mtdp_pipeline"
  assumes rt: "runtime_ok rt" and l: "length gs = n" and w: "\<And>g. g \<in> set gs \<Longrightarrow> thread (st_worker g)"
  obtains rt' where "for_up 0 n join_stage (rt, pl\<lparr>stage_impls := gs\<rparr>) = Some (rt',
      pl\<lparr>stage_impls := map (\<lambda>g. g\<lparr>st_worker := (st_worker g)\<lparr>thread := False\<rparr>\<rparr>) gs\<rparr>)"
    "runtime_ok rt' \<and> threads rt' = threads rt - int n"
proof (rule for_up_map_all[where Q = "\<lambda>k r. runtime_ok r \<and> threads r = threads rt - int k" and r = rt
      and u = "\<lambda>gs. pl\<lparr>stage_impls := gs\<rparr>" and body = join_stage and xs = gs and n = n
      and f = "\<lambda>g. g\<lparr>st_worker := (st_worker g)\<lparr>thread := False\<rparr>\<rparr>"])
  fix k and r :: runtime and ys
  assume a: "k < n" "length ys = n" "ys ! k = gs ! k" "runtime_ok r \<and> threads r = threads rt - int k"
  have "thread (st_worker (gs ! k))" using w a(1) l by simp
  then show "\<exists>r'. join_stage k (r, pl\<lparr>stage_impls := ys\<rparr>) = Some (r', pl\<lparr>stage_impls :=
      ys[k := (gs ! k)\<lparr>st_worker := (st_worker (gs ! k))\<lparr>thread := False\<rparr>\<rparr>]\<rparr>) \<and>
      (runtime_ok r' \<and> threads r' = threads rt - int (Suc k))"
    using a by (simp add: join_stage_def worker_join_ok)
qed (use rt l in simp_all)

lemma done_stages:
  assumes l: "length gs = n"
  shows "for_up 0 n done_stage gs = Some (map (\<lambda>g. g\<lparr>st_done := 1\<rparr>) gs)"
proof -
  let ?f = "\<lambda>g. g\<lparr>st_done := 1\<rparr> :: mtdp_stage_impl"
  have "\<exists>hs. for_up 0 n done_stage gs = Some hs \<and> hs = map ?f (take n gs) @ drop n gs"
  proof (rule for_up_rule)
    fix k hs assume k: "k < n" and hs: "hs = map ?f (take k gs) @ drop k gs"
    have "drop k gs = gs ! k # drop (Suc k) gs" "take (Suc k) gs = take k gs @ [gs ! k]"
      using k l by (simp_all add: Cons_nth_drop_Suc take_Suc_conv_app_nth)
    with k l show "\<exists>s'. done_stage (0 + k) hs = Some s' \<and> s' = map ?f (take (Suc k) gs) @ drop (Suc k) gs"
      by (simp add: done_stage_def hs nth_append list_update_append)
  qed simp
  with l show ?thesis by simp
qed

section \<open>Disabling\<close>

definition pipeline_destroyed :: "'u mtdp_pipeline \<Rightarrow> 'u mtdp_pipeline" where
  "pipeline_destroyed pl = pl\<lparr>destroying := 1,
     source_impl := (source_impl pl)\<lparr>so_done := 1, so_worker := (so_worker (source_impl pl))\<lparr>destroyed := True\<rparr>\<rparr>,
     stage_impls := map (\<lambda>g. g\<lparr>st_worker := (st_worker g)\<lparr>destroyed := True\<rparr>, st_done := 1\<rparr>) (stage_impls pl),
     sink_impl := (sink_impl pl)\<lparr>sk_worker := (sk_worker (sink_impl pl))\<lparr>destroyed := True\<rparr>, sk_done := 1\<rparr>\<rparr>"

definition pipeline_joined :: "'u mtdp_pipeline \<Rightarrow> 'u mtdp_pipeline" where
  "pipeline_joined pl = pl\<lparr>
     source_impl := (source_impl pl)\<lparr>so_worker := (so_worker (source_impl pl))\<lparr>thread := False\<rparr>\<rparr>,
     stage_impls := map (\<lambda>g. g\<lparr>st_worker := (st_worker g)\<lparr>thread := False\<rparr>\<rparr>) (stage_impls pl),
     sink_impl := (sink_impl pl)\<lparr>sk_worker := (sk_worker (sink_impl pl))\<lparr>thread := False\<rparr>\<rparr>\<rparr>"

definition pipeline_off :: "mtdp_pipe list \<Rightarrow> 'u mtdp_pipeline \<Rightarrow> 'u mtdp_pipeline" where
  "pipeline_off ps pl = (pipeline_emptied pl ps)\<lparr>
     stage_impls := map (\<lambda>g. g\<lparr>st_done := 1\<rparr>) (stage_impls (pipeline_emptied pl ps)),
     pl_active := False, pl_enabled := False, destroying := 0\<rparr>"

lemma pipeline_join_ok:
  assumes rt: "runtime_ok rt" and t: "all_workers thread pl" and l: "length (stage_impls pl) = n_stages pl"
  obtains rt' where "mtdp_pipeline_join rt pl = Some (rt', pipeline_joined pl)" "runtime_ok rt'"
    "threads rt' = threads rt - int (n_stages pl) - 2"
proof -
  let ?rt1 = "rt\<lparr>calls := Suc (calls rt), threads := threads rt - 1\<rparr>"
  let ?pl = "pl\<lparr>source_impl := (source_impl pl)\<lparr>so_worker := (so_worker (source_impl pl))\<lparr>thread := False\<rparr>\<rparr>\<rparr>"
  obtain rt2 where st: "for_up 0 (n_stages pl) join_stage (?rt1, ?pl\<lparr>stage_impls := stage_impls pl\<rparr>) = Some (rt2,
      ?pl\<lparr>stage_impls := map (\<lambda>g. g\<lparr>st_worker := (st_worker g)\<lparr>thread := False\<rparr>\<rparr>) (stage_impls pl)\<rparr>)"
    "runtime_ok rt2 \<and> threads rt2 = threads ?rt1 - int (n_stages pl)"
    by (rule join_stages[where pl = ?pl and rt = ?rt1 and gs = "stage_impls pl" and n = "n_stages pl"])
       (use rt t l in \<open>auto simp: all_workers_def\<close>)
  have "mtdp_pipeline_join rt pl =
      Some (rt2\<lparr>calls := Suc (calls rt2), threads := threads rt2 - 1\<rparr>, pipeline_joined pl)"
    using rt t st by (simp add: mtdp_pipeline_join_def worker_join_ok all_workers_def pipeline_joined_def Let_def)
  then show ?thesis by (rule that) (use st(2) in simp_all)
qed

text \<open>At rest, what the neighbours of a pipe hold is what their contexts show.\<close>

lemma rest_views:
  assumes inv: "flow_inv cfg B s" and rest: "at_rest s" and k: "k \<le> length (fl_stages s)"
  shows "producer s k = (if k = 0 then so_output (so_context (fl_source s))
      else st_output (st_context (fl_stages s ! (k - 1))), False)"
    "consumer s k = (if k < length (fl_stages s) then st_input (st_context (fl_stages s ! k))
      else sk_input (sk_context (fl_sink s)), False)"
proof -
  have at: "st_at s ! i = St_Entry" if "i < length (fl_stages s)" for i
    using rest flow_invD(2)[OF inv] that by (simp add: at_rest_def)
  show "producer s k = (if k = 0 then so_output (so_context (fl_source s))
      else st_output (st_context (fl_stages s ! (k - 1))), False)"
    using at[of "k - 1"] rest k by (auto simp: producer_def source_view_def stage_out_view_def at_rest_def)
  show "consumer s k = (if k < length (fl_stages s) then st_input (st_context (fl_stages s ! k))
      else sk_input (sk_context (fl_sink s)), False)"
    using at[of k] rest by (auto simp: consumer_def sink_view_def stage_in_view_def at_rest_def)
qed

lemma rest_clear:
  assumes inv: "flow_inv cfg B s" and rest: "at_rest s" and n: "n_stages pl = length (fl_stages s)"
    and l: "length (stage_impls pl) = n_stages pl" and at: "pipes pl = sh_pipes (fl_sh s)"
    and ctx: "so_context (source_impl pl) = so_context (fl_source s)" "sk_context (sink_impl pl) = sk_context (fl_sink s)"
      "\<And>i. i < n_stages pl \<Longrightarrow> st_context (stage_impls pl ! i) = st_context (fl_stages s ! i)"
  obtains ps where "mtdp_pipeline_clear cfg (sh_mem (fl_sh s)) pl = Some (sh_mem (fl_sh s), pipeline_emptied pl ps)"
    "all_cleared cfg (sh_mem (fl_sh s)) (sh_pipes (fl_sh s)) B ps"
proof -
  let ?m = "sh_mem (fl_sh s)"
  have lp: "length (pipes pl) = Suc (n_stages pl)" using flow_invD(1)[OF inv] n at by simp
  have "pipe_inv cfg ?m (pipes pl ! k) \<and> size (B k) \<le> pcapacity (pool (pipes pl ! k)) \<and>
      pipe_content cfg ?m (pipes pl ! k) + held (held_out pl k) + held (held_in pl k) = B k" if k: "k \<le> n_stages pl" for k
  proof -
    have kn: "k \<le> length (fl_stages s)" using k n by simp
    have "k < length (sh_pipes (fl_sh s))" using kn flow_invD(1)[OF inv] by simp
    note lk = links_invD(1)[OF flow_invD(8)[OF inv] this]
    note v = rest_views[OF inv rest kn]
    have h: "held_out pl k = fst (producer s k)" "held_in pl k = fst (consumer s k)"
      using v k n ctx by (auto simp: held_out_def held_in_def)
    show ?thesis using pipe_linkD[OF lk[unfolded v]] h v at by simp
  qed
  from pipeline_clear_all[OF lp l, of cfg ?m B] this that at show ?thesis by metis
qed

lemma pipeline_disable_ok:
  assumes rt: "runtime_ok rt" and on: "pl_enabled pl" and w: "workers_ready pl" "all_workers thread pl"
    and l: "length (stage_impls pl) = n_stages pl" and n: "n_stages pl = length (fl_stages s)"
    and inv: "flow_inv cfg B s" and rest: "at_rest s"
  obtains rt' ps where "mtdp_pipeline_disable (settle_at s) cfg m rt (Some pl) =
      Some (True, sh_mem (fl_sh s), rt', Some (pipeline_off ps (pipeline_joined (pipeline_at s (pipeline_destroyed pl)))))"
    "all_cleared cfg (sh_mem (fl_sh s)) (sh_pipes (fl_sh s)) B ps" "runtime_ok rt'"
    "threads rt' = threads rt - int (n_stages pl) - 2" "errno rt' = MTDP_OK"
proof -
  let ?n = "n_stages pl"
  let ?so = "(source_impl pl)\<lparr>so_done := 1, so_worker := (so_worker (source_impl pl))\<lparr>destroyed := True\<rparr>\<rparr>"
  let ?rt1 = "rt\<lparr>calls := calls rt + 3\<rparr>"
  let ?pl1 = "pl\<lparr>destroying := 1, source_impl := ?so\<rparr>"
  have so: "mtdp_source_destroy rt (source_impl pl) = Some (?rt1, ?so)"
    using rt w(1) by (simp add: mtdp_source_destroy_def worker_destroy_ok workers_ready_def Let_def)
  obtain rt2 where st: "for_up 0 ?n destroy_stage (?rt1, ?pl1\<lparr>stage_impls := stage_impls pl\<rparr>) = Some (rt2,
      ?pl1\<lparr>stage_impls := map (\<lambda>g. g\<lparr>st_worker := (st_worker g)\<lparr>destroyed := True\<rparr>, st_done := 1\<rparr>) (stage_impls pl)\<rparr>)"
    "runtime_ok rt2 \<and> threads rt2 = threads ?rt1"
    by (rule destroy_stages[where pl = ?pl1 and rt = ?rt1 and gs = "stage_impls pl" and n = ?n])
       (use rt w(1) l in \<open>auto simp: workers_ready_def\<close>)
  have sk: "mtdp_sink_destroy rt2 (sink_impl pl) = Some (rt2\<lparr>calls := calls rt2 + 3\<rparr>,
      (sink_impl pl)\<lparr>sk_worker := (sk_worker (sink_impl pl))\<lparr>destroyed := True\<rparr>, sk_done := 1\<rparr>)"
    using st(2) w(1) by (simp add: mtdp_sink_destroy_def worker_destroy_ok workers_ready_def)
  let ?pl3 = "pipeline_at s (pipeline_destroyed pl)"
  have l3: "n_stages ?pl3 = ?n" "length (stage_impls ?pl3) = ?n"
    using l n by (simp_all add: pipeline_at_def pipeline_destroyed_def)
  have t3: "all_workers thread ?pl3"
    using w(2) l n by (auto simp: all_workers_def pipeline_at_def pipeline_destroyed_def in_set_zip)
  obtain rt4 where jn: "mtdp_pipeline_join (rt2\<lparr>calls := calls rt2 + 3\<rparr>) ?pl3 = Some (rt4, pipeline_joined ?pl3)"
    "runtime_ok rt4" "threads rt4 = threads (rt2\<lparr>calls := calls rt2 + 3\<rparr>) - int (n_stages ?pl3) - 2"
    by (rule pipeline_join_ok[of "rt2\<lparr>calls := calls rt2 + 3\<rparr>", OF _ t3]) (use st(2) l3 in simp_all)
  let ?pl4 = "pipeline_joined ?pl3"
  obtain ps where cl: "mtdp_pipeline_clear cfg (sh_mem (fl_sh s)) ?pl4 = Some (sh_mem (fl_sh s), pipeline_emptied ?pl4 ps)"
    "all_cleared cfg (sh_mem (fl_sh s)) (sh_pipes (fl_sh s)) B ps"
  proof (rule rest_clear[OF inv rest])
    show "n_stages ?pl4 = length (fl_stages s)" "length (stage_impls ?pl4) = n_stages ?pl4"
      using l3 n by (simp_all add: pipeline_joined_def)
    show "pipes ?pl4 = sh_pipes (fl_sh s)" "so_context (source_impl ?pl4) = so_context (fl_source s)"
      "sk_context (sink_impl ?pl4) = sk_context (fl_sink s)"
      by (simp_all add: pipeline_joined_def pipeline_at_def)
    show "st_context (stage_impls ?pl4 ! i) = st_context (fl_stages s ! i)" if "i < n_stages ?pl4" for i
      using that l3 l n by (simp add: pipeline_joined_def pipeline_at_def pipeline_destroyed_def)
  qed
  have le: "n_stages (pipeline_emptied ?pl4 ps) = ?n" "length (stage_impls (pipeline_emptied ?pl4 ps)) = ?n"
    using l3 by (simp_all add: pipeline_emptied_def pipeline_joined_def)
  have pd: "?pl1\<lparr>stage_impls := map (\<lambda>g. g\<lparr>st_worker := (st_worker g)\<lparr>destroyed := True\<rparr>, st_done := 1\<rparr>) (stage_impls pl),
      sink_impl := (sink_impl pl)\<lparr>sk_worker := (sk_worker (sink_impl pl))\<lparr>destroyed := True\<rparr>, sk_done := 1\<rparr>\<rparr> =
      pipeline_destroyed pl" by (simp add: pipeline_destroyed_def)
  have "mtdp_pipeline_disable (settle_at s) cfg m rt (Some pl) =
      Some (True, sh_mem (fl_sh s), set_errno MTDP_OK rt4, Some (pipeline_off ps ?pl4))"
    using on so st(1) sk jn(1) cl(1) pd done_stages[OF le(2)] le(1)
    by (simp add: mtdp_pipeline_disable_def Let_def settle_at_def pipeline_off_def)
  then show ?thesis
    by (rule that) (use jn cl st(2) l3 in \<open>simp_all add: set_errno_def runtime_ok_def\<close>)
qed

end
