(* ===== verification/Pipeline_Control.thy ===== *)
theory Pipeline_Control
  imports Pipeline_Off
begin

text \<open>
  Starting and stopping: the loops over the workers, the three states of a pipeline as its
  documentation describes them (\<open>include/mtdp/pipeline.h\<close>) and what the calls do to them.
\<close>

section \<open>Setting all workers\<close>

definition set_workers :: "(mtdp_worker \<Rightarrow> mtdp_worker) \<Rightarrow> 'u mtdp_pipeline \<Rightarrow> 'u mtdp_pipeline" where
  "set_workers g pl = pl\<lparr>
     source_impl := (source_impl pl)\<lparr>so_worker := g (so_worker (source_impl pl))\<rparr>,
     stage_impls := map (\<lambda>h. h\<lparr>st_worker := g (st_worker h)\<rparr>) (stage_impls pl),
     sink_impl := (sink_impl pl)\<lparr>sk_worker := g (sk_worker (sink_impl pl))\<rparr>\<rparr>"

lemma all_workers_set: "all_workers P (set_workers g pl) = all_workers (\<lambda>w. P (g w)) pl"
  by (auto simp: all_workers_def set_workers_def)

lemma set_stage_workers:
  fixes pl :: "'u mtdp_pipeline"
  assumes op: "\<And>r w. Q r \<Longrightarrow> R w \<Longrightarrow> \<exists>b r'. op r w = Some (b, r', g w) \<and> Q r'" and q: "Q rt"
    and l: "length gs = n" and R: "\<And>h. h \<in> set gs \<Longrightarrow> R (st_worker h)"
  shows "\<exists>rt'. for_up 0 n (set_stage_worker op) (rt, pl\<lparr>stage_impls := gs\<rparr>) =
      Some (rt', pl\<lparr>stage_impls := map (\<lambda>h. h\<lparr>st_worker := g (st_worker h)\<rparr>) gs\<rparr>) \<and> Q rt'"
    "\<exists>rt'. for_down n (set_stage_worker op) (rt, pl\<lparr>stage_impls := gs\<rparr>) =
      Some (rt', pl\<lparr>stage_impls := map (\<lambda>h. h\<lparr>st_worker := g (st_worker h)\<rparr>) gs\<rparr>) \<and> Q rt'"
proof -
  have step: "\<exists>r'. set_stage_worker op k (r, pl\<lparr>stage_impls := ys\<rparr>) =
      Some (r', pl\<lparr>stage_impls := ys[k := (gs ! k)\<lparr>st_worker := g (st_worker (gs ! k))\<rparr>]\<rparr>) \<and> Q r'"
    if "k < n" "length ys = n" "ys ! k = gs ! k" "Q r" for k r ys
  proof -
    have "R (st_worker (gs ! k))" using R that(1) l by simp
    with op[OF that(4)] obtain b r' where "op r (st_worker (gs ! k)) = Some (b, r', g (st_worker (gs ! k)))" "Q r'" by blast
    then show ?thesis using that by (auto simp: set_stage_worker_def)
  qed
  show "\<exists>rt'. for_up 0 n (set_stage_worker op) (rt, pl\<lparr>stage_impls := gs\<rparr>) =
      Some (rt', pl\<lparr>stage_impls := map (\<lambda>h. h\<lparr>st_worker := g (st_worker h)\<rparr>) gs\<rparr>) \<and> Q rt'"
    by (rule for_up_map_all[where Q = "\<lambda>_. Q" and u = "\<lambda>gs. pl\<lparr>stage_impls := gs\<rparr>" and body = "set_stage_worker op"
          and f = "\<lambda>h. h\<lparr>st_worker := g (st_worker h)\<rparr>", OF q l step]) auto
  obtain rt' where "for_down n (set_stage_worker op) (rt, pl\<lparr>stage_impls := gs\<rparr>) =
      Some (rt', pl\<lparr>stage_impls := map (\<lambda>k. (gs ! k)\<lparr>st_worker := g (st_worker (gs ! k))\<rparr>) [0..<n]\<rparr>)" "Q rt'"
    by (rule for_down_map[where Q = "\<lambda>_. Q" and u = "\<lambda>gs. pl\<lparr>stage_impls := gs\<rparr>" and body = "set_stage_worker op"
          and f = "\<lambda>k h. h\<lparr>st_worker := g (st_worker h)\<rparr>", OF q l step])
  then show "\<exists>rt'. for_down n (set_stage_worker op) (rt, pl\<lparr>stage_impls := gs\<rparr>) =
      Some (rt', pl\<lparr>stage_impls := map (\<lambda>h. h\<lparr>st_worker := g (st_worker h)\<rparr>) gs\<rparr>) \<and> Q rt'"
    by (simp only: map_index[OF l, where f = "\<lambda>h. h\<lparr>st_worker := g (st_worker h)\<rparr>"]) blast
qed

lemma set_all_workers:
  fixes pl :: "'u mtdp_pipeline"
  assumes op: "\<And>r w. Q r \<Longrightarrow> R w \<Longrightarrow> \<exists>b r'. op r w = Some (b, r', g w) \<and> Q r'" and q: "Q rt"
    and l: "length (stage_impls pl) = n_stages pl" and R: "all_workers R pl"
  shows "\<exists>rt'. do { s \<leftarrow> set_sink_worker op (rt, pl); s \<leftarrow> for_down (n_stages pl) (set_stage_worker op) s;
        set_source_worker op s } = Some (rt', set_workers g pl) \<and> Q rt'" (is ?down)
    "\<exists>rt'. do { s \<leftarrow> set_source_worker op (rt, pl); s \<leftarrow> for_up 0 (n_stages pl) (set_stage_worker op) s;
        set_sink_worker op s } = Some (rt', set_workers g pl) \<and> Q rt'" (is ?up)
proof -
  have R': "R (so_worker (source_impl pl))" "R (sk_worker (sink_impl pl))" "\<And>h. h \<in> set (stage_impls pl) \<Longrightarrow> R (st_worker h)"
    using R by (auto simp: all_workers_def)
  let ?so = "(source_impl pl)\<lparr>so_worker := g (so_worker (source_impl pl))\<rparr>"
  let ?sk = "(sink_impl pl)\<lparr>sk_worker := g (sk_worker (sink_impl pl))\<rparr>"
  let ?gs = "map (\<lambda>h. h\<lparr>st_worker := g (st_worker h)\<rparr>) (stage_impls pl)"
  show ?down
  proof -
    obtain b1 r1 where 1: "op rt (sk_worker (sink_impl pl)) = Some (b1, r1, g (sk_worker (sink_impl pl)))" "Q r1"
      using op[OF q R'(2)] by blast
    obtain r2 where 2: "for_down (n_stages pl) (set_stage_worker op) (r1, (pl\<lparr>sink_impl := ?sk\<rparr>)\<lparr>stage_impls := stage_impls pl\<rparr>) =
        Some (r2, (pl\<lparr>sink_impl := ?sk\<rparr>)\<lparr>stage_impls := ?gs\<rparr>)" "Q r2"
      using set_stage_workers(2)[where Q = Q and R = R and op = op and g = g and pl = "pl\<lparr>sink_impl := ?sk\<rparr>"
          and gs = "stage_impls pl", OF op 1(2) l R'(3)] by blast
    obtain b3 r3 where 3: "op r2 (so_worker (source_impl pl)) = Some (b3, r3, g (so_worker (source_impl pl)))" "Q r3"
      using op[OF 2(2) R'(1)] by blast
    show ?thesis using 1 2 3 by (simp add: set_sink_worker_def set_source_worker_def set_workers_def)
  qed
  show ?up
  proof -
    obtain b1 r1 where 1: "op rt (so_worker (source_impl pl)) = Some (b1, r1, g (so_worker (source_impl pl)))" "Q r1"
      using op[OF q R'(1)] by blast
    obtain r2 where 2: "for_up 0 (n_stages pl) (set_stage_worker op) (r1, (pl\<lparr>source_impl := ?so\<rparr>)\<lparr>stage_impls := stage_impls pl\<rparr>) =
        Some (r2, (pl\<lparr>source_impl := ?so\<rparr>)\<lparr>stage_impls := ?gs\<rparr>)" "Q r2"
      using set_stage_workers(1)[where Q = Q and R = R and op = op and g = g and pl = "pl\<lparr>source_impl := ?so\<rparr>"
          and gs = "stage_impls pl", OF op 1(2) l R'(3)] by blast
    obtain b3 r3 where 3: "op r2 (sk_worker (sink_impl pl)) = Some (b3, r3, g (sk_worker (sink_impl pl)))" "Q r3"
      using op[OF 2(2) R'(2)] by blast
    show ?thesis using 1 2 3 by (simp add: set_sink_worker_def set_source_worker_def set_workers_def)
  qed
qed

section \<open>Start and stop\<close>

lemma pipeline_start_set:
  assumes on: "pl_enabled pl" "\<not> pl_active pl"
    and op: "\<And>r w. Q r \<Longrightarrow> R w \<Longrightarrow> \<exists>b r'. mtdp_worker_enable r w = Some (b, r', g w) \<and> Q r'" "Q rt"
    and l: "length (stage_impls pl) = n_stages pl" and R: "all_workers R pl"
  obtains rt' where "mtdp_pipeline_start rt (Some pl) =
    Some (True, set_errno MTDP_OK rt', Some ((set_workers g pl)\<lparr>pl_active := True\<rparr>))" "Q rt'"
proof -
  obtain rt' where r: "do { s \<leftarrow> set_sink_worker mtdp_worker_enable (rt, pl);
      s \<leftarrow> for_down (n_stages pl) (set_stage_worker mtdp_worker_enable) s;
      set_source_worker mtdp_worker_enable s } = Some (rt', set_workers g pl)" "Q rt'"
    using set_all_workers(1)[where op = mtdp_worker_enable and Q = Q and R = R and g = g, OF op l R] by blast
  from r(1) obtain s1 s2 where "set_sink_worker mtdp_worker_enable (rt, pl) = Some s1"
    "for_down (n_stages pl) (set_stage_worker mtdp_worker_enable) s1 = Some s2"
    "set_source_worker mtdp_worker_enable s2 = Some (rt', set_workers g pl)"
    unfolding bind_eq_Some_conv by blast
  with on r(2) that show ?thesis by (simp add: mtdp_pipeline_start_def)
qed

lemma pipeline_stop_set:
  assumes on: "pl_enabled pl" "pl_active pl"
    and op: "\<And>r w. Q r \<Longrightarrow> R w \<Longrightarrow> \<exists>b r'. mtdp_worker_disable r w = Some (b, r', g w) \<and> Q r'" "Q rt"
    and l: "length (stage_impls pl) = n_stages pl" and R: "all_workers R pl"
  obtains rt' where "mtdp_pipeline_stop rt (Some pl) =
    Some (True, set_errno MTDP_OK rt', Some ((set_workers g pl)\<lparr>pl_active := False\<rparr>))" "Q rt'"
proof -
  obtain rt' where r: "do { s \<leftarrow> set_source_worker mtdp_worker_disable (rt, pl);
      s \<leftarrow> for_up 0 (n_stages pl) (set_stage_worker mtdp_worker_disable) s;
      set_sink_worker mtdp_worker_disable s } = Some (rt', set_workers g pl)" "Q rt'"
    using set_all_workers(2)[where op = mtdp_worker_disable and Q = Q and R = R and g = g, OF op l R] by blast
  from r(1) obtain s1 s2 where "set_source_worker mtdp_worker_disable (rt, pl) = Some s1"
    "for_up 0 (n_stages pl) (set_stage_worker mtdp_worker_disable) s1 = Some s2"
    "set_sink_worker mtdp_worker_disable s2 = Some (rt', set_workers g pl)"
    unfolding bind_eq_Some_conv by blast
  with on r(2) that show ?thesis by (simp add: mtdp_pipeline_stop_def)
qed

lemma worker_setters_ok:
  assumes "runtime_ok rt" "worker_ready w"
  shows "\<exists>b r'. mtdp_worker_enable rt w = Some (b, r', w\<lparr>enabled := True\<rparr>) \<and> runtime_ok r' \<and> threads r' = threads rt"
    "\<exists>b r'. mtdp_worker_disable rt w = Some (b, r', w\<lparr>enabled := False\<rparr>) \<and> runtime_ok r' \<and> threads r' = threads rt"
  unfolding mtdp_worker_enable_def mtdp_worker_disable_def
  using worker_set_ok[OF assms(2) runtime_ok_rt_ok[OF assms(1)], of "\<lambda>w. w\<lparr>enabled := True\<rparr>"]
    worker_set_ok[OF assms(2) runtime_ok_rt_ok[OF assms(1)], of "\<lambda>w. w\<lparr>enabled := False\<rparr>"] assms(1) by auto

end
