(* ===== verification/Routines.thy ===== *)
theory Routines
  imports Dataflow
begin

text \<open>
  A routine as its caller, the worker, sees it: a function that returns. The contract
  \<open>stepped_routine\<close> is about any routine given by steps: an invariant that every step keeps and
  a rank that every step lowers; its client lemma is that the run of the steps returns.
  It is interpreted on the source, the stage and the sink.
\<close>

section \<open>The contract\<close>

locale stepped_routine =
  fixes step :: "'pc \<Rightarrow> 's \<Rightarrow> ('pc option \<times> 's) option"
    and inv :: "'pc \<Rightarrow> 's \<Rightarrow> bool"
    and rank :: "'pc \<Rightarrow> nat"
    and fin :: "'s \<Rightarrow> bool"
  assumes step_ok: "inv pc s \<Longrightarrow> \<exists>r s'. step pc s = Some (r, s') \<and>
      (case r of None \<Rightarrow> fin s' | Some pc' \<Rightarrow> inv pc' s')"
    and step_rank: "step pc s = Some (Some pc', s') \<Longrightarrow> rank pc' < rank pc"
begin

lemma returns: "inv pc s \<Longrightarrow> rank pc < n \<Longrightarrow> \<exists>s'. steps_run n step pc s = Some s' \<and> fin s'"
proof (induction n arbitrary: pc s)
  case (Suc n)
  obtain r s1 where s1: "step pc s = Some (r, s1)" "case r of None \<Rightarrow> fin s1 | Some pc' \<Rightarrow> inv pc' s1"
    using step_ok[OF Suc.prems(1)] by blast
  show ?case
  proof (cases r)
    case (Some pc')
    then have "inv pc' s1" "rank pc' < n" using s1 step_rank[of pc s pc' s1] Suc.prems(2) by simp_all
    from Suc.IH[OF this] s1 Some show ?thesis by simp
  qed (use s1 in simp)
qed simp

text \<open>More fuel does not change the result.\<close>

lemma fuel_irrelevant: "rank pc < n \<Longrightarrow> steps_run (n + k) step pc s = steps_run n step pc s"
proof (induction n arbitrary: pc s)
  case (Suc n)
  show ?case
  proof (cases "step pc s")
    case (Some x)
    obtain r s1 where x: "x = (r, s1)" by fastforce
    show ?thesis
    proof (cases r)
      case (Some pc')
      then have "rank pc' < n" using \<open>step pc s = Some x\<close> x step_rank[of pc s pc' s1] Suc.prems by simp
      from Suc.IH[OF this] show ?thesis using \<open>step pc s = Some x\<close> x Some by simp
    qed (use Some x in simp)
  qed simp
qed simp

end

section \<open>The three routines\<close>

fun source_rank :: "source_pc \<Rightarrow> nat" where
  "source_rank So_Entry = 3"
| "source_rank So_Release = 2"
| "source_rank So_Get = 1"
| "source_rank So_Process = 0"

fun stage_rank :: "stage_pc \<Rightarrow> nat" where
  "stage_rank St_Entry = 7"
| "stage_rank St_Release = 6"
| "stage_rank St_Acquire = 5"
| "stage_rank St_Unset = 4"
| "stage_rank St_GetFull = 3"
| "stage_rank St_Return = 0"
| "stage_rank St_GetEmpty = 2"
| "stage_rank St_Process = 1"
| "stage_rank St_PutBack = 0"

fun sink_rank :: "sink_pc \<Rightarrow> nat" where
  "sink_rank Sk_Entry = 4"
| "sink_rank Sk_Acquire = 3"
| "sink_rank Sk_Unset = 2"
| "sink_rank Sk_GetFull = 1"
| "sink_rank Sk_Return = 0"
| "sink_rank Sk_Process = 0"

lemma source_step_rank: "source_step cfg pc s = Some (Some pc', s') \<Longrightarrow> source_rank pc' < source_rank pc"
  by (cases pc; cases s) (auto simp: source_step_def Let_def bind_eq_Some_conv split: if_splits prod.splits)

lemma stage_step_rank: "stage_step cfg pc s = Some (Some pc', s') \<Longrightarrow> stage_rank pc' < stage_rank pc"
  by (cases pc; cases s) (auto simp: stage_step_def Let_def bind_eq_Some_conv split: if_splits prod.splits)

lemma sink_step_rank: "sink_step cfg pc s = Some (Some pc', s') \<Longrightarrow> sink_rank pc' < sink_rank pc"
  by (cases pc; cases s) (auto simp: sink_step_def Let_def bind_eq_Some_conv split: if_splits prod.splits)

text \<open>The invariants: the thread's own and, in some environment, all links.\<close>

definition source_among :: "fifo_config \<Rightarrow> (nat \<Rightarrow> mtdp_buffer multiset) \<Rightarrow> source_pc \<Rightarrow>
    'u shared \<times> 'u mtdp_source_impl \<Rightarrow> bool" where
  "source_among cfg B pc s \<longleftrightarrow> (case s of (sh, self) \<Rightarrow> source_ok pc self \<and> 0 < length (sh_pipes sh) \<and>
     (\<exists>p c x y. links_inv cfg B sh p c x y \<and> p 0 = source_view pc self))"

definition stage_among :: "fifo_config \<Rightarrow> (nat \<Rightarrow> mtdp_buffer multiset) \<Rightarrow> nat \<Rightarrow> stage_pc \<Rightarrow>
    'u shared \<times> mtdp_stage_impl \<Rightarrow> bool" where
  "stage_among cfg B i pc s \<longleftrightarrow> (case s of (sh, self) \<Rightarrow> stage_ok i pc self \<and> Suc i < length (sh_pipes sh) \<and>
     i < length (sh_stages sh) \<and> stage_user_ok (sh_stages sh ! i) \<and>
     (\<exists>p c x y. links_inv cfg B sh p c x y \<and> p (Suc i) = stage_out_view pc self \<and> c i = stage_in_view pc self))"

definition sink_among :: "fifo_config \<Rightarrow> (nat \<Rightarrow> mtdp_buffer multiset) \<Rightarrow> nat \<Rightarrow> sink_pc \<Rightarrow>
    'u shared \<times> 'u mtdp_sink_impl \<Rightarrow> bool" where
  "sink_among cfg B n pc s \<longleftrightarrow> (case s of (sh, self) \<Rightarrow> sink_ok n pc self \<and> n < length (sh_pipes sh) \<and>
     (\<exists>p c x y. links_inv cfg B sh p c x y \<and> c n = sink_view pc self))"

interpretation source_routine: stepped_routine "source_step cfg" "source_among cfg B" source_rank "source_among cfg B So_Entry"
  for cfg B
proof unfold_locales
  fix pc :: source_pc and s :: "'a shared \<times> 'a mtdp_source_impl"
  assume "source_among cfg B pc s"
  then obtain sh self p c x y where s: "s = (sh, self)" "source_ok pc self" "0 < length (sh_pipes sh)"
    "links_inv cfg B sh p c x y" "p 0 = source_view pc self" by (auto simp: source_among_def)
  obtain r sh' self' where t: "source_step cfg pc (sh, self) = Some (r, sh', self')" "source_ok (source_next r) self'"
    "links_inv cfg B sh' (p(0 := source_view (source_next r) self')) c (x(0 := x 0 @ source_pushes pc r self)) y"
    "length (sh_pipes sh') = length (sh_pipes sh)"
    by (rule source_step_links[OF s(2-5)])
  then have "source_among cfg B (source_next r) (sh', self')"
    using s(3) by (auto simp: source_among_def intro!: exI)
  with t(1) s(1) show "\<exists>r s'. source_step cfg pc s = Some (r, s') \<and>
      (case r of None \<Rightarrow> source_among cfg B So_Entry s' | Some pc' \<Rightarrow> source_among cfg B pc' s')"
    by (cases r) (auto simp: source_next_def)
qed (rule source_step_rank)

interpretation stage_routine: stepped_routine "stage_step cfg" "stage_among cfg B i" stage_rank "stage_among cfg B i St_Entry"
  for cfg B i
proof unfold_locales
  fix pc :: stage_pc and s :: "'a shared \<times> mtdp_stage_impl"
  assume "stage_among cfg B i pc s"
  then obtain sh self p c x y where s: "s = (sh, self)" "stage_ok i pc self" "Suc i < length (sh_pipes sh)"
    "i < length (sh_stages sh)" "stage_user_ok (sh_stages sh ! i)"
    "links_inv cfg B sh p c x y" "p (Suc i) = stage_out_view pc self" "c i = stage_in_view pc self"
    by (auto simp: stage_among_def)
  obtain r sh' self' where t: "stage_step cfg pc (sh, self) = Some (r, sh', self')" "stage_ok i (stage_next r) self'"
    "links_inv cfg B sh' (p(Suc i := stage_out_view (stage_next r) self')) (c(i := stage_in_view (stage_next r) self'))
       (x(Suc i := x (Suc i) @ stage_pushes pc r self)) (y(i := y i @ stage_pulls pc r self'))"
    "length (sh_pipes sh') = length (sh_pipes sh)" "sh_stages sh' = sh_stages sh"
    by (rule stage_step_links[OF s(2-8)])
  then have "stage_among cfg B i (stage_next r) (sh', self')"
    using s(3-5) by (auto simp: stage_among_def intro!: exI)
  with t(1) s(1) show "\<exists>r s'. stage_step cfg pc s = Some (r, s') \<and>
      (case r of None \<Rightarrow> stage_among cfg B i St_Entry s' | Some pc' \<Rightarrow> stage_among cfg B i pc' s')"
    by (cases r) (auto simp: stage_next_def)
qed (rule stage_step_rank)

interpretation sink_routine: stepped_routine "sink_step cfg" "sink_among cfg B n" sink_rank "sink_among cfg B n Sk_Entry"
  for cfg B n
proof unfold_locales
  fix pc :: sink_pc and s :: "'a shared \<times> 'a mtdp_sink_impl"
  assume "sink_among cfg B n pc s"
  then obtain sh self p c x y where s: "s = (sh, self)" "sink_ok n pc self" "n < length (sh_pipes sh)"
    "links_inv cfg B sh p c x y" "c n = sink_view pc self" by (auto simp: sink_among_def)
  obtain r sh' self' where t: "sink_step cfg pc (sh, self) = Some (r, sh', self')" "sink_ok n (sink_next r) self'"
    "links_inv cfg B sh' p (c(n := sink_view (sink_next r) self')) x (y(n := y n @ sink_pulls pc r self'))"
    "length (sh_pipes sh') = length (sh_pipes sh)"
    by (rule sink_step_links[OF s(2-5)])
  then have "sink_among cfg B n (sink_next r) (sh', self')"
    using s(3) by (auto simp: sink_among_def intro!: exI)
  with t(1) s(1) show "\<exists>r s'. sink_step cfg pc s = Some (r, s') \<and>
      (case r of None \<Rightarrow> sink_among cfg B n Sk_Entry s' | Some pc' \<Rightarrow> sink_among cfg B n pc' s')"
    by (cases r) (auto simp: sink_next_def)
qed (rule sink_step_rank)

end
