(* ===== verification/Channel.thy ===== *)
theory Channel
  imports Flow Routines
begin

text \<open>
  The abstract specification of a pipe in a running pipeline, and the proof that the code
  implements it. A channel holds free buffers and a queue of full ones; its producer takes a
  free buffer and later appends it to the queue, its consumer takes the front of the queue and
  later gives the buffer back. Nothing else can happen to a channel: every step of every
  thread is, for every pipe, one of these four moves or none.
\<close>

section \<open>The specification\<close>

record channel =
  c_free :: "mtdp_buffer multiset"
  c_queue :: "mtdp_buffer list"
  c_out :: mtdp_buffer
  c_in :: mtdp_buffer

inductive channel_step :: "channel \<Rightarrow> channel \<Rightarrow> bool" where
  idle: "channel_step c c"
| take: "c_out c = NULL \<Longrightarrow> b \<in># c_free c \<Longrightarrow> channel_step c (c\<lparr>c_free := c_free c - {#b#}, c_out := b\<rparr>)"
| push: "c_out c \<noteq> NULL \<Longrightarrow> channel_step c (c\<lparr>c_queue := c_queue c @ [c_out c], c_out := NULL\<rparr>)"
| pull: "c_in c = NULL \<Longrightarrow> c_queue c = b # q \<Longrightarrow> channel_step c (c\<lparr>c_queue := q, c_in := b\<rparr>)"
| give: "c_in c \<noteq> NULL \<Longrightarrow> channel_step c (c\<lparr>c_free := add_mset (c_in c) (c_free c), c_in := NULL\<rparr>)"

definition channel_of :: "fifo_config \<Rightarrow> 'u flow \<Rightarrow> nat \<Rightarrow> channel" where
  "channel_of cfg s k =
     \<lparr>c_free = mset (pool_elems (pool (sh_pipes (fl_sh s) ! k))),
      c_queue = fifo_elems cfg (sh_mem (fl_sh s)) (fifo (sh_pipes (fl_sh s) ! k)),
      c_out = fst (producer s k), c_in = fst (consumer s k)\<rparr>"

section \<open>What a step shows of itself\<close>

text \<open>A change of the producer's view and its log, and of the consumer's.\<close>

definition out_change :: "mtdp_buffer \<Rightarrow> mtdp_buffer \<Rightarrow> mtdp_buffer list \<Rightarrow> bool" where
  "out_change o1 o2 xs \<longleftrightarrow> xs = [] \<and> (o2 = o1 \<or> o1 = NULL) \<or> xs = [o1] \<and> o1 \<noteq> NULL \<and> o2 = NULL"

definition in_change :: "mtdp_buffer \<Rightarrow> mtdp_buffer \<Rightarrow> mtdp_buffer list \<Rightarrow> bool" where
  "in_change i1 i2 ys \<longleftrightarrow> ys = [] \<and> (i2 = i1 \<or> i2 = NULL) \<or> ys = [i2] \<and> i1 = NULL"

lemma change_none [simp]: "out_change x x []" "in_change x x []"
  by (simp_all add: out_change_def in_change_def)

lemma source_step_change:
  assumes ok: "source_ok pc self" and st: "source_step cfg pc (sh, self) = Some (r, sh', self')"
  shows "out_change (fst (source_view pc self)) (fst (source_view (source_next r) self')) (source_pushes pc r self)"
proof (cases pc)
  case So_Process
  obtain sh1 self1 where "source_step cfg So_Process (sh, self) = Some (None, sh1, self1)"
    "so_output (so_context self1) = so_output (so_context self)"
    by (rule source_step_process[OF ok[unfolded So_Process]])
  with st So_Process show ?thesis by (simp add: source_view_def source_next_def source_pushes_def)
qed (use ok st in \<open>auto simp: source_step_def Let_def bind_eq_Some_conv source_view_def source_next_def
      source_pushes_def out_change_def source_ok_def split: if_splits\<close>)

lemma stage_step_change:
  assumes ok: "stage_ok i pc self" and st: "stage_step cfg pc (sh, self) = Some (r, sh', self')"
    and u: "i < length (sh_stages sh)" "stage_user_ok (sh_stages sh ! i)"
  shows "out_change (fst (stage_out_view pc self)) (fst (stage_out_view (stage_next r) self')) (stage_pushes pc r self) \<and>
    in_change (fst (stage_in_view pc self)) (fst (stage_in_view (stage_next r) self')) (stage_pulls pc r self') \<and>
    (fst (stage_out_view (stage_next r) self') = fst (stage_out_view pc self) \<and> stage_pushes pc r self = [] \<or>
     fst (stage_in_view (stage_next r) self') = fst (stage_in_view pc self) \<and> stage_pulls pc r self' = [])"
proof (cases pc)
  case St_Process
  obtain r1 sh1 self1 where "stage_step cfg St_Process (sh, self) = Some (r1, sh1, self1)"
    "stage_out_view (stage_next r1) self1 = stage_out_view St_Process self"
    "stage_in_view (stage_next r1) self1 = stage_in_view St_Process self"
    by (rule stage_step_process[OF ok[unfolded St_Process] u])
  with st St_Process show ?thesis by (simp add: stage_pushes_def stage_pulls_def)
qed (use ok st in \<open>auto simp: stage_step_def Let_def bind_eq_Some_conv stage_views
      out_change_def in_change_def stage_ok_def split: if_splits\<close>)

lemma sink_step_change:
  assumes ok: "sink_ok n pc self" and st: "sink_step cfg pc (sh, self) = Some (r, sh', self')"
  shows "in_change (fst (sink_view pc self)) (fst (sink_view (sink_next r) self')) (sink_pulls pc r self')"
proof (cases pc)
  case Sk_Process
  obtain sh1 self1 where "sink_step cfg Sk_Process (sh, self) = Some (None, sh1, self1)"
    "sk_input (sk_context self1) = sk_input (sk_context self)"
    by (rule sink_step_process[OF ok[unfolded Sk_Process]])
  with st Sk_Process show ?thesis by (simp add: sink_views)
qed (use ok st in \<open>auto simp: sink_step_def Let_def bind_eq_Some_conv sink_views
      in_change_def sink_ok_def split: if_splits\<close>)

section \<open>Refinement\<close>

text \<open>Two states of a link whose views and logs differ by one change of one side are one channel step
  apart.\<close>

lemma channel_step_of_change:
  assumes acc: "mset q1 + f1 + held o1 + held i1 = B" "mset q2 + f2 + held o2 + held i2 = B" and B: "NULL \<notin># B"
    and log: "push = pull @ q1" "push @ xs = (pull @ ys) @ q2"
    and ch: "out_change o1 o2 xs \<and> i2 = i1 \<and> ys = [] \<or> in_change i1 i2 ys \<and> o2 = o1 \<and> xs = []"
  shows "channel_step \<lparr>c_free = f1, c_queue = q1, c_out = o1, c_in = i1\<rparr> \<lparr>c_free = f2, c_queue = q2, c_out = o2, c_in = i2\<rparr>"
proof -
  have q: "q1 @ xs = ys @ q2" using log by simp
  have eq: "mset q1 + f1 + held o1 + held i1 = mset q2 + f2 + held o2 + held i2" using acc by simp
  consider (same) "xs = []" "ys = []" "o2 = o1" "i2 = i1" | (take) "xs = []" "ys = []" "o1 = NULL" "i2 = i1" "o2 \<noteq> NULL"
    | (push) "xs = [o1]" "ys = []" "o1 \<noteq> NULL" "o2 = NULL" "i2 = i1"
    | (pull) "xs = []" "ys = [i2]" "i1 = NULL" "o2 = o1" | (give) "xs = []" "ys = []" "i2 = NULL" "i1 \<noteq> NULL" "o2 = o1"
    using ch by (auto simp: out_change_def in_change_def)
  then show ?thesis
  proof cases
    case same
    then have "q2 = q1" "f2 = f1" using q eq by simp_all
    then show ?thesis using same by (simp add: channel_step.idle)
  next
    case take
    then have "q2 = q1" "f1 = add_mset o2 f2" using q eq by simp_all
    then show ?thesis
      using take channel_step.take[of "\<lparr>c_free = f1, c_queue = q1, c_out = o1, c_in = i1\<rparr>" o2] by simp
  next
    case push
    then have q2: "q2 = q1 @ [o1]" using q by simp
    with push eq have "f2 = f1" by simp
    with q2 show ?thesis
      using push channel_step.push[of "\<lparr>c_free = f1, c_queue = q1, c_out = o1, c_in = i1\<rparr>"] by simp
  next
    case pull
    then have q1: "q1 = i2 # q2" using q by simp
    then have "i2 \<noteq> NULL" using acc(1) B by auto
    with pull q1 eq have "f2 = f1" by simp
    then show ?thesis
      using pull q1 channel_step.pull[of "\<lparr>c_free = f1, c_queue = q1, c_out = o1, c_in = i1\<rparr>" i2 q2] by simp
  next
    case give
    then have "q2 = q1" "f2 = add_mset i1 f1" using q eq by simp_all
    then show ?thesis
      using give channel_step.give[of "\<lparr>c_free = f1, c_queue = q1, c_out = o1, c_in = i1\<rparr>"] by simp
  qed
qed

lemma channel_step_of_inv:
  assumes inv: "flow_inv cfg B s" "flow_inv cfg B s'" and k: "k \<le> length (fl_stages s)" "k \<le> length (fl_stages s')"
    and log: "pushed s' k = pushed s k @ xs" "pulled s' k = pulled s k @ ys"
    and ch: "out_change (fst (producer s k)) (fst (producer s' k)) xs \<and> fst (consumer s' k) = fst (consumer s k) \<and> ys = [] \<or>
      in_change (fst (consumer s k)) (fst (consumer s' k)) ys \<and> fst (producer s' k) = fst (producer s k) \<and> xs = []"
  shows "channel_step (channel_of cfg s k) (channel_of cfg s' k)"
proof -
  have l: "link_at cfg (B k) (fl_sh t) k (producer t k) (consumer t k) (pushed t k) (pulled t k)"
    if "flow_inv cfg B t" "k \<le> length (fl_stages t)" for t
    using links_invD(1)[OF flow_invD(8)[OF that(1)]] flow_invD(1)[OF that(1)] that(2) by simp
  have a: "mset (fifo_elems cfg (sh_mem (fl_sh t)) (fifo (sh_pipes (fl_sh t) ! k))) +
        mset (pool_elems (pool (sh_pipes (fl_sh t) ! k))) + held (fst (producer t k)) + held (fst (consumer t k)) = B k \<and>
      NULL \<notin># B k \<and> pushed t k = pulled t k @ fifo_elems cfg (sh_mem (fl_sh t)) (fifo (sh_pipes (fl_sh t) ! k))"
    if t: "flow_inv cfg B t" "k \<le> length (fl_stages t)" for t
  proof -
    obtain out rel inb acq where v: "producer t k = (out, rel)" "consumer t k = (inb, acq)" by (meson surj_pair)
    note d = pipe_linkD[OF l[OF t, unfolded v]]
    show ?thesis using d(2,3,6) unfolding v pipe_content_def by (simp add: ac_simps)
  qed
  note a1 = a[OF inv(1) k(1)] and a2 = a[OF inv(2) k(2)]
  have l2: "pushed s k @ xs = (pulled s k @ ys) @ fifo_elems cfg (sh_mem (fl_sh s')) (fifo (sh_pipes (fl_sh s') ! k))"
    using a2 log by simp
  show ?thesis unfolding channel_of_def
    by (rule channel_step_of_change[OF a1[THEN conjunct1] a2[THEN conjunct1] a1[THEN conjunct2, THEN conjunct1]
          a1[THEN conjunct2, THEN conjunct2] l2 ch])
qed

text \<open>Each thread's step, pipe by pipe.\<close>

lemma source_move_channel:
  assumes inv: "flow_inv cfg B s" "flow_inv cfg B s'" and mv: "source_move cfg s = Some s'" and k: "k \<le> length (fl_stages s)"
  shows "channel_step (channel_of cfg s k) (channel_of cfg s' k)"
proof -
  note ok = flow_invD(5)[OF inv(1)]
  have p0: "so_output_pipe (fl_source s) = 0" using ok by (simp add: source_ok_def)
  obtain r sh self where st: "source_step cfg (so_at s) (fl_sh s, fl_source s) = Some (r, sh, self)"
    and s': "s' = s\<lparr>fl_sh := sh, fl_source := self, so_at := source_next r,
      pushed := (pushed s)(0 := pushed s 0 @ source_pushes (so_at s) r (fl_source s))\<rparr>"
    using mv p0 by (auto simp: source_move_def Let_def bind_eq_Some_conv)
  note ch = source_step_change[OF ok st]
  show ?thesis
    by (rule channel_step_of_inv[OF inv k, where xs = "if k = 0 then source_pushes (so_at s) r (fl_source s) else []"
          and ys = "[]"]) (use ch k in \<open>simp_all add: s' producer_def consumer_def\<close>)
qed

lemma stage_move_channel:
  assumes inv: "flow_inv cfg B s" "flow_inv cfg B s'" and i: "i < length (fl_stages s)"
    and mv: "stage_move cfg i s = Some s'" and k: "k \<le> length (fl_stages s)"
  shows "channel_step (channel_of cfg s k) (channel_of cfg s' k)"
proof -
  note d = flow_invD[OF inv(1)]
  let ?g = "fl_stages s ! i" and ?pc = "st_at s ! i"
  note ok = d(6)[OF i]
  have pi: "st_output_pipe ?g = Suc i" "st_input_pipe ?g = i" using ok by (simp_all add: stage_ok_def)
  obtain r sh self where st: "stage_step cfg ?pc (fl_sh s, ?g) = Some (r, sh, self)"
    and s': "s' = s\<lparr>fl_sh := sh, fl_stages := (fl_stages s)[i := self], st_at := (st_at s)[i := stage_next r],
      pushed := (pushed s)(Suc i := pushed s (Suc i) @ stage_pushes ?pc r ?g),
      pulled := (pulled s)(i := pulled s i @ stage_pulls ?pc r self)\<rparr>"
    using mv pi by (auto simp: stage_move_def Let_def bind_eq_Some_conv)
  have u: "i < length (sh_stages (fl_sh s))" "stage_user_ok (sh_stages (fl_sh s) ! i)" using i d(3,4) by simp_all
  note ch = stage_step_change[OF ok st u]
  have ki: "k - 1 \<noteq> i" if "k \<noteq> 0" "k \<noteq> Suc i" using that by linarith
  show ?thesis
    by (rule channel_step_of_inv[OF inv k, where xs = "if k = Suc i then stage_pushes ?pc r ?g else []"
          and ys = "if k = i then stage_pulls ?pc r self else []"])
       (use ch k i d(2) ki in \<open>auto simp: s' producer_def consumer_def\<close>)
qed

lemma sink_move_channel:
  assumes inv: "flow_inv cfg B s" "flow_inv cfg B s'" and mv: "sink_move cfg s = Some s'" and k: "k \<le> length (fl_stages s)"
  shows "channel_step (channel_of cfg s k) (channel_of cfg s' k)"
proof -
  note ok = flow_invD(7)[OF inv(1)]
  let ?n = "length (fl_stages s)"
  have pn: "sk_input_pipe (fl_sink s) = ?n" using ok by (simp add: sink_ok_def)
  obtain r sh self where st: "sink_step cfg (sk_at s) (fl_sh s, fl_sink s) = Some (r, sh, self)"
    and s': "s' = s\<lparr>fl_sh := sh, fl_sink := self, sk_at := sink_next r,
      pulled := (pulled s)(?n := pulled s ?n @ sink_pulls (sk_at s) r self)\<rparr>"
    using mv pn by (auto simp: sink_move_def Let_def bind_eq_Some_conv)
  note ch = sink_step_change[OF ok st]
  show ?thesis
    by (rule channel_step_of_inv[OF inv k, where xs = "[]"
          and ys = "if k = ?n then sink_pulls (sk_at s) r self else []"])
       (use ch k in \<open>auto simp: s' producer_def consumer_def\<close>)
qed

lemma move_channel:
  assumes inv: "flow_inv cfg B s" and t: "t \<in> flow_threads s" and mv: "move cfg t s = Some s'" and k: "k \<le> length (fl_stages s)"
  shows "channel_step (channel_of cfg s k) (channel_of cfg s' k)"
proof -
  have inv': "flow_inv cfg B s'" using move_inv[OF inv t] mv by auto
  show ?thesis
  proof (cases t)
    case (Stage_thread i)
    then have "i < length (fl_stages s)" using t by (auto simp: flow_threads_def)
    then show ?thesis using stage_move_channel[OF inv inv' _ _ k] mv Stage_thread by simp
  qed (use source_move_channel[OF inv inv' _ k] sink_move_channel[OF inv inv' _ k] mv in simp_all)
qed

lemma channel_of_control:
  "channel_of cfg (s\<lparr>fl_source := (fl_source s)\<lparr>so_worker := w, so_done := d\<rparr>\<rparr>) k = channel_of cfg s k"
  "channel_of cfg (s\<lparr>fl_sink := (fl_sink s)\<lparr>sk_worker := w, sk_done := d\<rparr>\<rparr>) k = channel_of cfg s k"
  "i < length (fl_stages s) \<Longrightarrow> k \<le> length (fl_stages s) \<Longrightarrow>
     channel_of cfg (s\<lparr>fl_stages := (fl_stages s)[i := (fl_stages s ! i)\<lparr>st_worker := w, st_done := d\<rparr>]\<rparr>) k =
     channel_of cfg s k"
  by (auto simp: channel_of_def producer_def consumer_def control_views nth_list_update)

lemma flow_step_channel:
  "flow_step cfg s s' \<Longrightarrow> flow_inv cfg B s \<Longrightarrow> k \<le> length (fl_stages s) \<Longrightarrow>
     channel_step (channel_of cfg s k) (channel_of cfg s' k)"
proof (induction rule: flow_step.induct)
  case (thread t s s')
  then show ?case using move_channel by blast
qed (simp_all only: channel_of_control channel_step.idle)

end
