(* ===== verification/Flow_Properties.thy ===== *)
theory Flow_Properties
  imports Channel
begin

text \<open>
  What holds in every state a running pipeline can reach, for any number of stages, any
  interleaving of its threads, any refusals of the allocator and any user callbacks that leave
  the buffer pointers of their context alone. The concrete pipeline of the witnesses has one
  stage, two pipes of two buffers each, and callbacks that hand everything on.
\<close>

section \<open>A concrete pipeline\<close>

definition demo_mem :: mem where
  "demo_mem = \<lparr>heap = (\<lambda>a. if a < 2 then Some (replicate 16 None) else None), brk = 2, live = 4, syncs = 6,
     avail = (\<lambda>n. n \<noteq> 3), requests = 0\<rparr>"

definition demo_pipe :: "nat \<Rightarrow> mtdp_pipe" where
  "demo_pipe k = \<lparr>total_buffers = 2,
     pool = \<lparr>buffers = Some [Some (Ptr (10 * k)), Some (Ptr (10 * k + 1))], psize = 2, pcapacity = 2\<rparr>,
     fifo = \<lparr>blocks = \<lparr>vec = [Some k], bsize = 1, bcapacity = 1\<rparr>, fsize = 0, first_element_offset = 16\<rparr>,
     semaphore = 0\<rparr>"

definition demo_worker :: mtdp_worker where
  "demo_worker = worker_fresh\<lparr>enabled := True\<rparr>"

definition demo_flow :: "unit flow" where
  "demo_flow = \<lparr>
     fl_sh = \<lparr>sh_mem = demo_mem, sh_pipes = [demo_pipe 0, demo_pipe 1],
       sh_stages = [\<lparr>st_name = None, st_data = NULL, st_init = None,
         st_process = Some (\<lambda>u b c. (u, c\<lparr>st_ready_to_push := True, st_ready_to_pull := True\<rparr>))\<rparr>],
       sh_user = ()\<rparr>,
     fl_source = \<lparr>so_context = \<lparr>so_self = NULL, so_output = NULL, so_ready_to_push = False\<rparr>, so_worker = demo_worker,
       so_user_data = \<lparr>so_name = None, so_data = NULL, so_init = None,
         so_process = Some (\<lambda>u b c. (u, c\<lparr>so_ready_to_push := True\<rparr>, False))\<rparr>,
       so_output_pipe = 0, so_done = 0, so_initialized = False\<rparr>,
     so_at = So_Entry,
     fl_stages = [\<lparr>st_context = \<lparr>st_self = NULL, st_input = NULL, st_output = NULL, st_ready_to_push = False,
         st_ready_to_pull = True\<rparr>, st_worker = demo_worker, st_user_data = 0, st_input_pipe = 0, st_output_pipe = 1,
         st_done = 0, st_initialized = False\<rparr>],
     st_at = [St_Entry],
     fl_sink = \<lparr>sk_context = \<lparr>sk_self = NULL, sk_input = NULL, sk_ready_to_pull = True\<rparr>, sk_worker = demo_worker,
       sk_user_data = \<lparr>sk_name = None, sk_data = NULL, sk_init = None,
         sk_process = Some (\<lambda>u b c. (u, c\<lparr>sk_ready_to_pull := True\<rparr>))\<rparr>,
       sk_input_pipe = 1, sk_done = 0, sk_initialized = False\<rparr>,
     sk_at = Sk_Entry, pushed = (\<lambda>_. []), pulled = (\<lambda>_. [])\<rparr>"

definition demo_buffers :: "nat \<Rightarrow> mtdp_buffer multiset" where
  "demo_buffers k = {#Ptr (10 * k), Ptr (10 * k + 1)#}"

lemma demo_pipe_inv: "k < 2 \<Longrightarrow> pipe_inv default_config demo_mem (demo_pipe k)"
  by (auto simp: pipe_inv_def demo_pipe_def demo_mem_def mem_wf_def pool_defs fifo_inv_def fifo_blocks_wf_def
      rblk_def vec_get_def fifo_gap_def default_config_def config_ok_def)

lemma demo_flow_start: "flow_start default_config demo_buffers demo_flow"
proof -
  have p: "pipe_inv default_config demo_mem (demo_pipe 0)" "pipe_inv default_config demo_mem (demo_pipe (Suc 0))"
    using demo_pipe_inv by simp_all
  have own: "fifo_own (fifo (demo_pipe k)) = {k}" for k
    by (auto simp: fifo_own_def demo_pipe_def rblk_def vec_get_def)
  have el: "pool_elems (pool (demo_pipe k)) = [Ptr (10 * k), Ptr (10 * k + 1)]" "fsize (fifo (demo_pipe k)) = 0"
    "semaphore (demo_pipe k) = 0" for k
    by (simp_all add: demo_pipe_def pool_elems_def pool_slots_def)
  show ?thesis using p own el
    by (auto simp: flow_start_def demo_flow_def Let_def source_user_ok_def stage_user_ok_def sink_user_ok_def
        polite_source_def polite_stage_def polite_sink_def demo_buffers_def less_Suc_eq)
qed

text \<open>A schedule: the threads take their steps in the order of the list.\<close>

fun flow_run :: "fifo_config \<Rightarrow> flow_thread list \<Rightarrow> 'u flow \<Rightarrow> 'u flow option" where
  "flow_run cfg [] s = Some s"
| "flow_run cfg (t # ts) s = do { s \<leftarrow> (if t \<in> flow_threads s then move cfg t s else None); flow_run cfg ts s }"

lemma flow_run_reach: "flow_reach cfg s0 s \<Longrightarrow> flow_run cfg ts s = Some s' \<Longrightarrow> flow_reach cfg s0 s'"
proof (induction ts arbitrary: s)
  case (Cons t ts)
  then obtain s1 where "t \<in> flow_threads s" "move cfg t s = Some s1" "flow_run cfg ts s1 = Some s'"
    by (auto simp: bind_eq_Some_conv split: if_splits)
  with Cons show ?case by (meson flow_reach.step flow_step.thread)
qed simp

lemma flow_move_stages: "move cfg t s = Some s' \<Longrightarrow> flow_threads s' = flow_threads s"
  by (cases t) (auto simp: flow_threads_def source_move_def stage_move_def sink_move_def bind_eq_Some_conv Let_def)

lemma flow_run_total:
  "flow_inv cfg B s \<Longrightarrow> set ts \<subseteq> flow_threads s \<Longrightarrow> \<exists>s'. flow_run cfg ts s = Some s'"
proof (induction ts arbitrary: s)
  case (Cons t ts)
  then obtain s1 where "move cfg t s = Some s1" "flow_inv cfg B s1" using move_inv[of cfg B s t] by auto
  with Cons flow_move_stages[of cfg t s s1] show ?case by auto
qed simp

text \<open>A reachable state of the concrete pipeline: the source has pushed a buffer and the stage has
  taken it.\<close>

lemma demo_reach:
  assumes "set ts \<subseteq> {Source_thread, Sink_thread, Stage_thread 0}"
  obtains s where "flow_run default_config ts demo_flow = Some s" "flow_reach default_config demo_flow s"
proof -
  have "flow_threads demo_flow = {Source_thread, Sink_thread, Stage_thread 0}"
    by (auto simp: flow_threads_def demo_flow_def)
  with assms flow_run_total[OF flow_start_inv[OF demo_flow_start], of ts] obtain s
    where "flow_run default_config ts demo_flow = Some s" by auto
  moreover from this have "flow_reach default_config demo_flow s" by (rule flow_run_reach[OF flow_reach.start])
  ultimately show ?thesis by (rule that)
qed

section \<open>Properties\<close>

text \<open>C3. The running pipeline has no undefined behaviour: in every reachable state the next step
  of every thread is defined. No thread touches memory outside a live block, reads an
  indeterminate buffer or dereferences a null pointer, whatever the interleaving and whichever
  requests the allocator refuses.\<close>

theorem flow_memory_safe:
  assumes "flow_start cfg B s0" "flow_reach cfg s0 s" "t \<in> flow_threads s"
  shows "\<exists>s'. move cfg t s = Some s'"
  using move_inv[OF flow_reach_inv[OF assms(2) flow_start_inv[OF assms(1)]] assms(3)] by blast

theorem flow_memory_safe_witness:
  "\<exists>s s'. flow_run default_config [Source_thread, Source_thread, Sink_thread] demo_flow = Some s \<and>
    move default_config Source_thread s = Some s'"
proof -
  obtain s where s: "flow_run default_config [Source_thread, Source_thread, Sink_thread] demo_flow = Some s"
    "flow_reach default_config demo_flow s" by (rule demo_reach[of "[Source_thread, Source_thread, Sink_thread]"]) simp
  have "Source_thread \<in> flow_threads s" by (simp add: flow_threads_def)
  from flow_memory_safe[OF demo_flow_start s(2) this] s(1) show ?thesis by blast
qed

text \<open>C4. No buffer is ever lost, duplicated or moved to another pipe: in every reachable state the
  buffers in the pool and the FIFO of a pipe, with the one its producer holds and the one its
  consumer holds, are exactly the buffers the pipe started with.\<close>

theorem flow_conserves_buffers:
  assumes "flow_start cfg B s0" "flow_reach cfg s0 s" "k \<le> length (fl_stages s)"
  shows "pipe_content cfg (sh_mem (fl_sh s)) (sh_pipes (fl_sh s) ! k) +
    held (fst (producer s k)) + held (fst (consumer s k)) = B k"
proof -
  note inv = flow_reach_inv[OF assms(2) flow_start_inv[OF assms(1)]]
  have "k < length (sh_pipes (fl_sh s))" using assms(3) flow_invD(1)[OF inv] by simp
  from links_invD(1)[OF flow_invD(8)[OF inv] this] show ?thesis
    by (cases "producer s k"; cases "consumer s k") (simp add: pipe_link_def)
qed

theorem flow_conserves_buffers_witness:
  "\<exists>s. flow_run default_config [Source_thread, Source_thread, Source_thread] demo_flow = Some s \<and>
    pipe_content default_config (sh_mem (fl_sh s)) (sh_pipes (fl_sh s) ! 0) +
      held (fst (producer s 0)) + held (fst (consumer s 0)) = {#Ptr 0, Ptr 1#}"
proof -
  obtain s where s: "flow_run default_config [Source_thread, Source_thread, Source_thread] demo_flow = Some s"
    "flow_reach default_config demo_flow s" by (rule demo_reach[of "[Source_thread, Source_thread, Source_thread]"]) simp
  from flow_conserves_buffers[OF demo_flow_start s(2), of 0] s(1) show ?thesis by (auto simp: demo_buffers_def)
qed

text \<open>C5. Every pipe delivers in order: the buffers its consumer has received, followed by the
  contents of its FIFO, are the buffers its producer has pushed, in the order of pushing.\<close>

theorem flow_delivers_in_order:
  assumes "flow_start cfg B s0" "flow_reach cfg s0 s" "k \<le> length (fl_stages s)"
  shows "pushed s k = pulled s k @ fifo_elems cfg (sh_mem (fl_sh s)) (fifo (sh_pipes (fl_sh s) ! k))"
proof -
  note inv = flow_reach_inv[OF assms(2) flow_start_inv[OF assms(1)]]
  have "k < length (sh_pipes (fl_sh s))" using assms(3) flow_invD(1)[OF inv] by simp
  from links_invD(1)[OF flow_invD(8)[OF inv] this] show ?thesis
    by (cases "producer s k"; cases "consumer s k") (simp add: pipe_link_def)
qed

theorem flow_delivers_in_order_witness:
  "\<exists>s. flow_run default_config [Source_thread, Source_thread, Source_thread, Source_thread] demo_flow = Some s \<and>
    pushed s 1 = pulled s 1 @ fifo_elems default_config (sh_mem (fl_sh s)) (fifo (sh_pipes (fl_sh s) ! 1))"
proof -
  let ?ts = "[Source_thread, Source_thread, Source_thread, Source_thread]"
  obtain s where s: "flow_run default_config ?ts demo_flow = Some s"
    "flow_reach default_config demo_flow s" by (rule demo_reach[of ?ts]) simp
  have "1 \<le> length (fl_stages s)" using flow_reach_stages[OF s(2)] by (simp add: demo_flow_def)
  from flow_delivers_in_order[OF demo_flow_start s(2) this] s(1) show ?thesis by blast
qed

text \<open>C21. The semaphore of a pipe never promises a buffer that is not there: its count, with the unit
  the consumer has taken before its pop and the unit the producer owes after its push, is the
  size of the FIFO. The code that gives a unit back because no buffer was found is never
  reached, in a stage or in the sink.\<close>

theorem flow_semaphore_exact:
  assumes "flow_start cfg B s0" "flow_reach cfg s0 s"
  shows "(k \<le> length (fl_stages s) \<longrightarrow>
      semaphore (sh_pipes (fl_sh s) ! k) + of_bool (snd (consumer s k)) + of_bool (snd (producer s k)) =
      mtdp_buffer_fifo_size (fifo (sh_pipes (fl_sh s) ! k))) \<and>
    sk_at s \<noteq> Sk_Return \<and> (i < length (fl_stages s) \<longrightarrow> st_at s ! i \<noteq> St_Return)"
proof -
  note inv = flow_reach_inv[OF assms(2) flow_start_inv[OF assms(1)]]
  have "semaphore (sh_pipes (fl_sh s) ! k) + of_bool (snd (consumer s k)) + of_bool (snd (producer s k)) =
      mtdp_buffer_fifo_size (fifo (sh_pipes (fl_sh s) ! k))" if "k \<le> length (fl_stages s)"
  proof -
    have "k < length (sh_pipes (fl_sh s))" using that flow_invD(1)[OF inv] by simp
    from links_invD(1)[OF flow_invD(8)[OF inv] this] show ?thesis
      by (cases "producer s k"; cases "consumer s k") (simp add: pipe_link_def mtdp_buffer_fifo_size_def)
  qed
  moreover have "i < length (fl_stages s) \<longrightarrow> st_at s ! i \<noteq> St_Return"
    using flow_invD(6)[OF inv] by (simp add: stage_ok_def)
  ultimately show ?thesis using flow_invD(7)[OF inv] by (simp add: sink_ok_def)
qed

theorem flow_semaphore_exact_witness:
  "\<exists>s. flow_run default_config [Sink_thread, Sink_thread] demo_flow = Some s \<and> sk_at s \<noteq> Sk_Return \<and>
    semaphore (sh_pipes (fl_sh s) ! 0) + of_bool (snd (consumer s 0)) + of_bool (snd (producer s 0)) =
      mtdp_buffer_fifo_size (fifo (sh_pipes (fl_sh s) ! 0))"
proof -
  let ?ts = "[Sink_thread, Sink_thread]"
  obtain s where s: "flow_run default_config ?ts demo_flow = Some s"
    "flow_reach default_config demo_flow s" by (rule demo_reach[of ?ts]) simp
  from flow_semaphore_exact[OF demo_flow_start s(2), of 0 0] s(1) show ?thesis by auto
qed

text \<open>C6. The code implements the channel specification: for every pipe, each step of each thread is
  one move of the channel (take a free buffer, push it, pull the front of the queue, give it
  back) or leaves the channel unchanged. A producer works only on the channel's output side, a
  consumer only on its input side.\<close>

theorem flow_refines_channels:
  assumes "flow_start cfg B s0" "flow_reach cfg s0 s" "flow_step cfg s s'" and "k \<le> length (fl_stages s)"
  shows "channel_step (channel_of cfg s k) (channel_of cfg s' k)"
  by (rule flow_step_channel[OF assms(3) flow_reach_inv[OF assms(2) flow_start_inv[OF assms(1)]] assms(4)])

theorem flow_refines_channels_witness:
  "\<exists>s s'. flow_run default_config [Source_thread, Source_thread] demo_flow = Some s \<and>
    move default_config Source_thread s = Some s' \<and>
    channel_step (channel_of default_config s 0) (channel_of default_config s' 0)"
proof -
  let ?ts = "[Source_thread, Source_thread]"
  obtain s where s: "flow_run default_config ?ts demo_flow = Some s"
    "flow_reach default_config demo_flow s" by (rule demo_reach[of ?ts]) simp
  have t: "Source_thread \<in> flow_threads s" by (simp add: flow_threads_def)
  obtain s' where s': "move default_config Source_thread s = Some s'"
    using move_inv[OF flow_reach_inv[OF s(2) flow_start_inv[OF demo_flow_start]] t] by blast
  from flow_refines_channels[OF demo_flow_start s(2) flow_step.thread[OF t s'], of 0] s(1) s' show ?thesis by auto
qed

lemma flow_among:
  assumes "flow_inv cfg B s"
  shows "source_among cfg B (so_at s) (fl_sh s, fl_source s)"
    "i < length (fl_stages s) \<Longrightarrow> stage_among cfg B i (st_at s ! i) (fl_sh s, fl_stages s ! i)"
    "sink_among cfg B (length (fl_stages s)) (sk_at s) (fl_sh s, fl_sink s)"
proof -
  note d = flow_invD[OF assms]
  show "source_among cfg B (so_at s) (fl_sh s, fl_source s)"
    using d(1,5,8) by (force simp: source_among_def producer_def)
  show "sink_among cfg B (length (fl_stages s)) (sk_at s) (fl_sh s, fl_sink s)"
    using d(1,7,8) by (force simp: sink_among_def consumer_def)
  assume i: "i < length (fl_stages s)"
  have "producer s (Suc i) = stage_out_view (st_at s ! i) (fl_stages s ! i)"
    "consumer s i = stage_in_view (st_at s ! i) (fl_stages s ! i)" using i by (simp_all add: producer_def consumer_def)
  then show "stage_among cfg B i (st_at s ! i) (fl_sh s, fl_stages s ! i)"
    using i d(1,3,4,8) d(6)[OF i] unfolding stage_among_def by fastforce
qed

text \<open>C22. The routines return: in every reachable state, a thread that is at the beginning of its
  iteration and runs it alone comes to the end of the routine, and from then on again
  satisfies what it needs for its next iteration.\<close>

theorem routines_return:
  assumes "flow_start cfg B s0" "flow_reach cfg s0 s"
  shows "(so_at s = So_Entry \<longrightarrow> (\<exists>sh self. mtdp_source_routine cfg (fl_sh s) (fl_source s) = Some (sh, self) \<and>
        source_among cfg B So_Entry (sh, self))) \<and>
    (i < length (fl_stages s) \<and> st_at s ! i = St_Entry \<longrightarrow>
      (\<exists>sh self. mtdp_stage_routine cfg (fl_sh s) (fl_stages s ! i) = Some (sh, self) \<and>
        stage_among cfg B i St_Entry (sh, self))) \<and>
    (sk_at s = Sk_Entry \<longrightarrow> (\<exists>sh self. mtdp_sink_routine cfg (fl_sh s) (fl_sink s) = Some (sh, self) \<and>
        sink_among cfg B (length (fl_stages s)) Sk_Entry (sh, self)))"
proof -
  note a = flow_among[OF flow_reach_inv[OF assms(2) flow_start_inv[OF assms(1)]]]
  have "\<exists>sh self. mtdp_source_routine cfg (fl_sh s) (fl_source s) = Some (sh, self) \<and> source_among cfg B So_Entry (sh, self)"
    if "so_at s = So_Entry"
    using source_routine.returns[OF a(1)[unfolded that], of 4] by (auto simp: mtdp_source_routine_def)
  moreover have "\<exists>sh self. mtdp_stage_routine cfg (fl_sh s) (fl_stages s ! i) = Some (sh, self) \<and> stage_among cfg B i St_Entry (sh, self)"
    if "i < length (fl_stages s)" "st_at s ! i = St_Entry"
    using stage_routine.returns[OF a(2)[OF that(1), unfolded that(2)], of 8] by (auto simp: mtdp_stage_routine_def)
  moreover have "\<exists>sh self. mtdp_sink_routine cfg (fl_sh s) (fl_sink s) = Some (sh, self) \<and>
      sink_among cfg B (length (fl_stages s)) Sk_Entry (sh, self)" if "sk_at s = Sk_Entry"
    using sink_routine.returns[OF a(3)[unfolded that], of 5] by (auto simp: mtdp_sink_routine_def)
  ultimately show ?thesis by blast
qed

theorem routines_return_witness:
  "\<exists>sh self. mtdp_stage_routine default_config (fl_sh demo_flow) (fl_stages demo_flow ! 0) = Some (sh, self)"
  using routines_return[OF demo_flow_start flow_reach.start, of 0] by (auto simp: demo_flow_def)

end
