(* ===== verification/Pipeline_Properties.thy ===== *)
theory Pipeline_Properties
  imports Pipeline_Control Flow_Properties
begin

text \<open>
  What a pipeline promises over its whole life, and the errors its functions do not report.
\<close>

section \<open>Concrete pipelines\<close>

definition raw_pipeline :: "unit mtdp_pipeline" where
  "raw_pipeline =
    \<lparr>source_impl = \<lparr>so_context = \<lparr>so_self = NULL, so_output = NULL, so_ready_to_push = False\<rparr>, so_worker = worker_blank,
       so_user_data = \<lparr>so_name = None, so_data = NULL, so_init = None, so_process = None\<rparr>,
       so_output_pipe = 0, so_done = 0, so_initialized = False\<rparr>,
     stage_impls = [],
     sink_impl = \<lparr>sk_context = \<lparr>sk_self = NULL, sk_input = NULL, sk_ready_to_pull = False\<rparr>, sk_worker = worker_blank,
       sk_user_data = \<lparr>sk_name = None, sk_data = NULL, sk_init = None, sk_process = None\<rparr>,
       sk_input_pipe = 0, sk_done = 0, sk_initialized = False\<rparr>,
     stages = [], pipes = [], n_stages = 0, pl_enabled = False, pl_active = False, destroying = 0\<rparr>"

definition raw_stage_impl :: mtdp_stage_impl where
  "raw_stage_impl = \<lparr>st_context = \<lparr>st_self = NULL, st_input = NULL, st_output = NULL, st_ready_to_push = False,
       st_ready_to_pull = False\<rparr>, st_worker = worker_blank, st_user_data = 0, st_input_pipe = 0, st_output_pipe = 0,
     st_done = 0, st_initialized = False\<rparr>"

lemma create_succeeds:
  "\<exists>pl m rt. mtdp_pipeline_create default_config raw_pipeline raw_stage_impl pipe_blank (mem_start (\<lambda>_. True))
     (runtime_start (\<lambda>_. thrd_success)) 1 = Some (Some pl, m, rt)"
proof -
  have "case mtdp_pipeline_create default_config raw_pipeline raw_stage_impl pipe_blank (mem_start (\<lambda>_. True))
     (runtime_start (\<lambda>_. thrd_success)) 1 of Some (Some pl, m, rt) \<Rightarrow> True | _ \<Rightarrow> False"
    by code_simp
  then show ?thesis by (auto split: option.splits)
qed

section \<open>Creation\<close>

text \<open>C30. Creating a pipeline returns a fully wired pipeline with empty pipes and \<open>MTDP_OK\<close>, or null; when
  any of its allocations, mutexes or semaphores is refused, at whatever point of the loop over
  the pipes, everything acquired before is released. A refused first allocation is reported as
  \<open>MTDP_BAD_PTR\<close>, every other one as \<open>MTDP_NO_MEM\<close>.\<close>

theorem pipeline_create_outcome:
  assumes "config_ok cfg" "mem_wf m"
  shows "\<exists>out m' rt'. mtdp_pipeline_create cfg raw raw_impl raw_pipe m rt n = Some (out, m', rt') \<and>
    (case out of
       None \<Rightarrow> heap m' = heap m \<and> live m' = live m \<and> syncs m' = syncs m \<and>
         errno rt' = (if avail m (requests m) then MTDP_NO_MEM else MTDP_BAD_PTR)
     | Some pl \<Rightarrow> pipeline_configured n pl \<and> errno rt' = MTDP_OK \<and>
         live m' = live m + 5 + int n \<and> syncs m' = syncs m + 3 * (int n + 1) \<and>
         (\<forall>p \<in> set (pipes pl). pipe_inv cfg m' p \<and> pipe_content cfg m' p = {#} \<and> semaphore p = 0))"
proof (cases rule: pipeline_create_cases[OF assms, of raw raw_impl raw_pipe rt n, case_names None Some])
  case (None m' rt')
  then show ?thesis by (simp add: set_errno_def)
next
  case (Some m0 pl m' rt' rt1)
  note d = pipes_holdD[OF Some(3)]
  have p: "pipe_inv cfg m' p \<and> pipe_content cfg m' p = {#} \<and> semaphore p = 0" if "p \<in> set (pipes pl)" for p
  proof -
    have f: "psize (pool p) = 0" "fsize (fifo p) = 0" "semaphore p = 0" using Some(4) that by (simp_all add: pipe_fresh_def)
    have i: "pipe_inv cfg m' p" by (rule d(4)[OF that])
    show ?thesis using f i size_pipe_content[OF i] by simp
  qed
  have "(\<Sum>p\<leftarrow>pipes pl. 1 + pool_arrays (pool p)) = (\<Sum>p\<leftarrow>pipes pl. 1)"
    using Some(4) by (intro arg_cong[of _ _ sum_list] map_cong) (simp_all add: pipe_fresh_def pool_arrays_def)
  then have "(\<Sum>p\<leftarrow>pipes pl. 1 + pool_arrays (pool p)) = int (length (pipes pl))"
    by (simp only: sum_list_triv)
  moreover have "length (pipes pl) = Suc n" using Some(2) by (simp add: pipeline_configured_def)
  ultimately show ?thesis using Some(1,2,7-9) d(8,9) p by (auto simp: set_errno_def)
qed

theorem pipeline_create_outcome_witness:
  "\<exists>pl m rt. mtdp_pipeline_create default_config raw_pipeline raw_stage_impl pipe_blank (mem_start (\<lambda>_. True))
     (runtime_start (\<lambda>_. thrd_success)) 1 = Some (Some pl, m, rt) \<and> pipeline_configured 1 pl \<and> live m = 6"
proof -
  obtain pl m rt where c: "mtdp_pipeline_create default_config raw_pipeline raw_stage_impl pipe_blank (mem_start (\<lambda>_. True))
     (runtime_start (\<lambda>_. thrd_success)) 1 = Some (Some pl, m, rt)" using create_succeeds by blast
  from pipeline_create_outcome[OF default_config_ok mem_start_wf, of raw_pipeline raw_stage_impl pipe_blank "\<lambda>_. True"
      "runtime_start (\<lambda>_. thrd_success)" 1] c
  show ?thesis by (auto simp: mem_start_def)
qed

text \<open>C31. A pipeline that is created and destroyed without having been enabled gives back all memory,
  mutexes and semaphores of its pipes, and nothing else has changed. The condition variables
  and mutexes of its workers are not given back: each creation leaks two objects of the C
  runtime per stage.\<close>

theorem pipeline_create_destroy:
  assumes "config_ok cfg" "mem_wf m"
    and "mtdp_pipeline_create cfg raw raw_impl raw_pipe m rt n = Some (Some pl, m1, rt1)"
  shows "\<exists>m2 rt2. mtdp_pipeline_destroy settle cfg m1 rt1 (Some pl) = Some (m2, rt2) \<and> heap m2 = heap m \<and>
    live m2 = live m \<and> syncs m2 = syncs m \<and> errno rt2 = MTDP_OK \<and>
    (runtime_ok rt \<longrightarrow> objects rt2 = objects rt + 2 * (int n + 2))"
proof (cases rule: pipeline_create_cases[OF assms(1,2), of raw raw_impl raw_pipe rt n, case_names None Some])
  case (None m' rt')
  then show ?thesis using assms(3) by simp
next
  case (Some m0 pl' m' rt' rt1')
  then have eq: "pl' = pl" "m' = m1" "rt' = rt1" using assms(3) by simp_all
  have c: "\<not> pl_enabled pl" "length (pipes pl) = Suc (n_stages pl)" using Some(2) eq by (simp_all add: pipeline_configured_def)
  have h: "pipes_hold cfg m0 m1 (pipes pl)" using Some(3) eq by simp
  obtain m2 where "mtdp_pipeline_destroy settle cfg m1 rt1 (Some pl) =
      Some (m2, set_errno MTDP_OK (set_errno MTDP_NOT_ENABLED rt1))"
    "heap m2 = heap m0" "live m2 = live m0 - 4" "syncs m2 = syncs m0"
    by (rule pipeline_destroy_disabled[OF c(1) h c(2)])
  with Some(6-8,10) eq show ?thesis by (simp add: set_errno_def)
qed

theorem pipeline_create_destroy_witness:
  "\<exists>pl m1 rt1 m2 rt2. mtdp_pipeline_create default_config raw_pipeline raw_stage_impl pipe_blank (mem_start (\<lambda>_. True))
     (runtime_start (\<lambda>_. thrd_success)) 1 = Some (Some pl, m1, rt1) \<and>
    mtdp_pipeline_destroy id default_config m1 rt1 (Some pl) = Some (m2, rt2) \<and> heap m2 = Map.empty \<and> live m2 = 0 \<and>
    syncs m2 = 0 \<and> objects rt2 = 6"
proof -
  obtain pl m1 rt1 where c: "mtdp_pipeline_create default_config raw_pipeline raw_stage_impl pipe_blank (mem_start (\<lambda>_. True))
     (runtime_start (\<lambda>_. thrd_success)) 1 = Some (Some pl, m1, rt1)" using create_succeeds by blast
  from pipeline_create_destroy[OF default_config_ok mem_start_wf c, of id] c
  show ?thesis by (auto simp: mem_start_def runtime_ok_def runtime_start_def)
qed

section \<open>From creation to destruction\<close>

text \<open>A client has created, filled and enabled a pipeline with the buffers \<open>bss\<close>.\<close>

definition launched :: "fifo_config \<Rightarrow> mem \<Rightarrow> runtime \<Rightarrow> mtdp_buffer list list \<Rightarrow> mem \<Rightarrow> runtime \<Rightarrow> 'u mtdp_pipeline \<Rightarrow> bool" where
  "launched cfg m rt bss m2 rt2 pl2 \<longleftrightarrow> config_ok cfg \<and> mem_wf m \<and> runtime_ok rt \<and>
     [] \<notin> set bss \<and> (\<forall>bs \<in> set bss. NULL \<notin> set bs) \<and>
     (\<exists>raw raw_impl raw_pipe so us sk. length bss = Suc (length us) \<and>
        source_user_ok so \<and> (\<forall>u \<in> set us. stage_user_ok u) \<and> sink_user_ok sk \<and>
        client_start cfg raw raw_impl raw_pipe m rt bss so us sk = Some (m2, rt2, pl2))"

text \<open>The threads of that pipeline have run, in any interleaving, to the state \<open>s\<close>, where each of them
  is between two iterations (the only place where a worker can end).\<close>

definition session :: "fifo_config \<Rightarrow> mem \<Rightarrow> runtime \<Rightarrow> mtdp_buffer list list \<Rightarrow> mem \<Rightarrow> runtime \<Rightarrow> 'u mtdp_pipeline \<Rightarrow>
    'u flow \<Rightarrow> bool" where
  "session cfg m rt bss m2 rt2 pl2 s \<longleftrightarrow> launched cfg m rt bss m2 rt2 pl2 \<and>
     (\<exists>u. flow_reach cfg (flow_of m2 pl2 u) s) \<and> at_rest s"

lemma launched_facts:
  fixes u :: 'u and pl2 :: "'u mtdp_pipeline"
  assumes "launched cfg m rt bss m2 rt2 pl2"
  obtains m0 where "flow_start cfg (\<lambda>k. mset (bss ! k)) (flow_of m2 pl2 u)" "shared_hold cfg m0 (fl_sh (flow_of m2 pl2 u))"
    "runtime_ok rt2" "threads rt2 = threads rt + int (n_stages pl2) + 2" "pl_enabled pl2" "workers_ready pl2"
    "all_workers thread pl2" "length (stage_impls pl2) = n_stages pl2" "length bss = Suc (n_stages pl2)"
    "heap m0 = heap m" "live m0 = live m + 4" "syncs m0 = syncs m"
proof -
  from assms obtain raw raw_impl raw_pipe so us sk where a: "config_ok cfg" "mem_wf m" "runtime_ok rt" "[] \<notin> set bss"
    "\<And>bs. bs \<in> set bss \<Longrightarrow> NULL \<notin> set bs" "length bss = Suc (length us)" "source_user_ok so"
    "\<And>u. u \<in> set us \<Longrightarrow> stage_user_ok u" "sink_user_ok sk"
    "client_start cfg raw raw_impl raw_pipe m rt bss so us sk = Some (m2, rt2, pl2)"
    unfolding launched_def by blast
  obtain m0 pl where f: "pipeline_ready cfg m0 m2 bss pl" "pl2 = pipeline_started pl" "workers_ready pl" "n_stages pl = length us"
    "heap m0 = heap m" "live m0 = live m + 4" "syncs m0 = syncs m" "runtime_ok rt2" "threads rt2 = threads rt + int (length us) + 2"
    by (rule client_start_facts[OF a(1-3) a(6) a(4,5) a(7-10)])
  note st = pipeline_ready_start[OF f(1), where u = u, folded f(2)]
  have n: "n_stages pl2 = n_stages pl" "length (stage_impls pl2) = n_stages pl" by (simp_all add: f(2) pipeline_started_def Let_def)
  have l: "length (stage_impls pl) = n_stages pl" using f(1) by (simp add: pipeline_ready_def)
  have w: "workers_ready pl2" "all_workers thread pl2" "pl_enabled pl2"
    using f(3) l by (auto simp: f(2) pipeline_started_def Let_def workers_ready_def all_workers_def stage_started_def worker_ready_def)
  show ?thesis by (rule that[OF st(1,2) f(8) _ w(3,1,2)]) (use f n a(6) in simp_all)
qed

lemma session_facts:
  assumes "session cfg m rt bss m2 rt2 pl2 s"
  obtains m0 where "flow_inv cfg (\<lambda>k. mset (bss ! k)) s" "shared_hold cfg m0 (fl_sh s)" "at_rest s" "runtime_ok rt2"
    "threads rt2 = threads rt + int (n_stages pl2) + 2" "pl_enabled pl2" "workers_ready pl2" "all_workers thread pl2"
    "length (stage_impls pl2) = n_stages pl2" "n_stages pl2 = length (fl_stages s)" "length bss = Suc (n_stages pl2)"
    "heap m0 = heap m" "live m0 = live m + 4" "syncs m0 = syncs m"
proof -
  from assms obtain u where s: "launched cfg m rt bss m2 rt2 pl2" "flow_reach cfg (flow_of m2 pl2 u) s" "at_rest s"
    unfolding session_def by blast
  obtain m0 where f: "flow_start cfg (\<lambda>k. mset (bss ! k)) (flow_of m2 pl2 u)" "shared_hold cfg m0 (fl_sh (flow_of m2 pl2 u))"
    "runtime_ok rt2" "threads rt2 = threads rt + int (n_stages pl2) + 2" "pl_enabled pl2" "workers_ready pl2"
    "all_workers thread pl2" "length (stage_impls pl2) = n_stages pl2" "length bss = Suc (n_stages pl2)"
    "heap m0 = heap m" "live m0 = live m + 4" "syncs m0 = syncs m"
    by (rule launched_facts[OF s(1), of u])
  have "length (fl_stages s) = n_stages pl2" using flow_reach_stages[OF s(2)] f(8) by (simp add: flow_of_def)
  then show ?thesis
    by (intro that[OF flow_reach_inv[OF s(2) flow_start_inv[OF f(1)]] flow_reach_hold[OF s(2) f(2)] s(3) f(3,4-8) _ f(9-12)]) simp
qed

text \<open>A concrete session: one internal stage, one buffer per pipe; the source has filled its buffer and
  wants to push it.\<close>

definition demo_source :: "unit mtdp_source" where
  "demo_source = \<lparr>so_name = None, so_data = NULL, so_init = None,
     so_process = Some (\<lambda>u stop c. (u, c\<lparr>so_ready_to_push := True\<rparr>, False))\<rparr>"

definition demo_stage :: "unit mtdp_stage" where
  "demo_stage = \<lparr>st_name = None, st_data = NULL, st_init = None,
     st_process = Some (\<lambda>u stop c. (u, c\<lparr>st_ready_to_push := True, st_ready_to_pull := True\<rparr>))\<rparr>"

definition demo_sink :: "unit mtdp_sink" where
  "demo_sink = \<lparr>sk_name = None, sk_data = NULL, sk_init = None,
     sk_process = Some (\<lambda>u stop c. (u, c\<lparr>sk_ready_to_pull := True\<rparr>))\<rparr>"

definition demo_client :: "(mem \<times> runtime \<times> unit mtdp_pipeline) option" where
  "demo_client = client_start default_config raw_pipeline raw_stage_impl pipe_blank (mem_start (\<lambda>_. True))
     (runtime_start (\<lambda>_. thrd_success)) [[Ptr 1], [Ptr 2]] demo_source [demo_stage] demo_sink"

lemma demo_launched:
  assumes "demo_client = Some (m2, rt2, pl2)"
  shows "launched default_config (mem_start (\<lambda>_. True)) (runtime_start (\<lambda>_. thrd_success)) [[Ptr 1], [Ptr 2]] m2 rt2 pl2"
proof -
  have "source_user_ok demo_source" "stage_user_ok demo_stage" "sink_user_ok demo_sink"
    by (simp_all add: source_user_ok_def stage_user_ok_def sink_user_ok_def polite_source_def polite_stage_def
        polite_sink_def demo_source_def demo_stage_def demo_sink_def)
  then show ?thesis
    unfolding launched_def using assms default_config_ok
    by (auto simp: runtime_ok_def runtime_start_def demo_client_def
        intro!: exI[of _ raw_pipeline] exI[of _ raw_stage_impl] exI[of _ pipe_blank] exI[of _ demo_source]
          exI[of _ "[demo_stage]"] exI[of _ demo_sink])
qed

lemma demo_sessionI:
  assumes "demo_client = Some (m2, rt2, pl2)" "flow_reach default_config (flow_of m2 pl2 ()) s" "at_rest s"
  shows "session default_config (mem_start (\<lambda>_. True)) (runtime_start (\<lambda>_. thrd_success)) [[Ptr 1], [Ptr 2]] m2 rt2 pl2 s"
  using demo_launched[OF assms(1)] assms(2,3) by (auto simp: session_def)

lemma demo_session:
  "\<exists>m2 rt2 pl2 s. demo_client = Some (m2, rt2, pl2) \<and> n_stages pl2 = 1 \<and> so_output (so_context (fl_source s)) = Ptr 1 \<and>
     session default_config (mem_start (\<lambda>_. True)) (runtime_start (\<lambda>_. thrd_success)) [[Ptr 1], [Ptr 2]] m2 rt2 pl2 s"
proof -
  have "case demo_client of None \<Rightarrow> False | Some (m2, rt2, pl2) \<Rightarrow> n_stages pl2 = 1 \<and>
      (case flow_run default_config [Source_thread, Source_thread, Source_thread] (flow_of m2 pl2 ()) of None \<Rightarrow> False
       | Some s \<Rightarrow> at_rest s \<and> so_output (so_context (fl_source s)) = Ptr 1)"
    by code_simp
  then obtain m2 rt2 pl2 s where c: "demo_client = Some (m2, rt2, pl2)" "n_stages pl2 = 1"
    "flow_run default_config [Source_thread, Source_thread, Source_thread] (flow_of m2 pl2 ()) = Some s"
    "at_rest s" "so_output (so_context (fl_source s)) = Ptr 1"
    by (auto split: option.splits)
  with demo_sessionI[OF c(1) flow_run_reach[OF flow_reach.start c(3)] c(4)] show ?thesis by blast
qed

text \<open>C2. Disabling collects everything: whatever the threads were doing, after \<open>mtdp_pipeline_disable\<close>
  every pipe has exactly its own buffers, all of them in its pool, no stage holds one, all
  threads are joined, and the error code is \<open>MTDP_OK\<close>. Nothing is allocated for it.\<close>

theorem pipeline_disable_collects:
  assumes "session cfg m rt bss m2 rt2 pl2 s"
  shows "\<exists>rt3 pl3. mtdp_pipeline_disable (settle_at s) cfg m2 rt2 (Some pl2) = Some (True, sh_mem (fl_sh s), rt3, Some pl3) \<and>
    errno rt3 = MTDP_OK \<and> threads rt3 = threads rt \<and> \<not> pl_enabled pl3 \<and> \<not> pl_active pl3 \<and>
    (\<forall>k \<le> n_stages pl2. mset (pool_elems (pool (pipes pl3 ! k))) = mset (bss ! k) \<and>
       mtdp_buffer_fifo_size (fifo (pipes pl3 ! k)) = 0 \<and> held_out pl3 k = NULL \<and> held_in pl3 k = NULL)"
proof -
  obtain m0 where f: "flow_inv cfg (\<lambda>k. mset (bss ! k)) s" "shared_hold cfg m0 (fl_sh s)" "at_rest s" "runtime_ok rt2"
    "threads rt2 = threads rt + int (n_stages pl2) + 2" "pl_enabled pl2" "workers_ready pl2" "all_workers thread pl2"
    "length (stage_impls pl2) = n_stages pl2" "n_stages pl2 = length (fl_stages s)"
    by (rule session_facts[OF assms])
  obtain rt3 ps where d: "mtdp_pipeline_disable (settle_at s) cfg m2 rt2 (Some pl2) =
      Some (True, sh_mem (fl_sh s), rt3, Some (pipeline_off ps (pipeline_joined (pipeline_at s (pipeline_destroyed pl2)))))"
    "all_cleared cfg (sh_mem (fl_sh s)) (sh_pipes (fl_sh s)) (\<lambda>k. mset (bss ! k)) ps"
    "threads rt3 = threads rt2 - int (n_stages pl2) - 2" "errno rt3 = MTDP_OK"
    by (rule pipeline_disable_ok[OF f(4,6-10,1,3)])
  let ?pl3 = "pipeline_off ps (pipeline_joined (pipeline_at s (pipeline_destroyed pl2)))"
  have l: "length (sh_pipes (fl_sh s)) = Suc (n_stages pl2)" using flow_invD(1)[OF f(1)] f(10) by simp
  have "pipes ?pl3 = ps" by (simp add: pipeline_off_def pipeline_emptied_def)
  moreover have "held_out ?pl3 k = NULL \<and> held_in ?pl3 k = NULL" if "k \<le> n_stages pl2" for k
    using that f(9,10) by (auto simp: held_out_def held_in_def pipeline_off_def pipeline_emptied_def stage_emptied_def
        pipeline_joined_def pipeline_at_def pipeline_destroyed_def)
  moreover have "\<not> pl_enabled ?pl3 \<and> \<not> pl_active ?pl3" by (simp add: pipeline_off_def)
  ultimately show ?thesis
    using d f(5) l by (auto simp: all_cleared_def pipe_cleared_def mtdp_buffer_fifo_size_def)
qed

theorem pipeline_disable_collects_witness:
  "\<exists>m2 rt2 pl2 s m3 rt3 pl3. demo_client = Some (m2, rt2, pl2) \<and> so_output (so_context (fl_source s)) = Ptr 1 \<and>
    mtdp_pipeline_disable (settle_at s) default_config m2 rt2 (Some pl2) = Some (True, m3, rt3, Some pl3) \<and>
    threads rt3 = 0 \<and> mset (pool_elems (pool (pipes pl3 ! 0))) = {#Ptr 1#}"
proof -
  obtain m2 rt2 pl2 s where d: "demo_client = Some (m2, rt2, pl2)" "n_stages pl2 = 1" "so_output (so_context (fl_source s)) = Ptr 1"
    "session default_config (mem_start (\<lambda>_. True)) (runtime_start (\<lambda>_. thrd_success)) [[Ptr 1], [Ptr 2]] m2 rt2 pl2 s"
    using demo_session by blast
  from pipeline_disable_collects[OF d(4)] d(1-3) show ?thesis by (fastforce simp: runtime_start_def)
qed

text \<open>Destroying the pipeline then gives back everything: the memory is as it was before the pipeline
  was created and every thread is joined.\<close>

lemma session_destroyed:
  assumes "session cfg m rt bss m2 rt2 pl2 s"
  shows "\<exists>m4 rt4. mtdp_pipeline_destroy (settle_at s) cfg m2 rt2 (Some pl2) = Some (m4, rt4) \<and>
    heap m4 = heap m \<and> live m4 = live m \<and> syncs m4 = syncs m \<and> threads rt4 = threads rt \<and> errno rt4 = MTDP_OK"
proof -
  obtain m0 where f: "flow_inv cfg (\<lambda>k. mset (bss ! k)) s" "shared_hold cfg m0 (fl_sh s)" "at_rest s" "runtime_ok rt2"
    "threads rt2 = threads rt + int (n_stages pl2) + 2" "pl_enabled pl2" "workers_ready pl2" "all_workers thread pl2"
    "length (stage_impls pl2) = n_stages pl2" "n_stages pl2 = length (fl_stages s)"
    "heap m0 = heap m" "live m0 = live m + 4" "syncs m0 = syncs m"
    by (rule session_facts[OF assms])
  obtain rt3 ps where d: "mtdp_pipeline_disable (settle_at s) cfg m2 rt2 (Some pl2) =
      Some (True, sh_mem (fl_sh s), rt3, Some (pipeline_off ps (pipeline_joined (pipeline_at s (pipeline_destroyed pl2)))))"
    "all_cleared cfg (sh_mem (fl_sh s)) (sh_pipes (fl_sh s)) (\<lambda>k. mset (bss ! k)) ps"
    "threads rt3 = threads rt2 - int (n_stages pl2) - 2"
    by (rule pipeline_disable_ok[OF f(4,6-10,1,3)])
  let ?pl3 = "pipeline_off ps (pipeline_joined (pipeline_at s (pipeline_destroyed pl2)))"
  have h: "pipes_hold cfg m0 (sh_mem (fl_sh s)) ps"
    using all_cleared_hold[OF d(2)] f(2) by (simp add: shared_hold_def)
  have l: "length ps = Suc (n_stages pl2)" using d(2) flow_invD(1)[OF f(1)] f(10) by (simp add: all_cleared_def)
  have "pipes_hold cfg m0 (sh_mem (fl_sh s)) (take (1 + n_stages pl2) ps)" using h l by simp
  then obtain m5 qs where p: "for_up 0 (1 + n_stages pl2) destroy_pipe (sh_mem (fl_sh s), ps) = Some (m5, qs)"
    "pipes_hold cfg m0 m5 []" by (rule destroy_pipes) (use l in simp)
  have pl3: "pipes ?pl3 = ps" "n_stages ?pl3 = n_stages pl2"
    by (simp_all add: pipeline_off_def pipeline_emptied_def pipeline_joined_def pipeline_at_def pipeline_destroyed_def)
  have "mtdp_pipeline_destroy (settle_at s) cfg m2 rt2 (Some pl2) =
      Some (free_array (free_array (free_array (free_array m5))), set_errno MTDP_OK rt3)"
    using d(1) p(1) pl3 by (simp add: mtdp_pipeline_destroy_def mtdp_pipeline_dealloc_def mtdp_stage_vector_destroy_def
        mtdp_stage_impl_vector_destroy_def mtdp_pipe_vector_destroy_def del: for_up.simps)
  then show ?thesis using p(2) f(5,11-13) d(3) by (simp add: mem_simps set_errno_def)
qed

end
