(* ===== verification/Pipeline_States.thy ===== *)
theory Pipeline_States
  imports Pipeline_Properties Worker_Protocol
begin

text \<open>
  The three states of a pipeline and the calls that move between them, against the state machine
  its documentation describes (\<open>include/mtdp/pipeline.h\<close>); the failures the calls do not report.
\<close>

section \<open>The documented state machine\<close>

datatype pipeline_state = Disabled_state | Enabled_state | Active_state

datatype pipeline_call = Call_enable | Call_disable | Call_start | Call_stop

fun documented :: "pipeline_call \<Rightarrow> pipeline_state \<Rightarrow> bool \<times> mtdp_error \<times> pipeline_state" where
  "documented Call_enable Disabled_state = (True, MTDP_OK, Enabled_state)"
| "documented Call_enable st = (False, MTDP_ENABLED, st)"
| "documented Call_disable Disabled_state = (False, MTDP_NOT_ENABLED, Disabled_state)"
| "documented Call_disable st = (True, MTDP_OK, Disabled_state)"
| "documented Call_start Disabled_state = (False, MTDP_NOT_ENABLED, Disabled_state)"
| "documented Call_start Enabled_state = (True, MTDP_OK, Active_state)"
| "documented Call_start Active_state = (False, MTDP_ACTIVE, Active_state)"
| "documented Call_stop Disabled_state = (False, MTDP_NOT_ENABLED, Disabled_state)"
| "documented Call_stop Enabled_state = (False, MTDP_ENABLED, Enabled_state)"
| "documented Call_stop Active_state = (True, MTDP_OK, Enabled_state)"

definition state_of :: "'u mtdp_pipeline \<Rightarrow> pipeline_state" where
  "state_of pl = (if \<not> pl_enabled pl then Disabled_state else if pl_active pl then Active_state else Enabled_state)"

definition do_call :: "pipeline_call \<Rightarrow> 'u flow \<Rightarrow> fifo_config \<Rightarrow> mem \<Rightarrow> runtime \<Rightarrow> 'u mtdp_pipeline \<Rightarrow>
    (bool \<times> mem \<times> runtime \<times> 'u mtdp_pipeline option) option" where
  "do_call c s cfg m rt pl =
    (case c of
       Call_enable \<Rightarrow> map_option (\<lambda>(ok, rt, pl). (ok, m, rt, pl)) (mtdp_pipeline_enable rt (Some pl))
     | Call_disable \<Rightarrow> mtdp_pipeline_disable (settle_at s) cfg m rt (Some pl)
     | Call_start \<Rightarrow> map_option (\<lambda>(ok, rt, pl). (ok, m, rt, pl)) (mtdp_pipeline_start rt (Some pl))
     | Call_stop \<Rightarrow> map_option (\<lambda>(ok, rt, pl). (ok, m, rt, pl)) (mtdp_pipeline_stop rt (Some pl)))"

text \<open>A pipeline whose client may call anything: wired, its workers initialised and, when it is
  enabled, running.\<close>

definition pipeline_usable :: "'u mtdp_pipeline \<Rightarrow> bool" where
  "pipeline_usable pl \<longleftrightarrow> length (stage_impls pl) = n_stages pl \<and>
     (\<forall>g \<in> set (stage_impls pl). st_user_data g < length (stages pl)) \<and> workers_ready pl \<and>
     (pl_enabled pl \<longrightarrow> all_workers thread pl)"

lemma usable_set_workers:
  assumes "pipeline_usable pl" "\<And>w. worker_ready (g w) = worker_ready w" "\<And>w. thread (g w) = thread w"
  shows "pipeline_usable (set_workers g pl)" "pipeline_usable ((set_workers g pl)\<lparr>pl_active := b\<rparr>)"
    "state_of ((set_workers g pl)\<lparr>pl_active := b\<rparr>) =
       (if \<not> pl_enabled pl then Disabled_state else if b then Active_state else Enabled_state)"
  using assms by (auto simp: pipeline_usable_def set_workers_def workers_ready_def all_workers_def state_of_def)

lemma started_usable:
  "pipeline_usable pl \<Longrightarrow> pipeline_usable (pipeline_started pl) \<and> state_of (pipeline_started pl) = Enabled_state"
  by (auto simp: pipeline_usable_def pipeline_started_def Let_def workers_ready_def all_workers_def worker_ready_def
      stage_started_def state_of_def)

lemma off_usable:
  assumes "pipeline_usable pl" "n_stages pl = length (fl_stages s)" "\<And>i. i < length (fl_stages s) \<Longrightarrow> st_user_data (fl_stages s ! i) < length (stages pl)"
  shows "pipeline_usable (pipeline_off ps (pipeline_joined (pipeline_at s (pipeline_destroyed pl))))"
    "state_of (pipeline_off ps (pipeline_joined (pipeline_at s (pipeline_destroyed pl)))) = Disabled_state"
    "all_workers destroyed (pipeline_off ps (pipeline_joined (pipeline_at s (pipeline_destroyed pl))))"
  using assms by (auto simp: pipeline_usable_def pipeline_off_def pipeline_emptied_def pipeline_joined_def
      pipeline_at_def pipeline_destroyed_def workers_ready_def all_workers_def worker_ready_def stage_emptied_def
      state_of_def in_set_zip)

text \<open>What the theorem below says of one call.\<close>

definition call_refines :: "pipeline_call \<Rightarrow> 'u flow \<Rightarrow> fifo_config \<Rightarrow> mem \<Rightarrow> runtime \<Rightarrow> 'u mtdp_pipeline \<Rightarrow> bool" where
  "call_refines c s cfg m rt pl \<longleftrightarrow> (\<exists>ok m' rt' pl'. do_call c s cfg m rt pl = Some (ok, m', rt', Some pl') \<and> runtime_ok rt' \<and>
    pipeline_usable pl' \<and> (ok, errno rt', state_of pl') = documented c (state_of pl) \<and>
    (c = Call_start \<and> ok \<longrightarrow> all_workers enabled pl') \<and> (c = Call_stop \<and> ok \<longrightarrow> all_workers (\<lambda>w. \<not> enabled w) pl'))"

lemma usable_workers:
  assumes "pipeline_usable pl" "length (stages pl) = n_stages pl"
  shows "length (stage_impls pl) = n_stages pl" "workers_ready pl" "all_workers worker_ready pl"
    "\<And>k. k < n_stages pl \<Longrightarrow> st_user_data (stage_impls pl ! k) < length (stages pl)"
  using assms by (auto simp: pipeline_usable_def workers_ready_all)

lemma enable_refines:
  assumes "pipeline_usable pl" "runtime_ok rt" "length (stages pl) = n_stages pl"
  shows "call_refines Call_enable s cfg m rt pl"
proof (cases "pl_enabled pl")
  case True
  then show ?thesis using assms(1,2)
    by (auto simp: call_refines_def state_of_def set_errno_def do_call_def mtdp_pipeline_enable_def runtime_ok_def)
next
  case False
  obtain rt' where "mtdp_pipeline_enable rt (Some pl) = Some (True, rt', Some (pipeline_started pl))"
    "runtime_ok rt'" "errno rt' = MTDP_OK"
    by (rule pipeline_enable_ok[OF assms(2) False usable_workers(1,4)[OF assms(1,3)]])
  moreover have "state_of pl = Disabled_state" using False by (simp add: state_of_def)
  ultimately show ?thesis using started_usable[OF assms(1)] by (auto simp: call_refines_def do_call_def)
qed

lemma disable_refines:
  assumes "pipeline_usable pl" "runtime_ok rt" "flow_inv cfg B s" "at_rest s" "n_stages pl = length (fl_stages s)"
    "length (stages pl) = n_stages pl"
  shows "call_refines Call_disable s cfg m rt pl"
proof (cases "pl_enabled pl")
  case True
  note u = usable_workers[OF assms(1,6)]
  have t: "all_workers thread pl" using assms(1) True by (simp add: pipeline_usable_def)
  obtain rt' ps where d: "mtdp_pipeline_disable (settle_at s) cfg m rt (Some pl) =
      Some (True, sh_mem (fl_sh s), rt', Some (pipeline_off ps (pipeline_joined (pipeline_at s (pipeline_destroyed pl)))))"
    "runtime_ok rt'" "errno rt' = MTDP_OK"
    by (rule pipeline_disable_ok[OF assms(2) True u(2) t u(1) assms(5,3,4)])
  have ud: "st_user_data (fl_stages s ! i) < length (stages pl)" if "i < length (fl_stages s)" for i
    using flow_invD(6)[OF assms(3) that] that assms(5,6) by (simp add: stage_ok_def)
  have "documented Call_disable (state_of pl) = (True, MTDP_OK, Disabled_state)" using True by (simp add: state_of_def)
  then show ?thesis using d off_usable(1,2)[OF assms(1,5) ud] by (auto simp: call_refines_def do_call_def)
next
  case False
  then show ?thesis using assms(1,2)
    by (auto simp: call_refines_def state_of_def set_errno_def do_call_def mtdp_pipeline_disable_def runtime_ok_def)
qed

lemma start_refines:
  assumes "pipeline_usable pl" "runtime_ok rt" "length (stages pl) = n_stages pl"
  shows "call_refines Call_start s cfg m rt pl"
proof (cases "pl_enabled pl \<and> \<not> pl_active pl")
  case True
  let ?g = "\<lambda>w. w\<lparr>enabled := True\<rparr>"
  obtain rt' where "mtdp_pipeline_start rt (Some pl) =
      Some (True, set_errno MTDP_OK rt', Some ((set_workers ?g pl)\<lparr>pl_active := True\<rparr>))" "runtime_ok rt'"
    by (rule pipeline_start_set[where Q = runtime_ok and R = worker_ready and g = ?g])
       (use True assms(2) usable_workers[OF assms(1,3)] worker_setters_ok(1) in \<open>blast+\<close>)
  moreover have "all_workers enabled ((set_workers ?g pl)\<lparr>pl_active := True\<rparr>)"
    by (auto simp: all_workers_def set_workers_def)
  ultimately show ?thesis using True usable_set_workers(2,3)[OF assms(1), of ?g True]
    by (auto simp: call_refines_def do_call_def set_errno_def runtime_ok_def worker_ready_def state_of_def[of pl])
next
  case False
  then show ?thesis using assms(1,2)
    by (auto simp: call_refines_def state_of_def set_errno_def do_call_def mtdp_pipeline_start_def runtime_ok_def)
qed

lemma stop_refines:
  assumes "pipeline_usable pl" "runtime_ok rt" "length (stages pl) = n_stages pl"
  shows "call_refines Call_stop s cfg m rt pl"
proof (cases "pl_enabled pl \<and> pl_active pl")
  case True
  let ?g = "\<lambda>w. w\<lparr>enabled := False\<rparr>"
  obtain rt' where "mtdp_pipeline_stop rt (Some pl) =
      Some (True, set_errno MTDP_OK rt', Some ((set_workers ?g pl)\<lparr>pl_active := False\<rparr>))" "runtime_ok rt'"
    by (rule pipeline_stop_set[where Q = runtime_ok and R = worker_ready and g = ?g])
       (use True assms(2) usable_workers[OF assms(1,3)] worker_setters_ok(2) in \<open>blast+\<close>)
  moreover have "all_workers (\<lambda>w. \<not> enabled w) ((set_workers ?g pl)\<lparr>pl_active := False\<rparr>)"
    by (auto simp: all_workers_def set_workers_def)
  ultimately show ?thesis using True usable_set_workers(2,3)[OF assms(1), of ?g False]
    by (auto simp: call_refines_def do_call_def set_errno_def runtime_ok_def worker_ready_def state_of_def[of pl])
next
  case False
  then show ?thesis using assms(1,2)
    by (auto simp: call_refines_def state_of_def set_errno_def do_call_def mtdp_pipeline_stop_def runtime_ok_def)
qed

text \<open>C10. The calls implement the documented state machine: on a usable pipeline, with a runtime that
  does not fail, each of enable, disable, start and stop returns what the documentation says,
  sets that error code, moves to that state and leaves the pipeline usable; a start enables
  every worker, a stop disables every one.\<close>

theorem pipeline_calls_refine_states:
  assumes "pipeline_usable pl" "runtime_ok rt" "flow_inv cfg B s" "at_rest s" "n_stages pl = length (fl_stages s)"
    "length (stages pl) = n_stages pl"
  shows "\<exists>ok m' rt' pl'. do_call c s cfg m rt pl = Some (ok, m', rt', Some pl') \<and> runtime_ok rt' \<and> pipeline_usable pl' \<and>
    (ok, errno rt', state_of pl') = documented c (state_of pl) \<and>
    (c = Call_start \<and> ok \<longrightarrow> all_workers enabled pl') \<and> (c = Call_stop \<and> ok \<longrightarrow> all_workers (\<lambda>w. \<not> enabled w) pl')"
proof -
  have "call_refines c s cfg m rt pl"
    by (cases c) (simp_all add: enable_refines disable_refines[OF assms] start_refines stop_refines assms(1,2,6))
  then show ?thesis unfolding call_refines_def .
qed

lemma demo_usable: "demo_client = Some (m2, rt2, pl2) \<Longrightarrow> pipeline_usable pl2 \<and> length (stages pl2) = n_stages pl2"
proof -
  assume d: "demo_client = Some (m2, rt2, pl2)"
  have "case demo_client of None \<Rightarrow> True | Some (_, _, pl) \<Rightarrow> pipeline_usable pl \<and> length (stages pl) = n_stages pl"
    by code_simp
  then show ?thesis unfolding d by simp
qed

theorem pipeline_calls_refine_states_witness:
  "\<exists>m2 rt2 pl2 s m3 rt3 pl3. demo_client = Some (m2, rt2, pl2) \<and> state_of pl2 = Enabled_state \<and>
    do_call Call_start s default_config m2 rt2 pl2 = Some (True, m3, rt3, Some pl3) \<and> state_of pl3 = Active_state \<and>
    all_workers enabled pl3"
proof -
  obtain m2 rt2 pl2 s where d: "demo_client = Some (m2, rt2, pl2)"
    "session default_config (mem_start (\<lambda>_. True)) (runtime_start (\<lambda>_. thrd_success)) [[Ptr 1], [Ptr 2]] m2 rt2 pl2 s"
    using demo_session by blast
  have "case demo_client of None \<Rightarrow> True | Some (_, _, pl) \<Rightarrow> state_of pl = Enabled_state" by code_simp
  then have e: "state_of pl2 = Enabled_state" unfolding d(1) by simp
  obtain m0 where f: "flow_inv default_config (\<lambda>k. mset ([[Ptr 1], [Ptr 2]] ! k)) s"
    "shared_hold default_config m0 (fl_sh s)" "at_rest s" "runtime_ok rt2" "n_stages pl2 = length (fl_stages s)"
    by (rule session_facts[OF d(2)])
  note us = demo_usable[OF d(1)]
  from pipeline_calls_refine_states[OF us[THEN conjunct1] f(4,1,3,5) us[THEN conjunct2], of Call_start m2] e d(1)
  show ?thesis by fastforce
qed

section \<open>What the calls do not report\<close>

text \<open>C32. A disabled pipeline cannot be enabled again. The workers keep the mark of their destruction:
  \<open>mtdp_pipeline_enable\<close> then returns true with \<open>MTDP_OK\<close> and creates all threads, but each of
  them leaves its routine at the first test, whatever happens in between, and runs no callback.\<close>

theorem pipeline_reenable_dead:
  assumes "session cfg m rt bss m2 rt2 pl2 s" "length (stages pl2) = n_stages pl2"
    and "mtdp_pipeline_disable (settle_at s) cfg m2 rt2 (Some pl2) = Some (ok, m3, rt3, Some pl3)"
  shows "\<exists>rt4 pl4. mtdp_pipeline_enable rt3 (Some pl3) = Some (True, rt4, Some pl4) \<and> errno rt4 = MTDP_OK \<and>
    threads rt4 = threads rt3 + int (n_stages pl2) + 2 \<and>
    all_workers (\<lambda>w. \<forall>t fin. w_destroyed t = destroyed w \<and> pc t = W_Test \<longrightarrow>
      routine_step fin t = Some (t\<lparr>pc := W_Exited\<rparr>)) pl4"
proof -
  obtain m0 where f: "flow_inv cfg (\<lambda>k. mset (bss ! k)) s" "shared_hold cfg m0 (fl_sh s)" "at_rest s" "runtime_ok rt2"
    "pl_enabled pl2" "workers_ready pl2" "all_workers thread pl2"
    "length (stage_impls pl2) = n_stages pl2" "n_stages pl2 = length (fl_stages s)"
    by (rule session_facts[OF assms(1)])
  let ?off = "\<lambda>ps. pipeline_off ps (pipeline_joined (pipeline_at s (pipeline_destroyed pl2)))"
  obtain rt3' ps where d: "mtdp_pipeline_disable (settle_at s) cfg m2 rt2 (Some pl2) =
      Some (True, sh_mem (fl_sh s), rt3', Some (?off ps))" "runtime_ok rt3'"
    by (rule pipeline_disable_ok[OF f(4,5,6,7,8,9,1,3)])
  have eq: "rt3 = rt3'" "pl3 = ?off ps" using d(1) assms(3) by simp_all
  have w: "all_workers destroyed pl3"
    using f(8,9) by (auto simp: eq(2) pipeline_off_def pipeline_emptied_def pipeline_joined_def
      pipeline_at_def pipeline_destroyed_def all_workers_def stage_emptied_def in_set_zip)
  have ud: "st_user_data (stage_impls pl3 ! k) < length (stages pl3)" if "k < n_stages pl2" for k
    using flow_invD(6)[OF f(1), of k] that f(8,9) assms(2) by (simp add: eq(2) pipeline_off_def pipeline_emptied_def
        pipeline_joined_def pipeline_at_def pipeline_destroyed_def stage_emptied_def stage_ok_def)
  have n: "n_stages pl3 = n_stages pl2" "\<not> pl_enabled pl3" "length (stage_impls pl3) = n_stages pl3"
    using f(8,9) by (simp_all add: eq(2) pipeline_off_def pipeline_emptied_def pipeline_joined_def pipeline_at_def
        pipeline_destroyed_def)
  have r3: "runtime_ok rt3" using d(2) eq by simp
  obtain rt4 where e: "mtdp_pipeline_enable rt3 (Some pl3) = Some (True, rt4, Some (pipeline_started pl3))"
    "runtime_ok rt4" "threads rt4 = threads rt3 + int (n_stages pl3) + 2" "errno rt4 = MTDP_OK"
    by (rule pipeline_enable_ok[OF r3 n(2,3)]) (use ud n in simp_all)
  have "all_workers destroyed (pipeline_started pl3)"
    using w n(3) by (auto simp: all_workers_def pipeline_started_def Let_def stage_started_def)
  then have "all_workers (\<lambda>w. \<forall>t fin. w_destroyed t = destroyed w \<and> pc t = W_Test \<longrightarrow>
      routine_step fin t = Some (t\<lparr>pc := W_Exited\<rparr>)) (pipeline_started pl3)"
    by (auto simp: all_workers_def routine_step_def)
  with e n(1) show ?thesis by auto
qed

theorem pipeline_reenable_dead_witness:
  "\<exists>m2 rt2 pl2 s m3 rt3 pl3 rt4 pl4. demo_client = Some (m2, rt2, pl2) \<and>
    mtdp_pipeline_disable (settle_at s) default_config m2 rt2 (Some pl2) = Some (True, m3, rt3, Some pl3) \<and>
    mtdp_pipeline_enable rt3 (Some pl3) = Some (True, rt4, Some pl4) \<and> errno rt4 = MTDP_OK"
proof -
  obtain m2 rt2 pl2 s where d: "demo_client = Some (m2, rt2, pl2)"
    "session default_config (mem_start (\<lambda>_. True)) (runtime_start (\<lambda>_. thrd_success)) [[Ptr 1], [Ptr 2]] m2 rt2 pl2 s"
    using demo_session by blast
  note us = demo_usable[OF d(1)]
  obtain m0 where f: "flow_inv default_config (\<lambda>k. mset ([[Ptr 1], [Ptr 2]] ! k)) s"
    "shared_hold default_config m0 (fl_sh s)" "at_rest s" "runtime_ok rt2" "pl_enabled pl2"
    "workers_ready pl2" "all_workers thread pl2" "length (stage_impls pl2) = n_stages pl2" "n_stages pl2 = length (fl_stages s)"
    by (rule session_facts[OF d(2)])
  obtain m3 rt3 pl3 where c: "mtdp_pipeline_disable (settle_at s) default_config m2 rt2 (Some pl2) = Some (True, m3, rt3, Some pl3)"
    by (rule pipeline_disable_ok[OF f(4-9,1,3)]) blast
  from pipeline_reenable_dead[OF d(2) us[THEN conjunct2] c] d(1) c show ?thesis by fast
qed

text \<open>Destroying a worker keeps the record of its thread.\<close>

lemma worker_mtx_lock_thread: "worker_mtx_lock rt w = Some (c, rt', w') \<Longrightarrow> thread w' = thread w"
  by (auto simp: worker_mtx_lock_def rt_call_def split: if_splits)

lemma worker_mtx_unlock_thread: "worker_mtx_unlock rt w = Some (c, rt', w') \<Longrightarrow> thread w' = thread w"
  by (auto simp: worker_mtx_unlock_def rt_call_def split: if_splits)

lemma worker_destroy_thread: "mtdp_worker_destroy rt w = Some (b, rt', w') \<Longrightarrow> thread w' = thread w"
  by (auto simp: mtdp_worker_destroy_def worker_set_def Let_def bind_eq_Some_conv
      dest!: worker_mtx_lock_thread worker_mtx_unlock_thread split: if_splits prod.splits)

lemma destroy_stages_source:
  "for_up i n destroy_stage (rt, pl) = Some (rt', pl') \<Longrightarrow> source_impl pl' = source_impl pl"
proof (induction n arbitrary: i rt pl)
  case (Suc n)
  then obtain rt1 pl1 where "destroy_stage i (rt, pl) = Some (rt1, pl1)" "for_up (Suc i) n destroy_stage (rt1, pl1) = Some (rt', pl')"
    by (auto simp: bind_eq_Some_conv)
  with Suc.IH show ?case by (fastforce simp: destroy_stage_def bind_eq_Some_conv)
qed simp

lemma disable_without_thread:
  assumes "pl_enabled pl" "\<not> thread (so_worker (source_impl pl))"
  shows "mtdp_pipeline_disable id cfg m rt (Some pl) = None"
proof (rule ccontr)
  assume "mtdp_pipeline_disable id cfg m rt (Some pl) \<noteq> None"
  then obtain rt1 so rt2 pl2 rt3 sk x where d: "mtdp_source_destroy rt (source_impl pl) = Some (rt1, so)"
    "for_up 0 (n_stages pl) destroy_stage (rt1, pl\<lparr>destroying := 1, source_impl := so\<rparr>) = Some (rt2, pl2)"
    "mtdp_sink_destroy rt2 (sink_impl pl2) = Some (rt3, sk)" "mtdp_pipeline_join rt3 (pl2\<lparr>sink_impl := sk\<rparr>) = Some x"
    using assms(1) by (auto simp: mtdp_pipeline_disable_def Let_def bind_eq_Some_conv)
  have "thread (so_worker so) = thread (so_worker (source_impl pl))"
    using d(1) by (auto simp: mtdp_source_destroy_def Let_def bind_eq_Some_conv dest: worker_destroy_thread)
  moreover have "source_impl pl2 = so" using destroy_stages_source[OF d(2)] by simp
  ultimately have "\<not> thread (so_worker (source_impl pl2))" using assms(2) by simp
  with d(4) show False by (simp add: mtdp_pipeline_join_def mtdp_worker_join_def)
qed

lemma create_thread_failed:
  "codes rt = (\<lambda>_. thrd_error) \<Longrightarrow> mtdp_worker_create_thread rt w =
     (False, rt\<lparr>calls := Suc (calls rt), errno := MTDP_THRD_ERROR\<rparr>, w)"
  by (simp add: mtdp_worker_create_thread_def rt_call_def check_failed_def)

text \<open>The calls hide the failures of the C runtime. When every thread creation fails,
  \<open>mtdp_pipeline_enable\<close> returns true with \<open>MTDP_OK\<close> on a pipeline of which no thread exists, and
  the next \<open>mtdp_pipeline_disable\<close> joins a thread that was never created, which is undefined.\<close>

theorem pipeline_enable_hides_failure:
  assumes "pipeline_usable pl" "\<not> pl_enabled pl" "codes rt = (\<lambda>_. thrd_error)" "all_workers (\<lambda>w. \<not> thread w) pl"
  shows "\<exists>rt' pl'. mtdp_pipeline_enable rt (Some pl) = Some (True, rt', Some pl') \<and> errno rt' = MTDP_OK \<and>
    pl_enabled pl' \<and> threads rt' = threads rt \<and> all_workers (\<lambda>w. \<not> thread w) pl' \<and>
    (\<forall>m rt2. mtdp_pipeline_disable id cfg m rt2 (Some pl') = None)"
proof -
  let ?n = "n_stages pl"
  obtain rt1 sk where sk: "mtdp_sink_create_thread rt (sink_impl pl) = (rt1, sk)" "codes rt1 = (\<lambda>_. thrd_error)"
    "threads rt1 = threads rt" "\<not> thread (sk_worker sk)"
    using assms(3,4) by (simp add: mtdp_sink_create_thread_def create_thread_failed Let_def all_workers_def)
  define P where "P k s \<longleftrightarrow> (case s of (rt2, pl2) \<Rightarrow> codes rt2 = (\<lambda>_. thrd_error) \<and> threads rt2 = threads rt \<and>
      length (stage_impls pl2) = ?n \<and> stages pl2 = stages pl \<and> source_impl pl2 = source_impl pl \<and> sink_impl pl2 = sk \<and>
      (\<forall>g \<in> set (stage_impls pl2). st_user_data g < length (stages pl) \<and> \<not> thread (st_worker g)))"
    for k :: nat and s :: "runtime \<times> 'a mtdp_pipeline"
  have "\<exists>s'. for_down ?n enable_stage (rt1, pl\<lparr>sink_impl := sk\<rparr>) = Some s' \<and> P 0 s'"
  proof (rule for_down_rule)
    show "P ?n (rt1, pl\<lparr>sink_impl := sk\<rparr>)" using assms(1,4) sk by (simp add: P_def pipeline_usable_def all_workers_def)
  next
    fix k s assume k: "k < ?n" and Ps: "P (Suc k) s"
    obtain rt2 pl2 where s: "s = (rt2, pl2)" by fastforce
    note q = Ps[unfolded P_def s, simplified]
    let ?g = "stage_impls pl2 ! k"
    let ?h = "?g\<lparr>st_context := \<lparr>st_self = st_data (stages pl ! st_user_data ?g), st_input = NULL, st_output = NULL,
        st_ready_to_push = False, st_ready_to_pull = True\<rparr>, st_done := 0,
        st_worker := (st_worker ?g)\<lparr>wname := st_name (stages pl ! st_user_data ?g)\<rparr>\<rparr>"
    have g: "st_user_data ?g < length (stages pl)" "\<not> thread (st_worker ?g)" using q k by simp_all
    have e: "enable_stage k s = Some (rt2\<lparr>calls := Suc (calls rt2), errno := MTDP_THRD_ERROR\<rparr>,
        pl2\<lparr>stage_impls := (stage_impls pl2)[k := ?h]\<rparr>)"
      using q k g by (simp add: s enable_stage_def mtdp_stage_create_thread_def create_thread_failed Let_def)
    have "st_user_data h < length (stages pl) \<and> \<not> thread (st_worker h)" if "h \<in> set ((stage_impls pl2)[k := ?h])" for h
      using set_update_subset_insert[of "stage_impls pl2" k ?h] that q g by auto
    then have "P k (rt2\<lparr>calls := Suc (calls rt2), errno := MTDP_THRD_ERROR\<rparr>, pl2\<lparr>stage_impls := (stage_impls pl2)[k := ?h]\<rparr>)"
      using q by (simp add: P_def)
    with e show "\<exists>s'. enable_stage k s = Some s' \<and> P k s'" by blast
  qed
  then obtain rt2 pl2 where st: "for_down ?n enable_stage (rt1, pl\<lparr>sink_impl := sk\<rparr>) = Some (rt2, pl2)" "P 0 (rt2, pl2)"
    by fastforce
  note q = st(2)[unfolded P_def, simplified]
  obtain rt3 so where so: "mtdp_source_create_thread rt2 (source_impl pl2) = (rt3, so)" "threads rt3 = threads rt"
    "\<not> thread (so_worker so)"
    using q assms(4) by (simp add: mtdp_source_create_thread_def create_thread_failed Let_def all_workers_def)
  let ?pl = "pl2\<lparr>source_impl := so, pl_enabled := True, pl_active := False\<rparr>"
  have "mtdp_pipeline_enable rt (Some pl) = Some (True, set_errno MTDP_OK rt3, Some ?pl)"
    using assms(2) sk(1) st(1) so(1) by (simp add: mtdp_pipeline_enable_def Let_def)
  moreover have "all_workers (\<lambda>w. \<not> thread w) ?pl" using q so(3) sk(4) by (simp add: all_workers_def)
  moreover have "mtdp_pipeline_disable id cfg m rt2 (Some ?pl) = None" for m rt2
    by (rule disable_without_thread) (use so(3) in simp_all)
  ultimately show ?thesis using so(2) by (auto simp: set_errno_def)
qed

lemma demo_created:
  obtains pl m rt where "mtdp_pipeline_create default_config raw_pipeline raw_stage_impl pipe_blank (mem_start (\<lambda>_. True))
     (runtime_start (\<lambda>_. thrd_success)) 1 = Some (Some pl, m, rt)" "pipeline_usable pl" "\<not> pl_enabled pl"
    "all_workers (\<lambda>w. \<not> thread w) pl"
proof -
  obtain pl m rt where c: "mtdp_pipeline_create default_config raw_pipeline raw_stage_impl pipe_blank (mem_start (\<lambda>_. True))
     (runtime_start (\<lambda>_. thrd_success)) 1 = Some (Some pl, m, rt)" using create_succeeds by blast
  have "case mtdp_pipeline_create default_config raw_pipeline raw_stage_impl pipe_blank (mem_start (\<lambda>_. True))
     (runtime_start (\<lambda>_. thrd_success)) 1 of Some (Some pl, m, rt) \<Rightarrow>
       pipeline_usable pl \<and> \<not> pl_enabled pl \<and> all_workers (\<lambda>w. \<not> thread w) pl | _ \<Rightarrow> True" by code_simp
  then have "pipeline_usable pl \<and> \<not> pl_enabled pl \<and> all_workers (\<lambda>w. \<not> thread w) pl" unfolding c by simp
  with c show ?thesis using that by blast
qed

theorem pipeline_enable_hides_failure_witness:
  "\<exists>pl m rt rt' pl'. mtdp_pipeline_create default_config raw_pipeline raw_stage_impl pipe_blank (mem_start (\<lambda>_. True))
     (runtime_start (\<lambda>_. thrd_success)) 1 = Some (Some pl, m, rt) \<and>
    mtdp_pipeline_enable (runtime_start (\<lambda>_. thrd_error)) (Some pl) = Some (True, rt', Some pl') \<and> errno rt' = MTDP_OK \<and>
    mtdp_pipeline_disable id default_config m rt' (Some pl') = None"
proof -
  obtain pl m rt where c: "mtdp_pipeline_create default_config raw_pipeline raw_stage_impl pipe_blank (mem_start (\<lambda>_. True))
     (runtime_start (\<lambda>_. thrd_success)) 1 = Some (Some pl, m, rt)" "pipeline_usable pl" "\<not> pl_enabled pl"
    "all_workers (\<lambda>w. \<not> thread w) pl" by (rule demo_created)
  have "codes (runtime_start (\<lambda>_. thrd_error)) = (\<lambda>_. thrd_error)" by (simp add: runtime_start_def)
  from pipeline_enable_hides_failure[OF c(2,3) this c(4), of default_config] c(1) show ?thesis by blast
qed

text \<open>Starting hides failures too: when no worker's mutex can be locked, \<open>mtdp_pipeline_start\<close> still
  returns true with \<open>MTDP_OK\<close> and marks the pipeline active, while no worker was enabled.\<close>

theorem pipeline_start_hides_failure:
  assumes "pipeline_usable pl" "state_of pl = Enabled_state" "codes rt = (\<lambda>_. thrd_error)" "all_workers (\<lambda>w. \<not> enabled w) pl"
  shows "\<exists>rt' pl'. mtdp_pipeline_start rt (Some pl) = Some (True, rt', Some pl') \<and> errno rt' = MTDP_OK \<and>
    state_of pl' = Active_state \<and> all_workers (\<lambda>w. \<not> enabled w) pl'"
proof -
  have on: "pl_enabled pl" "\<not> pl_active pl" using assms(2) by (auto simp: state_of_def split: if_splits)
  have l: "length (stage_impls pl) = n_stages pl" "all_workers worker_ready pl"
    using assms(1) by (simp_all add: pipeline_usable_def workers_ready_all)
  have op: "\<exists>b r'. mtdp_worker_enable r w = Some (b, r', id w) \<and> codes r' = (\<lambda>_. thrd_error)"
    if "codes r = (\<lambda>_. thrd_error)" "worker_ready w" for r w
    using that by (auto simp: mtdp_worker_enable_def worker_set_def worker_mtx_lock_def rt_call_def worker_ready_def check_failed_def)
  obtain rt' where "mtdp_pipeline_start rt (Some pl) = Some (True, set_errno MTDP_OK rt', Some ((set_workers id pl)\<lparr>pl_active := True\<rparr>))"
    by (rule pipeline_start_set[where Q = "\<lambda>r. codes r = (\<lambda>_. thrd_error)" and R = worker_ready and g = id, OF on op assms(3) l])
  moreover have "all_workers (\<lambda>w. \<not> enabled w) ((set_workers id pl)\<lparr>pl_active := True\<rparr>)"
    using assms(4) by (auto simp: all_workers_def set_workers_def)
  ultimately show ?thesis using on by (auto simp: set_errno_def state_of_def set_workers_def)
qed

theorem pipeline_start_hides_failure_witness:
  "\<exists>m2 rt2 pl2 rt' pl'. demo_client = Some (m2, rt2, pl2) \<and>
    mtdp_pipeline_start (runtime_start (\<lambda>_. thrd_error)) (Some pl2) = Some (True, rt', Some pl') \<and> errno rt' = MTDP_OK \<and>
    all_workers (\<lambda>w. \<not> enabled w) pl'"
proof -
  obtain m2 rt2 pl2 where d: "demo_client = Some (m2, rt2, pl2)" using demo_session by blast
  have "case demo_client of None \<Rightarrow> True | Some (_, _, pl) \<Rightarrow> state_of pl = Enabled_state \<and> all_workers (\<lambda>w. \<not> enabled w) pl"
    by code_simp
  then have e: "state_of pl2 = Enabled_state" "all_workers (\<lambda>w. \<not> enabled w) pl2" unfolding d by simp_all
  have "codes (runtime_start (\<lambda>_. thrd_error)) = (\<lambda>_. thrd_error)" by (simp add: runtime_start_def)
  from pipeline_start_hides_failure[OF demo_usable[OF d, THEN conjunct1] e(1) this e(2)] d show ?thesis by blast
qed

end
