(* ===== verification/Futex.thy ===== *)
theory Futex
  imports Mtdp_Prelude
begin

text \<open>
  The futex of \<open>src/futex.h\<close> (Linux) and the bells of \<open>src/bell.h\<close>: atomic words on which threads
  wait, and the stores that ring them. One waiting thread among any number of threads that store;
  \<open>'b\<close> names the words.

  A thread does one action per step. \<open>FUTEX_WAIT\<close> compares the word and goes to sleep in one
  action; it fails when the word has changed or a signal arrives (\<open>intr\<close>), and returns 0 when it
  is woken, possibly for no reason.
\<close>

section \<open>Waiting\<close>

datatype 'b futex_pc = Futex_load 'b nat | Futex_call 'b nat | Futex_sleep 'b nat

text \<open>One action of \<open>mtdp_futex_wait(ftx, val)\<close>. The result \<open>None\<close>: asleep; \<open>Some None\<close>: the loop
  is left; else the next position in it.\<close>

fun futex_step :: "bool \<Rightarrow> ('b \<Rightarrow> nat) \<Rightarrow> 'b futex_pc \<Rightarrow> 'b futex_pc option option" where
  "futex_step intr wd (Futex_load b v) = Some (if wd b = v then Some (Futex_call b v) else None)"
| "futex_step intr wd (Futex_call b v) = Some (if intr \<or> wd b \<noteq> v then None else Some (Futex_sleep b v))"
| "futex_step intr wd (Futex_sleep b v) = (if intr then Some None else None)"

text \<open>What \<open>FUTEX_WAKE\<close> on \<open>b\<close> (\<open>mtdp_futex_notify_all\<close>) does to the waiting thread: its call
  returns 0 and the loop goes on.\<close>

fun futex_notify_all :: "'b \<Rightarrow> 'b futex_pc \<Rightarrow> 'b futex_pc" where
  "futex_notify_all b (Futex_sleep b' v) = (if b' = b then Futex_load b' v else Futex_sleep b' v)"
| "futex_notify_all b pc = pc"

section \<open>Ringing\<close>

text \<open>\<open>unrung b\<close>: the stores to \<open>b\<close> whose wake-up call is still to come. \<open>mtdp_set_done\<close> and
  \<open>mtdp_unset_done\<close> are a store of 1 or 0 and then the wake-up.\<close>

record 'b bells =
  wd :: "'b \<Rightarrow> nat"
  unrung :: "'b \<Rightarrow> nat"

definition bell_store :: "'b \<Rightarrow> nat \<Rightarrow> 'b bells \<Rightarrow> 'b bells" where
  "bell_store b v s = s\<lparr>wd := (wd s)(b := v), unrung := (unrung s)(b := Suc (unrung s b))\<rparr>"

definition mtdp_set_done_store :: "'b \<Rightarrow> 'b bells \<Rightarrow> 'b bells" where
  "mtdp_set_done_store b = bell_store b 1"

definition mtdp_unset_done_store :: "'b \<Rightarrow> 'b bells \<Rightarrow> 'b bells" where
  "mtdp_unset_done_store b = bell_store b 0"

definition bell_ring :: "'b \<Rightarrow> 'b bells \<Rightarrow> 'b bells option" where
  "bell_ring b s = (if unrung s b = 0 then None else Some (s\<lparr>unrung := (unrung s)(b := unrung s b - 1)\<rparr>))"

text \<open>A sleeping thread sleeps on a word that has the value it waits for, or a ring is to come.\<close>

definition futex_ok :: "'b bells \<Rightarrow> 'b futex_pc \<Rightarrow> bool" where
  "futex_ok s pc \<longleftrightarrow> (case pc of Futex_sleep b v \<Rightarrow> unrung s b = 0 \<longrightarrow> wd s b = v | _ \<Rightarrow> True)"

lemma futex_ok_step: "futex_step intr (wd s) pc = Some (Some pc') \<Longrightarrow> futex_ok s pc'"
  by (cases pc) (auto simp: futex_ok_def split: if_splits)

lemma futex_ok_store:
  "futex_ok s pc \<Longrightarrow> futex_ok (mtdp_set_done_store b s) pc" "futex_ok s pc \<Longrightarrow> futex_ok (mtdp_unset_done_store b s) pc"
  by (cases pc; simp add: futex_ok_def mtdp_set_done_store_def mtdp_unset_done_store_def bell_store_def)+

lemma futex_ok_ring: "bell_ring b s = Some s' \<Longrightarrow> futex_ok s pc \<Longrightarrow> futex_ok s' (futex_notify_all b pc)"
  by (cases pc) (auto simp: futex_ok_def bell_ring_def split: if_splits)

lemma futex_ok_load [simp]: "futex_ok s (Futex_load b v)"
  by (simp add: futex_ok_def)

end
