(* ===== verification/Pipeline_Wait.thy ===== *)
theory Pipeline_Wait
  imports Pipeline Futex
begin

text \<open>
  \<open>mtdp_pipeline_wait\<close> (\<open>src/pipeline.c\<close>): a thread that waits for the pipeline to finish, on the
  four kinds of words of the pipeline, while other threads set and unset them. When it
  returns, and when it does not.
\<close>

section \<open>The waiting thread\<close>

datatype bell = Destroying | Source_done | Stage_done nat | Sink_done

text \<open>The positions of the function; its local \<open>exit\<close> is true at \<open>Wait_stage\<close> (the loop's
  condition) and is carried at \<open>Wait_sink\<close>. \<open>Wait_returned e\<close>: returned with the error code \<open>e\<close>.\<close>

datatype wait_pc = Wait_in "bell futex_pc" | Wait_enabled | Wait_source | Wait_stage nat | Wait_sink bool
  | Wait_returned mtdp_error

definition wait_entry :: "'u mtdp_pipeline option \<Rightarrow> wait_pc" where
  "wait_entry pipeline = (case pipeline of None \<Rightarrow> Wait_returned MTDP_BAD_PTR | Some _ \<Rightarrow> Wait_in (Futex_load Destroying 1))"

text \<open>Where the function goes on after the wait on a word; \<open>n\<close> is \<open>n_stages\<close>.\<close>

definition wait_stages :: "nat \<Rightarrow> nat \<Rightarrow> wait_pc" where
  "wait_stages n i = Wait_in (if i \<noteq> n then Futex_load (Stage_done i) 0 else Futex_load Sink_done 0)"

fun wait_next :: "nat \<Rightarrow> bell \<Rightarrow> wait_pc" where
  "wait_next n Destroying = Wait_enabled"
| "wait_next n Source_done = wait_stages n 0"
| "wait_next n (Stage_done i) = wait_stages n (Suc i)"
| "wait_next n Sink_done = Wait_source"

fun bell_of :: "bell futex_pc \<Rightarrow> bell" where
  "bell_of (Futex_load b v) = b"
| "bell_of (Futex_call b v) = b"
| "bell_of (Futex_sleep b v) = b"

definition wait_step :: "nat \<Rightarrow> bool \<Rightarrow> bool \<Rightarrow> (bell \<Rightarrow> nat) \<Rightarrow> wait_pc \<Rightarrow> wait_pc option" where
  "wait_step n en intr w p =
    (case p of
       Wait_in f \<Rightarrow>
         (case futex_step intr w f of
            None \<Rightarrow> None
          | Some None \<Rightarrow> Some (wait_next n (bell_of f))
          | Some (Some f) \<Rightarrow> Some (Wait_in f))
     | Wait_enabled \<Rightarrow>
         Some (if en then Wait_in (Futex_load Source_done 0) else Wait_returned MTDP_NOT_ENABLED)
     | Wait_source \<Rightarrow>
         let exit = (w Source_done = 1) in
         Some (if exit \<and> 0 \<noteq> n then Wait_stage 0 else Wait_sink exit)
     | Wait_stage i \<Rightarrow>
         let exit = (w (Stage_done i) = 1) in
         Some (if exit \<and> Suc i \<noteq> n then Wait_stage (Suc i) else Wait_sink exit)
     | Wait_sink exit \<Rightarrow>
         let exit = (exit \<and> w Sink_done = 1) in
         Some (if \<not> exit then Wait_in (Futex_load Source_done 0) else Wait_returned MTDP_OK)
     | Wait_returned e \<Rightarrow> None)"

text \<open>The waiting thread alone, for as many turns as the list has entries; an entry tells whether a
  signal arrives at that turn. A turn in which it is asleep, or has returned, changes nothing.\<close>

fun wait_run :: "nat \<Rightarrow> bool \<Rightarrow> (bell \<Rightarrow> nat) \<Rightarrow> bool list \<Rightarrow> wait_pc \<Rightarrow> wait_pc" where
  "wait_run n en w [] p = p"
| "wait_run n en w (intr # intrs) p =
     wait_run n en w intrs (case wait_step n en intr w p of None \<Rightarrow> p | Some p' \<Rightarrow> p')"

section \<open>Among other threads\<close>

record wait_state =
  ws_bells :: "bell bells"
  ws_enabled :: bool
  ws_at :: wait_pc

fun wake :: "bell \<Rightarrow> wait_pc \<Rightarrow> wait_pc" where
  "wake b (Wait_in f) = Wait_in (futex_notify_all b f)"
| "wake b p = p"

text \<open>Other threads set and unset the words and ring, in any order; \<open>mtdp_pipeline_enable\<close> clears the
  \<open>done\<close> words without ringing and, as \<open>mtdp_pipeline_disable\<close>, assigns \<open>enabled\<close>. With \<open>clr\<close> false
  no \<open>done\<close> word is unset or cleared.\<close>

inductive wait_trans :: "nat \<Rightarrow> bool \<Rightarrow> wait_state \<Rightarrow> wait_state \<Rightarrow> bool" for n clr where
  own: "wait_step n (ws_enabled s) intr (wd (ws_bells s)) (ws_at s) = Some p \<Longrightarrow> wait_trans n clr s (s\<lparr>ws_at := p\<rparr>)"
| spurious: "ws_at s = Wait_in (Futex_sleep b v) \<Longrightarrow> wait_trans n clr s (s\<lparr>ws_at := Wait_in (Futex_load b v)\<rparr>)"
| set: "wait_trans n clr s (s\<lparr>ws_bells := mtdp_set_done_store b (ws_bells s)\<rparr>)"
| unset: "clr \<or> b = Destroying \<Longrightarrow> wait_trans n clr s (s\<lparr>ws_bells := mtdp_unset_done_store b (ws_bells s)\<rparr>)"
| ring: "bell_ring b (ws_bells s) = Some t \<Longrightarrow> wait_trans n clr s (s\<lparr>ws_bells := t, ws_at := wake b (ws_at s)\<rparr>)"
| clear: "clr \<Longrightarrow> b \<noteq> Destroying \<Longrightarrow>
    wait_trans n clr s (s\<lparr>ws_bells := (ws_bells s)\<lparr>wd := (wd (ws_bells s))(b := 0)\<rparr>\<rparr>)"
| enabled: "wait_trans n clr s (s\<lparr>ws_enabled := en\<rparr>)"

text \<open>Reachable: from the entry of the function, with any words, no ring outstanding.\<close>

inductive wait_reach :: "nat \<Rightarrow> bool \<Rightarrow> wait_state \<Rightarrow> bool" for n clr where
  start: "\<forall>b. unrung (ws_bells s) b = 0 \<Longrightarrow> ws_at s = Wait_in (Futex_load Destroying 1) \<Longrightarrow> wait_reach n clr s"
| step: "wait_reach n clr s \<Longrightarrow> wait_trans n clr s s' \<Longrightarrow> wait_reach n clr s'"

section \<open>The invariant\<close>

fun bell_wf :: "nat \<Rightarrow> bell futex_pc \<Rightarrow> bool" where
  "bell_wf n (Futex_load b v) \<longleftrightarrow> v = (if b = Destroying then 1 else 0) \<and> (\<forall>i. b = Stage_done i \<longrightarrow> i < n)"
| "bell_wf n (Futex_call b v) \<longleftrightarrow> v = (if b = Destroying then 1 else 0) \<and> (\<forall>i. b = Stage_done i \<longrightarrow> i < n)"
| "bell_wf n (Futex_sleep b v) \<longleftrightarrow> v = (if b = Destroying then 1 else 0) \<and> (\<forall>i. b = Stage_done i \<longrightarrow> i < n)"

lemma futex_step_wf: "futex_step intr w f = Some (Some f') \<Longrightarrow> bell_wf n f \<Longrightarrow> bell_wf n f'"
  by (cases f) (auto split: if_splits)

lemma notify_wf: "bell_wf n f \<Longrightarrow> bell_wf n (futex_notify_all b f)"
  by (cases f) auto

definition wait_wf :: "nat \<Rightarrow> wait_pc \<Rightarrow> bool" where
  "wait_wf n p \<longleftrightarrow> (case p of Wait_in f \<Rightarrow> bell_wf n f | Wait_stage i \<Rightarrow> i < n | _ \<Rightarrow> True)"

text \<open>What the pass over the words has seen, when no word is unset.\<close>

definition done_upto :: "(bell \<Rightarrow> nat) \<Rightarrow> nat \<Rightarrow> bool" where
  "done_upto w i \<longleftrightarrow> w Source_done = 1 \<and> (\<forall>j < i. w (Stage_done j) = 1)"

definition wait_seen :: "nat \<Rightarrow> (bell \<Rightarrow> nat) \<Rightarrow> wait_pc \<Rightarrow> bool" where
  "wait_seen n w p \<longleftrightarrow> (case p of Wait_stage i \<Rightarrow> done_upto w i | Wait_sink exit \<Rightarrow> exit \<longrightarrow> done_upto w n
     | Wait_returned e \<Rightarrow> e = MTDP_OK \<longrightarrow> done_upto w n \<and> w Sink_done = 1 | _ \<Rightarrow> True)"

definition wait_inv :: "nat \<Rightarrow> bool \<Rightarrow> wait_state \<Rightarrow> bool" where
  "wait_inv n clr s \<longleftrightarrow> wait_wf n (ws_at s) \<and> (\<forall>f. ws_at s = Wait_in f \<longrightarrow> futex_ok (ws_bells s) f) \<and>
     (\<not> clr \<longrightarrow> wait_seen n (wd (ws_bells s)) (ws_at s))"

lemma wait_stages_wf [simp]: "i \<le> n \<Longrightarrow> wait_wf n (wait_stages n i)"
  by (simp add: wait_stages_def wait_wf_def)

lemma wait_next_wf: "bell_wf n f \<Longrightarrow> wait_wf n (wait_next n (bell_of f))"
  by (cases f; cases "bell_of f") (auto simp: wait_wf_def wait_stages_def)

lemma wait_next_seen: "wait_seen n w (wait_next n b)"
  by (cases b) (simp_all add: wait_seen_def wait_stages_def)

lemma wait_next_ok: "wait_next n b = Wait_in f \<Longrightarrow> futex_ok s f"
  by (cases b) (auto simp: wait_stages_def split: if_splits)

lemma wait_step_wf:
  assumes "wait_step n en intr w p = Some p'" "wait_wf n p"
  shows "wait_wf n p'"
proof (cases p)
  case (Wait_in f)
  then show ?thesis using assms wait_next_wf[of n f] futex_step_wf[of intr w f]
    by (auto simp: wait_step_def wait_wf_def split: option.splits)
qed (use assms in \<open>auto simp: wait_step_def wait_wf_def Let_def split: if_splits\<close>)

lemma wait_step_seen:
  assumes "wait_step n en intr w p = Some p'" "wait_wf n p" "wait_seen n w p"
  shows "wait_seen n w p'"
proof (cases p)
  case (Wait_in f)
  then show ?thesis using assms wait_next_seen[of n w "bell_of f"]
    by (auto simp: wait_step_def wait_seen_def split: option.splits)
qed (use assms in \<open>auto simp: wait_step_def wait_seen_def wait_wf_def done_upto_def Let_def less_Suc_eq split: if_splits\<close>)

lemma wait_step_ok:
  assumes "wait_step n en intr (wd s) p = Some (Wait_in f')"
  shows "futex_ok s f'"
proof (cases p)
  case (Wait_in f)
  then show ?thesis using assms wait_next_ok[of n "bell_of f" f' s] futex_ok_step[of intr s f]
    by (auto simp: wait_step_def split: option.splits)
qed (use assms in \<open>auto simp: wait_step_def Let_def split: if_splits\<close>)

lemma wake_wf: "wait_wf n p \<Longrightarrow> wait_wf n (wake b p)"
  using notify_wf by (cases p) (auto simp: wait_wf_def)

lemma wake_seen [simp]: "wait_seen n w (wake b p) = wait_seen n w p"
  by (cases p) (simp_all add: wait_seen_def)

lemma seen_set: "wait_seen n w p \<Longrightarrow> wait_seen n (w(b := 1)) p"
  by (cases p) (auto simp: wait_seen_def done_upto_def)

lemma store_words [simp]:
  "wd (mtdp_set_done_store b s) = (wd s)(b := 1)" "wd (mtdp_unset_done_store b s) = (wd s)(b := 0)"
  by (simp_all add: mtdp_set_done_store_def mtdp_unset_done_store_def bell_store_def)

lemma seen_destroying: "wait_seen n (w(Destroying := v)) p = wait_seen n w p"
  by (cases p) (simp_all add: wait_seen_def done_upto_def)

lemma wait_trans_inv: "wait_trans n clr s s' \<Longrightarrow> wait_inv n clr s \<Longrightarrow> wait_inv n clr s'"
proof (induction rule: wait_trans.induct)
  case (own s intr p)
  then show ?case
    using wait_step_wf[OF own(1)] wait_step_seen[OF own(1)] wait_step_ok[of n "ws_enabled s" intr "ws_bells s" "ws_at s"]
    by (auto simp: wait_inv_def)
next
  case (spurious s b v)
  then show ?case by (auto simp: wait_inv_def wait_wf_def wait_seen_def)
next
  case (set s b)
  then show ?case
    using seen_set[of n "wd (ws_bells s)" "ws_at s" b] by (auto simp: wait_inv_def futex_ok_store)
next
  case (unset b s)
  then show ?case
    using seen_destroying[of n "wd (ws_bells s)" 0 "ws_at s"] by (auto simp: wait_inv_def futex_ok_store)
next
  case (ring b s t)
  have "futex_ok t f" if "wake b (ws_at s) = Wait_in f" for f
    using that ring futex_ok_ring[OF ring(1)] by (cases "ws_at s") (auto simp: wait_inv_def)
  moreover have "wd t = wd (ws_bells s)" using ring(1) by (auto simp: bell_ring_def split: if_splits)
  ultimately show ?case using ring(2) wake_wf by (auto simp: wait_inv_def)
next
  case (clear b s)
  have "futex_ok ((ws_bells s)\<lparr>wd := (wd (ws_bells s))(b := 0)\<rparr>) f" if "ws_at s = Wait_in f" for f
    using that clear by (cases f) (auto simp: wait_inv_def futex_ok_def wait_wf_def)
  with clear show ?case by (auto simp: wait_inv_def)
next
  case (enabled s en)
  then show ?case by (simp add: wait_inv_def)
qed

lemma wait_reach_inv: "wait_reach n clr s \<Longrightarrow> wait_inv n clr s"
proof (induction rule: wait_reach.induct)
  case (start s)
  then show ?case by (simp add: wait_inv_def wait_wf_def wait_seen_def)
next
  case (step s s')
  then show ?case by (blast intro: wait_trans_inv)
qed

section \<open>Termination\<close>

text \<open>The number of steps left when every word says that the pipeline has finished.\<close>

fun wait_left :: "nat \<Rightarrow> wait_pc \<Rightarrow> nat" where
  "wait_left n (Wait_in f) = (case bell_of f of Destroying \<Rightarrow> 2 * n + 6 | Source_done \<Rightarrow> 2 * n + 4
     | Stage_done i \<Rightarrow> n + 3 + (n - i) | Sink_done \<Rightarrow> n + 3)"
| "wait_left n Wait_enabled = 2 * n + 5"
| "wait_left n Wait_source = n + 2"
| "wait_left n (Wait_stage i) = Suc (n - i)"
| "wait_left n (Wait_sink exit) = (if exit then 1 else 2 * n + 5)"
| "wait_left n (Wait_returned e) = 0"

text \<open>A finished pipeline; a thread that has not returned and is not asleep on such words.\<close>

definition all_done :: "nat \<Rightarrow> (bell \<Rightarrow> nat) \<Rightarrow> bool" where
  "all_done n w \<longleftrightarrow> w Destroying \<noteq> 1 \<and> done_upto w n \<and> w Sink_done = 1"

definition awake :: "wait_pc \<Rightarrow> bool" where
  "awake p \<longleftrightarrow> (\<forall>b v. p \<noteq> Wait_in (Futex_sleep b v))"

lemma wait_step_done:
  assumes "all_done n w" "wait_wf n p" "awake p" "\<forall>e. p \<noteq> Wait_returned e"
  obtains p' where "wait_step n True intr w p = Some p'" "wait_wf n p'" "awake p'" "wait_left n p' < wait_left n p"
    "\<forall>e. p' = Wait_returned e \<longrightarrow> e = MTDP_OK"
proof -
  have "\<exists>p'. wait_step n True intr w p = Some p' \<and> awake p' \<and> wait_left n p' < wait_left n p \<and>
      (\<forall>e. p' = Wait_returned e \<longrightarrow> e = MTDP_OK)"
  proof (cases p)
    case (Wait_in f)
    have "w b \<noteq> (if b = Destroying then 1 else 0)" if "\<forall>i. b = Stage_done i \<longrightarrow> i < n" for b
      using assms(1) that by (cases b) (auto simp: all_done_def done_upto_def)
    then have r: "futex_step intr w f = Some None"
      using assms(2,3) Wait_in by (cases f) (auto simp: wait_wf_def awake_def)
    have i: "i < n" if "bell_of f = Stage_done i" for i
      using assms(2) Wait_in that by (cases f) (auto simp: wait_wf_def)
    have "wait_step n True intr w p = Some (wait_next n (bell_of f))" using Wait_in r by (simp add: wait_step_def)
    then show ?thesis
      using Wait_in i by (cases "bell_of f") (auto simp: awake_def wait_stages_def)
  qed (use assms in \<open>auto simp: wait_step_def awake_def all_done_def done_upto_def wait_wf_def Let_def\<close>)
  then show ?thesis using that wait_step_wf[OF _ assms(2)] by blast
qed

lemma wait_run_returned [simp]: "wait_run n en w intrs (Wait_returned e) = Wait_returned e"
  by (induction intrs) (simp_all add: wait_step_def)

lemma wait_run_done:
  "all_done n w \<Longrightarrow> wait_wf n p \<Longrightarrow> awake p \<Longrightarrow> \<forall>e. p \<noteq> Wait_returned e \<Longrightarrow> wait_left n p \<le> length intrs \<Longrightarrow>
     wait_run n True w intrs p = Wait_returned MTDP_OK"
proof (induction intrs arbitrary: p)
  case Nil
  then show ?case by (cases p) (auto split: bell.splits if_splits)
next
  case (Cons intr intrs)
  obtain p' where "wait_step n True intr w p = Some p'" "wait_wf n p'" "awake p'" "wait_left n p' < wait_left n p"
    "\<forall>e. p' = Wait_returned e \<longrightarrow> e = MTDP_OK" by (rule wait_step_done[OF Cons.prems(1-4)])
  then show ?case using Cons.IH[of p'] Cons.prems(1,5) by (cases "\<exists>e. p' = Wait_returned e") auto
qed

section \<open>Properties\<close>

lemma wait_run_reach:
  "wait_reach n clr s \<Longrightarrow>
     wait_reach n clr (s\<lparr>ws_at := wait_run n (ws_enabled s) (wd (ws_bells s)) intrs (ws_at s)\<rparr>)"
proof (induction intrs arbitrary: s)
  case (Cons intr intrs)
  show ?case
  proof (cases "wait_step n (ws_enabled s) intr (wd (ws_bells s)) (ws_at s)")
    case None
    then show ?thesis using Cons by simp
  next
    case (Some p)
    then have "wait_reach n clr (s\<lparr>ws_at := p\<rparr>)" using Cons.prems wait_trans.own wait_reach.step by blast
    from Cons.IH[OF this] Some show ?thesis by simp
  qed
qed simp

text \<open>Nobody sleeps on words that say it is over when every ring has been delivered.\<close>

lemma rung_awake:
  assumes "wait_inv n clr s" "all_done n (wd (ws_bells s))" "\<forall>b. unrung (ws_bells s) b = 0"
  shows "awake (ws_at s)"
  unfolding awake_def
proof (intro allI notI)
  fix b v assume "ws_at s = Wait_in (Futex_sleep b v)"
  with assms(1,3) have "wd (ws_bells s) b = (if b = Destroying then 1 else 0)" "\<forall>i. b = Stage_done i \<longrightarrow> i < n"
    by (auto simp: wait_inv_def futex_ok_def wait_wf_def)
  with assms(2) show False by (cases b) (auto simp: all_done_def done_upto_def)
qed

lemma wait_left_bound: "wait_left n p \<le> 2 * n + 6"
  by (cases p) (auto split: bell.split)

lemma wait_done_returns:
  assumes "wait_reach n clr s" "all_done n (wd (ws_bells s))" "\<forall>b. unrung (ws_bells s) b = 0"
    and "\<forall>e. ws_at s \<noteq> Wait_returned e" "2 * n + 6 \<le> length intrs"
  shows "wait_run n True (wd (ws_bells s)) intrs (ws_at s) = Wait_returned MTDP_OK"
proof -
  note inv = wait_reach_inv[OF assms(1)]
  have "wait_left n (ws_at s) \<le> length intrs" using assms(5) wait_left_bound order_trans by blast
  then show ?thesis using wait_run_done[OF assms(2) _ rung_awake[OF inv assms(2,3)] assms(4)] inv by (simp add: wait_inv_def)
qed

text \<open>C23. Waiting ends. However the waiting thread and the threads that set, unset and ring the words have
  interleaved: once every \<open>done\<close> word of the enabled pipeline is 1 and every ring has been
  delivered, the thread is not left asleep, and it returns with \<open>MTDP_OK\<close> within
  \<open>2 * n_stages + 6\<close> of its own steps, whatever signals arrive.\<close>

theorem pipeline_wait_completes:
  assumes "wait_reach n clr s" "ws_enabled s" "all_done n (wd (ws_bells s))" "\<forall>b. unrung (ws_bells s) b = 0"
    and "\<forall>e. ws_at s \<noteq> Wait_returned e" "2 * n + 6 \<le> length intrs"
  shows "wait_run n (ws_enabled s) (wd (ws_bells s)) intrs (ws_at s) = Wait_returned MTDP_OK"
  using wait_done_returns[OF assms(1,3,4,5)] assms(2,6) by simp

text \<open>A pipeline of one stage that has finished; a thread enters the function.\<close>

definition finished_wait :: wait_state where
  "finished_wait = \<lparr>ws_bells = \<lparr>wd = (\<lambda>b. if b = Destroying then 0 else 1), unrung = (\<lambda>_. 0)\<rparr>, ws_enabled = True,
     ws_at = Wait_in (Futex_load Destroying 1)\<rparr>"

lemma finished_wait_reach: "wait_reach 1 clr finished_wait"
  by (rule wait_reach.start) (simp_all add: finished_wait_def)

theorem pipeline_wait_completes_witness:
  "wait_run 1 True (wd (ws_bells finished_wait)) (replicate 8 False) (ws_at finished_wait) =
     Wait_returned MTDP_OK"
  using pipeline_wait_completes[OF finished_wait_reach[of True], of "replicate 8 False"]
  by (simp add: finished_wait_def all_done_def done_upto_def)

text \<open>C25. A return is right as long as nobody resumes: if, from the entry of the function on, no \<open>done\<close>
  word is unset, a return with \<open>MTDP_OK\<close> means that the source, every stage and the sink are done.\<close>

theorem pipeline_wait_sound:
  assumes "wait_reach n False s" "ws_at s = Wait_returned MTDP_OK"
  shows "wd (ws_bells s) Source_done = 1 \<and> (\<forall>i < n. wd (ws_bells s) (Stage_done i) = 1) \<and> wd (ws_bells s) Sink_done = 1"
  using wait_reach_inv[OF assms(1)] assms(2) by (simp add: wait_inv_def wait_seen_def done_upto_def)

theorem pipeline_wait_sound_witness:
  "ws_at (finished_wait\<lparr>ws_at := Wait_returned MTDP_OK\<rparr>) = Wait_returned MTDP_OK \<and> wd (ws_bells finished_wait) Sink_done = 1"
proof -
  have "wait_run 1 True (wd (ws_bells finished_wait)) (replicate 8 False) (ws_at finished_wait) = Wait_returned MTDP_OK"
    by code_simp
  with wait_run_reach[OF finished_wait_reach[of False], of "replicate 8 False"]
  have "wait_reach 1 False (finished_wait\<lparr>ws_at := Wait_returned MTDP_OK\<rparr>)" by (simp add: finished_wait_def)
  from pipeline_wait_sound[OF this] show ?thesis by simp
qed

end
