(* ===== verification/Wait_Properties.thy ===== *)
theory Wait_Properties
  imports Pipeline_States Pipeline_Wait
begin

text \<open>
  Waiting on a running pipeline: two runs in which \<open>mtdp_pipeline_wait\<close> does not do what its
  documentation says, because a \<open>done\<close> word is not what it seems.
\<close>

section \<open>The words of a pipeline\<close>

definition flow_words :: "nat \<Rightarrow> 'u flow \<Rightarrow> bell \<Rightarrow> nat" where
  "flow_words d s b = (case b of Destroying \<Rightarrow> d | Source_done \<Rightarrow> so_done (fl_source s)
     | Stage_done i \<Rightarrow> st_done (fl_stages s ! i) | Sink_done \<Rightarrow> sk_done (fl_sink s))"

definition pipeline_words :: "'u mtdp_pipeline \<Rightarrow> bell \<Rightarrow> nat" where
  "pipeline_words pl b = (case b of Destroying \<Rightarrow> destroying pl | Source_done \<Rightarrow> so_done (source_impl pl)
     | Stage_done i \<Rightarrow> st_done (stage_impls pl ! i) | Sink_done \<Rightarrow> sk_done (sink_impl pl))"

section \<open>A return while a buffer is on its way\<close>

text \<open>The concrete pipeline of Flow_Properties, with a source that produces one buffer and then
  calls \<open>mtdp_source_finished\<close>. The user's state is whether it has produced it.\<close>

definition short_flow :: "bool flow" where
  "short_flow = \<lparr>
     fl_sh = \<lparr>sh_mem = demo_mem, sh_pipes = [demo_pipe 0, demo_pipe 1],
       sh_stages = [\<lparr>st_name = None, st_data = NULL, st_init = None,
         st_process = Some (\<lambda>u b c. (u, c\<lparr>st_ready_to_push := True, st_ready_to_pull := True\<rparr>))\<rparr>],
       sh_user = False\<rparr>,
     fl_source = \<lparr>so_context = \<lparr>so_self = NULL, so_output = NULL, so_ready_to_push = False\<rparr>, so_worker = demo_worker,
       so_user_data = \<lparr>so_name = None, so_data = NULL, so_init = None,
         so_process = Some (\<lambda>u b c. (True, c\<lparr>so_ready_to_push := \<not> u\<rparr>, u))\<rparr>,
       so_output_pipe = 0, so_done = 0, so_initialized = False\<rparr>,
     so_at = So_Entry,
     fl_stages = [\<lparr>st_context = \<lparr>st_self = NULL, st_input = NULL, st_output = NULL, st_ready_to_push = False,
         st_ready_to_pull = True\<rparr>, st_worker = demo_worker, st_user_data = 0, st_input_pipe = 0, st_output_pipe = 1,
         st_done = 0, st_initialized = False\<rparr>],
     st_at = [St_Entry],
     fl_sink = \<lparr>sk_context = \<lparr>sk_self = NULL, sk_input = NULL, sk_ready_to_pull = True\<rparr>, sk_worker = demo_worker,
       sk_user_data = \<lparr>sk_name = None, sk_data = NULL, sk_init = None,
         sk_process = Some (\<lambda>u b c. (u, c\<lparr>sk_ready_to_pull := True\<rparr>))\<rparr>,
       sk_input_pipe = 1, sk_done = 0, sk_initialized = False\<rparr>,
     sk_at = Sk_Entry, pushed = (\<lambda>_. []), pulled = (\<lambda>_. [])\<rparr>"

lemma short_flow_start: "flow_start default_config demo_buffers short_flow"
proof -
  have p: "pipe_inv default_config demo_mem (demo_pipe 0)" "pipe_inv default_config demo_mem (demo_pipe (Suc 0))"
    using demo_pipe_inv by simp_all
  have own: "fifo_own (fifo (demo_pipe k)) = {k}" for k
    by (auto simp: fifo_own_def demo_pipe_def rblk_def vec_get_def)
  have el: "pool_elems (pool (demo_pipe k)) = [Ptr (10 * k), Ptr (10 * k + 1)]" "fsize (fifo (demo_pipe k)) = 0"
    "semaphore (demo_pipe k) = 0" for k
    by (simp_all add: demo_pipe_def pool_elems_def pool_slots_def)
  show ?thesis using p own el
    by (auto simp: flow_start_def short_flow_def Let_def source_user_ok_def stage_user_ok_def sink_user_ok_def
        polite_source_def polite_stage_def polite_sink_def demo_buffers_def less_Suc_eq)
qed

text \<open>The stage and the sink time out; the source pushes its buffer and finishes. The stage could
  take the buffer now, but all \<open>done\<close> words are 1.\<close>

definition short_schedule :: "flow_thread list" where
  "short_schedule = replicate 2 (Stage_thread 0) @ replicate 2 Sink_thread @ replicate 7 Source_thread"

text \<open>\<open>mtdp_pipeline_wait\<close> can return too early. In a run of a pipeline whose stages had timed out
  before, the source pushes a buffer and finishes; a thread that now calls the function returns
  with \<open>MTDP_OK\<close> although the buffer is in the first pipe, where the stage takes it next.\<close>

theorem pipeline_wait_early:
  "\<exists>s0 :: bool flow. \<exists>s s' b. flow_start default_config demo_buffers s0 \<and>
     flow_run default_config short_schedule s0 = Some s \<and> pushed s 0 = [b] \<and> pulled s 0 = [] \<and>
     wait_run 1 True (flow_words 0 s) (replicate 8 False) (wait_entry (Some pl)) = Wait_returned MTDP_OK \<and>
     flow_run default_config (replicate 4 (Stage_thread 0)) s = Some s' \<and> pulled s' 0 = [b]"
proof -
  have "case flow_run default_config short_schedule short_flow of None \<Rightarrow> False
     | Some s \<Rightarrow> pushed s 0 = [Ptr 1] \<and> pulled s 0 = [] \<and>
         wait_run 1 True (flow_words 0 s) (replicate 8 False) (Wait_in (Futex_load Destroying 1)) = Wait_returned MTDP_OK \<and>
         (case flow_run default_config (replicate 4 (Stage_thread 0)) s of None \<Rightarrow> False | Some s' \<Rightarrow> pulled s' 0 = [Ptr 1])"
    by code_simp
  then show ?thesis using short_flow_start by (auto simp: wait_entry_def split: option.splits)
qed

section \<open>A wait that does not return\<close>

text \<open>Words on which the pass over them never succeeds: the sink's is not 1.\<close>

definition passing :: "wait_pc \<Rightarrow> bool" where
  "passing p \<longleftrightarrow> (case p of Wait_in f \<Rightarrow> bell_of f \<noteq> Destroying | Wait_enabled \<Rightarrow> False | Wait_returned e \<Rightarrow> False | _ \<Rightarrow> True)"

lemma futex_step_bell: "futex_step intr w f = Some (Some f') \<Longrightarrow> bell_of f' = bell_of f"
  by (cases f) (auto split: if_splits)

lemma passing_step:
  assumes "wait_step n en intr w p = Some p'" "passing p" "w Sink_done \<noteq> 1"
  shows "passing p'"
proof (cases p)
  case (Wait_in f)
  have "passing (wait_next n b)" if "b \<noteq> Destroying" for b
    using that by (cases b) (simp_all add: passing_def wait_stages_def)
  then show ?thesis using assms(1,2) Wait_in futex_step_bell[of intr w f]
    by (auto simp: wait_step_def passing_def split: option.splits)
qed (use assms in \<open>auto simp: wait_step_def passing_def Let_def split: if_splits\<close>)

lemma wait_never: "w Sink_done \<noteq> 1 \<Longrightarrow> passing p \<Longrightarrow> passing (wait_run n en w intrs p)"
  by (induction intrs arbitrary: p) (auto simp: passing_step split: option.split)

text \<open>The rest of an iteration of the sink from the point where it clears its word.\<close>

lemma call_sink_done: "call_sink f sh self = Some (sh', self') \<Longrightarrow> sk_done self' = sk_done self"
  by (auto simp: call_sink_def bind_eq_Some_conv case_prod_unfold Let_def)

lemma sink_move_done:
  assumes "sink_move cfg s = Some s'"
  shows "sk_at s = Sk_Unset \<Longrightarrow> sk_at s' = Sk_GetFull \<and> sk_done (fl_sink s') = 0"
    "sk_at s = Sk_GetFull \<Longrightarrow> sk_at s' \<in> {Sk_Return, Sk_Process} \<and> sk_done (fl_sink s') = sk_done (fl_sink s)"
    "sk_at s \<in> {Sk_Return, Sk_Process} \<Longrightarrow> sk_done (fl_sink s') = sk_done (fl_sink s)"
  using assms
  by (auto simp: sink_move_def sink_step_def bind_eq_Some_conv Let_def sink_next_def dest!: call_sink_done
      split: if_splits option.splits)

lemma flow_run_Cons: "flow_run cfg (t # ts) s = Some s' \<Longrightarrow> \<exists>s1. move cfg t s = Some s1 \<and> flow_run cfg ts s1 = Some s'"
  by (auto simp: bind_eq_Some_conv split: if_splits)

lemma sink_rest_undone:
  assumes "sk_at s = Sk_Unset" "flow_run cfg (replicate 3 Sink_thread) s = Some s'"
  shows "sk_done (fl_sink s') = 0"
proof -
  have "flow_run cfg [Sink_thread, Sink_thread, Sink_thread] s = Some s'" using assms(2) by (simp add: numeral_3_eq_3)
  then obtain s1 s2 s3 where m: "move cfg Sink_thread s = Some s1" "move cfg Sink_thread s1 = Some s2"
    "move cfg Sink_thread s2 = Some s3" "s3 = s'"
    by (metis flow_run_Cons flow_run.simps(1) option.inject)
  then have m: "sink_move cfg s = Some s1" "sink_move cfg s1 = Some s2" "sink_move cfg s2 = Some s'" by simp_all
  have "sk_at s1 = Sk_GetFull" "sk_done (fl_sink s1) = 0" using sink_move_done(1)[OF m(1) assms(1)] by simp_all
  moreover from this have "sk_at s2 \<in> {Sk_Return, Sk_Process}" "sk_done (fl_sink s2) = 0"
    using sink_move_done(2)[OF m(2)] by simp_all
  ultimately show ?thesis using sink_move_done(3)[OF m(3)] by simp
qed

text \<open>C24. A thread waiting on a pipeline that is disabled may never return. \<open>mtdp_pipeline_disable\<close> sets all
  \<open>done\<close> words, joins the threads and then sets the words of the stages once more, but not that
  of the sink. If the sink has just claimed a buffer when its worker is destroyed, it unsets its
  word after that; the disable succeeds, the word stays 0, and a thread that is in its pass over
  the words does not return, whatever signals arrive.\<close>

theorem pipeline_wait_hangs:
  assumes "session cfg m rt bss m2 rt2 pl2 s" "sk_at s1 = Sk_Unset" "flow_run cfg (replicate 3 Sink_thread) s1 = Some s"
    and "mtdp_pipeline_disable (settle_at s) cfg m2 rt2 (Some pl2) = Some (ok, m3, rt3, Some pl3)"
  shows "ok \<and> errno rt3 = MTDP_OK \<and> pipeline_words pl3 Sink_done = 0 \<and>
    (\<forall>e. wait_run (n_stages pl3) en (pipeline_words pl3) intrs (Wait_in (Futex_load Source_done 0)) \<noteq> Wait_returned e)"
proof -
  obtain m0 where f: "flow_inv cfg (\<lambda>k. mset (bss ! k)) s" "shared_hold cfg m0 (fl_sh s)" "at_rest s" "runtime_ok rt2"
    "pl_enabled pl2" "workers_ready pl2" "all_workers thread pl2"
    "length (stage_impls pl2) = n_stages pl2" "n_stages pl2 = length (fl_stages s)"
    by (rule session_facts[OF assms(1)])
  obtain rt3' ps where d: "mtdp_pipeline_disable (settle_at s) cfg m2 rt2 (Some pl2) =
      Some (True, sh_mem (fl_sh s), rt3', Some (pipeline_off ps (pipeline_joined (pipeline_at s (pipeline_destroyed pl2)))))"
    "errno rt3' = MTDP_OK"
    by (rule pipeline_disable_ok[OF f(4,5,6,7,8,9,1,3)])
  have "pipeline_words pl3 Sink_done = sk_done (fl_sink s)"
    using d(1) assms(4) by (auto simp: pipeline_words_def pipeline_off_def pipeline_emptied_def pipeline_joined_def pipeline_at_def)
  then have "pipeline_words pl3 Sink_done = 0" using sink_rest_undone[OF assms(2,3)] by simp
  moreover from this have "\<forall>e. wait_run (n_stages pl3) en (pipeline_words pl3) intrs (Wait_in (Futex_load Source_done 0)) \<noteq> Wait_returned e"
    using wait_never[of "pipeline_words pl3" "Wait_in (Futex_load Source_done 0)" "n_stages pl3" en intrs]
    by (auto simp: passing_def)
  ultimately show ?thesis using d assms(4) by simp
qed

text \<open>The sink has claimed the first buffer when the pipeline is disabled.\<close>

definition stop_sink :: "'u flow \<Rightarrow> 'u flow" where
  "stop_sink s = s\<lparr>fl_sink := (fl_sink s)\<lparr>sk_worker := (sk_worker (fl_sink s))\<lparr>destroyed := True\<rparr>, sk_done := 1\<rparr>\<rparr>"

definition claim_schedule :: "flow_thread list" where
  "claim_schedule = replicate 6 Source_thread @ replicate 10 (Stage_thread 0) @ replicate 2 Sink_thread"

theorem pipeline_wait_hangs_witness:
  "\<exists>m2 rt2 pl2 s m3 rt3 pl3. demo_client = Some (m2, rt2, pl2) \<and>
    mtdp_pipeline_disable (settle_at s) default_config m2 rt2 (Some pl2) = Some (True, m3, rt3, Some pl3) \<and>
    (\<forall>e intrs. wait_run (n_stages pl3) True (pipeline_words pl3) intrs (Wait_in (Futex_load Source_done 0)) \<noteq> Wait_returned e)"
proof -
  obtain m2 rt2 pl2 where c: "demo_client = Some (m2, rt2, pl2)" using demo_session by blast
  have "case demo_client of None \<Rightarrow> False | Some (m2, rt2, pl2) \<Rightarrow>
      (case flow_run default_config claim_schedule (flow_of m2 pl2 ()) of None \<Rightarrow> False | Some s1 \<Rightarrow> sk_at s1 = Sk_Unset \<and>
        (case flow_run default_config (replicate 3 Sink_thread) (stop_sink s1) of None \<Rightarrow> False | Some s \<Rightarrow> at_rest s))"
    by code_simp
  then have "case flow_run default_config claim_schedule (flow_of m2 pl2 ()) of None \<Rightarrow> False | Some s1 \<Rightarrow> sk_at s1 = Sk_Unset \<and>
      (case flow_run default_config (replicate 3 Sink_thread) (stop_sink s1) of None \<Rightarrow> False | Some s \<Rightarrow> at_rest s)"
    unfolding c by simp
  then obtain s1 where r1: "flow_run default_config claim_schedule (flow_of m2 pl2 ()) = Some s1" and u: "sk_at s1 = Sk_Unset" and
    "(case flow_run default_config (replicate 3 Sink_thread) (stop_sink s1) of None \<Rightarrow> False | Some s \<Rightarrow> at_rest s)"
    by (cases "flow_run default_config claim_schedule (flow_of m2 pl2 ())") auto
  then obtain s where r2: "flow_run default_config (replicate 3 Sink_thread) (stop_sink s1) = Some s" and rest: "at_rest s"
    by (cases "flow_run default_config (replicate 3 Sink_thread) (stop_sink s1)") auto
  have "flow_step default_config s1 (stop_sink s1)" unfolding stop_sink_def by (rule flow_step.sink_control)
  then have "flow_reach default_config (flow_of m2 pl2 ()) s"
    using flow_run_reach[OF _ r2] flow_reach.step[OF flow_run_reach[OF flow_reach.start r1]] by blast
  note se = demo_sessionI[OF c this rest]
  obtain m0 where f: "flow_inv default_config (\<lambda>k. mset ([[Ptr 1], [Ptr 2]] ! k)) s"
    "shared_hold default_config m0 (fl_sh s)" "at_rest s" "runtime_ok rt2" "pl_enabled pl2"
    "workers_ready pl2" "all_workers thread pl2" "length (stage_impls pl2) = n_stages pl2" "n_stages pl2 = length (fl_stages s)"
    by (rule session_facts[OF se])
  obtain m3 rt3 pl3 where d: "mtdp_pipeline_disable (settle_at s) default_config m2 rt2 (Some pl2) = Some (True, m3, rt3, Some pl3)"
    by (rule pipeline_disable_ok[OF f(4-9,1,3)]) blast
  have "sk_at (stop_sink s1) = Sk_Unset" using u by (simp add: stop_sink_def)
  from pipeline_wait_hangs[OF se this r2 d] c d show ?thesis by blast
qed

end
