(* ===== verification/Static_Buffers.thy ===== *)
theory Static_Buffers
  imports Buffer_Interfaces
begin

text \<open>
  The two containers of \<open>src/buffer.c\<close> in their embedded configurations: a pool with an array in
  the structure (\<open>MTDP_BUFFER_POOL_STATIC_SIZE\<close> not 0) and a FIFO with all its blocks in the
  structure (\<open>MTDP_BUFFER_FIFO_BLOCKS\<close> not 0). The settings are the parameters \<open>S\<close>, \<open>K\<close> (the
  number of blocks) and \<open>B\<close> (the block size). No memory is allocated, so only the structure is
  passed. These are the \<open>#if\<close> branches that the theories Buffer_Pool and Buffer_Fifo leave out.
\<close>

section \<open>The embedded pool\<close>

record static_pool =
  sp_buffers :: "slot list"
  sp_size :: nat

definition static_pool_has_space_for :: "nat \<Rightarrow> static_pool \<Rightarrow> nat \<Rightarrow> bool" where
  "static_pool_has_space_for S self elements \<longleftrightarrow> usub S (sp_size self) \<ge> elements"

definition static_pool_preventive_realloc :: "nat \<Rightarrow> static_pool \<Rightarrow> nat \<Rightarrow> bool" where
  "static_pool_preventive_realloc S self elements = (if \<not> static_pool_has_space_for S self elements then False else True)"

definition static_pool_init :: "static_pool \<Rightarrow> static_pool" where
  "static_pool_init self = self\<lparr>sp_size := 0\<rparr>"

definition static_pool_push_back :: "nat \<Rightarrow> static_pool \<Rightarrow> mtdp_buffer \<Rightarrow> (bool \<times> static_pool) option" where
  "static_pool_push_back S self e =
    (if \<not> static_pool_preventive_realloc S self 1 then Some (False, self)
     else if sp_size self < length (sp_buffers self)
     then Some (True, self\<lparr>sp_buffers := (sp_buffers self)[sp_size self := Some e], sp_size := sp_size self + 1\<rparr>)
     else None)"

definition static_pool_pop_back :: "static_pool \<Rightarrow> (mtdp_buffer \<times> static_pool) option" where
  "static_pool_pop_back self =
    (if sp_size self \<noteq> 0 then do {
       let self = self\<lparr>sp_size := usub (sp_size self) 1\<rparr>;
       e \<leftarrow> (if sp_size self < length (sp_buffers self) then sp_buffers self ! sp_size self else None);
       Some (e, self) }
     else Some (NULL, self))"

definition static_pool_resize :: "nat \<Rightarrow> static_pool \<Rightarrow> nat \<Rightarrow> bool \<times> static_pool" where
  "static_pool_resize S self n =
    (let capacity = S; delta = int n - int capacity in
     if delta < 0 then (True, self\<lparr>sp_size := uadds (sp_size self) delta\<rparr>)
     else if delta > 0 then (False, self)
     else (True, self))"

text \<open>While nobody resizes it, the embedded pool is a stack of at most \<open>S\<close> buffers.\<close>

definition static_pool_inv :: "nat \<Rightarrow> static_pool \<Rightarrow> bool" where
  "static_pool_inv S self \<longleftrightarrow> length (sp_buffers self) = S \<and> sp_size self \<le> S \<and>
     None \<notin> set (take (sp_size self) (sp_buffers self))"

definition static_pool_elems :: "static_pool \<Rightarrow> mtdp_buffer list" where
  "static_pool_elems self = map the (take (sp_size self) (sp_buffers self))"

lemma static_pool_push:
  assumes "static_pool_inv S self"
  shows "static_pool_push_back S self e =
      Some (sp_size self < S, if sp_size self < S
        then self\<lparr>sp_buffers := (sp_buffers self)[sp_size self := Some e], sp_size := sp_size self + 1\<rparr> else self)"
  using assms
  by (auto simp: static_pool_push_back_def static_pool_preventive_realloc_def static_pool_has_space_for_def
      static_pool_inv_def)

lemma static_pool_pushed:
  assumes "static_pool_inv S self" "sp_size self < S"
  shows "static_pool_inv S (self\<lparr>sp_buffers := (sp_buffers self)[sp_size self := Some e], sp_size := sp_size self + 1\<rparr>)"
    "static_pool_elems (self\<lparr>sp_buffers := (sp_buffers self)[sp_size self := Some e], sp_size := sp_size self + 1\<rparr>) =
       static_pool_elems self @ [e]"
  using assms by (auto simp: static_pool_inv_def static_pool_elems_def take_Suc_conv_app_nth)

lemma static_pool_pop:
  assumes "static_pool_inv S self"
  obtains (Empty) "static_pool_elems self = []" "static_pool_pop_back self = Some (NULL, self)"
  | (Last) e self' where "static_pool_pop_back self = Some (e, self')" "static_pool_inv S self'"
      "static_pool_elems self = static_pool_elems self' @ [e]"
proof (cases "sp_size self")
  case 0
  then show ?thesis by (intro Empty) (simp_all add: static_pool_elems_def static_pool_pop_back_def)
next
  case (Suc n)
  have n: "n < length (sp_buffers self)" using assms Suc by (simp add: static_pool_inv_def)
  then have t: "take (Suc n) (sp_buffers self) = take n (sp_buffers self) @ [sp_buffers self ! n]"
    by (rule take_Suc_conv_app_nth)
  then obtain e where e: "sp_buffers self ! n = Some e"
    using assms Suc by (cases "sp_buffers self ! n") (auto simp: static_pool_inv_def)
  show ?thesis
    by (rule Last[of e "self\<lparr>sp_size := n\<rparr>"])
       (use assms Suc n t e in \<open>auto simp: static_pool_pop_back_def static_pool_inv_def static_pool_elems_def\<close>)
qed

text \<open>The pool's operations on the unit memory, a null result being no buffer.\<close>

definition static_pool_put :: "nat \<Rightarrow> unit \<Rightarrow> static_pool \<Rightarrow> mtdp_buffer \<Rightarrow> (bool \<times> unit \<times> static_pool) option" where
  "static_pool_put S m self e = map_option (\<lambda>(ok, self). (ok, m, self)) (static_pool_push_back S self e)"

definition static_pool_take :: "unit \<Rightarrow> static_pool \<Rightarrow> (mtdp_buffer option \<times> unit \<times> static_pool) option" where
  "static_pool_take m self =
    map_option (\<lambda>(e, self'). (if sp_size self = 0 then None else Some e, m, self')) (static_pool_pop_back self)"

interpretation static_stack: buffer_stack "\<lambda>_. static_pool_inv S" "\<lambda>_. static_pool_elems" "static_pool_put S" static_pool_take
  for S
proof unfold_locales
  fix m :: unit and self e assume "static_pool_inv S self"
  then show "\<exists>ok m' self'. static_pool_put S m self e = Some (ok, m', self') \<and> static_pool_inv S self' \<and>
      static_pool_elems self' = (if ok then static_pool_elems self @ [e] else static_pool_elems self)"
    using static_pool_pushed[of S self e] by (auto simp: static_pool_put_def static_pool_push)
next
  fix m :: unit and self assume inv: "static_pool_inv S self"
  then show "\<exists>m' self'. static_pool_take m self =
      Some (if static_pool_elems self = [] then None else Some (last (static_pool_elems self)), m', self') \<and>
      static_pool_inv S self' \<and> static_pool_elems self' = butlast (static_pool_elems self)"
  proof (cases rule: static_pool_pop)
    case Empty
    then have "sp_size self = 0" using inv by (cases "sp_size self") (auto simp: static_pool_elems_def static_pool_inv_def)
    with Empty inv show ?thesis by (simp add: static_pool_take_def)
  next
    case (Last e self')
    then have "sp_size self \<noteq> 0" by (cases "sp_size self = 0") (auto simp: static_pool_elems_def)
    with Last show ?thesis by (simp add: static_pool_take_def)
  qed
qed

section \<open>The embedded FIFO\<close>

text \<open>\<open>blocks\<close> is contiguous, so it is one array of \<open>K * B\<close> slots; \<open>first\<close> is its beginning.\<close>

record static_fifo =
  sf_blocks :: "slot list"
  sf_size :: nat
  sf_offset :: nat

definition sf_get :: "static_fifo \<Rightarrow> nat \<Rightarrow> mtdp_buffer option" where
  "sf_get self i = (if i < length (sf_blocks self) then sf_blocks self ! i else None)"

definition sf_set :: "static_fifo \<Rightarrow> nat \<Rightarrow> mtdp_buffer \<Rightarrow> static_fifo option" where
  "sf_set self i e = (if i < length (sf_blocks self) then Some (self\<lparr>sf_blocks := (sf_blocks self)[i := Some e]\<rparr>) else None)"

definition static_fifo_init :: "nat \<Rightarrow> static_fifo \<Rightarrow> bool \<times> static_fifo" where
  "static_fifo_init K self = (True, self\<lparr>sf_size := 0, sf_offset := K\<rparr>)"

definition static_fifo_rightshift_elements :: "nat \<Rightarrow> nat \<Rightarrow> static_fifo \<Rightarrow> static_fifo option" where
  "static_fifo_rightshift_elements K B self = do {
     self \<leftarrow> for_up 1 (sf_size self)
       (\<lambda>i self. do { e \<leftarrow> sf_get self (usub (sf_offset self + sf_size self) i); sf_set self (usub (B * K) i) e }) self;
     Some (self\<lparr>sf_offset := usub (B * K) (sf_size self)\<rparr>) }"

definition static_fifo_shift_back_left :: "nat \<Rightarrow> nat \<Rightarrow> static_fifo \<Rightarrow> (nat option \<times> static_fifo) option" where
  "static_fifo_shift_back_left K B self = do {
     self \<leftarrow> (if sf_offset self = 0 \<and> sf_size self \<noteq> B * K then static_fifo_rightshift_elements K B self else Some self);
     if sf_offset self \<noteq> 0 then
       (let self = self\<lparr>sf_offset := sf_offset self - 1\<rparr> in Some (Some (sf_offset self), self))
     else Some (None, self) }"

definition static_fifo_push_back :: "nat \<Rightarrow> nat \<Rightarrow> static_fifo \<Rightarrow> mtdp_buffer \<Rightarrow> (bool \<times> static_fifo) option" where
  "static_fifo_push_back K B self e = do {
     (back, self) \<leftarrow> static_fifo_shift_back_left K B self;
     (case back of None \<Rightarrow> Some (False, self) | Some i \<Rightarrow> do { self \<leftarrow> sf_set self i e; Some (True, self) }) }"

definition static_fifo_shift_front_left :: "nat \<Rightarrow> nat \<Rightarrow> static_fifo \<Rightarrow> nat option \<times> static_fifo" where
  "static_fifo_shift_front_left K B self =
    (if sf_size self \<noteq> 0 then
       (let tmp = usub (usub (K * B) (sf_offset self + sf_size self)) 1;
            self = self\<lparr>sf_size := usub (sf_size self) 1\<rparr> in
        (Some tmp, if sf_size self = 0 then self\<lparr>sf_offset := usub (K * B) 1\<rparr> else self))
     else (None, self))"

definition static_fifo_pop_front :: "nat \<Rightarrow> nat \<Rightarrow> static_fifo \<Rightarrow> (mtdp_buffer option \<times> static_fifo) option" where
  "static_fifo_pop_front K B self =
    (case static_fifo_shift_front_left K B self of
       (None, self) \<Rightarrow> Some (None, self)
     | (Some i, self) \<Rightarrow> do { e \<leftarrow> sf_get self i; Some (Some e, self) })"

definition static_fifo_put ::
  "nat \<Rightarrow> nat \<Rightarrow> unit \<Rightarrow> static_fifo \<Rightarrow> mtdp_buffer \<Rightarrow> (bool \<times> unit \<times> static_fifo) option" where
  "static_fifo_put K B m self e = map_option (\<lambda>(ok, self). (ok, m, self)) (static_fifo_push_back K B self e)"

definition static_fifo_take :: "nat \<Rightarrow> nat \<Rightarrow> unit \<Rightarrow> static_fifo \<Rightarrow> (mtdp_buffer option \<times> unit \<times> static_fifo) option" where
  "static_fifo_take K B m self = map_option (\<lambda>(e, self). (e, m, self)) (static_fifo_pop_front K B self)"

text \<open>No path of the push increments the size.\<close>

definition static_fifo_state :: "nat \<Rightarrow> nat \<Rightarrow> static_fifo \<Rightarrow> bool" where
  "static_fifo_state K B self \<longleftrightarrow> length (sf_blocks self) = K * B \<and> sf_size self = 0 \<and> sf_offset self \<le> K * B"

lemma static_fifo_push:
  assumes "static_fifo_state K B self" "0 < K" "0 < B"
  shows "\<exists>self'. static_fifo_push_back K B self e = Some (True, self') \<and> static_fifo_state K B self'"
  using assms
  by (auto simp: static_fifo_push_back_def static_fifo_shift_back_left_def static_fifo_rightshift_elements_def
      static_fifo_state_def sf_set_def Let_def mult.commute)

lemma static_fifo_pop: "static_fifo_state K B self \<Longrightarrow> static_fifo_pop_front K B self = Some (None, self)"
  by (simp add: static_fifo_state_def static_fifo_pop_front_def static_fifo_shift_front_left_def)

section \<open>Properties\<close>

text \<open>An embedded pool cannot be sized. On a pool just initialised a request for \<open>n > 0\<close> buffers,
  which is how \<open>mtdp_pipe_resize\<close> provides them, never yields a pool of \<open>n\<close> buffers: below the
  array's size the size field wraps below zero, so the next push or pop is outside the array;
  at the array's size it stays 0; above, the request is refused.\<close>

theorem static_pool_resize_broken:
  assumes "0 < n" "S < 2 ^ 63" "length (sp_buffers p) = S" "static_pool_resize S (static_pool_init p) n = (ok, p')"
  shows "sp_size p' \<noteq> n \<and>
    (n < S \<longrightarrow> ok \<and> sp_size p' = 2 ^ 64 - (S - n) \<and> static_pool_pop_back p' = None \<and> static_pool_push_back S p' e = None) \<and>
    (n = S \<longrightarrow> ok \<and> sp_size p' = 0 \<and> static_pool_pop_back p' = Some (NULL, p')) \<and> (S < n \<longrightarrow> \<not> ok \<and> sp_size p' = 0)"
proof (cases "n < S")
  case True
  have p': "ok" "p' = p\<lparr>sp_size := 2 ^ 64 - (S - n)\<rparr>"
    using assms(2,4) True by (auto simp: static_pool_resize_def static_pool_init_def uadds_def Let_def nat_diff_distrib)
  have big: "S < 2 ^ 64 - (S - n)" "2 ^ 64 - (S - n) < (2::nat) ^ 64" "n < 2 ^ 64 - (S - n)" using assms(1,2) True by simp_all
  then have "sp_size p' \<noteq> 0" "\<not> usub (sp_size p') 1 < length (sp_buffers p')"
    using p'(2) assms(3) by (simp_all add: usub_def)
  then have "static_pool_pop_back p' = None" by (simp add: static_pool_pop_back_def Let_def)
  moreover have "usub S (2 ^ 64 - (S - n)) \<ge> 1" using big(1) assms(1,2) True by (simp add: usub_def)
  then have "static_pool_push_back S p' e = None"
    using p'(2) big(1) assms(3)
    by (simp add: static_pool_push_back_def static_pool_preventive_realloc_def static_pool_has_space_for_def)
  ultimately show ?thesis using p' True big(3) by simp
next
  case False
  then show ?thesis using assms(1,4)
    by (auto simp: static_pool_resize_def static_pool_init_def Let_def static_pool_pop_back_def split: if_splits)
qed

theorem static_pool_resize_broken_witness:
  "sp_size (snd (static_pool_resize 32 (static_pool_init \<lparr>sp_buffers = replicate 32 None, sp_size = 7\<rparr>) 8)) = 2 ^ 64 - 24"
proof -
  obtain ok p' where r: "static_pool_resize 32 (static_pool_init \<lparr>sp_buffers = replicate 32 None, sp_size = 7\<rparr>) 8 = (ok, p')"
    by fastforce
  from static_pool_resize_broken[OF _ _ _ r] r show ?thesis by simp
qed

text \<open>An embedded FIFO loses every buffer. After its initialisation every script of pushes and
  pops is memory safe, every push reports success, and every pop reports an empty queue.\<close>

theorem static_fifo_swallows:
  assumes "0 < K" "0 < B" "length (sf_blocks f) = K * B" "static_fifo_init K f = (ok, f1)"
  shows "\<exists>f2. run_calls (static_fifo_put K B) (static_fifo_take K B) () f1 cs =
      Some ([e. Put e \<leftarrow> cs], [], (), f2) \<and> sf_size f2 = 0"
proof -
  have "static_fifo_state K B f1" using assms by (auto simp: static_fifo_init_def static_fifo_state_def)
  then have "\<exists>f2. run_calls (static_fifo_put K B) (static_fifo_take K B) () f1 cs = Some ([e. Put e \<leftarrow> cs], [], (), f2) \<and>
      static_fifo_state K B f2"
  proof (induction cs arbitrary: f1)
    case (Cons c cs)
    show ?case
    proof (cases c)
      case (Put e)
      obtain f3 where "static_fifo_push_back K B f1 e = Some (True, f3)" "static_fifo_state K B f3"
        using static_fifo_push[OF Cons.prems assms(1,2)] by blast
      with Cons.IH[of f3] Put show ?thesis by (auto simp: static_fifo_put_def)
    next
      case Get
      with Cons.IH[OF Cons.prems] static_fifo_pop[OF Cons.prems] show ?thesis by (auto simp: static_fifo_take_def)
    qed
  qed simp
  then show ?thesis by (auto simp: static_fifo_state_def)
qed

theorem static_fifo_swallows_witness:
  "\<exists>f2. run_calls (static_fifo_put 2 16) (static_fifo_take 2 16) ()
      (snd (static_fifo_init 2 \<lparr>sf_blocks = replicate 32 None, sf_size = 0, sf_offset = 0\<rparr>))
      [Put (Ptr 1), Get, Put (Ptr 2), Get, Get] = Some ([Ptr 1, Ptr 2], [], (), f2)"
proof -
  obtain ok f1 where r: "static_fifo_init 2 \<lparr>sf_blocks = replicate 32 None, sf_size = 0, sf_offset = 0\<rparr> = (ok, f1)"
    by fastforce
  from static_fifo_swallows[OF _ _ _ r, of 16 "[Put (Ptr 1), Get, Put (Ptr 2), Get, Get]"] r show ?thesis by auto
qed

end
