(* ===== verification/Deadline.thy ===== *)
theory Deadline
  imports Complex_Main "HOL-Library.Word"
begin

text \<open>
  The deadline of \<open>mtdp_semaphore_try_acquire_for\<close> (\<open>src/sem.h\<close>): the absolute time at which a
  consumer that waits for a buffer gives up. The header has it twice: a GNU statement expression
  in \<open>long\<close> arithmetic, and for \<open>MTDP_STRICT_ISO_C\<close> a function in 32-bit unsigned arithmetic.
\<close>

record timespec =
  tv_sec :: int
  tv_nsec :: int

text \<open>\<open>ts\<close> is what \<open>clock_gettime\<close> stored. Of the operands that are divided none is negative.\<close>

definition deadline :: "int \<Rightarrow> timespec \<Rightarrow> timespec" where
  "deadline us ts =
    (let seconds = us div 1000000;
         ts = ts\<lparr>tv_sec := tv_sec ts + seconds\<rparr>;
         ts = ts\<lparr>tv_nsec := tv_nsec ts + (us - seconds * 1000000) * 1000\<rparr>;
         ts = ts\<lparr>tv_sec := tv_sec ts + tv_nsec ts div 1000000000\<rparr>;
         ts = ts\<lparr>tv_nsec := tv_nsec ts mod 1000000000\<rparr> in
     ts)"

definition deadline_iso :: "32 word \<Rightarrow> timespec \<Rightarrow> timespec" where
  "deadline_iso microseconds ts =
    (let seconds = microseconds div 1000000;
         ts = ts\<lparr>tv_sec := tv_sec ts + uint seconds\<rparr>;
         ts = ts\<lparr>tv_nsec := tv_nsec ts + uint ((microseconds - seconds * 1000000) * 1000)\<rparr>;
         ts = ts\<lparr>tv_sec := tv_sec ts + tv_nsec ts div 1000000000\<rparr>;
         ts = ts\<lparr>tv_nsec := tv_nsec ts mod 1000000000\<rparr> in
     ts)"

definition nanoseconds :: "timespec \<Rightarrow> int" where
  "nanoseconds ts = tv_sec ts * 1000000000 + tv_nsec ts"

definition normal :: "timespec \<Rightarrow> bool" where
  "normal ts \<longleftrightarrow> 0 \<le> tv_nsec ts \<and> tv_nsec ts < 1000000000"

lemma rest_us: "(us::int) - us div 1000000 * 1000000 = us mod 1000000"
  by (simp add: minus_div_mult_eq_mod)

text \<open>C39. The deadline is exactly the timeout away and normalised, as \<open>sem_timedwait\<close> demands; the
  nanoseconds never leave 32 bits on the way. Both versions of the function compute it, for
  every timeout of 32 bits: the unsigned product does not wrap.\<close>

theorem deadline_exact:
  assumes "normal ts"
  shows "deadline_iso us ts = deadline (uint us) ts \<and> normal (deadline (uint us) ts) \<and>
    nanoseconds (deadline (uint us) ts) = nanoseconds ts + uint us * 1000 \<and>
    tv_nsec ts + (uint us mod 1000000) * 1000 < 2 ^ 31"
proof (intro conjI)
  have m: "0 \<le> uint us mod 1000000" "uint us mod 1000000 < 1000000" by simp_all
  have d: "uint (us div 1000000) = uint us div 1000000" "uint (us mod 1000000) = uint us mod 1000000"
    by (simp_all add: uint_div_distrib uint_mod_distrib)
  have "us - us div 1000000 * 1000000 = us mod 1000000" by (simp add: minus_div_mult_eq_mod)
  moreover have "uint (us mod 1000000) * uint (1000 :: 32 word) < 2 ^ 32" using m by (simp add: d)
  then have "uint (us mod 1000000 * 1000) = uint us mod 1000000 * 1000"
    using uint_mult_lem[of "us mod 1000000" "1000 :: 32 word"] by (simp add: d)
  ultimately have e: "uint ((us - us div 1000000 * 1000000) * 1000) = (uint us - uint us div 1000000 * 1000000) * 1000"
    by (simp only: rest_us)
  show "deadline_iso us ts = deadline (uint us) ts"
    by (simp only: deadline_iso_def deadline_def Let_def d e)
  have "x * 1000000000 + n = (x + n div 1000000000) * 1000000000 + n mod 1000000000" for x n :: int
    by (simp add: algebra_simps)
  then have "nanoseconds (deadline (uint us) ts) =
      (tv_sec ts + uint us div 1000000) * 1000000000 + (tv_nsec ts + (uint us - uint us div 1000000 * 1000000) * 1000)"
    by (simp add: deadline_def nanoseconds_def Let_def)
  then show "nanoseconds (deadline (uint us) ts) = nanoseconds ts + uint us * 1000" by (simp add: nanoseconds_def algebra_simps)
  show "normal (deadline (uint us) ts)" by (simp add: normal_def deadline_def Let_def)
  have "tv_nsec ts + (uint us mod 1000000) * 1000 < 2147483648" using m assms unfolding normal_def by linarith
  then show "tv_nsec ts + (uint us mod 1000000) * 1000 < 2 ^ 31" by simp
qed

theorem deadline_exact_witness:
  "deadline_iso 100000 \<lparr>tv_sec = 5, tv_nsec = 950000000\<rparr> = \<lparr>tv_sec = 6, tv_nsec = 50000000\<rparr>"
proof -
  have "deadline 100000 \<lparr>tv_sec = 5, tv_nsec = 950000000\<rparr> = \<lparr>tv_sec = 6, tv_nsec = 50000000\<rparr>"
    by (simp add: deadline_def)
  then show ?thesis using deadline_exact[of "\<lparr>tv_sec = 5, tv_nsec = 950000000\<rparr>" 100000] by (simp add: normal_def)
qed

end
