(* ===== verification/Handing.thy ===== *)
theory Handing
  imports Flow
begin

text \<open>
  Pipelines whose stages hand every buffer on: each call of a stage's callback uses up its input
  and fills its output, each call of the sink's uses up its input. What the flags of the
  contexts then say at each point of a routine, and how many buffers a stage has taken and not
  yet passed on.
\<close>

definition hand_stage :: "'u mtdp_stage_callback \<Rightarrow> bool" where
  "hand_stage f \<longleftrightarrow> (\<forall>u b c. snd (f u b c) = c\<lparr>st_ready_to_push := True, st_ready_to_pull := True\<rparr>)"

definition hand_sink :: "'u mtdp_sink_callback \<Rightarrow> bool" where
  "hand_sink f \<longleftrightarrow> (\<forall>u b c. snd (f u b c) = c\<lparr>sk_ready_to_pull := True\<rparr>)"

definition handing :: "'u flow \<Rightarrow> bool" where
  "handing s \<longleftrightarrow> (\<forall>u \<in> set (sh_stages (fl_sh s)). \<exists>f. st_process u = Some f \<and> hand_stage f) \<and>
     (\<exists>f. sk_process (sk_user_data (fl_sink s)) = Some f \<and> hand_sink f)"

text \<open>The flags: ready to push, ready to pull, output held, input held.\<close>

fun stage_flags_at :: "stage_pc \<Rightarrow> bool \<Rightarrow> bool \<Rightarrow> bool \<Rightarrow> bool \<Rightarrow> bool" where
  "stage_flags_at St_Entry P L q x \<longleftrightarrow> P \<and> L \<and> q \<and> \<not> x \<or> \<not> P \<and> \<not> q \<and> x \<noteq> L"
| "stage_flags_at St_Release P L q x \<longleftrightarrow> P \<and> L \<and> \<not> x"
| "stage_flags_at St_Acquire P L q x \<longleftrightarrow> \<not> P \<and> \<not> q \<and> x \<noteq> L"
| "stage_flags_at St_Unset P L q x \<longleftrightarrow> \<not> P \<and> L \<and> \<not> q \<and> \<not> x"
| "stage_flags_at St_GetFull P L q x \<longleftrightarrow> \<not> P \<and> L \<and> \<not> q \<and> \<not> x"
| "stage_flags_at St_Return P L q x \<longleftrightarrow> False"
| "stage_flags_at St_GetEmpty P L q x \<longleftrightarrow> \<not> P \<and> \<not> L \<and> \<not> q \<and> x"
| "stage_flags_at St_Process P L q x \<longleftrightarrow> \<not> P \<and> \<not> L \<and> q \<and> x"
| "stage_flags_at St_PutBack P L q x \<longleftrightarrow> P \<and> L \<and> q \<and> x"

definition stage_flags :: "stage_pc \<Rightarrow> mtdp_stage_impl \<Rightarrow> bool" where
  "stage_flags pc g = (let c = st_context g in
     stage_flags_at pc (st_ready_to_push c) (st_ready_to_pull c) (st_output c \<noteq> NULL) (st_input c \<noteq> NULL))"

definition stage_item :: "stage_pc \<Rightarrow> mtdp_stage_impl \<Rightarrow> nat" where
  "stage_item pc g = of_bool (pc \<noteq> St_Release \<and> (st_ready_to_push (st_context g) \<or> st_input (st_context g) \<noteq> NULL))"

fun sink_flags_at :: "sink_pc \<Rightarrow> bool \<Rightarrow> bool \<Rightarrow> bool" where
  "sink_flags_at Sk_Process L x \<longleftrightarrow> \<not> L \<and> x"
| "sink_flags_at Sk_Return L x \<longleftrightarrow> False"
| "sink_flags_at _ L x \<longleftrightarrow> L"

definition sink_flags :: "sink_pc \<Rightarrow> 'u mtdp_sink_impl \<Rightarrow> bool" where
  "sink_flags pc self = sink_flags_at pc (sk_ready_to_pull (sk_context self)) (sk_input (sk_context self) \<noteq> NULL)"

lemma call_stage_hand:
  "hand_stage f \<Longrightarrow> call_stage (Some f) sh self = Some (sh', self') \<Longrightarrow>
     st_ready_to_push (st_context self') \<and> st_ready_to_pull (st_context self')"
  by (auto simp: call_stage_def hand_stage_def case_prod_unfold Let_def)

lemma call_sink_facts:
  "call_sink f sh self = Some (sh', self') \<Longrightarrow> sk_user_data self' = sk_user_data self \<and>
     (\<forall>g. f = Some g \<longrightarrow> hand_sink g \<longrightarrow> sk_ready_to_pull (sk_context self'))"
  by (auto simp: call_sink_def hand_sink_def case_prod_unfold Let_def bind_eq_Some_conv)

lemma stage_step_flags:
  assumes fl: "stage_flags pc g" and st: "stage_step cfg pc (sh, g) = Some (r, sh', g')"
    and ok: "stage_ok i pc g" "stage_ok i (stage_next r) g'"
    and u: "i < length (sh_stages sh)" "stage_user_ok (sh_stages sh ! i)" "st_process (sh_stages sh ! i) = Some f" "hand_stage f"
  shows "stage_flags (stage_next r) g' \<and>
    stage_item (stage_next r) g' + length (stage_pushes pc r g) = stage_item pc g + length (stage_pulls pc r g')"
proof (cases pc)
  case St_Process
  obtain r1 sh1 g1 where s: "stage_step cfg St_Process (sh, g) = Some (r1, sh1, g1)" "r1 = None \<or> r1 = Some St_PutBack"
    "stage_out_view (stage_next r1) g1 = stage_out_view St_Process g"
    "stage_in_view (stage_next r1) g1 = stage_in_view St_Process g"
    by (rule stage_step_process[OF ok(1)[unfolded St_Process] u(1,2)])
  have eq: "r1 = r" "g1 = g'" using s(1) st St_Process by simp_all
  have "st_ready_to_push (st_context g') \<and> st_ready_to_pull (st_context g') \<and> r = Some St_PutBack"
    using st ok(1) u(1,3,4) St_Process
    by (auto simp: stage_step_def bind_eq_Some_conv stage_user_def stage_ok_def dest!: call_stage_hand split: if_splits)
  then show ?thesis using s(3,4) fl St_Process unfolding eq
    by (auto simp: stage_flags_def stage_item_def stage_views Let_def split: if_splits)
qed (use fl st ok(2) in \<open>auto simp: stage_step_def Let_def bind_eq_Some_conv stage_flags_def stage_item_def stage_views
      stage_ok_def split: if_splits\<close>)

lemma sink_step_flags:
  assumes fl: "sink_flags pc k" and st: "sink_step cfg pc (sh, k) = Some (r, sh', k')"
    and ok: "sink_ok n pc k" "sink_ok n (sink_next r) k'"
    and u: "sk_process (sk_user_data k) = Some f" "hand_sink f"
  shows "sink_flags (sink_next r) k' \<and> sk_user_data k' = sk_user_data k"
proof (cases pc)
  case Sk_Process
  with fl st u show ?thesis
    by (auto simp: sink_step_def Let_def bind_eq_Some_conv sink_flags_def sink_next_def dest!: call_sink_facts
        split: if_splits option.splits)
qed (use fl st ok(2) in \<open>auto simp: sink_step_def Let_def bind_eq_Some_conv sink_flags_def sink_views
      sink_ok_def split: if_splits\<close>)

end
