(* ===== verification/Drain.thy ===== *)
theory Drain
  imports Handing Flow_Properties
begin

text \<open>
  A pipeline whose stages hand every buffer on can always be emptied: from every reachable state
  in which the threads are between two iterations, some schedule of the stages and the sink
  brings every buffer the source has pushed to the sink.
\<close>

section \<open>What holds along a run\<close>

definition flow_hand :: "'u flow \<Rightarrow> bool" where
  "flow_hand s \<longleftrightarrow> handing s \<and> sink_flags (sk_at s) (fl_sink s) \<and>
     (\<forall>i < length (fl_stages s). stage_flags (st_at s ! i) (fl_stages s ! i) \<and>
        length (pulled s i) = length (pushed s (Suc i)) + stage_item (st_at s ! i) (fl_stages s ! i))"

lemma stage_step_users: "stage_step cfg pc (sh, g) = Some (r, sh', g') \<Longrightarrow> sh_stages sh' = sh_stages sh"
  by (cases pc) (auto simp: stage_step_def Let_def bind_eq_Some_conv release_pipe_def try_acquire_pipe_def set_pipe_def
      call_stage_def case_prod_unfold split: if_splits option.splits)

lemma sink_step_users: "sink_step cfg pc (sh, k) = Some (r, sh', k') \<Longrightarrow> sh_stages sh' = sh_stages sh"
  by (cases pc) (auto simp: sink_step_def Let_def bind_eq_Some_conv release_pipe_def try_acquire_pipe_def set_pipe_def
      call_sink_def case_prod_unfold split: if_splits option.splits)

lemma source_step_users: "source_step cfg pc (sh, k) = Some (r, sh', k') \<Longrightarrow> sh_stages sh' = sh_stages sh"
  by (cases pc) (auto simp: source_step_def Let_def bind_eq_Some_conv release_pipe_def try_acquire_pipe_def set_pipe_def
      call_source_def case_prod_unfold split: if_splits option.splits)

lemma stage_moveE:
  assumes inv: "flow_inv cfg B s" and i: "i < length (fl_stages s)" and mv: "stage_move cfg i s = Some s'"
  obtains r sh self where "stage_step cfg (st_at s ! i) (fl_sh s, fl_stages s ! i) = Some (r, sh, self)"
    "s' = s\<lparr>fl_sh := sh, fl_stages := (fl_stages s)[i := self], st_at := (st_at s)[i := stage_next r],
       pushed := (pushed s)(Suc i := pushed s (Suc i) @ stage_pushes (st_at s ! i) r (fl_stages s ! i)),
       pulled := (pulled s)(i := pulled s i @ stage_pulls (st_at s ! i) r self)\<rparr>"
    "flow_inv cfg B s'" "stage_ok i (stage_next r) self"
proof -
  have k: "st_output_pipe (fl_stages s ! i) = Suc i" "st_input_pipe (fl_stages s ! i) = i"
    using flow_invD(6)[OF inv i] by (simp_all add: stage_ok_def)
  have inv': "flow_inv cfg B s'" using stage_move_inv[OF inv i] mv by auto
  obtain r sh self where st: "stage_step cfg (st_at s ! i) (fl_sh s, fl_stages s ! i) = Some (r, sh, self)"
    "s' = s\<lparr>fl_sh := sh, fl_stages := (fl_stages s)[i := self], st_at := (st_at s)[i := stage_next r],
       pushed := (pushed s)(Suc i := pushed s (Suc i) @ stage_pushes (st_at s ! i) r (fl_stages s ! i)),
       pulled := (pulled s)(i := pulled s i @ stage_pulls (st_at s ! i) r self)\<rparr>"
    using mv k by (auto simp: stage_move_def bind_eq_Some_conv Let_def)
  have "stage_ok i (stage_next r) self" using flow_invD(6)[OF inv', of i] st(2) i flow_invD(2)[OF inv] by simp
  with st inv' show ?thesis by (intro that)
qed

lemma sink_moveE:
  assumes inv: "flow_inv cfg B s" and mv: "sink_move cfg s = Some s'"
  obtains r sh self where "sink_step cfg (sk_at s) (fl_sh s, fl_sink s) = Some (r, sh, self)"
    "s' = s\<lparr>fl_sh := sh, fl_sink := self, sk_at := sink_next r, pulled := (pulled s)(length (fl_stages s) :=
       pulled s (length (fl_stages s)) @ sink_pulls (sk_at s) r self)\<rparr>"
    "flow_inv cfg B s'" "sink_ok (length (fl_stages s)) (sink_next r) self"
proof -
  have k: "sk_input_pipe (fl_sink s) = length (fl_stages s)" using flow_invD(7)[OF inv] by (simp add: sink_ok_def)
  have inv': "flow_inv cfg B s'" using sink_move_inv[OF inv] mv by auto
  obtain r sh self where st: "sink_step cfg (sk_at s) (fl_sh s, fl_sink s) = Some (r, sh, self)"
    "s' = s\<lparr>fl_sh := sh, fl_sink := self, sk_at := sink_next r, pulled := (pulled s)(length (fl_stages s) :=
       pulled s (length (fl_stages s)) @ sink_pulls (sk_at s) r self)\<rparr>"
    using mv k by (auto simp: sink_move_def bind_eq_Some_conv Let_def)
  have "sink_ok (length (fl_stages s)) (sink_next r) self" using flow_invD(7)[OF inv'] st(2) by simp
  with st inv' show ?thesis by (intro that)
qed

lemma handing_stage:
  assumes "flow_inv cfg B s" "handing s" "i < length (fl_stages s)"
  obtains f where "i < length (sh_stages (fl_sh s))" "stage_user_ok (sh_stages (fl_sh s) ! i)"
    "st_process (sh_stages (fl_sh s) ! i) = Some f" "hand_stage f"
proof -
  have "i < length (sh_stages (fl_sh s))" using assms flow_invD(3)[OF assms(1)] by simp
  then have "sh_stages (fl_sh s) ! i \<in> set (sh_stages (fl_sh s))" by simp
  with assms(2) flow_invD(4)[OF assms(1)] \<open>i < length (sh_stages (fl_sh s))\<close> that show ?thesis
    unfolding handing_def by blast
qed

lemma stage_move_hand:
  assumes inv: "flow_inv cfg B s" and h: "flow_hand s" and i: "i < length (fl_stages s)" and mv: "stage_move cfg i s = Some s'"
  shows "flow_hand s'"
proof -
  obtain r sh self where st: "stage_step cfg (st_at s ! i) (fl_sh s, fl_stages s ! i) = Some (r, sh, self)"
    "s' = s\<lparr>fl_sh := sh, fl_stages := (fl_stages s)[i := self], st_at := (st_at s)[i := stage_next r],
       pushed := (pushed s)(Suc i := pushed s (Suc i) @ stage_pushes (st_at s ! i) r (fl_stages s ! i)),
       pulled := (pulled s)(i := pulled s i @ stage_pulls (st_at s ! i) r self)\<rparr>"
    "flow_inv cfg B s'" "stage_ok i (stage_next r) self"
    by (rule stage_moveE[OF inv i mv])
  have hs: "handing s" using h by (simp add: flow_hand_def)
  obtain f where f: "i < length (sh_stages (fl_sh s))" "stage_user_ok (sh_stages (fl_sh s) ! i)"
    "st_process (sh_stages (fl_sh s) ! i) = Some f" "hand_stage f" by (rule handing_stage[OF inv hs i])
  have fl: "stage_flags (st_at s ! i) (fl_stages s ! i)" using h i by (simp add: flow_hand_def)
  note g = stage_step_flags[OF fl st(1) flow_invD(6)[OF inv i] st(4) f]
  show ?thesis using h g i flow_invD(2)[OF inv] stage_step_users[OF st(1)]
    by (auto simp: flow_hand_def st(2) handing_def nth_list_update)
qed

lemma sink_move_hand:
  assumes inv: "flow_inv cfg B s" and h: "flow_hand s" and mv: "sink_move cfg s = Some s'"
  shows "flow_hand s'"
proof -
  obtain r sh self where st: "sink_step cfg (sk_at s) (fl_sh s, fl_sink s) = Some (r, sh, self)"
    "s' = s\<lparr>fl_sh := sh, fl_sink := self, sk_at := sink_next r, pulled := (pulled s)(length (fl_stages s) :=
       pulled s (length (fl_stages s)) @ sink_pulls (sk_at s) r self)\<rparr>"
    "flow_inv cfg B s'" "sink_ok (length (fl_stages s)) (sink_next r) self"
    by (rule sink_moveE[OF inv mv])
  obtain f where f: "sk_process (sk_user_data (fl_sink s)) = Some f" "hand_sink f" using h by (auto simp: flow_hand_def handing_def)
  have fl: "sink_flags (sk_at s) (fl_sink s)" using h by (simp add: flow_hand_def)
  note g = sink_step_flags[OF fl st(1) flow_invD(7)[OF inv] st(4) f]
  show ?thesis using h g sink_step_users[OF st(1)] by (auto simp: flow_hand_def st(2) handing_def)
qed

lemma flow_hand_cong:
  "flow_hand s \<Longrightarrow> sh_stages (fl_sh s') = sh_stages (fl_sh s) \<Longrightarrow> fl_sink s' = fl_sink s \<Longrightarrow> sk_at s' = sk_at s \<Longrightarrow>
     fl_stages s' = fl_stages s \<Longrightarrow> st_at s' = st_at s \<Longrightarrow> pulled s' = pulled s \<Longrightarrow>
     (\<And>k. pushed s' (Suc k) = pushed s (Suc k)) \<Longrightarrow> flow_hand s'"
  by (simp add: flow_hand_def handing_def)

lemma source_move_hand:
  assumes "flow_inv cfg B s" "flow_hand s" "source_move cfg s = Some s'"
  shows "flow_hand s'"
proof -
  have k: "so_output_pipe (fl_source s) = 0" using flow_invD(5)[OF assms(1)] by (simp add: source_ok_def)
  obtain r sh self where st: "source_step cfg (so_at s) (fl_sh s, fl_source s) = Some (r, sh, self)"
    "s' = s\<lparr>fl_sh := sh, fl_source := self, so_at := source_next r,
       pushed := (pushed s)(0 := pushed s 0 @ source_pushes (so_at s) r (fl_source s))\<rparr>"
    using assms(3) k by (auto simp: source_move_def bind_eq_Some_conv Let_def)
  show ?thesis by (rule flow_hand_cong[OF assms(2)]) (simp_all add: st(2) source_step_users[OF st(1)])
qed

lemma stage_hand_control:
  "stage_flags pc (g\<lparr>st_worker := w, st_done := d\<rparr>) = stage_flags pc g"
  "stage_item pc (g\<lparr>st_worker := w, st_done := d\<rparr>) = stage_item pc g"
  by (simp_all add: stage_flags_def stage_item_def)

lemma flow_step_hand:
  assumes "flow_step cfg s s'" "flow_inv cfg B s" "flow_hand s"
  shows "flow_hand s'"
  using assms
proof (induction rule: flow_step.induct)
  case (thread t s s')
  show ?case
  proof (cases t)
    case Source_thread
    then show ?thesis using source_move_hand[OF thread(3,4)] thread(2) by simp
  next
    case (Stage_thread i)
    then have "i < length (fl_stages s)" using thread(1) by (auto simp: flow_threads_def)
    then show ?thesis using stage_move_hand[OF thread(3,4)] thread(2) Stage_thread by simp
  next
    case Sink_thread
    then show ?thesis using sink_move_hand[OF thread(3,4)] thread(2) by simp
  qed
next
  case (stage_control i s d w)
  let ?gs = "(fl_stages s)[i := (fl_stages s ! i)\<lparr>st_worker := w, st_done := d\<rparr>]"
  have "stage_flags (st_at s ! j) (?gs ! j) = stage_flags (st_at s ! j) (fl_stages s ! j) \<and>
      stage_item (st_at s ! j) (?gs ! j) = stage_item (st_at s ! j) (fl_stages s ! j)" for j
    using stage_control(1) by (cases "j = i") (simp_all add: stage_hand_control)
  then show ?case using stage_control(3) by (simp add: flow_hand_def handing_def)
qed (simp_all add: flow_hand_def handing_def sink_flags_def)

lemma flow_reach_hand: "flow_reach cfg s0 s \<Longrightarrow> flow_inv cfg B s0 \<Longrightarrow> flow_hand s0 \<Longrightarrow> flow_hand s"
proof (induction rule: flow_reach.induct)
  case (step s s')
  then show ?case using flow_step_hand flow_reach_inv by blast
qed

end
