(* ===== verification/Drain_Moves.thy ===== *)
theory Drain_Moves
  imports Drain
begin

text \<open>Moves of the stages and the sink while the source is still: what they keep, and that every
  thread can be brought to the end of its iteration.\<close>

section \<open>The memory and the log\<close>

lemma flow_pipe_inv:
  assumes "flow_inv cfg B s" "k \<le> length (fl_stages s)"
  shows "pipe_inv cfg (sh_mem (fl_sh s)) (sh_pipes (fl_sh s) ! k)"
proof -
  have "k < length (sh_pipes (fl_sh s))" using assms flow_invD(1) by fastforce
  from links_invD(1)[OF flow_invD(8)[OF assms(1)] this] show ?thesis
    by (cases "producer s k"; cases "consumer s k") (simp add: pipe_link_def)
qed

lemma push_buffer_avail:
  "pipe_inv cfg m p \<Longrightarrow> mtdp_pipe_push_buffer cfg m p b = Some (ok, m', p') \<Longrightarrow>
     avail m' = avail m \<and> ((\<forall>n. avail m n) \<longrightarrow> ok)"
  by (erule pipe_push_buffer[where b = b]) (auto simp: mem_frame_def)

lemma put_back_avail:
  "pipe_inv cfg m p \<Longrightarrow> mtdp_pipe_put_back m p b = Some (ok, m', p') \<Longrightarrow> avail m' = avail m"
  by (erule pipe_put_back[where b = b]) auto

lemma stage_step_avail:
  assumes "stage_step cfg pc (sh, g) = Some (r, sh', g')" "\<And>k. k < length (sh_pipes sh) \<Longrightarrow> pipe_inv cfg (sh_mem sh) (sh_pipes sh ! k)"
  shows "avail (sh_mem sh') = avail (sh_mem sh)"
  using assms by (cases pc) (auto simp: stage_step_def Let_def bind_eq_Some_conv release_pipe_def try_acquire_pipe_def
      pipe_at_def call_stage_def case_prod_unfold dest: push_buffer_avail[OF assms(2), rotated] put_back_avail[OF assms(2), rotated] split: if_splits option.splits)

lemma sink_step_avail:
  assumes "sink_step cfg pc (sh, g) = Some (r, sh', g')" "\<And>k. k < length (sh_pipes sh) \<Longrightarrow> pipe_inv cfg (sh_mem sh) (sh_pipes sh ! k)"
  shows "avail (sh_mem sh') = avail (sh_mem sh)"
  using assms by (cases pc) (auto simp: sink_step_def Let_def bind_eq_Some_conv release_pipe_def try_acquire_pipe_def
      pipe_at_def call_sink_def case_prod_unfold dest: put_back_avail[OF assms(2), rotated] split: if_splits option.splits)

lemma source_step_avail:
  assumes "source_step cfg pc (sh, g) = Some (r, sh', g')" "\<And>k. k < length (sh_pipes sh) \<Longrightarrow> pipe_inv cfg (sh_mem sh) (sh_pipes sh ! k)"
  shows "avail (sh_mem sh') = avail (sh_mem sh)"
  using assms by (cases pc) (auto simp: source_step_def Let_def bind_eq_Some_conv release_pipe_def pipe_at_def
      call_source_def case_prod_unfold dest: push_buffer_avail[OF assms(2), rotated] split: if_splits option.splits)

text \<open>The model's allocator refuses the same requests throughout.\<close>

lemma flow_step_avail:
  assumes "flow_step cfg s s'" "flow_inv cfg B s"
  shows "avail (sh_mem (fl_sh s')) = avail (sh_mem (fl_sh s))"
  using assms
proof (induction rule: flow_step.induct)
  case (thread t s s')
  have inv: "pipe_inv cfg (sh_mem (fl_sh s)) (sh_pipes (fl_sh s) ! k)" if "k < length (sh_pipes (fl_sh s))" for k
    using flow_pipe_inv[OF thread(3)] flow_invD(1)[OF thread(3)] that by simp
  show ?case
  proof (cases t)
    case Source_thread
    then show ?thesis using thread(2) source_step_avail[OF _ inv]
      by (auto simp: source_move_def bind_eq_Some_conv Let_def)
  next
    case (Stage_thread i)
    then show ?thesis using thread(2) stage_step_avail[OF _ inv]
      by (auto simp: stage_move_def bind_eq_Some_conv Let_def)
  next
    case Sink_thread
    then show ?thesis using thread(2) sink_step_avail[OF _ inv]
      by (auto simp: sink_move_def bind_eq_Some_conv Let_def)
  qed
qed simp_all

lemma flow_reach_avail:
  "flow_reach cfg s0 s \<Longrightarrow> flow_inv cfg B s0 \<Longrightarrow> avail (sh_mem (fl_sh s)) = avail (sh_mem (fl_sh s0))"
proof (induction rule: flow_reach.induct)
  case (step s s')
  then show ?case using flow_step_avail[OF step.hyps(2) flow_reach_inv[OF step.hyps(1)]] by simp
qed simp

definition draining :: "fifo_config \<Rightarrow> (nat \<Rightarrow> mtdp_buffer multiset) \<Rightarrow> 'u flow \<Rightarrow> bool" where
  "draining cfg B s \<longleftrightarrow> flow_inv cfg B s \<and> flow_hand s \<and> so_at s \<noteq> So_Release \<and> (\<forall>n. avail (sh_mem (fl_sh s)) n) \<and>
     (\<forall>k \<le> length (fl_stages s). B k \<noteq> {#})"

definition moved_on :: "'u flow \<Rightarrow> 'u flow \<Rightarrow> bool" where
  "moved_on s s' \<longleftrightarrow> length (fl_stages s') = length (fl_stages s) \<and> pushed s' 0 = pushed s 0 \<and>
     (\<forall>k. length (pushed s k) \<le> length (pushed s' k) \<and> length (pulled s k) \<le> length (pulled s' k))"

lemma stage_draining:
  assumes d: "draining cfg B s" and i: "i < length (fl_stages s)"
    and st: "stage_step cfg (st_at s ! i) (fl_sh s, fl_stages s ! i) = Some (r, sh, self)"
  obtains s' where "stage_move cfg i s = Some s'" "draining cfg B s'" "moved_on s s'"
    "st_at s' = (st_at s)[i := stage_next r]" "fl_stages s' = (fl_stages s)[i := self]" "fl_sh s' = sh"
    "sk_at s' = sk_at s" "fl_sink s' = fl_sink s" "so_at s' = so_at s"
    "pulled s' i = pulled s i @ stage_pulls (st_at s ! i) r self"
    "pushed s' (Suc i) = pushed s (Suc i) @ stage_pushes (st_at s ! i) r (fl_stages s ! i)"
proof -
  have inv: "flow_inv cfg B s" "flow_hand s" using d by (simp_all add: draining_def)
  obtain s' where mv: "stage_move cfg i s = Some s'" using stage_move_inv[OF inv(1) i] by blast
  have inv': "flow_inv cfg B s'" using stage_move_inv[OF inv(1) i] mv by auto
  obtain r0 sh0 self0 where e: "stage_step cfg (st_at s ! i) (fl_sh s, fl_stages s ! i) = Some (r0, sh0, self0)"
    "s' = s\<lparr>fl_sh := sh0, fl_stages := (fl_stages s)[i := self0], st_at := (st_at s)[i := stage_next r0],
       pushed := (pushed s)(Suc i := pushed s (Suc i) @ stage_pushes (st_at s ! i) r0 (fl_stages s ! i)),
       pulled := (pulled s)(i := pulled s i @ stage_pulls (st_at s ! i) r0 self0)\<rparr>"
    by (rule stage_moveE[OF inv(1) i mv])
  have eq: "r0 = r" "sh0 = sh" "self0 = self" using e(1) st by simp_all
  have "avail (sh_mem sh) = avail (sh_mem (fl_sh s))"
    using stage_step_avail[OF st] flow_pipe_inv[OF inv(1)] flow_invD(1)[OF inv(1)] by simp
  then have "draining cfg B s'" using d inv' stage_move_hand[OF inv i mv] by (simp add: draining_def e(2) eq)
  then show ?thesis by (rule that[OF mv]) (simp_all add: e(2) eq moved_on_def)
qed

lemma sink_draining:
  assumes d: "draining cfg B s" and st: "sink_step cfg (sk_at s) (fl_sh s, fl_sink s) = Some (r, sh, self)"
  obtains s' where "sink_move cfg s = Some s'" "draining cfg B s'" "moved_on s s'"
    "st_at s' = st_at s" "fl_stages s' = fl_stages s" "fl_sh s' = sh" "sk_at s' = sink_next r" "fl_sink s' = self" "so_at s' = so_at s"
    "pulled s' = (pulled s)(length (fl_stages s) := pulled s (length (fl_stages s)) @ sink_pulls (sk_at s) r self)" "pushed s' = pushed s"
proof -
  have inv: "flow_inv cfg B s" "flow_hand s" using d by (simp_all add: draining_def)
  obtain s' where mv: "sink_move cfg s = Some s'" using sink_move_inv[OF inv(1)] by blast
  have inv': "flow_inv cfg B s'" using sink_move_inv[OF inv(1)] mv by auto
  obtain r0 sh0 self0 where e: "sink_step cfg (sk_at s) (fl_sh s, fl_sink s) = Some (r0, sh0, self0)"
    "s' = s\<lparr>fl_sh := sh0, fl_sink := self0, sk_at := sink_next r0, pulled := (pulled s)(length (fl_stages s) :=
       pulled s (length (fl_stages s)) @ sink_pulls (sk_at s) r0 self0)\<rparr>"
    by (rule sink_moveE[OF inv(1) mv])
  have eq: "r0 = r" "sh0 = sh" "self0 = self" using e(1) st by simp_all
  have "avail (sh_mem sh) = avail (sh_mem (fl_sh s))"
    using sink_step_avail[OF st] flow_pipe_inv[OF inv(1)] flow_invD(1)[OF inv(1)] by simp
  then have "draining cfg B s'" using d inv' sink_move_hand[OF inv mv] by (simp add: draining_def e(2) eq)
  then show ?thesis by (rule that[OF mv]) (simp_all add: e(2) eq moved_on_def)
qed

section \<open>Runs without the source\<close>

definition drains :: "fifo_config \<Rightarrow> 'u flow \<Rightarrow> 'u flow \<Rightarrow> bool" where
  "drains cfg s s' \<longleftrightarrow> (\<exists>ts. Source_thread \<notin> set ts \<and> flow_run cfg ts s = Some s')"

lemma drains_refl [simp, intro]: "drains cfg s s"
  unfolding drains_def by (rule exI[of _ "[]"]) simp

lemma flow_run_append: "flow_run cfg (ts @ us) s = Option.bind (flow_run cfg ts s) (flow_run cfg us)"
proof (induction ts arbitrary: s)
  case (Cons t ts)
  then show ?case by (cases "move cfg t s") simp_all
qed simp

lemma drains_trans:
  assumes "drains cfg s1 s2" "drains cfg s2 s3"
  shows "drains cfg s1 s3"
proof -
  obtain ts us where "Source_thread \<notin> set ts" "flow_run cfg ts s1 = Some s2" "Source_thread \<notin> set us" "flow_run cfg us s2 = Some s3"
    using assms by (auto simp: drains_def)
  then have "Source_thread \<notin> set (ts @ us) \<and> flow_run cfg (ts @ us) s1 = Some s3" by (simp add: flow_run_append)
  then show ?thesis unfolding drains_def by blast
qed

lemma drains_stage: "i < length (fl_stages s) \<Longrightarrow> stage_move cfg i s = Some s' \<Longrightarrow> drains cfg s s'"
  unfolding drains_def by (rule exI[of _ "[Stage_thread i]"]) (simp add: flow_threads_def)

lemma drains_sink: "sink_move cfg s = Some s' \<Longrightarrow> drains cfg s s'"
  unfolding drains_def by (rule exI[of _ "[Sink_thread]"]) (simp add: flow_threads_def)

lemma moved_on_refl [simp, intro]: "moved_on s s"
  by (simp add: moved_on_def)

lemma moved_on_trans: "moved_on s1 s2 \<Longrightarrow> moved_on s2 s3 \<Longrightarrow> moved_on s1 s3"
  unfolding moved_on_def by (metis le_trans)

text \<open>Such a run from \<open>s\<close> to \<open>s'\<close>, with everything it keeps.\<close>

definition drained_to :: "fifo_config \<Rightarrow> (nat \<Rightarrow> mtdp_buffer multiset) \<Rightarrow> 'u flow \<Rightarrow> 'u flow \<Rightarrow> bool" where
  "drained_to cfg B s s' \<longleftrightarrow> drains cfg s s' \<and> draining cfg B s' \<and> moved_on s s'"

lemma drained_to_refl: "draining cfg B s \<Longrightarrow> drained_to cfg B s s"
  by (simp add: drained_to_def)

lemma drained_to_trans: "drained_to cfg B s1 s2 \<Longrightarrow> drained_to cfg B s2 s3 \<Longrightarrow> drained_to cfg B s1 s3"
  unfolding drained_to_def using drains_trans moved_on_trans by blast

lemma drained_toD:
  "drained_to cfg B s s' \<Longrightarrow> draining cfg B s'" "drained_to cfg B s s' \<Longrightarrow> length (fl_stages s') = length (fl_stages s)"
  by (simp_all add: drained_to_def moved_on_def)

lemma sum_list_update_less:
  fixes xs :: "nat list"
  shows "i < length xs \<Longrightarrow> v < xs ! i \<Longrightarrow> sum_list (xs[i := v]) < sum_list xs"
proof (induction xs arbitrary: i)
  case (Cons x xs)
  then show ?case by (cases i) auto
qed simp

section \<open>Bringing the threads to rest\<close>

definition stage_busy :: "stage_pc \<Rightarrow> nat" where
  "stage_busy pc = (if pc = St_Entry then 0 else Suc (stage_rank pc))"

definition sink_busy :: "sink_pc \<Rightarrow> nat" where
  "sink_busy pc = (if pc = Sk_Entry then 0 else Suc (sink_rank pc))"

definition settled :: "'u flow \<Rightarrow> bool" where
  "settled s \<longleftrightarrow> (\<forall>i < length (fl_stages s). st_at s ! i = St_Entry) \<and> sk_at s = Sk_Entry"

lemma settle:
  "draining cfg B s \<Longrightarrow> \<exists>s'. drained_to cfg B s s' \<and> settled s'"
proof (induction "sum_list (map stage_busy (st_at s)) + sink_busy (sk_at s)" arbitrary: s rule: less_induct)
  case less
  have inv: "flow_inv cfg B s" using less.prems by (simp add: draining_def)
  show ?case
  proof (cases "settled s")
    case False
    then consider (st) i where "i < length (fl_stages s)" "st_at s ! i \<noteq> St_Entry" | (sk) "sk_at s \<noteq> Sk_Entry"
      by (auto simp: settled_def)
    then obtain s1 where s1: "drained_to cfg B s s1"
      "sum_list (map stage_busy (st_at s1)) + sink_busy (sk_at s1) < sum_list (map stage_busy (st_at s)) + sink_busy (sk_at s)"
    proof cases
      case st
      obtain s0 where "stage_move cfg i s = Some s0" using stage_move_inv[OF inv st(1)] by blast
      then obtain r sh self where e: "stage_step cfg (st_at s ! i) (fl_sh s, fl_stages s ! i) = Some (r, sh, self)"
        using stage_moveE[OF inv st(1)] by blast
      obtain s' where s': "stage_move cfg i s = Some s'" "draining cfg B s'" "moved_on s s'"
        "st_at s' = (st_at s)[i := stage_next r]" "sk_at s' = sk_at s"
        by (rule stage_draining[OF less.prems st(1) e])
      have "stage_busy (stage_next r) < stage_busy (st_at s ! i)"
        using st(2) stage_step_rank e by (cases r) (auto simp: stage_busy_def stage_next_def)
      moreover have "i < length (st_at s)" using st(1) flow_invD(2)[OF inv] by simp
      ultimately have "sum_list (map stage_busy ((st_at s)[i := stage_next r])) < sum_list (map stage_busy (st_at s))"
        by (metis length_map map_update nth_map sum_list_update_less)
      then show ?thesis using that[of s'] s' drains_stage[OF st(1) s'(1)] by (simp add: drained_to_def)
    next
      case sk
      obtain s0 where "sink_move cfg s = Some s0" using sink_move_inv[OF inv] by blast
      then obtain r sh self where e: "sink_step cfg (sk_at s) (fl_sh s, fl_sink s) = Some (r, sh, self)"
        using sink_moveE[OF inv] by blast
      obtain s' where s': "sink_move cfg s = Some s'" "draining cfg B s'" "moved_on s s'" "st_at s' = st_at s" "sk_at s' = sink_next r"
        by (rule sink_draining[OF less.prems e])
      have "sink_busy (sink_next r) < sink_busy (sk_at s)"
        using sk sink_step_rank e by (cases r) (auto simp: sink_busy_def sink_next_def)
      then show ?thesis using that[of s'] s' drains_sink[OF s'(1)] by (simp add: drained_to_def)
    qed
    from less.hyps[OF s1(2)] s1(1) show ?thesis using drained_toD(1) drained_to_trans by blast
  qed (use less.prems drained_to_refl in blast)
qed

end
