(* ===== verification/Drain_Progress.thy ===== *)
theory Drain_Progress
  imports Drain_Moves
begin

text \<open>While a buffer is on its way, some thread can take it further.\<close>

section \<open>Single moves\<close>

lemma draining_stage:
  assumes d: "draining cfg B s" and i: "i < length (fl_stages s)"
  shows "flow_inv cfg B s" "st_output_pipe (fl_stages s ! i) = Suc i" "st_input_pipe (fl_stages s ! i) = i"
    "stage_flags (st_at s ! i) (fl_stages s ! i)" "stage_ok i (st_at s ! i) (fl_stages s ! i)" "i < length (st_at s)"
    "Suc i < length (sh_pipes (fl_sh s))"
    "length (pulled s i) = length (pushed s (Suc i)) + stage_item (st_at s ! i) (fl_stages s ! i)"
proof -
  show inv: "flow_inv cfg B s" and h: "stage_flags (st_at s ! i) (fl_stages s ! i)"
    "length (pulled s i) = length (pushed s (Suc i)) + stage_item (st_at s ! i) (fl_stages s ! i)"
    using d i by (simp_all add: draining_def flow_hand_def)
  show ok: "stage_ok i (st_at s ! i) (fl_stages s ! i)" by (rule flow_invD(6)[OF inv i])
  then show "st_output_pipe (fl_stages s ! i) = Suc i" "st_input_pipe (fl_stages s ! i) = i" by (simp_all add: stage_ok_def)
  show "i < length (st_at s)" "Suc i < length (sh_pipes (fl_sh s))" using i flow_invD(1,2)[OF inv] by simp_all
qed

lemma stage_goes:
  assumes d: "draining cfg B s" and i: "i < length (fl_stages s)"
  obtains r sh self s' where "stage_step cfg (st_at s ! i) (fl_sh s, fl_stages s ! i) = Some (r, sh, self)"
    "drained_to cfg B s s'" "st_at s' = (st_at s)[i := stage_next r]" "fl_stages s' = (fl_stages s)[i := self]" "fl_sh s' = sh"
    "sk_at s' = sk_at s" "fl_sink s' = fl_sink s" "so_at s' = so_at s" "stage_ok i (stage_next r) self"
    "pulled s' i = pulled s i @ stage_pulls (st_at s ! i) r self"
    "pushed s' (Suc i) = pushed s (Suc i) @ stage_pushes (st_at s ! i) r (fl_stages s ! i)"
proof -
  have inv: "flow_inv cfg B s" using d by (simp add: draining_def)
  obtain s0 where mv: "stage_move cfg i s = Some s0" using stage_move_inv[OF inv i] by blast
  obtain r sh self where e: "stage_step cfg (st_at s ! i) (fl_sh s, fl_stages s ! i) = Some (r, sh, self)"
    "stage_ok i (stage_next r) self" by (rule stage_moveE[OF inv i mv])
  obtain s' where s': "stage_move cfg i s = Some s'" "draining cfg B s'" "moved_on s s'"
    "st_at s' = (st_at s)[i := stage_next r]" "fl_stages s' = (fl_stages s)[i := self]" "fl_sh s' = sh"
    "sk_at s' = sk_at s" "fl_sink s' = fl_sink s" "so_at s' = so_at s"
    "pulled s' i = pulled s i @ stage_pulls (st_at s ! i) r self"
    "pushed s' (Suc i) = pushed s (Suc i) @ stage_pushes (st_at s ! i) r (fl_stages s ! i)"
    by (rule stage_draining[OF d i e(1)])
  have "drained_to cfg B s s'" using s'(1-3) drains_stage[OF i s'(1)] by (simp add: drained_to_def)
  then show ?thesis by (rule that[OF e(1) _ s'(4-9) e(2) s'(10,11)])
qed

lemma sink_goes:
  assumes d: "draining cfg B s"
  obtains r sh self s' where "sink_step cfg (sk_at s) (fl_sh s, fl_sink s) = Some (r, sh, self)"
    "drained_to cfg B s s'" "st_at s' = st_at s" "fl_stages s' = fl_stages s" "fl_sh s' = sh" "sk_at s' = sink_next r"
    "fl_sink s' = self" "so_at s' = so_at s" "sink_ok (length (fl_stages s)) (sink_next r) self"
    "pulled s' = (pulled s)(length (fl_stages s) := pulled s (length (fl_stages s)) @ sink_pulls (sk_at s) r self)" "pushed s' = pushed s"
proof -
  have inv: "flow_inv cfg B s" using d by (simp add: draining_def)
  obtain s0 where mv: "sink_move cfg s = Some s0" using sink_move_inv[OF inv] by blast
  obtain r sh self where e: "sink_step cfg (sk_at s) (fl_sh s, fl_sink s) = Some (r, sh, self)"
    "sink_ok (length (fl_stages s)) (sink_next r) self" by (rule sink_moveE[OF inv mv])
  obtain s' where s': "sink_move cfg s = Some s'" "draining cfg B s'" "moved_on s s'"
    "st_at s' = st_at s" "fl_stages s' = fl_stages s" "fl_sh s' = sh" "sk_at s' = sink_next r" "fl_sink s' = self" "so_at s' = so_at s"
    "pulled s' = (pulled s)(length (fl_stages s) := pulled s (length (fl_stages s)) @ sink_pulls (sk_at s) r self)" "pushed s' = pushed s"
    by (rule sink_draining[OF d e(1)])
  have "drained_to cfg B s s'" using s'(1-3) drains_sink[OF s'(1)] by (simp add: drained_to_def)
  then show ?thesis by (rule that[OF e(1) _ s'(4-9) e(2) s'(10,11)])
qed

text \<open>The length of the log: it grows with every push and pull.\<close>

definition log_size :: "'u flow \<Rightarrow> nat" where
  "log_size s = (\<Sum>k \<le> length (fl_stages s). length (pulled s k) + length (pushed s k))"

lemma moved_on_log:
  assumes m: "moved_on s s'"
  shows "log_size s \<le> log_size s'"
    "k \<le> length (fl_stages s) \<Longrightarrow> length (pulled s k) < length (pulled s' k) \<Longrightarrow> log_size s < log_size s'"
    "k \<le> length (fl_stages s) \<Longrightarrow> length (pushed s k) < length (pushed s' k) \<Longrightarrow> log_size s < log_size s'"
proof -
  have l: "length (fl_stages s') = length (fl_stages s)"
    and g: "length (pushed s j) \<le> length (pushed s' j)" "length (pulled s j) \<le> length (pulled s' j)" for j
    using m by (simp_all add: moved_on_def)
  have le: "length (pulled s j) + length (pushed s j) \<le> length (pulled s' j) + length (pushed s' j)" for j
    using g[of j] by simp
  then show "log_size s \<le> log_size s'" by (simp add: log_size_def l sum_mono)
  assume k: "k \<le> length (fl_stages s)"
  have "log_size s < log_size s'" if "length (pulled s k) + length (pushed s k) < length (pulled s' k) + length (pushed s' k)"
    unfolding log_size_def l by (rule sum_strict_mono_ex1) (use le k that in auto)
  then show "length (pulled s k) < length (pulled s' k) \<Longrightarrow> log_size s < log_size s'"
    "length (pushed s k) < length (pushed s' k) \<Longrightarrow> log_size s < log_size s'" using g[of k] by simp_all
qed

definition goes_on :: "fifo_config \<Rightarrow> (nat \<Rightarrow> mtdp_buffer multiset) \<Rightarrow> 'u flow \<Rightarrow> bool" where
  "goes_on cfg B s \<longleftrightarrow> (\<exists>s'. drained_to cfg B s s' \<and> log_size s < log_size s')"

lemma goes_on_after: "drained_to cfg B s s1 \<Longrightarrow> goes_on cfg B s1 \<Longrightarrow> goes_on cfg B s"
  unfolding goes_on_def by (metis drained_to_trans drained_to_def moved_on_log(1) order_le_less_trans)

section \<open>A stage\<close>

lemma stage_pushes_on:
  assumes d: "draining cfg B s" and i: "i < length (fl_stages s)" and pc: "st_at s ! i = St_Entry"
    and p: "st_ready_to_push (st_context (fl_stages s ! i))"
  shows "goes_on cfg B s"
proof -
  note f = draining_stage[OF d i]
  obtain r sh self s' where e: "stage_step cfg (st_at s ! i) (fl_sh s, fl_stages s ! i) = Some (r, sh, self)"
    "drained_to cfg B s s'" "pushed s' (Suc i) = pushed s (Suc i) @ stage_pushes (st_at s ! i) r (fl_stages s ! i)"
    by (rule stage_goes[OF d i])
  have "pipe_inv cfg (sh_mem (fl_sh s)) (sh_pipes (fl_sh s) ! Suc i)" using flow_pipe_inv[OF f(1)] i by simp
  then have "r = Some St_Release"
    using e(1) pc p f(2,7) d by (auto simp: stage_step_def Let_def bind_eq_Some_conv pipe_at_def draining_def
        dest: push_buffer_avail split: if_splits)
  then have "length (pushed s (Suc i)) < length (pushed s' (Suc i))" using e(3) pc by (simp add: stage_pushes_def)
  then show ?thesis unfolding goes_on_def using e(2) moved_on_log(3)[of s s' "Suc i"] i by (auto simp: drained_to_def)
qed

lemma stage_pulls_on:
  assumes d: "draining cfg B s" and i: "i < length (fl_stages s)" and pc: "st_at s ! i = St_GetFull"
  shows "goes_on cfg B s"
proof -
  obtain r sh self s' where e: "stage_step cfg (st_at s ! i) (fl_sh s, fl_stages s ! i) = Some (r, sh, self)"
    "drained_to cfg B s s'" "stage_ok i (stage_next r) self" "pulled s' i = pulled s i @ stage_pulls (st_at s ! i) r self"
    by (rule stage_goes[OF d i])
  have "r = Some St_GetEmpty"
    using e(1,3) pc by (auto simp: stage_step_def Let_def bind_eq_Some_conv stage_ok_def stage_next_def split: if_splits)
  then have "length (pulled s i) < length (pulled s' i)" using e(4) pc by (simp add: stage_pulls_def)
  then show ?thesis unfolding goes_on_def using e(2) moved_on_log(2)[of s s' i] i by (auto simp: drained_to_def)
qed

lemma stage_acquires:
  assumes d: "draining cfg B s" and i: "i < length (fl_stages s)" and pc: "st_at s ! i = St_Acquire"
    and l: "st_ready_to_pull (st_context (fl_stages s ! i))" and sem: "0 < semaphore (sh_pipes (fl_sh s) ! i)"
  shows "goes_on cfg B s"
proof -
  note f = draining_stage[OF d i]
  obtain r sh self s1 where e: "stage_step cfg (st_at s ! i) (fl_sh s, fl_stages s ! i) = Some (r, sh, self)"
    "drained_to cfg B s s1" "st_at s1 = (st_at s)[i := stage_next r]" by (rule stage_goes[OF d i])
  have "r = Some St_Unset"
    using e(1) pc l sem f(3,7) by (auto simp: stage_step_def Let_def bind_eq_Some_conv pipe_at_def try_acquire_pipe_def
        mtdp_semaphore_try_acquire_for_def)
  then have pc1: "st_at s1 ! i = St_Unset" using e(3) f(6) by (simp add: stage_next_def)
  have i1: "i < length (fl_stages s1)" using i drained_toD(2)[OF e(2)] by simp
  obtain r' sh' self' s2 where e': "stage_step cfg (st_at s1 ! i) (fl_sh s1, fl_stages s1 ! i) = Some (r', sh', self')"
    "drained_to cfg B s1 s2" "st_at s2 = (st_at s1)[i := stage_next r']" by (rule stage_goes[OF drained_toD(1)[OF e(2)] i1])
  have "st_at s2 ! i = St_GetFull"
    using e'(1,3) pc1 e(3) f(6) by (auto simp: stage_step_def Let_def stage_next_def)
  moreover have "i < length (fl_stages s2)" using i1 drained_toD(2)[OF e'(2)] by simp
  ultimately have "goes_on cfg B s2" using stage_pulls_on[OF drained_toD(1)[OF e'(2)]] by simp
  then show ?thesis using goes_on_after e(2) e'(2) by blast
qed

lemma stage_enters:
  assumes d: "draining cfg B s" and i: "i < length (fl_stages s)" and pc: "st_at s ! i = St_Entry"
    and p: "\<not> st_ready_to_push (st_context (fl_stages s ! i))"
  obtains s' where "drained_to cfg B s s'" "st_at s' ! i = St_Acquire" "fl_stages s' = fl_stages s" "fl_sh s' = fl_sh s"
proof -
  obtain r sh self s1 where e: "stage_step cfg (st_at s ! i) (fl_sh s, fl_stages s ! i) = Some (r, sh, self)"
    "drained_to cfg B s s1" "st_at s1 = (st_at s)[i := stage_next r]" "fl_stages s1 = (fl_stages s)[i := self]" "fl_sh s1 = sh"
    by (rule stage_goes[OF d i])
  have "r = Some St_Acquire" "sh = fl_sh s" "self = fl_stages s ! i"
    using e(1) pc p by (simp_all add: stage_step_def Let_def)
  then show ?thesis using e draining_stage(6)[OF d i] by (intro that[of s1]) (simp_all add: stage_next_def)
qed

lemma stage_takes:
  assumes d: "draining cfg B s" and i: "i < length (fl_stages s)" and pc: "st_at s ! i = St_Entry"
    and p: "\<not> st_ready_to_push (st_context (fl_stages s ! i))" and l: "st_ready_to_pull (st_context (fl_stages s ! i))"
    and sem: "0 < semaphore (sh_pipes (fl_sh s) ! i)"
  shows "goes_on cfg B s"
proof -
  obtain s1 where s1: "drained_to cfg B s s1" "st_at s1 ! i = St_Acquire" "fl_stages s1 = fl_stages s" "fl_sh s1 = fl_sh s"
    by (rule stage_enters[OF d i pc p])
  have "goes_on cfg B s1" by (rule stage_acquires[OF drained_toD(1)[OF s1(1)]]) (use s1 i l sem in simp_all)
  then show ?thesis by (rule goes_on_after[OF s1(1)])
qed

text \<open>A stage that waits for an empty buffer and is at the place where it takes one.\<close>

lemma stage_fills:
  assumes d: "draining cfg B s" and i: "i < length (fl_stages s)" and pc: "st_at s ! i = St_Process"
  shows "goes_on cfg B s"
proof -
  note f = draining_stage[OF d i]
  obtain f0 where u: "i < length (sh_stages (fl_sh s))" "stage_user_ok (sh_stages (fl_sh s) ! i)"
    by (rule handing_stage[OF f(1) _ i]) (use d in \<open>simp add: draining_def flow_hand_def\<close>)
  obtain r sh self s1 where e: "stage_step cfg (st_at s ! i) (fl_sh s, fl_stages s ! i) = Some (r, sh, self)"
    "drained_to cfg B s s1" "st_at s1 = (st_at s)[i := stage_next r]" "fl_stages s1 = (fl_stages s)[i := self]"
    by (rule stage_goes[OF d i])
  obtain r0 sh0 self0 where v: "stage_step cfg St_Process (fl_sh s, fl_stages s ! i) = Some (r0, sh0, self0)"
    "r0 = None \<or> r0 = Some St_PutBack"
    "stage_out_view (stage_next r0) self0 = stage_out_view St_Process (fl_stages s ! i)"
    "stage_in_view (stage_next r0) self0 = stage_in_view St_Process (fl_stages s ! i)"
    by (rule stage_step_process[OF f(5)[unfolded pc] u])
  have eq: "r0 = r" "self0 = self" using e(1) v(1) pc by simp_all
  have i1: "i < length (fl_stages s1)" using i e(4) by simp
  note f1 = draining_stage[OF drained_toD(1)[OF e(2)] i1]
  have g1: "st_at s1 ! i = stage_next r" "fl_stages s1 ! i = self" using e(3,4) f(6) i by simp_all
  have pb: "r = Some St_PutBack"
    using v(2-4) f(4) f1(4) g1 pc unfolding eq
    by (auto simp: stage_flags_def stage_views Let_def split: if_splits)
  then have P: "st_ready_to_push (st_context self)" using f1(4) g1 by (simp add: stage_flags_def stage_next_def Let_def)
  obtain r' sh' self' s2 where e': "stage_step cfg (st_at s1 ! i) (fl_sh s1, fl_stages s1 ! i) = Some (r', sh', self')"
    "drained_to cfg B s1 s2" "st_at s2 = (st_at s1)[i := stage_next r']" "fl_stages s2 = (fl_stages s1)[i := self']"
    by (rule stage_goes[OF drained_toD(1)[OF e(2)] i1])
  have "r' = None" "st_ready_to_push (st_context self')"
    using e'(1) g1 pb P by (auto simp: stage_step_def Let_def bind_eq_Some_conv stage_next_def)
  then have "goes_on cfg B s2"
    using stage_pushes_on[OF drained_toD(1)[OF e'(2)], of i] e'(3,4) i1 f1(6) by (simp add: stage_next_def)
  then show ?thesis using goes_on_after e(2) e'(2) by blast
qed

lemma stage_empties:
  assumes d: "draining cfg B s" and i: "i < length (fl_stages s)" and pc: "st_at s ! i = St_GetEmpty"
    and ne: "psize (pool (sh_pipes (fl_sh s) ! Suc i)) \<noteq> 0"
  shows "goes_on cfg B s"
proof -
  note f = draining_stage[OF d i]
  obtain r sh self s1 where e: "stage_step cfg (st_at s ! i) (fl_sh s, fl_stages s ! i) = Some (r, sh, self)"
    "drained_to cfg B s s1" "st_at s1 = (st_at s)[i := stage_next r]" "fl_stages s1 = (fl_stages s)[i := self]"
    by (rule stage_goes[OF d i])
  have q: "st_output (st_context (fl_stages s ! i)) = NULL" "st_input (st_context (fl_stages s ! i)) \<noteq> NULL"
    using f(4) pc by (simp_all add: stage_flags_def Let_def)
  have "producer s (Suc i) = (NULL, False)" using i pc q by (simp add: producer_def stage_out_view_def)
  then have "link_at cfg (B (Suc i)) (fl_sh s) (Suc i) (NULL, False) (consumer s (Suc i)) (pushed s (Suc i)) (pulled s (Suc i))"
    using links_invD(1)[OF flow_invD(8)[OF f(1)] f(7)] by simp
  from link_get_empty[OF this] obtain b p' where
    b: "mtdp_pipe_get_empty_buffer (sh_pipes (fl_sh s) ! Suc i) = Some (b, p')" "b = NULL \<longleftrightarrow> psize (pool (sh_pipes (fl_sh s) ! Suc i)) = 0"
    by metis
  have "r = Some St_Process"
    using e(1) pc q b ne f(2,7) by (auto simp: stage_step_def Let_def bind_eq_Some_conv pipe_at_def)
  then have "goes_on cfg B s1"
    using stage_fills[OF drained_toD(1)[OF e(2)], of i] e(3,4) i f(6) by (simp add: stage_next_def)
  then show ?thesis by (rule goes_on_after[OF e(2)])
qed

lemma stage_unsticks:
  assumes d: "draining cfg B s" and i: "i < length (fl_stages s)" and pc: "st_at s ! i = St_Entry"
    and p: "\<not> st_ready_to_push (st_context (fl_stages s ! i))" and l: "\<not> st_ready_to_pull (st_context (fl_stages s ! i))"
    and ne: "psize (pool (sh_pipes (fl_sh s) ! Suc i)) \<noteq> 0"
  shows "goes_on cfg B s"
proof -
  obtain s1 where s1: "drained_to cfg B s s1" "st_at s1 ! i = St_Acquire" "fl_stages s1 = fl_stages s" "fl_sh s1 = fl_sh s"
    by (rule stage_enters[OF d i pc p])
  have i1: "i < length (fl_stages s1)" using i s1(3) by simp
  obtain r sh self s2 where e: "stage_step cfg (st_at s1 ! i) (fl_sh s1, fl_stages s1 ! i) = Some (r, sh, self)"
    "drained_to cfg B s1 s2" "st_at s2 = (st_at s1)[i := stage_next r]" "fl_stages s2 = (fl_stages s1)[i := self]" "fl_sh s2 = sh"
    by (rule stage_goes[OF drained_toD(1)[OF s1(1)] i1])
  have "r = Some St_GetEmpty" "sh = fl_sh s" using e(1) s1 l by (simp_all add: stage_step_def Let_def)
  then have "goes_on cfg B s2"
    using stage_empties[OF drained_toD(1)[OF e(2)], of i] e(3-5) i1 ne draining_stage(6)[OF drained_toD(1)[OF s1(1)] i1]
    by (simp add: stage_next_def)
  then show ?thesis using goes_on_after s1(1) e(2) by blast
qed

end
