(* ===== verification/Drained.thy ===== *)
theory Drained
  imports Drain_Progress
begin

text \<open>The sink, and the emptying of the whole pipeline.\<close>

section \<open>The sink\<close>

lemma draining_link:
  assumes d: "draining cfg B s" and k: "k \<le> length (fl_stages s)"
  shows "semaphore (sh_pipes (fl_sh s) ! k) + of_bool (snd (consumer s k)) + of_bool (snd (producer s k)) =
      length (pushed s k) - length (pulled s k)"
    "length (pulled s k) \<le> length (pushed s k)"
    "pipe_content cfg (sh_mem (fl_sh s)) (sh_pipes (fl_sh s) ! k) + held (fst (producer s k)) + held (fst (consumer s k)) = B k"
    "fsize (fifo (sh_pipes (fl_sh s) ! k)) = length (pushed s k) - length (pulled s k)"
proof -
  have inv: "flow_inv cfg B s" using d by (simp add: draining_def)
  obtain out rel inb acq where v: "producer s k = (out, rel)" "consumer s k = (inb, acq)" by (meson surj_pair)
  have "k < length (sh_pipes (fl_sh s))" using k flow_invD(1)[OF inv] by simp
  from pipe_linkD[OF links_invD(1)[OF flow_invD(8)[OF inv] this, unfolded v]] v
  show "semaphore (sh_pipes (fl_sh s) ! k) + of_bool (snd (consumer s k)) + of_bool (snd (producer s k)) =
      length (pushed s k) - length (pulled s k)" "length (pulled s k) \<le> length (pushed s k)"
    "pipe_content cfg (sh_mem (fl_sh s)) (sh_pipes (fl_sh s) ! k) + held (fst (producer s k)) + held (fst (consumer s k)) = B k"
    "fsize (fifo (sh_pipes (fl_sh s) ! k)) = length (pushed s k) - length (pulled s k)"
    by simp_all
qed

lemma producer_still:
  assumes d: "draining cfg B s" and k: "k \<le> length (fl_stages s)" and st: "\<And>i. i < length (fl_stages s) \<Longrightarrow> st_at s ! i = St_Entry"
  shows "\<not> snd (producer s k)"
  using d k st[of "k - 1"] by (cases k) (auto simp: producer_def draining_def source_view_def stage_out_view_def)

lemma sink_pulls_on:
  assumes d: "draining cfg B s" and pc: "sk_at s = Sk_GetFull"
  shows "goes_on cfg B s"
proof -
  obtain r sh self s' where e: "sink_step cfg (sk_at s) (fl_sh s, fl_sink s) = Some (r, sh, self)"
    "drained_to cfg B s s'" "sink_ok (length (fl_stages s)) (sink_next r) self"
    "pulled s' = (pulled s)(length (fl_stages s) := pulled s (length (fl_stages s)) @ sink_pulls (sk_at s) r self)"
    by (rule sink_goes[OF d])
  have "r = Some Sk_Process"
    using e(1,3) pc by (auto simp: sink_step_def Let_def bind_eq_Some_conv sink_ok_def sink_next_def split: if_splits)
  then have "length (pulled s (length (fl_stages s))) < length (pulled s' (length (fl_stages s)))"
    using e(4) pc by (simp add: sink_pulls_def)
  then show ?thesis unfolding goes_on_def using e(2) moved_on_log(2)[of s s' "length (fl_stages s)"] by (auto simp: drained_to_def)
qed

lemma sink_acquires:
  assumes d: "draining cfg B s" and pc: "sk_at s = Sk_Acquire"
    and sem: "0 < semaphore (sh_pipes (fl_sh s) ! length (fl_stages s))"
  shows "goes_on cfg B s"
proof -
  have k: "sk_input_pipe (fl_sink s) = length (fl_stages s)" "length (sh_pipes (fl_sh s)) = Suc (length (fl_stages s))"
    using d flow_invD(1,7)[of cfg B s] by (simp_all add: draining_def sink_ok_def)
  obtain r sh self s1 where e: "sink_step cfg (sk_at s) (fl_sh s, fl_sink s) = Some (r, sh, self)"
    "drained_to cfg B s s1" "sk_at s1 = sink_next r" by (rule sink_goes[OF d])
  have "r = Some Sk_Unset"
    using e(1) pc sem k by (auto simp: sink_step_def Let_def bind_eq_Some_conv pipe_at_def try_acquire_pipe_def
        mtdp_semaphore_try_acquire_for_def)
  then have pc1: "sk_at s1 = Sk_Unset" using e(3) by (simp add: sink_next_def)
  obtain r' sh' self' s2 where e': "sink_step cfg (sk_at s1) (fl_sh s1, fl_sink s1) = Some (r', sh', self')"
    "drained_to cfg B s1 s2" "sk_at s2 = sink_next r'" by (rule sink_goes[OF drained_toD(1)[OF e(2)]])
  have "sk_at s2 = Sk_GetFull" using e'(1,3) pc1 by (auto simp: sink_step_def Let_def sink_next_def)
  from sink_pulls_on[OF drained_toD(1)[OF e'(2)] this] show ?thesis using goes_on_after e(2) e'(2) by blast
qed

text \<open>An iteration of the sink when nothing is there for it: it gives back the buffer it had.\<close>

lemma sink_enters:
  assumes d: "draining cfg B s" and pc: "sk_at s = Sk_Entry"
  obtains s' where "drained_to cfg B s s'" "sk_at s' = Sk_Acquire" "fl_stages s' = fl_stages s" "st_at s' = st_at s"
    "sk_input (sk_context (fl_sink s')) = NULL" "pulled s' = pulled s" "pushed s' = pushed s"
proof -
  have inv: "flow_inv cfg B s" using d by (simp add: draining_def)
  have k: "sk_input_pipe (fl_sink s) = length (fl_stages s)" "length (sh_pipes (fl_sh s)) = Suc (length (fl_stages s))"
    using flow_invD(1,7)[OF inv] by (simp_all add: sink_ok_def)
  have l: "sk_ready_to_pull (sk_context (fl_sink s))" using d pc by (simp add: draining_def flow_hand_def sink_flags_def)
  obtain r sh self s1 where e: "sink_step cfg (sk_at s) (fl_sh s, fl_sink s) = Some (r, sh, self)"
    "drained_to cfg B s s1" "st_at s1 = st_at s" "fl_stages s1 = fl_stages s" "fl_sh s1 = sh" "sk_at s1 = sink_next r"
    "fl_sink s1 = self" "so_at s1 = so_at s" "sink_ok (length (fl_stages s)) (sink_next r) self"
    "pulled s1 = (pulled s)(length (fl_stages s) := pulled s (length (fl_stages s)) @ sink_pulls (sk_at s) r self)" "pushed s1 = pushed s"
    by (rule sink_goes[OF d])
  have "r = Some Sk_Acquire"
  proof (cases "sk_input (sk_context (fl_sink s)) = NULL")
    case True
    then show ?thesis using e(1) pc l by (simp add: sink_step_def Let_def)
  next
    case False
    have "link_at cfg (B (length (fl_stages s))) (fl_sh s) (length (fl_stages s)) (producer s (length (fl_stages s)))
      (sk_input (sk_context (fl_sink s)), False) (pushed s (length (fl_stages s))) (pulled s (length (fl_stages s)))"
      using links_invD(1)[OF flow_invD(8)[OF inv], of "length (fl_stages s)"] k(2) pc by (simp add: consumer_def sink_view_def)
    from link_put_back[OF this False] obtain p' where
      "mtdp_pipe_put_back (sh_mem (fl_sh s)) (sh_pipes (fl_sh s) ! length (fl_stages s)) (sk_input (sk_context (fl_sink s))) =
        Some (True, sh_mem (fl_sh s), p')" by metis
    then show ?thesis using e(1) pc l k False by (simp add: sink_step_def Let_def pipe_at_def)
  qed
  then show ?thesis using e pc by (intro that[of s1]) (simp_all add: sink_next_def sink_ok_def sink_pulls_def)
qed

lemma sink_clears:
  assumes d: "draining cfg B s" and se: "settled s"
    and none: "length (pushed s (length (fl_stages s))) = length (pulled s (length (fl_stages s)))"
  obtains s' where "drained_to cfg B s s'" "settled s'" "fl_stages s' = fl_stages s" "st_at s' = st_at s"
    "sk_input (sk_context (fl_sink s')) = NULL" "pulled s' = pulled s" "pushed s' = pushed s"
proof -
  let ?n = "length (fl_stages s)"
  have pc: "sk_at s = Sk_Entry" using se by (simp add: settled_def)
  obtain s1 where s1: "drained_to cfg B s s1" "sk_at s1 = Sk_Acquire" "fl_stages s1 = fl_stages s" "st_at s1 = st_at s"
    "sk_input (sk_context (fl_sink s1)) = NULL" "pulled s1 = pulled s" "pushed s1 = pushed s"
    by (rule sink_enters[OF d pc])
  have d1: "draining cfg B s1" by (rule drained_toD(1)[OF s1(1)])
  have k: "sk_input_pipe (fl_sink s1) = ?n" "length (sh_pipes (fl_sh s1)) = Suc ?n"
    using d1 flow_invD(1,7)[of cfg B s1] s1(3) by (simp_all add: draining_def sink_ok_def)
  have "\<not> snd (producer s1 ?n)" by (rule producer_still[OF d1]) (use s1(3,4) se in \<open>simp_all add: settled_def\<close>)
  then have sem: "semaphore (sh_pipes (fl_sh s1) ! ?n) = 0"
    using draining_link(1)[OF d1, of ?n] s1(3,6,7) none by simp
  obtain r sh self s2 where e: "sink_step cfg (sk_at s1) (fl_sh s1, fl_sink s1) = Some (r, sh, self)"
    "drained_to cfg B s1 s2" "st_at s2 = st_at s1" "fl_stages s2 = fl_stages s1" "fl_sh s2 = sh" "sk_at s2 = sink_next r"
    "fl_sink s2 = self" "so_at s2 = so_at s1" "sink_ok (length (fl_stages s1)) (sink_next r) self"
    "pulled s2 = (pulled s1)(length (fl_stages s1) := pulled s1 (length (fl_stages s1)) @ sink_pulls (sk_at s1) r self)" "pushed s2 = pushed s1"
    by (rule sink_goes[OF d1])
  have r: "r = None" "self = fl_sink s1\<lparr>sk_done := 1\<rparr>"
    using e(1) s1(2) sem k by (auto simp: sink_step_def Let_def bind_eq_Some_conv pipe_at_def try_acquire_pipe_def
        mtdp_semaphore_try_acquire_for_def)
  show ?thesis
    by (rule that[of s2]) (use drained_to_trans[OF s1(1) e(2)] e(3-11) r s1 se in
      \<open>simp_all add: settled_def sink_next_def sink_pulls_def\<close>)
qed

section \<open>Progress\<close>

text \<open>The buffers on their way from the source to the sink: those in the FIFOs and the items in the
  stages.\<close>

lemma nothing_left:
  assumes d: "draining cfg B s" and se: "settled s"
    and f: "\<And>k. k \<le> length (fl_stages s) \<Longrightarrow> length (pushed s k) = length (pulled s k)"
    and g: "\<And>i. i < length (fl_stages s) \<Longrightarrow> stage_item St_Entry (fl_stages s ! i) = 0"
    and k: "k \<le> length (fl_stages s)"
  shows "length (pulled s k) = length (pushed s 0)"
  using k
proof (induction k)
  case (Suc k)
  then have i: "k < length (fl_stages s)" by simp
  have "length (pulled s k) = length (pushed s (Suc k))"
    using draining_stage(8)[OF d i] g[OF i] se i by (simp add: settled_def)
  then show ?case using Suc f[of "Suc k"] by simp
qed (use f[of 0] in simp)

lemma settled_stage_on:
  assumes d: "draining cfg B s" and se: "settled s" and i: "i < length (fl_stages s)"
    and item: "stage_item St_Entry (fl_stages s ! i) = 0" and gap: "length (pushed s i) \<noteq> length (pulled s i)"
  shows "goes_on cfg B s"
proof -
  have pc: "st_at s ! i = St_Entry" using se i by (simp add: settled_def)
  have fl: "\<not> st_ready_to_push (st_context (fl_stages s ! i))" "st_ready_to_pull (st_context (fl_stages s ! i))"
    using draining_stage(4)[OF d i] item pc by (auto simp: stage_item_def stage_flags_def Let_def)
  have "\<not> snd (producer s i)" by (rule producer_still[OF d]) (use i se in \<open>simp_all add: settled_def\<close>)
  moreover have "\<not> snd (consumer s i)" using i pc by (simp add: consumer_def stage_in_view_def)
  ultimately have "0 < semaphore (sh_pipes (fl_sh s) ! i)" using draining_link(1,2)[OF d, of i] i gap by simp
  then show ?thesis by (rule stage_takes[OF d i pc fl])
qed

lemma settled_sink_on:
  assumes d: "draining cfg B s" and se: "settled s"
    and gap: "length (pushed s (length (fl_stages s))) \<noteq> length (pulled s (length (fl_stages s)))"
  shows "goes_on cfg B s"
proof -
  let ?n = "length (fl_stages s)"
  obtain s1 where s1: "drained_to cfg B s s1" "sk_at s1 = Sk_Acquire" "fl_stages s1 = fl_stages s" "st_at s1 = st_at s"
    "sk_input (sk_context (fl_sink s1)) = NULL" "pulled s1 = pulled s" "pushed s1 = pushed s"
    by (rule sink_enters[OF d]) (use se in \<open>simp add: settled_def\<close>)
  note d1 = drained_toD(1)[OF s1(1)]
  have "\<not> snd (producer s1 ?n)" by (rule producer_still[OF d1]) (use s1(3,4) se in \<open>simp_all add: settled_def\<close>)
  moreover have "\<not> snd (consumer s1 ?n)" using s1(2,3) by (simp add: consumer_def sink_view_def)
  ultimately have "0 < semaphore (sh_pipes (fl_sh s1) ! ?n)"
    using draining_link(1,2)[OF d1, of ?n] s1(3,6,7) gap by simp
  then have "goes_on cfg B s1" using sink_acquires[OF d1 s1(2)] s1(3) by simp
  then show ?thesis by (rule goes_on_after[OF s1(1)])
qed

text \<open>A stage that has an item and nothing in front of it.\<close>

lemma settled_item_on:
  assumes d: "draining cfg B s" and se: "settled s" and i: "i < length (fl_stages s)"
    and item: "stage_item St_Entry (fl_stages s ! i) \<noteq> 0"
    and gap: "length (pushed s (Suc i)) = length (pulled s (Suc i))"
    and ahead: "if Suc i < length (fl_stages s) then stage_item St_Entry (fl_stages s ! Suc i) = 0
      else sk_input (sk_context (fl_sink s)) = NULL"
  shows "goes_on cfg B s"
proof -
  have pc: "st_at s ! j = St_Entry" if "j < length (fl_stages s)" for j using se that by (simp add: settled_def)
  show ?thesis
  proof (cases "st_ready_to_push (st_context (fl_stages s ! i))")
    case True
    then show ?thesis by (rule stage_pushes_on[OF d i pc[OF i]])
  next
    case False
    have fl: "\<not> st_ready_to_pull (st_context (fl_stages s ! i))" "st_output (st_context (fl_stages s ! i)) = NULL"
      using draining_stage(4)[OF d i] item pc[OF i] False by (auto simp: stage_item_def stage_flags_def Let_def split: if_splits)
    have "fst (producer s (Suc i)) = NULL" using i pc[OF i] fl(2) by (simp add: producer_def stage_out_view_def)
    moreover have "fst (consumer s (Suc i)) = NULL"
    proof (cases "Suc i < length (fl_stages s)")
      case True
      then show ?thesis using ahead pc[OF True] by (auto simp: consumer_def stage_in_view_def stage_item_def)
    qed (use ahead in \<open>simp add: consumer_def sink_view_def\<close>)
    moreover have "fsize (fifo (sh_pipes (fl_sh s) ! Suc i)) = 0" using draining_link(4)[OF d, of "Suc i"] i gap by simp
    moreover have "B (Suc i) \<noteq> {#}" using d i by (simp add: draining_def)
    moreover have "pipe_inv cfg (sh_mem (fl_sh s)) (sh_pipes (fl_sh s) ! Suc i)"
      using flow_pipe_inv[of cfg B s "Suc i"] d i by (simp add: draining_def)
    ultimately have "psize (pool (sh_pipes (fl_sh s) ! Suc i)) \<noteq> 0"
      using draining_link(3)[OF d, of "Suc i"] i
        size_pipe_content[of cfg "sh_mem (fl_sh s)" "sh_pipes (fl_sh s) ! Suc i"]
      by (auto simp: nonempty_has_size)
    then show ?thesis by (rule stage_unsticks[OF d i pc[OF i] False fl(1)])
  qed
qed

lemma settled_on:
  assumes d: "draining cfg B s" and se: "settled s" and left: "length (pulled s (length (fl_stages s))) \<noteq> length (pushed s 0)"
  shows "goes_on cfg B s"
proof (cases "length (pushed s (length (fl_stages s))) = length (pulled s (length (fl_stages s)))")
  case True
  define Q where "Q i \<longleftrightarrow> i < length (fl_stages s) \<and>
    (stage_item St_Entry (fl_stages s ! i) \<noteq> 0 \<or> length (pushed s i) \<noteq> length (pulled s i))" for i
  have "\<exists>i. Q i"
  proof (rule ccontr)
    assume no: "\<nexists>i. Q i"
    have "length (pulled s (length (fl_stages s))) = length (pushed s 0)"
    proof (rule nothing_left[OF d se])
      show "length (pushed s k) = length (pulled s k)" if "k \<le> length (fl_stages s)" for k
        using no True that unfolding Q_def by (cases "k = length (fl_stages s)") auto
    qed (use no in \<open>auto simp: Q_def\<close>)
    with left show False by simp
  qed
  moreover have b: "j \<le> length (fl_stages s)" if "Q j" for j using that by (simp add: Q_def)
  ultimately have "Q (Greatest Q)" "\<And>j. Q j \<Longrightarrow> j \<le> Greatest Q"
    using GreatestI_ex_nat[of Q "length (fl_stages s)"] Greatest_le_nat[of Q _ "length (fl_stages s)"] by auto
  then obtain i where i: "Q i" "\<And>j. Q j \<Longrightarrow> j \<le> i" by metis
  obtain s1 where s1: "drained_to cfg B s s1" "settled s1" "fl_stages s1 = fl_stages s" "st_at s1 = st_at s"
    "sk_input (sk_context (fl_sink s1)) = NULL" "pulled s1 = pulled s" "pushed s1 = pushed s"
    by (rule sink_clears[OF d se True])
  note d1 = drained_toD(1)[OF s1(1)]
  have il: "i < length (fl_stages s1)" using i(1) s1(3) by (simp add: Q_def)
  have "goes_on cfg B s1"
  proof (cases "stage_item St_Entry (fl_stages s1 ! i) = 0")
    case item: True
    then show ?thesis using settled_stage_on[OF d1 s1(2) il] i(1) s1 by (simp add: Q_def)
  next
    case item: False
    have not: "\<not> Q (Suc i)" using i(2)[of "Suc i"] by auto
    have "length (pushed s1 (Suc i)) = length (pulled s1 (Suc i))"
      "if Suc i < length (fl_stages s1) then stage_item St_Entry (fl_stages s1 ! Suc i) = 0 else sk_input (sk_context (fl_sink s1)) = NULL"
      using not s1 True il by (cases "Suc i = length (fl_stages s)"; simp add: Q_def)+
    then show ?thesis by (rule settled_item_on[OF d1 s1(2) il item])
  qed
  then show ?thesis by (rule goes_on_after[OF s1(1)])
qed (rule settled_sink_on[OF d se])

lemma drain_progress:
  assumes d: "draining cfg B s" and left: "length (pulled s (length (fl_stages s))) \<noteq> length (pushed s 0)"
  shows "goes_on cfg B s"
proof -
  obtain s1 where s1: "drained_to cfg B s s1" "settled s1" using settle[OF d] by blast
  have m: "moved_on s s1" "length (fl_stages s1) = length (fl_stages s)" "pushed s1 0 = pushed s 0"
    using s1(1) by (simp_all add: drained_to_def moved_on_def)
  show ?thesis
  proof (cases "length (pulled s1 (length (fl_stages s1))) = length (pushed s1 0)")
    case True
    then have "length (pulled s (length (fl_stages s))) < length (pulled s1 (length (fl_stages s)))"
      using left m by (metis le_neq_implies_less moved_on_def)
    then show ?thesis unfolding goes_on_def using s1(1) moved_on_log(2)[OF m(1)] by blast
  next
    case False
    show ?thesis by (rule goes_on_after[OF s1(1) settled_on[OF drained_toD(1)[OF s1(1)] s1(2) False]])
  qed
qed

section \<open>Emptying the pipeline\<close>

text \<open>Along the pipeline the counts of the log only go down.\<close>

lemma log_chain:
  assumes d: "draining cfg B s" and k: "k \<le> length (fl_stages s)"
  shows "length (pulled s (length (fl_stages s))) \<le> length (pulled s k)" "length (pushed s k) \<le> length (pushed s 0)"
proof -
  have pull: "length (pulled s j) \<le> length (pushed s j)" if "j \<le> length (fl_stages s)" for j
    using draining_link(2)[OF d that] .
  have push: "length (pushed s (Suc j)) \<le> length (pulled s j)" if "j < length (fl_stages s)" for j
    using draining_stage(8)[OF d that] by simp
  show "length (pushed s k) \<le> length (pushed s 0)" using k
  proof (induction k)
    case (Suc k)
    then show ?case using push[of k] pull[of k] by simp
  qed simp
  show "length (pulled s (length (fl_stages s))) \<le> length (pulled s k)" using k
  proof (induction rule: inc_induct)
    case (step j)
    then show ?case using push[of j] pull[of "Suc j"] by simp
  qed simp
qed

lemma log_bound:
  assumes d: "draining cfg B s"
  shows "log_size s \<le> 2 * Suc (length (fl_stages s)) * length (pushed s 0)"
proof -
  have "length (pulled s k) + length (pushed s k) \<le> 2 * length (pushed s 0)" if "k \<le> length (fl_stages s)" for k
    using log_chain(2)[OF d that] draining_link(2)[OF d that] by simp
  then have "log_size s \<le> (\<Sum>k \<le> length (fl_stages s). 2 * length (pushed s 0))"
    unfolding log_size_def by (intro sum_mono) simp
  then show ?thesis by simp
qed

lemma drain_all:
  "draining cfg B s \<Longrightarrow> \<exists>s'. drained_to cfg B s s' \<and> settled s' \<and>
     length (pulled s' (length (fl_stages s'))) = length (pushed s' 0)"
proof (induction "2 * Suc (length (fl_stages s)) * length (pushed s 0) - log_size s" arbitrary: s rule: less_induct)
  case less
  show ?case
  proof (cases "length (pulled s (length (fl_stages s))) = length (pushed s 0)")
    case False
    obtain s1 where s1: "drained_to cfg B s s1" "log_size s < log_size s1"
      using drain_progress[OF less.prems False] by (auto simp: goes_on_def)
    have d1: "draining cfg B s1" "length (fl_stages s1) = length (fl_stages s)" "pushed s1 0 = pushed s 0"
      using s1(1) by (simp_all add: drained_to_def moved_on_def)
    have "2 * Suc (length (fl_stages s1)) * length (pushed s1 0) - log_size s1 <
        2 * Suc (length (fl_stages s)) * length (pushed s 0) - log_size s"
      using s1(2) log_bound[OF d1(1)] unfolding d1(2,3) by linarith
    from less.hyps[OF this d1(1)] show ?thesis using drained_to_trans[OF s1(1)] by blast
  next
    case True
    obtain s1 where s1: "drained_to cfg B s s1" "settled s1" using settle[OF less.prems] by blast
    have d1: "draining cfg B s1" "moved_on s s1" "length (fl_stages s1) = length (fl_stages s)" "pushed s1 0 = pushed s 0"
      using s1(1) by (simp_all add: drained_to_def moved_on_def)
    have "length (pushed s 0) \<le> length (pulled s1 (length (fl_stages s)))" using True d1(2) by (metis moved_on_def)
    moreover have "length (pulled s1 (length (fl_stages s))) \<le> length (pushed s 0)"
      using draining_link(2)[OF d1(1), of "length (fl_stages s)"] log_chain(2)[OF d1(1), of "length (fl_stages s)"] d1(3,4) by simp
    ultimately show ?thesis using s1 d1(3,4) by auto
  qed
qed

text \<open>The flags with which enabling the pipeline starts the stages and the sink.\<close>

definition hands_on :: "'u flow \<Rightarrow> bool" where
  "hands_on s \<longleftrightarrow> handing s \<and> sk_ready_to_pull (sk_context (fl_sink s)) \<and>
     (\<forall>g \<in> set (fl_stages s). st_ready_to_pull (st_context g))"

lemma flow_start_hand: "flow_start cfg B s \<Longrightarrow> hands_on s \<Longrightarrow> flow_hand s"
  by (simp add: flow_start_def flow_hand_def hands_on_def Let_def sink_flags_def stage_flags_def stage_item_def)

text \<open>No buffer gets stuck: in a pipeline whose stages and sink hand every buffer on, whatever its
  threads have done so far, some schedule of the stages and the sink alone empties all FIFOs, takes
  as many buffers through every pipe as the source has pushed, and leaves these threads between two
  iterations. (Memory can be had, every pipe has a buffer, and the source is not
  between a push and its post.)\<close>

theorem flow_drains:
  assumes "flow_start cfg B s0" "hands_on s0" "\<forall>k \<le> length (fl_stages s0). B k \<noteq> {#}"
    and "\<forall>n. avail (sh_mem (fl_sh s0)) n" "flow_reach cfg s0 s" "so_at s \<noteq> So_Release"
  shows "\<exists>ts s'. Source_thread \<notin> set ts \<and> flow_run cfg ts s = Some s' \<and> settled s' \<and>
    (\<forall>k \<le> length (fl_stages s). mtdp_buffer_fifo_size (fifo (sh_pipes (fl_sh s') ! k)) = 0 \<and>
       length (pulled s' k) = length (pushed s 0))"
proof -
  note inv0 = flow_start_inv[OF assms(1)]
  have d: "draining cfg B s"
    using flow_reach_inv[OF assms(5) inv0] flow_reach_hand[OF assms(5) inv0 flow_start_hand[OF assms(1,2)]]
      flow_reach_stages[OF assms(5)] flow_reach_avail[OF assms(5) inv0] assms(3,4,6) by (simp add: draining_def)
  obtain s' where s': "drained_to cfg B s s'" "length (pulled s' (length (fl_stages s'))) = length (pushed s' 0)" "settled s'"
    using drain_all[OF d] by blast
  then obtain ts where ts: "Source_thread \<notin> set ts" "flow_run cfg ts s = Some s'" by (auto simp: drained_to_def drains_def)
  have d': "draining cfg B s'" and m: "length (fl_stages s') = length (fl_stages s)" "pushed s' 0 = pushed s 0"
    using s'(1) by (simp_all add: drained_to_def moved_on_def)
  have "mtdp_buffer_fifo_size (fifo (sh_pipes (fl_sh s') ! k)) = 0 \<and> length (pulled s' k) = length (pushed s 0)"
    if k: "k \<le> length (fl_stages s)" for k
    using log_chain[OF d', of k] draining_link(2,4)[OF d', of k] s'(2) m k by (simp add: mtdp_buffer_fifo_size_def)
  with ts s'(3) show ?thesis by blast
qed

text \<open>The concrete pipeline with an allocator that refuses nothing.\<close>

definition willing :: "'u flow \<Rightarrow> 'u flow" where
  "willing s = s\<lparr>fl_sh := (fl_sh s)\<lparr>sh_mem := (sh_mem (fl_sh s))\<lparr>avail := \<lambda>_. True\<rparr>\<rparr>\<rparr>"

lemma willing_start:
  assumes s: "flow_start cfg B s"
  shows "flow_start cfg B (willing s)"
proof -
  have "pipe_inv cfg ((sh_mem (fl_sh s))\<lparr>avail := \<lambda>_. True\<rparr>) p" if "pipe_inv cfg (sh_mem (fl_sh s)) p" for p
    using that pipe_inv_mem_cong[of "(sh_mem (fl_sh s))\<lparr>avail := \<lambda>_. True\<rparr>" "sh_mem (fl_sh s)" cfg "fifo p"]
      pipe_invD(2,4)[OF that] by (simp add: pipe_inv_def)
  then show ?thesis using s by (simp add: flow_start_def willing_def Let_def)
qed

theorem flow_drains_witness:
  "\<exists>s ts s'. flow_run default_config [Source_thread, Source_thread, Source_thread, Source_thread, Source_thread] (willing demo_flow) = Some s \<and>
     length (pushed s 0) = 1 \<and> Source_thread \<notin> set ts \<and> flow_run default_config ts s = Some s' \<and> length (pulled s' 1) = 1"
proof -
  let ?ts = "[Source_thread, Source_thread, Source_thread, Source_thread, Source_thread]"
  have "case flow_run default_config ?ts (willing demo_flow) of None \<Rightarrow> False
      | Some s \<Rightarrow> length (pushed s 0) = 1 \<and> so_at s = So_Get \<and> length (fl_stages s) = 1"
    by code_simp
  then obtain s where s: "flow_run default_config ?ts (willing demo_flow) = Some s" "length (pushed s 0) = 1" "so_at s = So_Get"
    "length (fl_stages s) = 1" by (auto split: option.splits)
  have r: "flow_reach default_config (willing demo_flow) s" by (rule flow_run_reach[OF flow_reach.start s(1)])
  have "hands_on (willing demo_flow)"
    by (simp add: hands_on_def handing_def willing_def demo_flow_def hand_stage_def hand_sink_def)
  moreover have "\<forall>k \<le> length (fl_stages (willing demo_flow)). demo_buffers k \<noteq> {#}" by (simp add: demo_buffers_def)
  moreover have "\<forall>n. avail (sh_mem (fl_sh (willing demo_flow))) n" by (simp add: willing_def)
  ultimately obtain ts s' where "Source_thread \<notin> set ts" "flow_run default_config ts s = Some s'"
    "\<forall>k \<le> length (fl_stages s). mtdp_buffer_fifo_size (fifo (sh_pipes (fl_sh s') ! k)) = 0 \<and> length (pulled s' k) = length (pushed s 0)"
    using flow_drains[OF willing_start[OF demo_flow_start] _ _ _ r] s(3) by auto
  with s show ?thesis by auto
qed

end
