(* ===== verification/User_Program.thy ===== *)
theory User_Program
  imports Drained
begin

text \<open>
  The user's code among the threads. The contract \<open>user_program\<close> says what the callbacks of the
  source, the stages and the sink promise about the user's own state: they keep \<open>Q\<close>, provided the
  library calls them with their own \<open>self\<close> and with buffers of their pipes, and \<open>calls\<close> counts the
  calls of the sink's callback. Its client lemmas are about every run: the library keeps its side,
  so \<open>Q\<close> holds throughout, and the sink's callback has been called once for every buffer the sink has pulled,
  except the one it may have just taken.
\<close>

section \<open>The callbacks in the routines\<close>

lemma source_step_user:
  assumes "source_step cfg pc (sh, g) = Some (r, sh', g')" "so_init (so_user_data g) = None"
  shows "so_user_data g' = so_user_data g" 
    "pc \<noteq> So_Process \<Longrightarrow> sh_user sh' = sh_user sh \<and> so_self (so_context g') = so_self (so_context g)"
    "pc = So_Process \<Longrightarrow> \<exists>f b. so_process (so_user_data g) = Some f \<and>
       sh_user sh' = fst (f (sh_user sh) b (so_context g)) \<and> so_context g' = fst (snd (f (sh_user sh) b (so_context g)))"
proof -
  show "so_user_data g' = so_user_data g"
    using assms by (cases pc) (auto simp: source_step_def Let_def bind_eq_Some_conv call_source_def case_prod_unfold split: if_splits)
  show "pc \<noteq> So_Process \<Longrightarrow> sh_user sh' = sh_user sh \<and> so_self (so_context g') = so_self (so_context g)"
    using assms by (cases pc) (auto simp: source_step_def Let_def bind_eq_Some_conv release_pipe_def set_pipe_def split: if_splits)
  show "pc = So_Process \<Longrightarrow> \<exists>f b. so_process (so_user_data g) = Some f \<and>
       sh_user sh' = fst (f (sh_user sh) b (so_context g)) \<and> so_context g' = fst (snd (f (sh_user sh) b (so_context g)))"
    using assms by (auto simp: source_step_def Let_def bind_eq_Some_conv call_source_def case_prod_unfold split: if_splits)
qed

lemma stage_step_user:
  assumes "stage_step cfg pc (sh, g) = Some (r, sh', g')" "st_user_data g < length (sh_stages sh)"
    "st_init (sh_stages sh ! st_user_data g) = None"
  shows "pc \<noteq> St_Process \<Longrightarrow> sh_user sh' = sh_user sh \<and> st_self (st_context g') = st_self (st_context g)"
    "pc = St_Process \<Longrightarrow> \<exists>f b. st_process (sh_stages sh ! st_user_data g) = Some f \<and>
       sh_user sh' = fst (f (sh_user sh) b (st_context g)) \<and> st_context g' = snd (f (sh_user sh) b (st_context g))"
proof -
  show "pc \<noteq> St_Process \<Longrightarrow> sh_user sh' = sh_user sh \<and> st_self (st_context g') = st_self (st_context g)"
    using assms by (cases pc) (auto simp: stage_step_def Let_def bind_eq_Some_conv release_pipe_def try_acquire_pipe_def
        set_pipe_def case_prod_unfold split: if_splits)
  show "pc = St_Process \<Longrightarrow> \<exists>f b. st_process (sh_stages sh ! st_user_data g) = Some f \<and>
       sh_user sh' = fst (f (sh_user sh) b (st_context g)) \<and> st_context g' = snd (f (sh_user sh) b (st_context g))"
    using assms by (auto simp: stage_step_def Let_def bind_eq_Some_conv call_stage_def stage_user_def case_prod_unfold split: if_splits)
qed

lemma sink_step_user:
  assumes "sink_step cfg pc (sh, g) = Some (r, sh', g')" "sk_init (sk_user_data g) = None"
  shows "sk_user_data g' = sk_user_data g"
    "pc \<noteq> Sk_Process \<or> sk_input (sk_context g) = NULL \<Longrightarrow> sh_user sh' = sh_user sh \<and> sk_self (sk_context g') = sk_self (sk_context g)"
    "pc = Sk_Process \<Longrightarrow> sk_input (sk_context g) \<noteq> NULL \<Longrightarrow> \<exists>f b. sk_process (sk_user_data g) = Some f \<and>
       sh_user sh' = fst (f (sh_user sh) b (sk_context g)) \<and> sk_context g' = snd (f (sh_user sh) b (sk_context g))"
proof -
  show "sk_user_data g' = sk_user_data g"
    using assms by (cases pc) (auto simp: sink_step_def Let_def bind_eq_Some_conv call_sink_def case_prod_unfold split: if_splits)
  show "pc \<noteq> Sk_Process \<or> sk_input (sk_context g) = NULL \<Longrightarrow> sh_user sh' = sh_user sh \<and> sk_self (sk_context g') = sk_self (sk_context g)"
    using assms by (cases pc) (auto simp: sink_step_def Let_def bind_eq_Some_conv release_pipe_def try_acquire_pipe_def
        set_pipe_def case_prod_unfold split: if_splits)
  show "pc = Sk_Process \<Longrightarrow> sk_input (sk_context g) \<noteq> NULL \<Longrightarrow> \<exists>f b. sk_process (sk_user_data g) = Some f \<and>
       sh_user sh' = fst (f (sh_user sh) b (sk_context g)) \<and> sk_context g' = snd (f (sh_user sh) b (sk_context g))"
    using assms by (auto simp: sink_step_def Let_def bind_eq_Some_conv call_sink_def case_prod_unfold split: if_splits)
qed

text \<open>A buffer a thread holds is one of its pipe's.\<close>

lemma held_member:
  assumes "flow_inv cfg B s" "k \<le> length (fl_stages s)"
  shows "fst (producer s k) \<noteq> NULL \<Longrightarrow> fst (producer s k) \<in># B k" "fst (consumer s k) \<noteq> NULL \<Longrightarrow> fst (consumer s k) \<in># B k"
proof -
  obtain out rel inb acq where v: "producer s k = (out, rel)" "consumer s k = (inb, acq)" by (meson surj_pair)
  have "k < length (sh_pipes (fl_sh s))" using assms flow_invD(1) by fastforce
  note b = pipe_linkD(2)[OF links_invD(1)[OF flow_invD(8)[OF assms(1)] this, unfolded v], symmetric]
  show "fst (producer s k) \<noteq> NULL \<Longrightarrow> fst (producer s k) \<in># B k" "fst (consumer s k) \<noteq> NULL \<Longrightarrow> fst (consumer s k) \<in># B k"
    by (simp_all add: b v)
qed

section \<open>The contract\<close>

text \<open>The flag of the source at each point of its routine, and the datum it has made but not pushed.\<close>

definition source_flags :: "source_pc \<Rightarrow> 'u mtdp_source_impl \<Rightarrow> bool" where
  "source_flags pc self \<longleftrightarrow> (pc = So_Release \<longrightarrow> so_ready_to_push (so_context self)) \<and>
     (pc = So_Get \<or> pc = So_Process \<longrightarrow> \<not> so_ready_to_push (so_context self))"

definition source_item :: "source_pc \<Rightarrow> 'u mtdp_source_impl \<Rightarrow> nat" where
  "source_item pc self = of_bool (pc = So_Entry \<and> so_ready_to_push (so_context self))"

lemma source_step_item:
  assumes "source_step cfg pc (sh, g) = Some (r, sh', g')" "source_flags pc g" "pc \<noteq> So_Process"
  shows "source_flags (source_next r) g' \<and>
    length (source_pushes pc r g) + source_item (source_next r) g' = source_item pc g"
  using assms by (cases pc) (auto simp: source_step_def Let_def bind_eq_Some_conv release_pipe_def source_flags_def
      source_item_def source_next_def source_pushes_def split: if_splits)

lemma source_step_made:
  assumes "source_step cfg So_Process (sh, g) = Some (r, sh', g')" "so_ready_to_push (so_context g')"
  shows "source_flags (source_next r) g' \<and> source_pushes So_Process r g = [] \<and> source_item (source_next r) g' = 1 \<and> source_item So_Process g = 0"
  using assms by (auto simp: source_step_def Let_def bind_eq_Some_conv source_flags_def
      source_item_def source_next_def source_pushes_def split: if_splits)

definition users_of :: "'u mtdp_source \<Rightarrow> 'u mtdp_stage list \<Rightarrow> 'u mtdp_sink \<Rightarrow> 'u flow \<Rightarrow> bool" where
  "users_of so us sk s \<longleftrightarrow> so_user_data (fl_source s) = so \<and> so_self (so_context (fl_source s)) = so_data so \<and>
     sh_stages (fl_sh s) = us \<and> length (fl_stages s) = length us \<and>
     (\<forall>i < length us. st_self (st_context (fl_stages s ! i)) = st_data (us ! i)) \<and>
     sk_user_data (fl_sink s) = sk \<and> sk_self (sk_context (fl_sink s)) = sk_data sk"

locale user_program =
  fixes so :: "'u mtdp_source" and us :: "'u mtdp_stage list" and sk :: "'u mtdp_sink"
    and B :: "nat \<Rightarrow> mtdp_buffer multiset" and Q :: "'u \<Rightarrow> bool" and made calls :: "'u \<Rightarrow> nat"
  assumes source_keeps: "so_process so = Some f \<Longrightarrow> Q u \<Longrightarrow> so_self c = so_data so \<Longrightarrow> so_output c \<in># B 0 \<Longrightarrow>
      Q (fst (f u b c)) \<and> made (fst (f u b c)) = Suc (made u) \<and> calls (fst (f u b c)) = calls u \<and>
        so_self (fst (snd (f u b c))) = so_self c \<and> so_ready_to_push (fst (snd (f u b c)))"
    and stage_keeps: "i < length us \<Longrightarrow> st_process (us ! i) = Some g \<Longrightarrow> Q u \<Longrightarrow> st_self d = st_data (us ! i) \<Longrightarrow>
      st_input d \<in># B i \<Longrightarrow> st_output d \<in># B (Suc i) \<Longrightarrow>
      Q (fst (g u b d)) \<and> made (fst (g u b d)) = made u \<and> calls (fst (g u b d)) = calls u \<and> st_self (snd (g u b d)) = st_self d"
    and sink_keeps: "sk_process sk = Some h \<Longrightarrow> Q u \<Longrightarrow> sk_self e = sk_data sk \<Longrightarrow> sk_input e \<in># B (length us) \<Longrightarrow>
      Q (fst (h u b e)) \<and> made (fst (h u b e)) = made u \<and> calls (fst (h u b e)) = Suc (calls u) \<and>
        snd (h u b e) = e\<lparr>sk_ready_to_pull := True\<rparr>"
    and no_init: "so_init so = None" "\<And>u. u \<in> set us \<Longrightarrow> st_init u = None" "sk_init sk = None"
begin

definition user_inv :: "'u flow \<Rightarrow> bool" where
  "user_inv s \<longleftrightarrow> users_of so us sk s \<and> Q (sh_user (fl_sh s)) \<and> source_flags (so_at s) (fl_source s) \<and>
     made (sh_user (fl_sh s)) = length (pushed s 0) + source_item (so_at s) (fl_source s) \<and> sink_flags (sk_at s) (fl_sink s) \<and>
     length (pulled s (length us)) = calls (sh_user (fl_sh s)) + of_bool (\<not> sk_ready_to_pull (sk_context (fl_sink s)))"

lemma source_move_user:
  assumes inv: "flow_inv cfg B s" and u: "user_inv s" and mv: "source_move cfg s = Some s'"
  shows "user_inv s'"
proof -
  note d = flow_invD[OF inv]
  have k: "so_output_pipe (fl_source s) = 0" using d(5) by (simp add: source_ok_def)
  obtain r sh self where st: "source_step cfg (so_at s) (fl_sh s, fl_source s) = Some (r, sh, self)"
    "s' = s\<lparr>fl_sh := sh, fl_source := self, so_at := source_next r,
       pushed := (pushed s)(0 := pushed s 0 @ source_pushes (so_at s) r (fl_source s))\<rparr>"
    using mv k by (auto simp: source_move_def bind_eq_Some_conv Let_def)
  have w: "so_user_data (fl_source s) = so" "so_self (so_context (fl_source s)) = so_data so" "Q (sh_user (fl_sh s))"
    using u by (simp_all add: user_inv_def users_of_def)
  note su = source_step_user[OF st(1)]
  have "so_user_data self = so" using su(1) w no_init by simp
  moreover have "Q (sh_user sh) \<and> calls (sh_user sh) = calls (sh_user (fl_sh s)) \<and> so_self (so_context self) = so_data so \<and>
      source_flags (source_next r) self \<and>
      made (sh_user sh) = length (pushed s 0 @ source_pushes (so_at s) r (fl_source s)) + source_item (source_next r) self"
  proof (cases "so_at s = So_Process")
    case True
    have "so_output (so_context (fl_source s)) \<in># B 0"
      using held_member(1)[OF inv, of 0] d(5) True by (simp add: producer_def source_view_def source_ok_def)
    moreover obtain f b where f: "so_process so = Some f" "sh_user sh = fst (f (sh_user (fl_sh s)) b (so_context (fl_source s)))"
      "so_context self = fst (snd (f (sh_user (fl_sh s)) b (so_context (fl_source s))))"
      using su(3) True w no_init by auto
    ultimately have q: "Q (sh_user sh) \<and> made (sh_user sh) = Suc (made (sh_user (fl_sh s))) \<and> calls (sh_user sh) = calls (sh_user (fl_sh s)) \<and>
        so_self (so_context self) = so_data so \<and> so_ready_to_push (so_context self)"
      using source_keeps[OF f(1) w(3) w(2), of b] f w(2) by simp
    then have "source_flags (source_next r) self \<and> source_pushes So_Process r (fl_source s) = [] \<and> source_item (source_next r) self = 1 \<and>
        source_item So_Process (fl_source s) = 0" using source_step_made[OF st(1)[unfolded True]] by blast
    with q show ?thesis using u True by (simp add: user_inv_def)
  next
    case False
    have "source_flags (so_at s) (fl_source s)" using u by (simp add: user_inv_def)
    from source_step_item[OF st(1) this False] show ?thesis using su(2) False w no_init u by (simp add: user_inv_def)
  qed
  ultimately show ?thesis using u source_step_users[OF st(1)] by (simp add: user_inv_def users_of_def st(2))
qed

lemma stage_move_user:
  assumes inv: "flow_inv cfg B s" and u: "user_inv s" and i: "i < length us" and mv: "stage_move cfg i s = Some s'"
  shows "user_inv s'"
proof -
  have n: "length (fl_stages s) = length us" "sh_stages (fl_sh s) = us" using u by (simp_all add: user_inv_def users_of_def)
  have il: "i < length (fl_stages s)" using i n by simp
  note d = flow_invD[OF inv]
  have ok: "stage_ok i (st_at s ! i) (fl_stages s ! i)" by (rule d(6)[OF il])
  obtain r sh self where st: "stage_step cfg (st_at s ! i) (fl_sh s, fl_stages s ! i) = Some (r, sh, self)"
    "s' = s\<lparr>fl_sh := sh, fl_stages := (fl_stages s)[i := self], st_at := (st_at s)[i := stage_next r],
       pushed := (pushed s)(Suc i := pushed s (Suc i) @ stage_pushes (st_at s ! i) r (fl_stages s ! i)),
       pulled := (pulled s)(i := pulled s i @ stage_pulls (st_at s ! i) r self)\<rparr>"
    by (rule stage_moveE[OF inv il mv])
  have w: "st_self (st_context (fl_stages s ! i)) = st_data (us ! i)" "Q (sh_user (fl_sh s))" "st_user_data (fl_stages s ! i) = i"
    using u i ok by (simp_all add: user_inv_def users_of_def stage_ok_def)
  note su = stage_step_user[OF st(1)]
  have "Q (sh_user sh) \<and> made (sh_user sh) = made (sh_user (fl_sh s)) \<and> calls (sh_user sh) = calls (sh_user (fl_sh s)) \<and>
      st_self (st_context self) = st_data (us ! i)"
  proof (cases "st_at s ! i = St_Process")
    case True
    have "st_input (st_context (fl_stages s ! i)) \<in># B i" "st_output (st_context (fl_stages s ! i)) \<in># B (Suc i)"
      using held_member(2)[OF inv, of i] held_member(1)[OF inv, of "Suc i"] ok True il
      by (simp_all add: producer_def consumer_def stage_out_view_def stage_in_view_def stage_ok_def)
    moreover obtain f b where f: "st_process (us ! i) = Some f"
      "sh_user sh = fst (f (sh_user (fl_sh s)) b (st_context (fl_stages s ! i)))"
      "st_context self = snd (f (sh_user (fl_sh s)) b (st_context (fl_stages s ! i)))"
      using su(2) True w n i no_init by auto
    ultimately show ?thesis using stage_keeps[OF i f(1) w(2) w(1), of b] f w(1) by simp
  qed (use su(1) w n i no_init in simp)
  then show ?thesis using u i il n stage_step_users[OF st(1)]
    by (auto simp: user_inv_def users_of_def st(2) nth_list_update)
qed

lemma sink_move_user:
  assumes inv: "flow_inv cfg B s" and u: "user_inv s" and mv: "sink_move cfg s = Some s'"
  shows "user_inv s'"
proof -
  have n: "length (fl_stages s) = length us" using u by (simp add: user_inv_def users_of_def)
  note d = flow_invD[OF inv]
  obtain r sh self where st: "sink_step cfg (sk_at s) (fl_sh s, fl_sink s) = Some (r, sh, self)"
    "s' = s\<lparr>fl_sh := sh, fl_sink := self, sk_at := sink_next r, pulled := (pulled s)(length (fl_stages s) :=
       pulled s (length (fl_stages s)) @ sink_pulls (sk_at s) r self)\<rparr>"
    "flow_inv cfg B s'" "sink_ok (length (fl_stages s)) (sink_next r) self"
    by (rule sink_moveE[OF inv mv])
  have w: "sk_user_data (fl_sink s) = sk" "sk_self (sk_context (fl_sink s)) = sk_data sk" "Q (sh_user (fl_sh s))"
    "sink_flags (sk_at s) (fl_sink s)"
    using u by (simp_all add: user_inv_def users_of_def)
  note su = sink_step_user[OF st(1)]
  have ud: "sk_user_data self = sk" using su(1) w no_init by simp
  show ?thesis
  proof (cases "sk_at s = Sk_Process")
    case True
    have x: "sk_input (sk_context (fl_sink s)) \<noteq> NULL" "\<not> sk_ready_to_pull (sk_context (fl_sink s))"
      using w(4) True by (simp_all add: sink_flags_def)
    have b: "sk_input (sk_context (fl_sink s)) \<in># B (length us)"
      using held_member(2)[OF inv, of "length us"] n x(1) by (simp add: consumer_def sink_view_def)
    obtain f b where f: "sk_process sk = Some f" "sh_user sh = fst (f (sh_user (fl_sh s)) b (sk_context (fl_sink s)))"
      "sk_context self = snd (f (sh_user (fl_sh s)) b (sk_context (fl_sink s)))"
      using su(3) True x w no_init by auto
    note q = sink_keeps[OF f(1) w(3) w(2) b, of b]
    have "r = None" using st(1) True x by (auto simp: sink_step_def Let_def bind_eq_Some_conv)
    then show ?thesis using q f u ud x sink_step_users[OF st(1)] True n
      by (simp add: user_inv_def users_of_def st(2) sink_flags_def sink_next_def sink_pulls_def)
  next
    case False
    have "sink_flags (sink_next r) self \<and> (sk_ready_to_pull (sk_context self) \<longleftrightarrow> r \<noteq> Some Sk_Process \<or> sk_at s \<noteq> Sk_GetFull)"
      using st(1) False w(4) st(4) by (cases "sk_at s") (auto simp: sink_step_def Let_def bind_eq_Some_conv sink_flags_def sink_views
          sink_ok_def split: if_splits)
    moreover have "sk_ready_to_pull (sk_context (fl_sink s))" using w(4) False by (cases "sk_at s") (simp_all add: sink_flags_def)
    ultimately show ?thesis using su(2) False u ud w no_init sink_step_users[OF st(1)] n
      by (auto simp: user_inv_def users_of_def st(2) sink_pulls_def)
  qed
qed

lemma step_user:
  assumes "flow_step cfg s s'" "flow_inv cfg B s" "user_inv s"
  shows "user_inv s'"
  using assms
proof (induction rule: flow_step.induct)
  case (thread t s s')
  show ?case
  proof (cases t)
    case Source_thread
    then show ?thesis using source_move_user[OF thread(3,4)] thread(2) by simp
  next
    case (Stage_thread i)
    then have "i < length us" using thread(1,4) by (auto simp: flow_threads_def user_inv_def users_of_def)
    then show ?thesis using stage_move_user[OF thread(3,4)] thread(2) Stage_thread by simp
  next
    case Sink_thread
    then show ?thesis using sink_move_user[OF thread(3,4)] thread(2) by simp
  qed
next
  case (stage_control i s d w)
  then show ?case by (auto simp: user_inv_def users_of_def nth_list_update)
qed (simp_all add: user_inv_def users_of_def sink_flags_def source_flags_def source_item_def)

lemma reach_user: "flow_reach cfg s0 s \<Longrightarrow> flow_inv cfg B s0 \<Longrightarrow> user_inv s0 \<Longrightarrow> user_inv s"
proof (induction rule: flow_reach.induct)
  case (step s s')
  then show ?case using step_user flow_reach_inv by blast
qed

text \<open>Between two iterations of the sink no buffer is waiting for its callback.\<close>

lemma calls_at_entry: "user_inv s \<Longrightarrow> sk_at s = Sk_Entry \<Longrightarrow> calls (sh_user (fl_sh s)) = length (pulled s (length us))"
  by (simp add: user_inv_def sink_flags_def)

end

end
