(* ===== verification/Example_Payload.thy ===== *)
theory Example_Payload
  imports Stages
begin

text \<open>
  The user code of the two example programs (\<open>examples/finite_datastream.c\<close> and
  \<open>examples/infinite_datastream.c\<close>): the clock, the callbacks of the three stages, the buffers
  the program allocates with \<open>malloc\<close>. The console is the list of the lines printed.

  The user's state is the program's own part of the memory. An object of type \<open>payload_data\<close>
  is found by its address, a block of \<open>malloc\<close> by its address too; of a block the
  program uses the first \<open>size_t\<close>, which is indeterminate (\<open>None\<close>) until it is written. The allocator
  refuses the requests \<open>ex_grant\<close> tells it to refuse, and the \<open>k\<close>-th reading of \<open>gettimeofday\<close> is
  \<open>ex_clock k\<close>. A callback that does something undefined sets \<open>ex_fault\<close>.
\<close>

record payload_data =
  timestamp :: nat
  iteration_index :: nat

datatype line =
    Source_line nat nat nat
  | Stage_line nat nat nat nat
  | Sink_line nat nat nat
  | Source_finished
  | Allocated nat mtdp_buffer
  | Deleting nat mtdp_buffer

record example =
  ex_data :: "mtdp_buffer \<Rightarrow> payload_data option"
  ex_blocks :: "mtdp_buffer \<Rightarrow> nat option option"
  ex_next :: nat
  ex_grant :: "nat \<Rightarrow> bool"
  ex_asked :: nat
  ex_clock :: "nat \<Rightarrow> nat \<times> nat"
  ex_reads :: nat
  ex_lines :: "line list"
  ex_fault :: bool

section \<open>The clock\<close>

text \<open>Microseconds since midnight, less \<open>*old\<close>. The value is computed in \<open>double\<close>, exactly (all
  numbers are below 2^53); the conversion of a negative one to \<open>size_t\<close> is undefined.\<close>

definition microseconds :: "nat \<times> nat \<Rightarrow> nat" where
  "microseconds tv = (fst tv mod 86400) * 1000000 + snd tv mod 1000000"

definition timestamp_from :: "payload_data option \<Rightarrow> example \<Rightarrow> (nat \<times> example) option" where
  "timestamp_from old w =
    (let x = int (microseconds (ex_clock w (ex_reads w))) - int (case old of None \<Rightarrow> 0 | Some d \<Rightarrow> timestamp d);
         w = w\<lparr>ex_reads := Suc (ex_reads w)\<rparr>
     in if x < 0 then None else Some (nat x, w))"

section \<open>The callbacks\<close>

definition ex_print :: "line \<Rightarrow> example \<Rightarrow> example" where
  "ex_print l w = w\<lparr>ex_lines := ex_lines w @ [l]\<rparr>"

text \<open>\<open>*(size_t*)b\<close>\<close>

definition ex_read :: "mtdp_buffer \<Rightarrow> example \<Rightarrow> nat option" where
  "ex_read b w = Option.bind (ex_blocks w b) id"

text \<open>\<open>data->iteration_index++\<close>: the value before, on a \<open>size_t\<close>.\<close>

definition next_index :: "mtdp_buffer \<Rightarrow> payload_data \<Rightarrow> example \<Rightarrow> nat \<times> example" where
  "next_index p d w = (iteration_index d,
     w\<lparr>ex_data := (ex_data w)(p \<mapsto> d\<lparr>iteration_index := (iteration_index d + 1) mod 2 ^ 64\<rparr>)\<rparr>)"

text \<open>What every callback prints first: its index and the time since \<open>data->timestamp\<close>.\<close>

definition ex_stamp :: "mtdp_buffer \<Rightarrow> example \<Rightarrow> (nat \<times> nat \<times> example) option" where
  "ex_stamp p w = do {
     d \<leftarrow> ex_data w p;
     let (i, w) = next_index p d w;
     (t, w) \<leftarrow> timestamp_from (Some d) w;
     Some (i, t, w) }"

text \<open>\<open>long_task\<close>: the number of times its loop executes \<open>nop\<close>, for the initial value of its counter.\<close>

fun long_task_loop :: "nat \<Rightarrow> nat" where
  "long_task_loop clock_cycles = Suc (if clock_cycles = 0 then 0 else long_task_loop (clock_cycles - 1))"

declare long_task_loop.simps [simp del]

text \<open>The body of the source's callback up to its busy loop.\<close>

definition source_print :: "mtdp_source_context \<Rightarrow> example \<Rightarrow> example option" where
  "source_print ctx w = do {
     (i, t, w) \<leftarrow> ex_stamp (so_self ctx) w;
     v \<leftarrow> ex_read (so_output ctx) w;
     Some (ex_print (Source_line i t v) w) }"

text \<open>\<open>infinite_datastream.c\<close>\<close>

definition source_payload_infinite :: "example mtdp_source_callback" where
  "source_payload_infinite w stop ctx =
    (case source_print ctx w of None \<Rightarrow> w\<lparr>ex_fault := True\<rparr> | Some w \<Rightarrow> w,
     ctx\<lparr>so_ready_to_push := True\<rparr>, False)"

text \<open>\<open>finite_datastream.c\<close>: after five seconds the source says that it has finished.\<close>

definition source_finish :: "mtdp_source_context \<Rightarrow> example \<Rightarrow> (example \<times> bool) option" where
  "source_finish ctx w = do {
     w \<leftarrow> source_print ctx w;
     d \<leftarrow> ex_data w (so_self ctx);
     (t, w) \<leftarrow> timestamp_from (Some d) w;
     Some (if 5000000 < t then (ex_print Source_finished w, True) else (w, False)) }"

definition source_payload_finite :: "example mtdp_source_callback" where
  "source_payload_finite w stop ctx =
    (case source_finish ctx w of
       None \<Rightarrow> (w\<lparr>ex_fault := True\<rparr>, ctx\<lparr>so_ready_to_push := True\<rparr>, False)
     | Some (w, finished) \<Rightarrow> (w, ctx\<lparr>so_ready_to_push := True\<rparr>, finished))"

definition stage_print :: "mtdp_stage_context \<Rightarrow> example \<Rightarrow> example option" where
  "stage_print ctx w = do {
     (i, t, w) \<leftarrow> ex_stamp (st_self ctx) w;
     a \<leftarrow> ex_read (st_input ctx) w;
     b \<leftarrow> ex_read (st_output ctx) w;
     Some (ex_print (Stage_line i t a b) w) }"

definition stage_payload :: "example mtdp_stage_callback" where
  "stage_payload w stop ctx =
    (case stage_print ctx w of None \<Rightarrow> w\<lparr>ex_fault := True\<rparr> | Some w \<Rightarrow> w,
     ctx\<lparr>st_ready_to_push := True, st_ready_to_pull := True\<rparr>)"

definition sink_print :: "mtdp_sink_context \<Rightarrow> example \<Rightarrow> example option" where
  "sink_print ctx w = do {
     (i, t, w) \<leftarrow> ex_stamp (sk_self ctx) w;
     a \<leftarrow> ex_read (sk_input ctx) w;
     Some (ex_print (Sink_line i t a) w) }"

definition sink_payload :: "example mtdp_sink_callback" where
  "sink_payload w stop ctx =
    (case sink_print ctx w of None \<Rightarrow> w\<lparr>ex_fault := True\<rparr> | Some w \<Rightarrow> w, ctx\<lparr>sk_ready_to_pull := True\<rparr>)"

lemma ex_print_simps [simp]:
  "ex_data (ex_print l w) = ex_data w" "ex_blocks (ex_print l w) = ex_blocks w" "ex_clock (ex_print l w) = ex_clock w"
  "ex_next (ex_print l w) = ex_next w" "ex_grant (ex_print l w) = ex_grant w" "ex_fault (ex_print l w) = ex_fault w" "ex_reads (ex_print l w) = ex_reads w"
  by (simp_all add: ex_print_def)

section \<open>The program's buffers\<close>

definition ex_malloc :: "example \<Rightarrow> mtdp_buffer \<times> example" where
  "ex_malloc w =
    (let ok = ex_grant w (ex_asked w); w = w\<lparr>ex_asked := Suc (ex_asked w)\<rparr> in
     if ok then (Ptr (ex_next w), w\<lparr>ex_blocks := (ex_blocks w)(Ptr (ex_next w) \<mapsto> None), ex_next := Suc (ex_next w)\<rparr>)
     else (NULL, w))"

definition ex_write :: "mtdp_buffer \<Rightarrow> nat \<Rightarrow> example \<Rightarrow> example option" where
  "ex_write b v w = (if ex_blocks w b = None then None else Some (w\<lparr>ex_blocks := (ex_blocks w)(b \<mapsto> Some v)\<rparr>))"

definition ex_free :: "mtdp_buffer \<Rightarrow> example \<Rightarrow> example option" where
  "ex_free b w =
    (if b = NULL then Some w
     else if ex_blocks w b = None then None
     else Some (w\<lparr>ex_blocks := (ex_blocks w)(b := None)\<rparr>))"

section \<open>What the callbacks keep\<close>

text \<open>The busy loop executes its body once more than its counter says.\<close>

lemma long_task_nops: "long_task_loop n = Suc n"
  by (induction n) (simp_all add: long_task_loop.simps)

text \<open>The lines of one part of the pipeline carry the numbers 0, 1, 2, ... in this order, and the index
  of its data object is the next one.\<close>

datatype part = Source_part | Stage_part | Sink_part

fun line_number :: "part \<Rightarrow> line \<Rightarrow> nat option" where
  "line_number Source_part (Source_line i t v) = Some i"
| "line_number Stage_part (Stage_line i t a b) = Some i"
| "line_number Sink_part (Sink_line i t a) = Some i"
| "line_number _ _ = None"

definition line_numbers :: "part \<Rightarrow> example \<Rightarrow> nat list" where
  "line_numbers p w = concat (map (\<lambda>l. case line_number p l of None \<Rightarrow> [] | Some i \<Rightarrow> [i]) (ex_lines w))"

text \<open>The local variables \<open>source_data\<close>, \<open>stage_data\<close> and \<open>sink_data\<close> of the main program.\<close>

fun data_address :: "part \<Rightarrow> mtdp_buffer" where
  "data_address Source_part = Ptr 0"
| "data_address Stage_part = Ptr 1"
| "data_address Sink_part = Ptr 2"

text \<open>The clock never shows less than when the program took its time stamp.\<close>

definition clock_fine :: "example \<Rightarrow> bool" where
  "clock_fine w \<longleftrightarrow> (\<forall>q d k. ex_data w (data_address q) = Some d \<longrightarrow> timestamp d \<le> microseconds (ex_clock w k))"

lemma data_address_eq [simp]: "data_address p = data_address q \<longleftrightarrow> p = q"
  by (cases p; cases q) simp_all

definition numbered :: "example \<Rightarrow> part \<Rightarrow> bool" where
  "numbered w p \<longleftrightarrow> (\<exists>d. ex_data w (data_address p) = Some d \<and>
     iteration_index d = length (line_numbers p w) mod 2 ^ 64 \<and>
     line_numbers p w = map (\<lambda>k. k mod 2 ^ 64) [0..<length (line_numbers p w)])"

lemma line_numbers_simps [simp]:
  "line_numbers p (w\<lparr>ex_data := x\<rparr>) = line_numbers p w" "line_numbers p (w\<lparr>ex_reads := k\<rparr>) = line_numbers p w"
  "line_numbers p (w\<lparr>ex_fault := b\<rparr>) = line_numbers p w"
  "line_numbers p (ex_print l w) = line_numbers p w @ (case line_number p l of None \<Rightarrow> [] | Some i \<Rightarrow> [i])"
  by (simp_all add: line_numbers_def ex_print_def)

lemma numbered_print:
  assumes n: "numbered w q" and d: "ex_data w (data_address p) = Some d"
    and l: "\<And>q. line_number q l = (if q = p then Some (iteration_index d) else None)"
  shows "numbered (ex_print l (w\<lparr>ex_data := (ex_data w)(data_address p \<mapsto>
     d\<lparr>iteration_index := (iteration_index d + 1) mod 2 ^ 64\<rparr>), ex_reads := k\<rparr>)) q"
proof (cases "q = p")
  case True
  let ?k = "length (line_numbers p w)"
  have "iteration_index d = ?k mod 2 ^ 64" "line_numbers p w = map (\<lambda>k. k mod 2 ^ 64) [0..<?k]"
    using n d True by (simp_all add: numbered_def)
  then show ?thesis using True l by (simp add: numbered_def mod_Suc_eq)
next
  case False
  then show ?thesis using n l by (simp add: numbered_def)
qed

text \<open>The state of the program while its pipeline works: \<open>bl\<close> are its blocks, \<open>B\<close> the buffers of the
  pipes.\<close>

definition world_ok :: "(nat \<Rightarrow> mtdp_buffer multiset) \<Rightarrow> (mtdp_buffer \<Rightarrow> nat option option) \<Rightarrow> example \<Rightarrow> bool" where
  "world_ok B bl w \<longleftrightarrow> \<not> ex_fault w \<and> clock_fine w \<and> (\<forall>q. numbered w q) \<and> ex_blocks w = bl \<and>
     (\<forall>k b. b \<in># B k \<longrightarrow> (\<exists>v. bl b = Some (Some v)))"

lemma world_ok_data: "world_ok B bl w \<Longrightarrow> \<exists>d. ex_data w (data_address p) = Some d"
  unfolding world_ok_def numbered_def by blast

lemma world_ok_read: "world_ok B bl w \<Longrightarrow> b \<in># B k \<Longrightarrow> \<exists>v. ex_read b w = Some v"
  unfolding world_ok_def ex_read_def by fastforce

lemma world_ok_clock:
  assumes "world_ok B bl w" "ex_data w (data_address p) = Some d"
  obtains t where "timestamp_from (Some d) w = Some (t, w\<lparr>ex_reads := Suc (ex_reads w)\<rparr>)"
  using assms by (auto simp: world_ok_def timestamp_from_def clock_fine_def Let_def not_less)

lemma world_ok_reads: "world_ok B bl w \<Longrightarrow> world_ok B bl (w\<lparr>ex_reads := k\<rparr>)"
  by (simp add: world_ok_def clock_fine_def numbered_def)

text \<open>One more line of the part \<open>p\<close>.\<close>

definition printed_by :: "(nat \<Rightarrow> mtdp_buffer multiset) \<Rightarrow> (mtdp_buffer \<Rightarrow> nat option option) \<Rightarrow> part \<Rightarrow> example \<Rightarrow> example \<Rightarrow> bool" where
  "printed_by B bl p w w' \<longleftrightarrow> world_ok B bl w' \<and>
     (\<forall>q. length (line_numbers q w') = length (line_numbers q w) + of_bool (q = p))"

lemma ex_stamp_ok:
  assumes w: "world_ok B bl w"
  obtains i t w1 where "ex_stamp (data_address p) w = Some (i, t, w1)" "\<And>b. ex_read b w1 = ex_read b w"
    "\<And>l. (\<And>q. line_number q l = (if q = p then Some i else None)) \<Longrightarrow> printed_by B bl p w (ex_print l w1)"
proof -
  obtain d where d: "ex_data w (data_address p) = Some d" using world_ok_data[OF w] by blast
  let ?d = "d\<lparr>iteration_index := (iteration_index d + 1) mod 2 ^ 64\<rparr>"
  let ?w1 = "w\<lparr>ex_data := (ex_data w)(data_address p \<mapsto> ?d)\<rparr>"
  let ?w2 = "?w1\<lparr>ex_reads := Suc (ex_reads w)\<rparr>"
  have c: "clock_fine ?w1" unfolding clock_fine_def
  proof (intro allI impI)
    fix q e k assume "ex_data ?w1 (data_address q) = Some e"
    then have "\<exists>e'. ex_data w (data_address q) = Some e' \<and> timestamp e' = timestamp e"
      using d by (auto split: if_splits)
    then show "timestamp e \<le> microseconds (ex_clock ?w1 k)" using w unfolding world_ok_def clock_fine_def by fastforce
  qed
  obtain t where t: "timestamp_from (Some d) ?w1 = Some (t, ?w2)"
    using c d by (auto simp: timestamp_from_def clock_fine_def Let_def not_less dest!: spec[of _ p])
  show ?thesis
  proof (rule that[of "iteration_index d" t ?w2])
    show "ex_stamp (data_address p) w = Some (iteration_index d, t, ?w2)"
      using d t by (simp add: ex_stamp_def next_index_def)
    fix l assume l: "\<And>q. line_number q l = (if q = p then Some (iteration_index d) else None)"
    have "numbered (ex_print l ?w2) q" for q
      using numbered_print[of w q p d l "Suc (ex_reads w)"] w d l by (simp add: world_ok_def)
    moreover have "clock_fine (ex_print l ?w2)" using c by (simp add: clock_fine_def)
    ultimately show "printed_by B bl p w (ex_print l ?w2)"
      using w l by (simp add: world_ok_def printed_by_def)
  qed (simp add: ex_read_def)
qed

lemma line_number_parts:
  "line_number q (Source_line i t v) = (if q = Source_part then Some i else None)"
  "line_number q (Stage_line i t a b) = (if q = Stage_part then Some i else None)"
  "line_number q (Sink_line i t v) = (if q = Sink_part then Some i else None)"
  "line_number q Source_finished = None"
  by (cases q; simp)+

lemma source_print_ok:
  assumes w: "world_ok B bl w" and c: "so_self c = data_address Source_part" "so_output c \<in># B k"
  obtains w' where "source_print c w = Some w'" "printed_by B bl Source_part w w'"
proof -
  obtain v where v: "ex_read (so_output c) w = Some v" using world_ok_read[OF w c(2)] by blast
  obtain i t w1 where s: "ex_stamp (data_address Source_part) w = Some (i, t, w1)" "\<And>b. ex_read b w1 = ex_read b w"
    "\<And>l. (\<And>q. line_number q l = (if q = Source_part then Some i else None)) \<Longrightarrow> printed_by B bl Source_part w (ex_print l w1)"
    by (rule ex_stamp_ok[OF w]) blast
  show ?thesis
    by (rule that[OF _ s(3)[OF line_number_parts(1)]]) (use s(1,2) v c in \<open>simp add: source_print_def del: data_address.simps\<close>)
qed

lemma stage_print_ok:
  assumes w: "world_ok B bl w" and c: "st_self c = data_address Stage_part" "st_input c \<in># B k" "st_output c \<in># B j"
  obtains w' where "stage_print c w = Some w'" "printed_by B bl Stage_part w w'"
proof -
  obtain a b where v: "ex_read (st_input c) w = Some a" "ex_read (st_output c) w = Some b"
    using world_ok_read[OF w] c(2,3) by blast
  obtain i t w1 where s: "ex_stamp (data_address Stage_part) w = Some (i, t, w1)" "\<And>b. ex_read b w1 = ex_read b w"
    "\<And>l. (\<And>q. line_number q l = (if q = Stage_part then Some i else None)) \<Longrightarrow> printed_by B bl Stage_part w (ex_print l w1)"
    by (rule ex_stamp_ok[OF w]) blast
  show ?thesis
    by (rule that[OF _ s(3)[OF line_number_parts(2)]]) (use s(1,2) v c in \<open>simp add: stage_print_def del: data_address.simps\<close>)
qed

lemma sink_print_ok:
  assumes w: "world_ok B bl w" and c: "sk_self c = data_address Sink_part" "sk_input c \<in># B k"
  obtains w' where "sink_print c w = Some w'" "printed_by B bl Sink_part w w'"
proof -
  obtain v where v: "ex_read (sk_input c) w = Some v" using world_ok_read[OF w c(2)] by blast
  obtain i t w1 where s: "ex_stamp (data_address Sink_part) w = Some (i, t, w1)" "\<And>b. ex_read b w1 = ex_read b w"
    "\<And>l. (\<And>q. line_number q l = (if q = Sink_part then Some i else None)) \<Longrightarrow> printed_by B bl Sink_part w (ex_print l w1)"
    by (rule ex_stamp_ok[OF w]) blast
  show ?thesis
    by (rule that[OF _ s(3)[OF line_number_parts(3)]]) (use s(1,2) v c in \<open>simp add: sink_print_def del: data_address.simps\<close>)
qed

lemma source_finish_ok:
  assumes w: "world_ok B bl w" and c: "so_self c = data_address Source_part" "so_output c \<in># B k"
  obtains w' fin where "source_finish c w = Some (w', fin)" "printed_by B bl Source_part w w'"
proof -
  obtain w1 where w1: "source_print c w = Some w1" "printed_by B bl Source_part w w1" by (rule source_print_ok[OF w c])
  then have ok1: "world_ok B bl w1" by (simp add: printed_by_def)
  obtain d where d: "ex_data w1 (data_address Source_part) = Some d" using world_ok_data[OF ok1] by blast
  obtain t where t: "timestamp_from (Some d) w1 = Some (t, w1\<lparr>ex_reads := Suc (ex_reads w1)\<rparr>)" by (rule world_ok_clock[OF ok1 d])
  let ?w2 = "w1\<lparr>ex_reads := Suc (ex_reads w1)\<rparr>"
  have w2: "printed_by B bl Source_part w ?w2" using w1(2) world_ok_reads by (simp add: printed_by_def)
  moreover have "world_ok B bl (ex_print Source_finished v)" if "world_ok B bl v" for v
    using that by (simp add: world_ok_def numbered_def clock_fine_def line_number_parts)
  ultimately have "printed_by B bl Source_part w (ex_print Source_finished ?w2)"
    by (simp add: printed_by_def line_number_parts)
  with w2 show ?thesis using w1 d t c
    by (intro that[of "if 5000000 < t then ex_print Source_finished ?w2 else ?w2" "5000000 < t"])
       (simp_all add: source_finish_def del: data_address.simps)
qed

end
