(* ===== verification/Example_Main.thy ===== *)
theory Example_Main
  imports Pipeline_States Pipeline_Wait User_Program Example_Payload
begin

text \<open>
  The main programs of the two examples: creating and configuring the pipeline, filling its pipes
  with buffers of \<open>malloc\<close>, enabling it, starting and stopping it, disabling it, freeing the
  buffers, destroying it. The two programs differ in the number of buffers per pipe, in the
  source's callback and in the order of their calls to start and stop.

  The finite program creates three threads that call \<open>mtdp_pipeline_wait\<close> (theory Pipeline_Wait), and joins them
  before it disables the pipeline; theory Example_Waits runs them beside the pipeline's threads. Sleeping
  does nothing.
\<close>

section \<open>Filling the pipes\<close>

text \<open>The inner loop, from \<open>buffers[i]\<close> on, with \<open>k\<close> iterations to come. The first component tells
  whether the program goes on; if not, it calls \<open>exit(-1)\<close>.\<close>

fun fill_buffers :: "nat \<Rightarrow> nat \<Rightarrow> nat \<Rightarrow> slot list \<Rightarrow> example \<Rightarrow> (bool \<times> slot list \<times> example) option" where
  "fill_buffers n 0 i arr w = Some (True, arr, w)"
| "fill_buffers n (Suc k) i arr w =
    (if i < length arr then
       (case ex_malloc w of (b, w) \<Rightarrow>
          let arr = arr[i := Some b] in
          if b = NULL then Some (False, arr, w)
          else do {
            w \<leftarrow> ex_write b (usub n i) (ex_print (Allocated i b) w);
            fill_buffers n k (Suc i) arr w })
     else None)"

definition fill_pipe :: "fifo_config \<Rightarrow> nat \<Rightarrow> mem \<Rightarrow> mtdp_pipe \<Rightarrow> example \<Rightarrow> (bool \<times> mem \<times> mtdp_pipe \<times> example) option" where
  "fill_pipe cfg n m p w = do {
     (ret, _, m, p) \<leftarrow> mtdp_pipe_resize cfg m (Some p) n;
     p \<leftarrow> p;
     (case ret of
        NullPtr \<Rightarrow> Some (False, m, p, w)
      | PoolPtr _ \<Rightarrow>
          (case mtdp_pipe_buffers (Some p) of
             (PoolPtr (Some arr), _) \<Rightarrow> do {
               (ok, arr, w) \<leftarrow> fill_buffers n n 0 arr w;
               Some (ok, m, p\<lparr>pool := (pool p)\<lparr>buffers := Some arr\<rparr>\<rparr>, w) }
           | _ \<Rightarrow> None)) }"

text \<open>The outer loop: \<open>k\<close> pipes from \<open>i\<close> on.\<close>

fun fill_pipes :: "fifo_config \<Rightarrow> nat \<Rightarrow> nat \<Rightarrow> nat \<Rightarrow> mem \<Rightarrow> mtdp_pipe list \<Rightarrow> example \<Rightarrow>
    (bool \<times> mem \<times> mtdp_pipe list \<times> example) option" where
  "fill_pipes cfg n i 0 m ps w = Some (True, m, ps, w)"
| "fill_pipes cfg n i (Suc k) m ps w = do {
     p \<leftarrow> list_get ps i;
     (ok, m, p, w) \<leftarrow> fill_pipe cfg n m p w;
     if ok then fill_pipes cfg n (mtdp_pipe_next i) k m (ps[i := p]) w else Some (False, m, ps[i := p], w) }"

section \<open>The program up to the enabled pipeline\<close>

text \<open>\<open>N_STAGES\<close> is 1 in both programs.\<close>

definition N_STAGES :: nat where
  "N_STAGES = 1"

text \<open>Step 1: names and callbacks.\<close>

definition set_callbacks :: "example mtdp_source_callback \<Rightarrow> example mtdp_pipeline \<Rightarrow> example mtdp_pipeline option" where
  "set_callbacks source_payload pl = do {
     let so = so_user_data (source_impl pl);
     let so = so\<lparr>so_name := Some ''mtdp_source'', so_init := None, so_process := Some source_payload\<rparr>;
     let pl = pl\<lparr>source_impl := (source_impl pl)\<lparr>so_user_data := so\<rparr>\<rparr>;
     st \<leftarrow> list_get (stages pl) 0;
     let st = st\<lparr>st_name := Some ''mtdp_stage'', st_init := None, st_process := Some stage_payload\<rparr>;
     let pl = pl\<lparr>stages := (stages pl)[0 := st]\<rparr>;
     let sk = sk_user_data (sink_impl pl);
     let sk = sk\<lparr>sk_name := Some ''mtdp_sink'', sk_init := None, sk_process := Some sink_payload\<rparr>;
     Some (pl\<lparr>sink_impl := (sink_impl pl)\<lparr>sk_user_data := sk\<rparr>\<rparr>) }"

text \<open>Step 3: the data of the stages, local variables of \<open>main\<close>.\<close>

definition set_data :: "example mtdp_pipeline \<Rightarrow> example \<Rightarrow> (example mtdp_pipeline \<times> example) option" where
  "set_data pl w = do {
     (t, w) \<leftarrow> timestamp_from None w;
     let d = \<lparr>timestamp = t, iteration_index = 0\<rparr>;
     let w = w\<lparr>ex_data := (ex_data w)(data_address Source_part \<mapsto> d, data_address Stage_part \<mapsto> d, data_address Sink_part \<mapsto> d)\<rparr>;
     let pl = pl\<lparr>source_impl := (source_impl pl)\<lparr>so_user_data := (so_user_data (source_impl pl))\<lparr>so_data := data_address Source_part\<rparr>\<rparr>\<rparr>;
     st \<leftarrow> list_get (stages pl) 0;
     let pl = pl\<lparr>stages := (stages pl)[0 := st\<lparr>st_data := data_address Stage_part\<rparr>]\<rparr>;
     Some (pl\<lparr>sink_impl := (sink_impl pl)\<lparr>sk_user_data := (sk_user_data (sink_impl pl))\<lparr>sk_data := data_address Sink_part\<rparr>\<rparr>\<rparr>, w) }"

text \<open>Steps 0 to 4 (the results of the library's calls that the program ignores are ignored). The result
  \<open>Some None\<close>: the program has called \<open>exit(-1)\<close>.\<close>

definition example_setup :: "fifo_config \<Rightarrow> example mtdp_pipeline \<Rightarrow> mtdp_stage_impl \<Rightarrow> mtdp_pipe \<Rightarrow> nat \<Rightarrow>
    example mtdp_source_callback \<Rightarrow> mem \<Rightarrow> runtime \<Rightarrow> example \<Rightarrow>
    (mem \<times> runtime \<times> example mtdp_pipeline \<times> example) option option" where
  "example_setup cfg raw raw_impl raw_pipe N_BUFFERS source_payload m rt w = do {
     (pl, m, rt) \<leftarrow> mtdp_pipeline_create cfg raw raw_impl raw_pipe m rt N_STAGES;
     (case pl of
        None \<Rightarrow> Some None
      | Some pl \<Rightarrow> do {
          pl \<leftarrow> set_callbacks source_payload pl;
          (ok, m, ps, w) \<leftarrow> fill_pipes cfg N_BUFFERS 0 (1 + N_STAGES) m (pipes pl) w;
          (if ok then do {
             (pl, w) \<leftarrow> set_data (pl\<lparr>pipes := ps\<rparr>) w;
             (_, rt, pl) \<leftarrow> mtdp_pipeline_enable rt (Some pl);
             pl \<leftarrow> pl;
             Some (Some (m, rt, pl, w)) }
           else Some None) }) }"

section \<open>Starting, stopping and waiting\<close>

text \<open>The calls of \<open>main\<close> between enabling and disabling the pipeline: start, stop, the creation of a thread that
  runs \<open>wait_on\<close>, and the join of the thread that was created as number \<open>j\<close>.\<close>

datatype main_call = Call_start | Call_stop | Create_wait | Join_wait nat

text \<open>Where a thread of \<open>wait_on\<close> begins: but for its two lines of text it is the call of \<open>mtdp_pipeline_wait\<close>.\<close>

definition wait_on :: "'u mtdp_pipeline \<Rightarrow> wait_pc" where
  "wait_on pipeline = wait_entry (Some pipeline)"

definition returned :: "wait_pc \<Rightarrow> bool" where
  "returned p \<longleftrightarrow> (case p of Wait_returned e \<Rightarrow> True | _ \<Rightarrow> False)"

text \<open>The variables \<open>t1\<close>, \<open>t2\<close>, \<open>t3\<close>: whether each is the handle of a thread to be joined. The program ignores
  whether a creation succeeds; joining through a handle that was never set is undefined, and joining a thread that
  has not returned blocks. Both are \<open>None\<close>. The waiting threads stand at \<open>waits\<close> when they are joined.\<close>

definition create_wait :: "bool list \<Rightarrow> runtime \<Rightarrow> bool list \<times> runtime" where
  "create_wait hs rt =
    (case rt_call rt of (ret, rt) \<Rightarrow>
       if ret = thrd_success then (hs @ [True], rt\<lparr>threads := threads rt + 1\<rparr>) else (hs @ [False], rt))"

definition join_wait :: "wait_pc list \<Rightarrow> nat \<Rightarrow> bool list \<Rightarrow> runtime \<Rightarrow> (bool list \<times> runtime) option" where
  "join_wait waits j hs rt = do {
     h \<leftarrow> list_get hs j;
     p \<leftarrow> list_get waits j;
     (if h \<and> returned p then
        (case rt_call rt of (ret, rt) \<Rightarrow>
           if ret = thrd_success then Some (hs[j := False], rt\<lparr>threads := threads rt - 1\<rparr>) else Some (hs, rt))
      else None) }"

fun run_calls_of :: "wait_pc list \<Rightarrow> main_call list \<Rightarrow> bool list \<Rightarrow> runtime \<Rightarrow> 'u mtdp_pipeline \<Rightarrow> (runtime \<times> 'u mtdp_pipeline) option" where
  "run_calls_of waits [] hs rt pl = Some (rt, pl)"
| "run_calls_of waits (Call_start # cs) hs rt pl = do {
     (_, rt, pl) \<leftarrow> mtdp_pipeline_start rt (Some pl);
     pl \<leftarrow> pl;
     run_calls_of waits cs hs rt pl }"
| "run_calls_of waits (Call_stop # cs) hs rt pl = do {
     (_, rt, pl) \<leftarrow> mtdp_pipeline_stop rt (Some pl);
     pl \<leftarrow> pl;
     run_calls_of waits cs hs rt pl }"
| "run_calls_of waits (Create_wait # cs) hs rt pl = (case create_wait hs rt of (hs, rt) \<Rightarrow> run_calls_of waits cs hs rt pl)"
| "run_calls_of waits (Join_wait j # cs) hs rt pl = do {
     (hs, rt) \<leftarrow> join_wait waits j hs rt;
     run_calls_of waits cs hs rt pl }"

text \<open>\<open>finite_datastream.c\<close>\<close>

definition finite_calls :: "main_call list" where
  "finite_calls = [Call_start, Create_wait, Create_wait, Create_wait, Call_stop, Call_start, Join_wait 0, Join_wait 1, Join_wait 2]"

text \<open>\<open>infinite_datastream.c\<close>: \<open>keys\<close> are the answers its menu has got, one after each round.\<close>

definition infinite_calls :: "char list \<Rightarrow> main_call list" where
  "infinite_calls keys = concat (map (\<lambda>_. [Call_start, Call_stop]) keys) @ (if last keys = CHR ''x'' then [Call_start] else [])"

text \<open>Every thread created is joined, once and after its creation; \<open>hs\<close> are the handles so far.\<close>

fun balanced :: "bool list \<Rightarrow> main_call list \<Rightarrow> bool" where
  "balanced hs [] \<longleftrightarrow> True \<notin> set hs"
| "balanced hs (Create_wait # cs) \<longleftrightarrow> balanced (hs @ [True]) cs"
| "balanced hs (Join_wait j # cs) \<longleftrightarrow> j < length hs \<and> hs ! j \<and> balanced (hs[j := False]) cs"
| "balanced hs (_ # cs) \<longleftrightarrow> balanced hs cs"

lemma finite_balanced: "balanced [] finite_calls"
  by (simp add: finite_calls_def numeral_2_eq_2)

lemma infinite_balanced: "balanced [] (infinite_calls keys)" "Join_wait j \<notin> set (infinite_calls keys)"
proof -
  have "balanced [] (concat (map (\<lambda>_. [Call_start, Call_stop]) ks) @ (if b then [Call_start] else []))" for ks :: "char list" and b
    by (induction ks) simp_all
  then show "balanced [] (infinite_calls keys)" by (simp only: infinite_calls_def)
qed (auto simp: infinite_calls_def)

section \<open>The end of the program\<close>

text \<open>\<open>free(buffers[i])\<close> for the \<open>k\<close> buffers from \<open>i\<close> on, for the pipes from \<open>j\<close> on.\<close>

fun free_buffers :: "nat \<Rightarrow> nat \<Rightarrow> slot list \<Rightarrow> example \<Rightarrow> example option" where
  "free_buffers 0 i arr w = Some w"
| "free_buffers (Suc k) i arr w = do {
     b \<leftarrow> list_get arr i;
     b \<leftarrow> b;
     w \<leftarrow> ex_free b (ex_print (Deleting i b) w);
     free_buffers k (Suc i) arr w }"

fun free_pipes :: "nat \<Rightarrow> nat \<Rightarrow> nat \<Rightarrow> mtdp_pipe list \<Rightarrow> example \<Rightarrow> example option" where
  "free_pipes n 0 j ps w = Some w"
| "free_pipes n (Suc k) j ps w = do {
     p \<leftarrow> list_get ps j;
     (case mtdp_pipe_buffers (Some p) of
        (PoolPtr (Some arr), _) \<Rightarrow> do {
          w \<leftarrow> free_buffers n 0 arr w;
          free_pipes n k (mtdp_pipe_next j) ps w }
      | _ \<Rightarrow> None) }"

text \<open>The program from the enabled pipeline on: its calls \<open>cs\<close>, steps 7 to 9. The waiting threads stand at
  \<open>waits\<close> when \<open>main\<close> joins them, and the pipeline's threads have taken the pipeline to the state \<open>s\<close> when they end.\<close>

definition example_end :: "fifo_config \<Rightarrow> nat \<Rightarrow> wait_pc list \<Rightarrow> main_call list \<Rightarrow> example flow \<Rightarrow> mem \<Rightarrow> runtime \<Rightarrow> example mtdp_pipeline \<Rightarrow>
    (mem \<times> runtime \<times> example) option" where
  "example_end cfg N_BUFFERS waits cs s m rt pl = do {
     (rt, pl) \<leftarrow> run_calls_of waits cs [] rt pl;
     (_, m, rt, pl) \<leftarrow> mtdp_pipeline_disable (settle_at s) cfg m rt (Some pl);
     pl \<leftarrow> pl;
     w \<leftarrow> free_pipes N_BUFFERS (1 + N_STAGES) 0 (pipes pl) (sh_user (fl_sh s));
     (m, rt) \<leftarrow> mtdp_pipeline_destroy id cfg m rt (Some pl);
     Some (m, rt, w) }"

end
