(* ===== verification/Example_Fill.thy ===== *)
theory Example_Fill
  imports Example_Main
begin

text \<open>What the loops over the buffers do: filling the pipes and freeing the buffers.\<close>

section \<open>Filling\<close>

definition world_kept :: "example \<Rightarrow> example \<Rightarrow> bool" where
  "world_kept w w' \<longleftrightarrow> ex_data w' = ex_data w \<and> ex_clock w' = ex_clock w \<and> ex_fault w' = ex_fault w \<and> ex_reads w' = ex_reads w \<and> ex_grant w' = ex_grant w \<and>
     (\<forall>q. line_numbers q w' = line_numbers q w)"

text \<open>\<open>k\<close> new blocks with consecutive addresses, all written.\<close>

definition blocks_grown :: "nat \<Rightarrow> example \<Rightarrow> example \<Rightarrow> bool" where
  "blocks_grown k w w' \<longleftrightarrow> ex_next w' = ex_next w + k \<and>
     (\<forall>b. if b \<in> Ptr ` {ex_next w..<ex_next w + k} then \<exists>v. ex_blocks w' b = Some (Some v) else ex_blocks w' b = ex_blocks w b)"

lemma world_kept_refl [simp]: "world_kept w w"
  by (simp add: world_kept_def)

lemma world_kept_trans: "world_kept w1 w2 \<Longrightarrow> world_kept w2 w3 \<Longrightarrow> world_kept w1 w3"
  by (simp add: world_kept_def)

lemma blocks_grown_0 [simp]: "blocks_grown 0 w w"
  by (simp add: blocks_grown_def)

lemma blocks_grown_add:
  assumes "blocks_grown j w1 w2" "blocks_grown k w2 w3"
  shows "blocks_grown (j + k) w1 w3"
proof -
  have "if b \<in> Ptr ` {ex_next w1..<ex_next w1 + (j + k)} then \<exists>v. ex_blocks w3 b = Some (Some v) else ex_blocks w3 b = ex_blocks w1 b" for b
  proof -
    have "b \<in> Ptr ` {ex_next w1..<ex_next w1 + (j + k)} \<longleftrightarrow>
        b \<in> Ptr ` {ex_next w1..<ex_next w1 + j} \<or> b \<in> Ptr ` {ex_next w2..<ex_next w2 + k}"
      using assms(1) by (auto simp: blocks_grown_def image_iff)
    then show ?thesis using assms unfolding blocks_grown_def by (metis (full_types))
  qed
  then show ?thesis using assms by (simp add: blocks_grown_def)
qed

lemma ex_malloc_cases:
  obtains (refused) w' where "ex_malloc w = (NULL, w')" "world_kept w w'" "\<exists>j. \<not> ex_grant w j"
    | (granted) w' where "ex_malloc w = (Ptr (ex_next w), w')" "world_kept w w'" "ex_next w' = Suc (ex_next w)"
      "ex_blocks w' = (ex_blocks w)(Ptr (ex_next w) \<mapsto> None)"
proof (cases "ex_grant w (ex_asked w)")
  case True
  then show ?thesis by (intro granted[of "snd (ex_malloc w)"]) (simp_all add: ex_malloc_def Let_def world_kept_def line_numbers_def)
next
  case False
  then show ?thesis by (intro refused[of "snd (ex_malloc w)"]) (auto simp: ex_malloc_def Let_def world_kept_def line_numbers_def)
qed

lemma fill_buffers_outcome:
  assumes "i + k \<le> length arr"
  obtains ok arr' w' where "fill_buffers n k i arr w = Some (ok, arr', w')" "world_kept w w'"
    "ok \<longrightarrow> arr' = take i arr @ map Some (map Ptr [ex_next w..<ex_next w + k]) @ drop (i + k) arr" "ok \<longrightarrow> blocks_grown k w w'"
    "\<not> ok \<longrightarrow> (\<exists>j. \<not> ex_grant w j)"
  using assms
proof (induction k arbitrary: i arr w thesis)
  case 0
  then show ?case by simp
next
  case (Suc k)
  show ?case
  proof (cases rule: ex_malloc_cases[of w, case_names refused granted])
    case (refused w1)
    then show ?thesis using Suc.prems by (intro Suc.prems(1)[of False "arr[i := Some NULL]" w1]) simp_all
  next
    case (granted w1)
    let ?b = "Ptr (ex_next w)"
    let ?w2 = "(ex_print (Allocated i ?b) w1)\<lparr>ex_blocks := (ex_blocks w1)(?b \<mapsto> Some (usub n i))\<rparr>"
    have wr: "ex_write ?b (usub n i) (ex_print (Allocated i ?b) w1) = Some ?w2" using granted(4) by (simp add: ex_write_def)
    have ln: "line_number q (Allocated i ?b) = None" for q by (cases q) simp_all
    have "line_numbers q ?w2 = line_numbers q w1" for q
      using ln by (simp add: line_numbers_def ex_print_def)
    then have w2: "world_kept w ?w2" using granted(2) by (simp add: world_kept_def)
    have g2: "blocks_grown 1 w ?w2"
      using granted(3,4) by (auto simp: blocks_grown_def)
    obtain ok arr' w' where r: "fill_buffers n k (Suc i) (arr[i := Some ?b]) ?w2 = Some (ok, arr', w')" "world_kept ?w2 w'"
      "ok \<longrightarrow> arr' = take (Suc i) (arr[i := Some ?b]) @ map Some (map Ptr [ex_next ?w2..<ex_next ?w2 + k]) @ drop (Suc i + k) (arr[i := Some ?b])"
      "ok \<longrightarrow> blocks_grown k ?w2 w'" "\<not> ok \<longrightarrow> (\<exists>j. \<not> ex_grant ?w2 j)"
      by (rule Suc.IH[of "Suc i" "arr[i := Some ?b]" ?w2]) (use Suc.prems(2) in simp_all)
    have i: "i < length arr" using Suc.prems(2) by simp
    have "take (Suc i) (arr[i := Some ?b]) = take i arr @ [Some ?b]" using i by (simp add: take_Suc_conv_app_nth)
    then have "ok \<longrightarrow> arr' = take i arr @ map Some (map Ptr [ex_next w..<ex_next w + Suc k]) @ drop (i + Suc k) arr"
      using r(3) granted(3) by (simp add: upt_rec[of "ex_next w"] del: upt_Suc)
    moreover have "ok \<longrightarrow> blocks_grown (Suc k) w w'" using blocks_grown_add[OF g2, of k w'] r(4) by simp
    moreover have "fill_buffers n (Suc k) i arr w = Some (ok, arr', w')" using granted(1) wr r(1) i by (simp add: Let_def)
    moreover have "\<not> ok \<longrightarrow> (\<exists>j. \<not> ex_grant w j)" using r(5) w2 by (simp add: world_kept_def)
    ultimately show ?thesis using Suc.prems(1) world_kept_trans[OF w2 r(2)] by blast
  qed
qed

text \<open>A pipe is filled as \<open>load_pipe\<close> fills it with the new buffers.\<close>

lemma fill_pipe_outcome:
  assumes fresh: "pipe_fresh p" and n: "0 < n"
  obtains (failed) m' p' w' where "fill_pipe cfg n m p w = Some (False, m', p', w')"
      "(\<exists>j. \<not> avail m j) \<or> (\<exists>j. \<not> ex_grant w j)"
    | (filled) m' p' w' where "fill_pipe cfg n m p w = Some (True, m', p', w')"
      "load_pipe cfg m p (map Ptr [ex_next w..<ex_next w + n]) = Some (True, m', p')" "world_kept w w'" "blocks_grown n w w'"
proof -
  let ?bs = "map Ptr [ex_next w..<ex_next w + n]"
  obtain ok m' p' where l: "load_pipe cfg m p ?bs = Some (ok, m', p')" and ma: "malloc_array m = (ok, m')"
    by (rule load_pipe_fresh[OF fresh, of ?bs cfg m]) (use n in auto)
  obtain ret e m1 q where q: "mtdp_pipe_resize cfg m (Some p) n = Some (ret, e, m1, q)"
    using l by (auto simp: load_pipe_def bind_eq_Some_conv)
  obtain p1 where p1: "q = Some p1" using l q by (cases q) (simp_all add: load_pipe_def)
  have "m1 = m' \<and> (case ret of NullPtr \<Rightarrow> \<not> ok \<and> p' = p1 | PoolPtr _ \<Rightarrow>
      (case buffers (pool p1) of None \<Rightarrow> False | Some arr \<Rightarrow> n \<le> length arr \<and> ok \<and>
       p' = p1\<lparr>pool := (pool p1)\<lparr>buffers := Some (map Some ?bs @ drop n arr)\<rparr>\<rparr>))"
    using l q p1 by (cases ret; cases "buffers (pool p1)") (simp_all add: load_pipe_def mtdp_pipe_buffers_def split: if_splits)
  then have r: "mtdp_pipe_resize cfg m (Some p) n = Some (ret, e, m', Some p1)"
    "case ret of NullPtr \<Rightarrow> \<not> ok \<and> p' = p1 | PoolPtr _ \<Rightarrow> (case buffers (pool p1) of None \<Rightarrow> False | Some arr \<Rightarrow> n \<le> length arr \<and> ok \<and>
       p' = p1\<lparr>pool := (pool p1)\<lparr>buffers := Some (map Some ?bs @ drop n arr)\<rparr>\<rparr>)"
    using q p1 by simp_all
  show ?thesis
  proof (cases ret)
    case NullPtr
    then have "\<not> avail m (requests m)" using r(2) ma by (cases rule: malloc_array_cases[of m]) simp
    then show ?thesis using r NullPtr by (intro failed[of m' p1 w]) (auto simp: fill_pipe_def)
  next
    case (PoolPtr x)
    then obtain arr where a: "buffers (pool p1) = Some arr" "n \<le> length arr" "ok"
      "p' = p1\<lparr>pool := (pool p1)\<lparr>buffers := Some (map Some ?bs @ drop n arr)\<rparr>\<rparr>"
      using r(2) by (auto split: option.splits)
    obtain ok2 arr' w' where f: "fill_buffers n n 0 arr w = Some (ok2, arr', w')" "world_kept w w'"
      "ok2 \<longrightarrow> arr' = take 0 arr @ map Some ?bs @ drop (0 + n) arr" "ok2 \<longrightarrow> blocks_grown n w w'"
      "\<not> ok2 \<longrightarrow> (\<exists>j. \<not> ex_grant w j)"
      by (rule fill_buffers_outcome[of 0 n arr n w]) (use a(2) in simp)
    have e: "fill_pipe cfg n m p w = Some (ok2, m', p1\<lparr>pool := (pool p1)\<lparr>buffers := Some arr'\<rparr>\<rparr>, w')"
      using r(1) PoolPtr a(1) f(1) by (simp add: fill_pipe_def mtdp_pipe_buffers_def)
    show ?thesis
    proof (cases ok2)
      case True
      then show ?thesis using e f a l by (intro filled[of m' p' w']) simp_all
    next
      case False
      then show ?thesis using e f(5) by (intro failed) auto
    qed
  qed
qed

lemma fill_pipes_outcome:
  assumes "pipes_hold cfg m0 m ps" "mem_wf m0" "i + k \<le> length ps" "\<forall>j. i \<le> j \<longrightarrow> j < length ps \<longrightarrow> pipe_fresh (ps ! j)" "0 < n"
  obtains (failed) m' ps' w' where "fill_pipes cfg n i k m ps w = Some (False, m', ps', w')"
      "(\<exists>j. \<not> avail m0 j) \<or> (\<exists>j. \<not> ex_grant w j)"
    | (filled) bss m' ps' w' where "fill_pipes cfg n i k m ps w = Some (True, m', ps', w')"
      "load_pipes cfg i bss m ps = Some (True, m', ps')" "length bss = k" "\<forall>bs \<in> set bss. length bs = n"
      "concat bss = map Ptr [ex_next w..<ex_next w + k * n]" "world_kept w w'" "blocks_grown (k * n) w w'"
      "avail m' = avail m0"
  using assms
proof (induction k arbitrary: i m ps w thesis)
  case 0
  show ?case by (rule "0.prems"(2)[of m ps w "[]"]) (simp_all add: pipes_holdD(3)[OF "0.prems"(3)])
next
  case (Suc k)
  have i: "i < length ps" "pipe_fresh (ps ! i)" using Suc.prems(5,6) by simp_all
  show ?case
  proof (cases rule: fill_pipe_outcome[OF i(2) Suc.prems(7), of cfg m w, case_names failed filled])
    case (failed m1 p1 w1)
    then show ?thesis using i pipes_holdD(3)[OF Suc.prems(3)] by (intro Suc.prems(1)[of m1 "ps[i := p1]" w1]) auto
  next
    case (filled m1 p1 w1)
    let ?bs = "map Ptr [ex_next w..<ex_next w + n]"
    obtain ok m2 p2 where h: "load_pipe cfg m (ps ! i) ?bs = Some (ok, m2, p2)" "pipes_hold cfg m0 m2 (ps[i := p2])"
      by (rule load_pipe_hold[OF Suc.prems(3) i(1) Suc.prems(4) i(2), of ?bs]) (use Suc.prems(7) in auto)
    have hold: "pipes_hold cfg m0 m1 (ps[i := p1])" using h filled(2) by simp
    show ?thesis
    proof (rule Suc.IH[OF _ _ hold Suc.prems(4), of "Suc i" w1])
      fix m' ps' w' assume "fill_pipes cfg n (Suc i) k m1 (ps[i := p1]) w1 = Some (False, m', ps', w')"
        "(\<exists>j. \<not> avail m0 j) \<or> (\<exists>j. \<not> ex_grant w1 j)"
      then show ?thesis using filled(1,3) i by (intro Suc.prems(1)[of m' ps' w']) (auto simp: world_kept_def)
    next
      fix m' ps' w' and bss :: "mtdp_buffer list list"
      assume r: "fill_pipes cfg n (Suc i) k m1 (ps[i := p1]) w1 = Some (True, m', ps', w')"
        "load_pipes cfg (Suc i) bss m1 (ps[i := p1]) = Some (True, m', ps')" "length bss = k" "\<forall>bs \<in> set bss. length bs = n"
        "concat bss = map Ptr [ex_next w1..<ex_next w1 + k * n]" "world_kept w1 w'" "blocks_grown (k * n) w1 w'" "avail m' = avail m0"
      have "[ex_next w..<ex_next w + n] @ [ex_next w + n..<ex_next w + n + k * n] = [ex_next w..<ex_next w + Suc k * n]"
        using upt_add_eq_append[of "ex_next w" "ex_next w + n" "k * n"] by (simp add: algebra_simps)
      then have "concat (?bs # bss) = map Ptr [ex_next w..<ex_next w + Suc k * n]"
        using r(5) filled(4) by (simp add: blocks_grown_def flip: map_append)
      then show ?thesis using r filled i blocks_grown_add[OF filled(4) r(7)] world_kept_trans[OF filled(3) r(6)]
        by (intro Suc.prems(2)[of m' ps' w' "?bs # bss"]) simp_all
    qed (use Suc.prems i in auto)
  qed
qed

section \<open>Freeing\<close>

lemma free_buffers_ok:
  assumes "i + k \<le> length arr" "take k (drop i arr) = map Some bs" "distinct bs" "NULL \<notin> set bs" "\<forall>b \<in> set bs. ex_blocks w b \<noteq> None"
  shows "\<exists>w'. free_buffers k i arr w = Some w' \<and> ex_blocks w' = (\<lambda>b. if b \<in> set bs then None else ex_blocks w b)"
  using assms
proof (induction k arbitrary: i bs w)
  case (Suc k)
  have i: "i < length arr" using Suc.prems(1) by simp
  then have "take (Suc k) (drop i arr) = arr ! i # take k (drop (Suc i) arr)" by (simp add: Cons_nth_drop_Suc[symmetric])
  then obtain b cs where b: "bs = b # cs" "arr ! i = Some b" "take k (drop (Suc i) arr) = map Some cs"
    using Suc.prems(2) by (auto simp: Cons_eq_map_conv)
  let ?w = "(ex_print (Deleting i b) w)\<lparr>ex_blocks := (ex_blocks w)(b := None)\<rparr>"
  have f: "ex_free b (ex_print (Deleting i b) w) = Some ?w" using Suc.prems(4,5) b(1) by (auto simp: ex_free_def)
  obtain w' where w': "free_buffers k (Suc i) arr ?w = Some w'" "ex_blocks w' = (\<lambda>c. if c \<in> set cs then None else ex_blocks ?w c)"
    using Suc.IH[of "Suc i" cs ?w] Suc.prems b by fastforce
  then show ?case using i b f by (auto simp: fun_eq_iff)
qed simp

lemma free_pipes_ok:
  assumes "j + k \<le> length ps"
    "\<And>i. j \<le> i \<Longrightarrow> i < j + k \<Longrightarrow> pool_inv (pool (ps ! i)) \<and> mset (pool_elems (pool (ps ! i))) = mset (bss ! i) \<and> length (bss ! i) = n"
    "0 < n" "distinct (concat (map ((!) bss) [j..<j + k]))" "NULL \<notin> set (concat (map ((!) bss) [j..<j + k]))"
    "\<forall>b \<in> set (concat (map ((!) bss) [j..<j + k])). ex_blocks w b \<noteq> None"
  shows "\<exists>w'. free_pipes n k j ps w = Some w' \<and>
    ex_blocks w' = (\<lambda>b. if b \<in> set (concat (map ((!) bss) [j..<j + k])) then None else ex_blocks w b)"
  using assms
proof (induction k arbitrary: j w)
  case (Suc k)
  let ?p = "ps ! j" and ?cs = "concat (map ((!) bss) [Suc j..<Suc j + k])"
  have j: "j < length ps" using Suc.prems(1) by simp
  have p: "pool_inv (pool ?p)" "mset (pool_elems (pool ?p)) = mset (bss ! j)" "length (bss ! j) = n"
    using Suc.prems(2)[of j] by simp_all
  have u: "concat (map ((!) bss) [j..<j + Suc k]) = bss ! j @ ?cs" by (subst upt_conv_Cons) simp_all
  note d = Suc.prems(4-6)[unfolded u distinct_append set_append]
  have sz: "psize (pool ?p) = n" using p length_pool_elems[OF p(1)] by (metis size_mset)
  then have cap: "pcapacity (pool ?p) \<noteq> 0" "n \<le> pcapacity (pool ?p)" using p(1) Suc.prems(3) by (auto simp: pool_inv_def pool_wf_def)
  obtain arr where arr: "buffers (pool ?p) = Some arr" "length arr = pcapacity (pool ?p)"
    using p(1) cap(1) by (auto simp: pool_inv_def pool_wf_def)
  have a: "buffers (pool ?p) = Some arr" "n \<le> length arr" "None \<notin> set (take n arr)"
    "pool_elems (pool ?p) = map the (take n arr)"
    using p(1) sz Suc.prems(3) arr cap(2) by (simp_all add: pool_inv_def pool_elems_def pool_slots_def)
  have el: "take n arr = map Some (pool_elems (pool ?p))"
    unfolding a(4) by (rule nth_equalityI) (use a(2,3) in \<open>auto simp: in_set_conv_nth\<close>)
  have st: "set (pool_elems (pool ?p)) = set (bss ! j)" "distinct (pool_elems (pool ?p)) = distinct (bss ! j)"
    using p(2) mset_eq_setD mset_eq_imp_distinct_iff by blast+
  obtain w1 where w1: "free_buffers n 0 arr w = Some w1" "ex_blocks w1 = (\<lambda>b. if b \<in> set (bss ! j) then None else ex_blocks w b)"
    using free_buffers_ok[of 0 n arr "pool_elems (pool ?p)" w] a(2) el st d by auto
  obtain w2 where w2: "free_pipes n k (Suc j) ps w1 = Some w2" "ex_blocks w2 = (\<lambda>b. if b \<in> set ?cs then None else ex_blocks w1 b)"
  proof -
    have "Suc j + k \<le> length ps" "distinct ?cs" "NULL \<notin> set ?cs" using Suc.prems(1) d by simp_all
    moreover have "\<forall>b \<in> set ?cs. ex_blocks w1 b \<noteq> None"
    proof
      fix b assume "b \<in> set ?cs"
      then have "b \<notin> set (bss ! j)" "ex_blocks w b \<noteq> None" using d by blast+
      then show "ex_blocks w1 b \<noteq> None" by (simp add: w1(2))
    qed
    ultimately show ?thesis using that Suc.IH[of "Suc j" w1] Suc.prems(2,3) by auto
  qed
  then show ?case unfolding u using j a(1) w1 by (auto simp: mtdp_pipe_buffers_def fun_eq_iff)
qed simp

end
