(* ===== verification/Granted.thy ===== *)
theory Granted
  imports Pipeline_Create
begin

text \<open>
  Creation on a machine that never refuses an allocation, a mutex or a semaphore: the counterpart
  of the error paths of theory Pipeline_Create.
\<close>

definition all_granted :: "mem \<Rightarrow> bool" where
  "all_granted m \<longleftrightarrow> (\<forall>j. avail m j)"

lemma all_granted_cong: "all_granted m \<Longrightarrow> avail m' = avail m \<Longrightarrow> all_granted m'"
  by (simp add: all_granted_def)

lemma sync_init_granted: "all_granted m \<Longrightarrow> fst (sync_init m) \<and> all_granted (snd (sync_init m))"
  by (simp add: all_granted_def mem_simps)

lemma malloc_array_granted: "all_granted m \<Longrightarrow> fst (malloc_array m) \<and> all_granted (snd (malloc_array m))"
  by (cases rule: malloc_array_cases[of m]) (simp add: all_granted_def)

lemma fifo_init_granted:
  "all_granted m \<Longrightarrow> fst (mtdp_buffer_fifo_init cfg m f) \<and> all_granted (fst (snd (mtdp_buffer_fifo_init cfg m f)))"
  by (auto simp: all_granted_def mtdp_buffer_fifo_init_def mtdp_buffer_fifo_blocks_init_def malloc_array_def request_def
      mtdp_buffer_fifo_block_alloc_def Let_def split: if_splits prod.splits)

lemma pipe_init_granted:
  assumes "all_granted m"
  shows "\<exists>m' p'. mtdp_pipe_init cfg m p = Some (True, m', p') \<and> all_granted m'"
proof -
  obtain m1 where 1: "sync_init m = (True, m1)" "all_granted m1" using sync_init_granted[OF assms] by (cases "sync_init m") auto
  obtain m2 where 2: "sync_init m1 = (True, m2)" "all_granted m2" using sync_init_granted[OF 1(2)] by (cases "sync_init m1") auto
  obtain m3 f where 3: "mtdp_buffer_fifo_init cfg m2 (fifo p) = (True, m3, f)" "all_granted m3"
    using fifo_init_granted[OF 2(2), of cfg "fifo p"] by (metis (full_types) fst_conv snd_conv surj_pair)
  obtain m4 where 4: "sync_init m3 = (True, m4)" "all_granted m4" using sync_init_granted[OF 3(2)] by (cases "sync_init m3") auto
  show ?thesis using 1 2 3 4 by (simp add: mtdp_pipe_init_def)
qed

lemma init_pipes_granted:
  assumes "all_granted m" "i + n \<le> length ps"
  shows "\<exists>m' ps'. init_pipes cfg i n m ps = Some (None, m', ps') \<and> all_granted m' \<and> length ps' = length ps"
  using assms
proof (induction n arbitrary: i m ps)
  case (Suc n)
  obtain m1 p1 where p: "mtdp_pipe_init cfg m (ps ! i) = Some (True, m1, p1)" "all_granted m1"
    using pipe_init_granted[OF Suc.prems(1)] by blast
  show ?case using Suc.IH[of m1 "Suc i" "ps[i := p1]"] p Suc.prems(2) by auto
qed simp

lemma pipeline_create_granted:
  assumes "all_granted m"
  obtains pl m' rt' where "mtdp_pipeline_create cfg raw raw_impl raw_pipe m rt n = Some (Some pl, m', rt')" "all_granted m'"
proof -
  obtain m1 where 1: "malloc_array m = (True, m1)" "all_granted m1" using malloc_array_granted[OF assms] by (cases "malloc_array m") auto
  obtain m2 where 2: "malloc_array m1 = (True, m2)" "all_granted m2" using malloc_array_granted[OF 1(2)] by (cases "malloc_array m1") auto
  obtain m3 where 3: "malloc_array m2 = (True, m3)" "all_granted m3" using malloc_array_granted[OF 2(2)] by (cases "malloc_array m2") auto
  obtain m4 where 4: "malloc_array m3 = (True, m4)" "all_granted m4" using malloc_array_granted[OF 3(2)] by (cases "malloc_array m3") auto
  obtain m5 ps where 5: "init_pipes cfg 0 (n + 1) m4 (replicate (n + 1) raw_pipe) = Some (None, m5, ps)" "all_granted m5"
    "length ps = n + 1"
    using init_pipes_granted[OF 4(2), of 0 "n + 1" "replicate (n + 1) raw_pipe" cfg] by auto
  let ?pl = "raw\<lparr>stages := replicate n zero_stage, stage_impls := replicate n raw_impl, pipes := ps, n_stages := n\<rparr>"
  obtain rt1 pl where 6: "mtdp_pipeline_configure rt ?pl = Some (rt1, pl)"
    by (rule pipeline_configure[of ?pl n]) (use 5(3) in simp_all)
  show ?thesis by (rule that[of pl m5 "set_errno MTDP_OK rt1"])
    (use 1 2 3 4 5 6 in \<open>simp_all add: mtdp_pipeline_create_def mtdp_pipeline_alloc_def mtdp_stage_vector_resize_def
       mtdp_stage_impl_vector_resize_def mtdp_pipe_vector_resize_def del: init_pipes.simps\<close>)
qed

end
