(* ===== verification/Example_Setup.thy ===== *)
theory Example_Setup
  imports Example_Fill Granted
begin

text \<open>The program up to the enabled pipeline, as a client of the library (theory Pipeline_Life).\<close>

section \<open>The users of the pipeline\<close>

definition example_source :: "example mtdp_source_callback \<Rightarrow> example mtdp_source" where
  "example_source source_payload = \<lparr>so_name = Some ''mtdp_source'', so_data = data_address Source_part, so_init = None,
     so_process = Some source_payload\<rparr>"

definition example_stage :: "example mtdp_stage" where
  "example_stage = \<lparr>st_name = Some ''mtdp_stage'', st_data = data_address Stage_part, st_init = None, st_process = Some stage_payload\<rparr>"

definition example_sink :: "example mtdp_sink" where
  "example_sink = \<lparr>sk_name = Some ''mtdp_sink'', sk_data = data_address Sink_part, sk_init = None, sk_process = Some sink_payload\<rparr>"

lemma example_users_ok:
  "polite_source pay \<Longrightarrow> source_user_ok (example_source pay)" "stage_user_ok example_stage" "sink_user_ok example_sink"
  by (simp_all add: source_user_ok_def stage_user_ok_def sink_user_ok_def example_source_def example_stage_def example_sink_def
      polite_stage_def polite_sink_def stage_payload_def sink_payload_def)

lemma example_polite: "polite_source source_payload_infinite" "polite_source source_payload_finite"
  by (simp_all add: polite_source_def source_payload_infinite_def source_payload_finite_def split: option.split prod.split)

lemma example_handing: "hand_stage stage_payload" "hand_sink sink_payload"
  by (simp_all add: hand_stage_def hand_sink_def stage_payload_def sink_payload_def)

section \<open>The set-up\<close>

text \<open>The program at its start; the clock never shows less than at its first reading (which it
  does when the program runs past midnight UTC).\<close>

definition example_begin :: "example \<Rightarrow> bool" where
  "example_begin w \<longleftrightarrow> ex_blocks w = Map.empty \<and> ex_lines w = [] \<and> ex_reads w = 0 \<and> \<not> ex_fault w"

definition same_day :: "example \<Rightarrow> bool" where
  "same_day w \<longleftrightarrow> (\<forall>k. microseconds (ex_clock w 0) \<le> microseconds (ex_clock w k))"

lemma set_users:
  assumes "length (stages pl) = 1" "set_callbacks pay pl = Some pl1" "set_data (pl1\<lparr>pipes := ps\<rparr>) w = Some (pl2, w2)"
  shows "pl2 = client_setup (example_source pay) [example_stage] example_sink ps pl"
proof -
  obtain u where u: "stages pl = [u]" using assms(1) by (cases "stages pl") auto
  have "\<And>r :: example mtdp_source. r\<lparr>so_name := a, so_init := b, so_process := c, so_data := d\<rparr> = \<lparr>so_name = a, so_data = d, so_init = b, so_process = c\<rparr>"
    for a b c d by simp
  moreover have "\<And>r :: example mtdp_stage. r\<lparr>st_name := a, st_init := b, st_process := c, st_data := d\<rparr> = \<lparr>st_name = a, st_data = d, st_init = b, st_process = c\<rparr>"
    for a b c d by simp
  moreover have "\<And>r :: example mtdp_sink. r\<lparr>sk_name := a, sk_init := b, sk_process := c, sk_data := d\<rparr> = \<lparr>sk_name = a, sk_data = d, sk_init = b, sk_process = c\<rparr>"
    for a b c d by simp
  ultimately show ?thesis using assms(2,3) u
    by (auto simp: set_callbacks_def set_data_def Let_def bind_eq_Some_conv client_setup_def example_source_def
        example_stage_def example_sink_def)
qed

lemma set_callbacks_total: "length (stages pl) = 1 \<Longrightarrow> \<exists>pl1. set_callbacks pay pl = Some pl1 \<and> pipes pl1 = pipes pl \<and> length (stages pl1) = 1"
  by (simp add: set_callbacks_def Let_def)

lemma set_data_total:
  assumes "length (stages pl) = 1"
  shows "\<exists>pl2 w2. set_data pl w = Some (pl2, w2) \<and> ex_blocks w2 = ex_blocks w \<and> ex_next w2 = ex_next w \<and> ex_clock w2 = ex_clock w \<and>
    ex_fault w2 = ex_fault w \<and> ex_lines w2 = ex_lines w \<and>
    (\<forall>p. ex_data w2 (data_address p) = Some \<lparr>timestamp = microseconds (ex_clock w (ex_reads w)), iteration_index = 0\<rparr>)"
proof -
  have all: "(\<forall>p. P p) \<longleftrightarrow> P Source_part \<and> P Stage_part \<and> P Sink_part" for P by (metis part.exhaust)
  show ?thesis unfolding all using assms
    by (simp add: set_data_def timestamp_from_def Let_def bind_eq_Some_conv del: data_address.simps)
qed

text \<open>The set-up is a run of the client of theory Pipeline_Life with the blocks it has allocated, or
  it gives up. Nothing in it is undefined.\<close>

lemma example_setup_cases:
  assumes cfg: "config_ok cfg" and m: "mem_wf m" and rt: "runtime_ok rt" and n: "0 < n"
    and pay: "polite_source pay" and w: "example_begin w"
  obtains (exited) "example_setup cfg raw raw_impl raw_pipe n pay m rt w = Some None"
      "\<not> (all_granted m \<and> (\<forall>j. ex_grant w j))"
    | (enabled) m2 rt2 pl2 w2 bs0 bs1 where "example_setup cfg raw raw_impl raw_pipe n pay m rt w = Some (Some (m2, rt2, pl2, w2))"
      "client_start cfg raw raw_impl raw_pipe m rt [bs0, bs1] (example_source pay) [example_stage] example_sink = Some (m2, rt2, pl2)"
      "length bs0 = n" "length bs1 = n" "bs0 @ bs1 = map Ptr [ex_next w..<ex_next w + 2 * n]"
      "\<forall>b. if b \<in> set (bs0 @ bs1) then \<exists>v. ex_blocks w2 b = Some (Some v) else ex_blocks w2 b = None"
      "\<not> ex_fault w2" "ex_clock w2 = ex_clock w" "\<And>q. line_numbers q w2 = []"
      "\<And>p. ex_data w2 (data_address p) = Some \<lparr>timestamp = microseconds (ex_clock w 0), iteration_index = 0\<rparr>"
      "all_granted m \<longrightarrow> all_granted m2"
proof (cases rule: pipeline_create_cases[OF cfg m, of raw raw_impl raw_pipe rt N_STAGES, case_names None Some])
  case (None m' rt')
  then have "\<not> all_granted m"
    by (metis pipeline_create_granted[of m cfg raw raw_impl raw_pipe rt N_STAGES] Pair_inject option.distinct(1) option.inject)
  then show ?thesis using None by (intro exited) (simp_all add: example_setup_def)
next
  case (Some m0 pl m1 rt1 rt')
  note conf = Some(2)[unfolded pipeline_configured_def N_STAGES_def]
  have l1: "length (stages pl) = 1" using conf by simp
  obtain pl1 where pl1: "set_callbacks pay pl = Some pl1" "pipes pl1 = pipes pl" "length (stages pl1) = 1"
    using set_callbacks_total[OF l1, of pay] by blast
  have lp: "0 + (1 + N_STAGES) \<le> length (pipes pl)" "\<forall>j. 0 \<le> j \<longrightarrow> j < length (pipes pl) \<longrightarrow> pipe_fresh (pipes pl ! j)"
    using conf Some(4) by (simp_all add: N_STAGES_def)
  have granted: "all_granted m0" if g: "all_granted m"
  proof -
    obtain pl' m'' rt'' where "mtdp_pipeline_create cfg raw raw_impl raw_pipe m rt N_STAGES = Some (Some pl', m'', rt'')"
      "all_granted m''" by (rule pipeline_create_granted[OF g])
    then show ?thesis using Some(1) all_granted_cong pipes_holdD(3)[OF Some(3)] by auto
  qed
  show ?thesis
  proof (cases rule: fill_pipes_outcome[OF Some(3,5) lp n, of w, case_names failed filled])
    case (failed m' ps' w')
    have "\<not> (all_granted m \<and> (\<forall>j. ex_grant w j))" using failed(2) granted by (auto simp: all_granted_def)
    then show ?thesis using failed(1) Some(1) pl1 by (intro exited) (simp_all add: example_setup_def del: fill_pipes.simps)
  next
    case (filled bss m2 ps w1)
    obtain bs0 bs1 where bss: "bss = [bs0, bs1]" using filled(3) by (auto simp: N_STAGES_def length_Suc_conv)
    have "length (stages (pl1\<lparr>pipes := ps\<rparr>)) = 1" using pl1 by simp
    from set_data_total[OF this, of w1] obtain pl2 w2 where d: "set_data (pl1\<lparr>pipes := ps\<rparr>) w1 = Some (pl2, w2)"
      "ex_blocks w2 = ex_blocks w1" "ex_clock w2 = ex_clock w1" "ex_fault w2 = ex_fault w1" "ex_lines w2 = ex_lines w1"
      "\<forall>p. ex_data w2 (data_address p) = Some \<lparr>timestamp = microseconds (ex_clock w1 (ex_reads w1)), iteration_index = 0\<rparr>"
      by blast
    have pl2: "pl2 = client_setup (example_source pay) [example_stage] example_sink ps pl" by (rule set_users[OF l1 pl1(1) d(1)])
    have rt1: "runtime_ok rt1" using Some(10) rt by blast
    obtain rt3 where en: "mtdp_pipeline_enable rt1 (Some pl2) = Some (True, rt3, Some (pipeline_started pl2))"
      by (rule pipeline_enable_ok[OF rt1, of pl2]) (use conf in \<open>auto simp: pl2 client_setup_def stage_configured_def\<close>)
    show ?thesis
    proof (rule enabled[of m2 rt3 "pipeline_started pl2" w2 bs0 bs1])
      show "example_setup cfg raw raw_impl raw_pipe n pay m rt w = Some (Some (m2, rt3, pipeline_started pl2, w2))"
        using Some(1) pl1 filled(1) d(1) en by (simp add: example_setup_def del: fill_pipes.simps)
      show "client_start cfg raw raw_impl raw_pipe m rt [bs0, bs1] (example_source pay) [example_stage] example_sink =
          Some (m2, rt3, pipeline_started pl2)"
        using Some(1) filled(2) en pl2 bss by (simp add: client_start_def N_STAGES_def del: load_pipes.simps)
      show "length bs0 = n" "length bs1 = n" using filled(4) bss by simp_all
      show cc: "bs0 @ bs1 = map Ptr [ex_next w..<ex_next w + 2 * n]"
        using filled(5) bss by (simp add: N_STAGES_def mult_2)
      show "\<forall>b. if b \<in> set (bs0 @ bs1) then \<exists>v. ex_blocks w2 b = Some (Some v) else ex_blocks w2 b = None"
        unfolding cc using filled(7) w d(2) by (simp add: blocks_grown_def example_begin_def N_STAGES_def mult_2)
      show "all_granted m \<longrightarrow> all_granted m2" using granted filled(8) by (auto simp: all_granted_def)
      show "\<not> ex_fault w2" "ex_clock w2 = ex_clock w" using d filled(6) w by (simp_all add: world_kept_def example_begin_def)
      have "line_numbers q w2 = line_numbers q w1" for q using d(5) by (simp add: line_numbers_def)
      then show "line_numbers q w2 = []" for q using filled(6) w by (simp add: world_kept_def example_begin_def line_numbers_def)
      show "ex_data w2 (data_address p) = Some \<lparr>timestamp = microseconds (ex_clock w 0), iteration_index = 0\<rparr>" for p
        using d(6) filled(6) w by (simp add: world_kept_def example_begin_def)
    qed
  qed
qed

end
