(* ===== verification/Source_Starts.thy ===== *)
theory Source_Starts
  imports Drained
begin

text \<open>
  The source of a pipeline just started gets an empty buffer, has it filled and pushes it: the first
  five steps of its thread, when its callback sets \<open>ready_to_push\<close>.
\<close>

definition eager_source :: "'u mtdp_source_callback \<Rightarrow> bool" where
  "eager_source f \<longleftrightarrow> (\<forall>u b c. so_ready_to_push (fst (snd (f u b c))))"

lemma source_moveE:
  assumes inv: "flow_inv cfg B s"
  obtains r sh self s' where "source_step cfg (so_at s) (fl_sh s, fl_source s) = Some (r, sh, self)"
    "flow_run cfg [Source_thread] s = Some s'" "flow_inv cfg B s'" "so_at s' = source_next r" "fl_source s' = self" "fl_sh s' = sh"
    "pushed s' 0 = pushed s 0 @ source_pushes (so_at s) r (fl_source s)"
proof -
  have k: "so_output_pipe (fl_source s) = 0" using flow_invD(5)[OF inv] by (simp add: source_ok_def)
  obtain s' where mv: "flow_run cfg [Source_thread] s = Some s'"
    using flow_run_total[OF inv, of "[Source_thread]"] by (auto simp: flow_threads_def)
  then have "source_move cfg s = Some s'" by (auto simp: bind_eq_Some_conv split: if_splits)
  moreover from this obtain r sh self where "source_step cfg (so_at s) (fl_sh s, fl_source s) = Some (r, sh, self)"
    by (auto simp: source_move_def bind_eq_Some_conv)
  moreover have "flow_inv cfg B s'"
    using flow_reach_inv[OF flow_run_reach[OF flow_reach.start mv] inv] .
  ultimately show ?thesis using mv k by (intro that[of r sh self s']) (auto simp: source_move_def Let_def)
qed

lemma flow_run_join:
  "flow_run cfg xs s = Some s1 \<Longrightarrow> flow_run cfg ys s1 = Some s2 \<Longrightarrow> flow_run cfg (xs @ ys) s = Some s2"
  by (simp add: flow_run_append)

text \<open>It gets a buffer; what its callback will see.\<close>

lemma source_gets:
  assumes st: "flow_start cfg B s0" and B: "B 0 \<noteq> {#}"
  obtains s1 s2 where "flow_run cfg [Source_thread] s0 = Some s1" "so_at s1 = So_Get" "fl_source s1 = fl_source s0"
    "flow_run cfg [Source_thread] s1 = Some s2" "flow_inv cfg B s2" "so_at s2 = So_Process" "pushed s2 0 = []"
    "so_user_data (fl_source s2) = so_user_data (fl_source s0)" "so_worker (fl_source s2) = so_worker (fl_source s0)"
    "so_self (so_context (fl_source s2)) = so_self (so_context (fl_source s0))" "so_output (so_context (fl_source s2)) \<in># B 0"
    "sh_user (fl_sh s2) = sh_user (fl_sh s0)"
proof -
  note inv0 = flow_start_inv[OF st]
  have z: "so_at s0 = So_Entry" "\<not> so_ready_to_push (so_context (fl_source s0))" "so_output (so_context (fl_source s0)) = NULL"
    "so_output_pipe (fl_source s0) = 0" "pushed s0 0 = []"
    using st by (simp_all add: flow_start_def Let_def)
  have p: "0 < length (sh_pipes (fl_sh s0))" "pipe_inv cfg (sh_mem (fl_sh s0)) (sh_pipes (fl_sh s0) ! 0)"
    "mset (pool_elems (pool (sh_pipes (fl_sh s0) ! 0))) = B 0" "NULL \<notin># B 0"
    using st by (auto simp: flow_start_def Let_def)
  obtain s1 where s1: "flow_run cfg [Source_thread] s0 = Some s1" "flow_inv cfg B s1" "so_at s1 = So_Get"
      "fl_source s1 = fl_source s0" "fl_sh s1 = fl_sh s0" "pushed s1 0 = []"
    by (rule source_moveE[OF inv0]) (use z in \<open>auto simp: source_step_def source_next_def source_pushes_def\<close>)
  obtain b q where b: "mtdp_pipe_get_empty_buffer (sh_pipes (fl_sh s0) ! 0) = Some (b, q)"
    "psize (pool (sh_pipes (fl_sh s0) ! 0)) \<noteq> 0 \<longrightarrow> pool_elems (pool (sh_pipes (fl_sh s0) ! 0)) = pool_elems (pool q) @ [b]"
    by (rule pipe_get_empty_buffer[OF p(2)])
  have "psize (pool (sh_pipes (fl_sh s0) ! 0)) \<noteq> 0"
    using length_pool_elems[of "pool (sh_pipes (fl_sh s0) ! 0)"] p(3) B pipe_invD(3)[OF p(2)] by (metis length_0_conv mset.simps(1))
  then have "pool_elems (pool (sh_pipes (fl_sh s0) ! 0)) = pool_elems (pool q) @ [b]" using b(2) by blast
  then have bB: "b \<in># B 0" unfolding p(3)[symmetric] by simp
  then have nb: "b \<noteq> NULL" using p(4) by blast
  have pg: "so_at s1 = So_Get" "pipe_at (fl_sh s1) 0 = Some (sh_pipes (fl_sh s0) ! 0)" using s1 p(1) by (simp_all add: pipe_at_def)
  obtain s2 where s2: "flow_run cfg [Source_thread] s1 = Some s2" "flow_inv cfg B s2" "so_at s2 = So_Process" "pushed s2 0 = []"
      "fl_source s2 = (fl_source s0)\<lparr>so_context := (so_context (fl_source s0))\<lparr>so_output := b\<rparr>\<rparr>" "sh_user (fl_sh s2) = sh_user (fl_sh s0)"
    by (rule source_moveE[OF s1(2)])
       (use s1(4-6) pg z(3,4) b(1) nb in \<open>auto simp: source_step_def Let_def source_next_def source_pushes_def set_pipe_def\<close>)
  show ?thesis by (rule that[OF s1(1,3,4) s2(1-4)]) (use bB s2(5,6) in simp_all)
qed

lemma source_starts:
  assumes st: "flow_start cfg B s0" and B: "B 0 \<noteq> {#}"
    and f: "so_process (so_user_data (fl_source s0)) = Some f" "eager_source f" "so_init (so_user_data (fl_source s0)) = None"
  obtains s where "flow_run cfg [Source_thread, Source_thread, Source_thread] s0 = Some s" "flow_inv cfg B s" "so_at s = So_Entry"
    "so_ready_to_push (so_context (fl_source s))" "pushed s 0 = []"
proof -
  obtain s1 s2 where s2: "flow_run cfg [Source_thread] s0 = Some s1" "flow_run cfg [Source_thread] s1 = Some s2" "flow_inv cfg B s2"
    "so_at s2 = So_Process" "pushed s2 0 = []" "so_user_data (fl_source s2) = so_user_data (fl_source s0)"
    by (rule source_gets[OF st B])
  obtain r sh self s3 where s3: "source_step cfg (so_at s2) (fl_sh s2, fl_source s2) = Some (r, sh, self)"
    "flow_run cfg [Source_thread] s2 = Some s3" "flow_inv cfg B s3" "so_at s3 = source_next r" "fl_source s3 = self"
    "pushed s3 0 = pushed s2 0 @ source_pushes (so_at s2) r (fl_source s2)"
    by (rule source_moveE[OF s2(3)])
  have e: "r = None" "so_ready_to_push (so_context self)"
    using s3(1) s2(4,6) f by (auto simp: source_step_def Let_def bind_eq_Some_conv call_source_def eager_source_def
        case_prod_unfold split: if_splits)
  have "flow_run cfg [Source_thread, Source_thread, Source_thread] s0 = Some s3"
    using flow_run_join[OF s2(1) flow_run_join[OF s2(2) s3(2)]] by (simp del: flow_run.simps)
  then show ?thesis by (rule that[OF _ s3(3)]) (use e s3(4-6) s2(4,5) in \<open>simp_all add: source_next_def source_pushes_def\<close>)
qed

lemma source_delivers:
  assumes inv: "flow_inv cfg B s" and pc: "so_at s = So_Entry" "so_ready_to_push (so_context (fl_source s))"
    and a: "\<forall>n. avail (sh_mem (fl_sh s)) n"
  obtains s' where "flow_run cfg [Source_thread, Source_thread] s = Some s'" "so_at s' = So_Get"
    "length (pushed s' 0) = Suc (length (pushed s 0))"
proof -
  have k: "so_output_pipe (fl_source s) = 0" using flow_invD(5)[OF inv] by (simp add: source_ok_def)
  have p: "pipe_inv cfg (sh_mem (fl_sh s)) (sh_pipes (fl_sh s) ! 0)" using flow_pipe_inv[of cfg B s 0] inv by simp
  obtain r sh self s1 where s1: "source_step cfg (so_at s) (fl_sh s, fl_source s) = Some (r, sh, self)"
    "flow_run cfg [Source_thread] s = Some s1" "flow_inv cfg B s1" "so_at s1 = source_next r"
    "pushed s1 0 = pushed s 0 @ source_pushes (so_at s) r (fl_source s)"
    by (rule source_moveE[OF inv])
  have r: "r = Some So_Release" using s1(1) pc k a
    by (auto simp: source_step_def Let_def bind_eq_Some_conv pipe_at_def dest: push_buffer_avail[OF p] split: if_splits)
  obtain r' sh' self' s2 where s2: "source_step cfg (so_at s1) (fl_sh s1, fl_source s1) = Some (r', sh', self')"
    "flow_run cfg [Source_thread] s1 = Some s2" "flow_inv cfg B s2" "so_at s2 = source_next r'"
    "pushed s2 0 = pushed s1 0 @ source_pushes (so_at s1) r' (fl_source s1)"
    by (rule source_moveE[OF s1(3)])
  have "r' = Some So_Get" using s2(1) s1(4) r by (auto simp: source_step_def Let_def bind_eq_Some_conv source_next_def)
  moreover have "flow_run cfg [Source_thread, Source_thread] s = Some s2"
    using flow_run_join[OF s1(2) s2(2)] by (simp del: flow_run.simps)
  ultimately show ?thesis using s1(4,5) s2(4,5) r pc
    by (intro that[of s2]) (simp_all add: source_next_def source_pushes_def)
qed

end
