(* ===== verification/Example_Runs.thy ===== *)
theory Example_Runs
  imports Example_Setup Source_Starts
begin

text \<open>
  The runs of the example programs: their callbacks keep the program's state (the contract of theory
  User_Program), the pipeline they enable starts the flow, the threads keep what the end of
  the program needs; one concrete run.
\<close>

section \<open>The two programs\<close>

datatype program = Finite | Infinite

fun payload_of :: "program \<Rightarrow> example mtdp_source_callback" where
  "payload_of Finite = source_payload_finite"
| "payload_of Infinite = source_payload_infinite"

fun N_BUFFERS :: "program \<Rightarrow> nat" where
  "N_BUFFERS Finite = 32"
| "N_BUFFERS Infinite = 8"

lemma program_ok: "polite_source (payload_of prog)" "0 < N_BUFFERS prog"
  using example_polite by (cases prog; simp)+

section \<open>The callbacks keep the program's state\<close>

lemma payload_keeps:
  assumes "world_ok B bl w" "so_self c = data_address Source_part" "so_output c \<in># B 0"
  shows "world_ok B bl (fst (payload_of prog w b c)) \<and>
    length (line_numbers Source_part (fst (payload_of prog w b c))) = Suc (length (line_numbers Source_part w)) \<and>
    length (line_numbers Sink_part (fst (payload_of prog w b c))) = length (line_numbers Sink_part w) \<and>
    so_self (fst (snd (payload_of prog w b c))) = so_self c \<and> so_ready_to_push (fst (snd (payload_of prog w b c)))"
proof (cases prog)
  case Finite
  obtain w' fin where "source_finish c w = Some (w', fin)" "printed_by B bl Source_part w w'"
    by (rule source_finish_ok[OF assms])
  then show ?thesis by (simp add: Finite source_payload_finite_def printed_by_def)
next
  case Infinite
  obtain w' where "source_print c w = Some w'" "printed_by B bl Source_part w w'"
    by (rule source_print_ok[OF assms])
  then show ?thesis by (simp add: Infinite source_payload_infinite_def printed_by_def)
qed

lemma stage_payload_keeps:
  assumes "world_ok B bl w" "st_self c = data_address Stage_part" "st_input c \<in># B k" "st_output c \<in># B j"
  shows "world_ok B bl (fst (stage_payload w b c)) \<and>
    length (line_numbers Source_part (fst (stage_payload w b c))) = length (line_numbers Source_part w) \<and>
    length (line_numbers Sink_part (fst (stage_payload w b c))) = length (line_numbers Sink_part w)"
proof -
  obtain w' where "stage_print c w = Some w'" "printed_by B bl Stage_part w w'" by (rule stage_print_ok[OF assms])
  then show ?thesis by (simp add: stage_payload_def printed_by_def)
qed

lemma sink_payload_keeps:
  assumes "world_ok B bl w" "sk_self c = data_address Sink_part" "sk_input c \<in># B k"
  shows "world_ok B bl (fst (sink_payload w b c)) \<and>
    length (line_numbers Source_part (fst (sink_payload w b c))) = length (line_numbers Source_part w) \<and>
    length (line_numbers Sink_part (fst (sink_payload w b c))) = Suc (length (line_numbers Sink_part w))"
proof -
  obtain w' where "sink_print c w = Some w'" "printed_by B bl Sink_part w w'" by (rule sink_print_ok[OF assms])
  then show ?thesis by (simp add: sink_payload_def printed_by_def)
qed

interpretation example: user_program "example_source (payload_of prog)" "[example_stage]" example_sink B "world_ok B bl"
  "\<lambda>w. length (line_numbers Source_part w)" "\<lambda>w. length (line_numbers Sink_part w)" for prog B bl
proof unfold_locales
  fix f :: "example mtdp_source_callback" and w b and c :: mtdp_source_context
  assume "so_process (example_source (payload_of prog)) = Some f" "world_ok B bl w"
    "so_self c = so_data (example_source (payload_of prog))" "so_output c \<in># B 0"
  then show "world_ok B bl (fst (f w b c)) \<and> length (line_numbers Source_part (fst (f w b c))) = Suc (length (line_numbers Source_part w)) \<and>
      length (line_numbers Sink_part (fst (f w b c))) = length (line_numbers Sink_part w) \<and>
      so_self (fst (snd (f w b c))) = so_self c \<and> so_ready_to_push (fst (snd (f w b c)))"
    using payload_keeps[of B bl w c prog b] by (auto simp: example_source_def)
next
  fix i and g :: "example mtdp_stage_callback" and w b and d :: mtdp_stage_context
  assume "i < length [example_stage]" "st_process ([example_stage] ! i) = Some g" "world_ok B bl w"
    "st_self d = st_data ([example_stage] ! i)" "st_input d \<in># B i" "st_output d \<in># B (Suc i)"
  then show "world_ok B bl (fst (g w b d)) \<and> length (line_numbers Source_part (fst (g w b d))) = length (line_numbers Source_part w) \<and>
      length (line_numbers Sink_part (fst (g w b d))) = length (line_numbers Sink_part w) \<and>
      st_self (snd (g w b d)) = st_self d"
    using stage_payload_keeps[of B bl w d i "Suc i" b] by (auto simp: example_stage_def stage_payload_def)
next
  fix h :: "example mtdp_sink_callback" and w b and e :: mtdp_sink_context
  assume "sk_process example_sink = Some h" "world_ok B bl w" "sk_self e = sk_data example_sink"
    "sk_input e \<in># B (length [example_stage])"
  then show "world_ok B bl (fst (h w b e)) \<and> length (line_numbers Source_part (fst (h w b e))) = length (line_numbers Source_part w) \<and>
      length (line_numbers Sink_part (fst (h w b e))) = Suc (length (line_numbers Sink_part w)) \<and>
      snd (h w b e) = e\<lparr>sk_ready_to_pull := True\<rparr>"
    using sink_payload_keeps[of B bl w e _ b] by (auto simp: example_sink_def sink_payload_def)
qed (simp_all add: example_source_def example_stage_def example_sink_def)

section \<open>A run of a program\<close>

definition two_pipes :: "mtdp_buffer list \<Rightarrow> mtdp_buffer list \<Rightarrow> nat \<Rightarrow> mtdp_buffer multiset" where
  "two_pipes bs0 bs1 k = (if k = 0 then mset bs0 else if k = 1 then mset bs1 else {#})"

lemma flow_start_cong:
  "flow_start cfg B s \<Longrightarrow> (\<And>k. k \<le> length (fl_stages s) \<Longrightarrow> B' k = B k) \<Longrightarrow> flow_start cfg B' s"
  by (simp add: flow_start_def Let_def less_Suc_eq_le)

text \<open>The program \<open>prog\<close>, started with \<open>m\<close>, \<open>rt\<close> and \<open>w\<close>, has enabled its pipeline; its threads have run
  to \<open>s\<close>.\<close>

definition program_run :: "fifo_config \<Rightarrow> program \<Rightarrow> mem \<Rightarrow> runtime \<Rightarrow> example \<Rightarrow> mem \<Rightarrow> runtime \<Rightarrow> example mtdp_pipeline \<Rightarrow>
    example \<Rightarrow> example flow \<Rightarrow> bool" where
  "program_run cfg prog m rt w m2 rt2 pl2 w2 s \<longleftrightarrow> config_ok cfg \<and> mem_wf m \<and> runtime_ok rt \<and> example_begin w \<and>
     (\<exists>raw raw_impl raw_pipe.
        example_setup cfg raw raw_impl raw_pipe (N_BUFFERS prog) (payload_of prog) m rt w = Some (Some (m2, rt2, pl2, w2))) \<and>
     flow_reach cfg (flow_of m2 pl2 w2) s"

lemma program_run_facts:
  assumes "program_run cfg prog m rt w m2 rt2 pl2 w2 s"
  obtains m0 bs0 bs1 pl where "flow_start cfg (two_pipes bs0 bs1) (flow_of m2 pl2 w2)" "shared_hold cfg m0 (fl_sh s)"
    "heap m0 = heap m" "live m0 = live m + 4" "syncs m0 = syncs m" "runtime_ok rt2" "threads rt2 = threads rt + 3"
    "pipeline_usable pl2" "pl_enabled pl2" "n_stages pl2 = 1"
    "users_of (example_source (payload_of prog)) [example_stage] example_sink (flow_of m2 pl2 w2)"
    "hands_on (flow_of m2 pl2 w2)"
    "length bs0 = N_BUFFERS prog" "length bs1 = N_BUFFERS prog" "distinct (bs0 @ bs1)" "NULL \<notin> set (bs0 @ bs1)"
    "\<forall>b. if b \<in> set (bs0 @ bs1) then \<exists>v. ex_blocks w2 b = Some (Some v) else ex_blocks w2 b = None"
    "\<not> ex_fault w2" "ex_clock w2 = ex_clock w" "\<And>q. line_numbers q w2 = []"
    "\<And>p. ex_data w2 (data_address p) = Some \<lparr>timestamp = microseconds (ex_clock w 0), iteration_index = 0\<rparr>"
    "all_granted m \<longrightarrow> all_granted m2"
proof -
  from assms obtain raw raw_impl raw_pipe where a: "config_ok cfg" "mem_wf m" "runtime_ok rt" "example_begin w"
    "example_setup cfg raw raw_impl raw_pipe (N_BUFFERS prog) (payload_of prog) m rt w = Some (Some (m2, rt2, pl2, w2))"
    "flow_reach cfg (flow_of m2 pl2 w2) s"
    unfolding program_run_def by blast
  show ?thesis
  proof (cases rule: example_setup_cases[OF a(1-3) program_ok(2) program_ok(1) a(4), of raw raw_impl raw_pipe prog prog,
        case_names exited enabled])
    case exited
    then show ?thesis using a(5) by simp
  next
    case (enabled m2' rt2' pl2' w2' bs0 bs1)
    have eq: "m2' = m2" "rt2' = rt2" "pl2' = pl2" "w2' = w2" using enabled(1) a(5) by simp_all
    note e = enabled[unfolded eq]
    have ptr: "distinct (bs0 @ bs1)" "NULL \<notin> set (bs0 @ bs1)" unfolding e(5) by (auto simp: distinct_map inj_on_def)
    have ne: "[] \<notin> set [bs0, bs1]" "\<And>bs. bs \<in> set [bs0, bs1] \<Longrightarrow> NULL \<notin> set bs"
      using e(3,4) ptr(2) program_ok(2)[of prog] by auto
    obtain m0 pl where f: "pipeline_ready cfg m0 m2 [bs0, bs1] pl" "pl2 = pipeline_started pl" "workers_ready pl"
      "n_stages pl = length [example_stage]" "heap m0 = heap m" "live m0 = live m + 4" "syncs m0 = syncs m" "runtime_ok rt2"
      "threads rt2 = threads rt + int (length [example_stage]) + 2"
      "so_user_data (source_impl pl) = example_source (payload_of prog)" "stages pl = [example_stage]"
      "sk_user_data (sink_impl pl) = example_sink"
      by (rule client_start_facts[OF a(1-3) _ ne example_users_ok(1)[OF program_ok(1)] _ example_users_ok(3) e(2)])
         (auto simp: example_users_ok(2))
    note st = pipeline_ready_start[OF f(1), where u = w2, folded f(2)]
    have sh: "shared_hold cfg m0 (fl_sh s)" using flow_reach_hold[OF a(6) st(2)] .
    have l: "length (stage_impls pl) = 1" "st_user_data (stage_impls pl ! 0) = 0"
      using f(1,4) by (simp_all add: pipeline_ready_def)
    then obtain g where g: "stage_impls pl = [g]" "st_user_data g = 0" by (cases "stage_impls pl") auto
    have us: "pipeline_usable pl2"
      using f(3,4) g f(11) by (auto simp: f(2) pipeline_usable_def pipeline_started_def Let_def stage_started_def workers_ready_def
          all_workers_def worker_ready_def)
    have ud: "users_of (example_source (payload_of prog)) [example_stage] example_sink (flow_of m2 pl2 w2)"
      "hands_on (flow_of m2 pl2 w2)"
      using f(4,10-12) g example_handing
      by (simp_all add: users_of_def hands_on_def handing_def f(2) flow_of_def pipeline_started_def Let_def stage_started_def)
         (simp_all add: example_stage_def example_sink_def)
    have start: "flow_start cfg (two_pipes bs0 bs1) (flow_of m2 pl2 w2)"
      by (rule flow_start_cong[OF st(1)]) (use f(4) in \<open>auto simp: two_pipes_def f(2) flow_of_def pipeline_started_def Let_def le_Suc_eq\<close>)
    have pl2: "pl_enabled pl2" "n_stages pl2 = 1" using f(4) by (simp_all add: f(2) pipeline_started_def Let_def)
    show ?thesis
      by (rule that[OF start sh f(5-8) _ us pl2 ud e(3,4) ptr e(6-11)]) (use f(9) in simp)
  qed
qed

text \<open>While the program runs on the day it was started.\<close>

lemma program_world:
  assumes r: "program_run cfg prog m rt w m2 rt2 pl2 w2 s" and day: "same_day w"
  obtains B where "world_ok B (ex_blocks w2) (sh_user (fl_sh s))" "flow_inv cfg B s" "flow_hand s" "length (fl_stages s) = 1"
    "sink_flags (sk_at s) (fl_sink s)"
    "length (pulled s 1) = length (line_numbers Sink_part (sh_user (fl_sh s))) + of_bool (\<not> sk_ready_to_pull (sk_context (fl_sink s)))"
    "length (line_numbers Source_part (sh_user (fl_sh s))) = length (pushed s 0) + source_item (so_at s) (fl_source s)"
proof -
  obtain m0 bs0 bs1 pl where f: "flow_start cfg (two_pipes bs0 bs1) (flow_of m2 pl2 w2)" "shared_hold cfg m0 (fl_sh s)"
    "heap m0 = heap m" "live m0 = live m + 4" "syncs m0 = syncs m" "runtime_ok rt2" "threads rt2 = threads rt + 3"
    "pipeline_usable pl2" "pl_enabled pl2" "n_stages pl2 = 1"
    "users_of (example_source (payload_of prog)) [example_stage] example_sink (flow_of m2 pl2 w2)" "hands_on (flow_of m2 pl2 w2)"
    "length bs0 = N_BUFFERS prog" "length bs1 = N_BUFFERS prog" "distinct (bs0 @ bs1)" "NULL \<notin> set (bs0 @ bs1)"
    "\<forall>b. if b \<in> set (bs0 @ bs1) then \<exists>v. ex_blocks w2 b = Some (Some v) else ex_blocks w2 b = None"
    "\<not> ex_fault w2" "ex_clock w2 = ex_clock w" "\<And>q. line_numbers q w2 = []"
    "\<And>p. ex_data w2 (data_address p) = Some \<lparr>timestamp = microseconds (ex_clock w 0), iteration_index = 0\<rparr>"
    by (rule program_run_facts[OF r]) blast
  let ?B = "two_pipes bs0 bs1" and ?s0 = "flow_of m2 pl2 w2"
  have reach: "flow_reach cfg ?s0 s" using r by (simp add: program_run_def)
  have mem: "b \<in> set (bs0 @ bs1)" if "b \<in># ?B k" for b k using that by (auto simp: two_pipes_def split: if_splits)
  have ok: "world_ok ?B (ex_blocks w2) w2"
    unfolding world_ok_def numbered_def clock_fine_def using f(17-21) day mem by (auto simp: same_day_def)
  have inv0: "flow_inv cfg ?B ?s0" by (rule flow_start_inv[OF f(1)])
  have hand0: "flow_hand ?s0" by (rule flow_start_hand[OF f(1,12)])
  have "example.user_inv prog ?B (ex_blocks w2) ?s0"
    unfolding example.user_inv_def using f(11,12,20) ok hand0
    by (simp add: flow_hand_def hands_on_def) (use f(1) in \<open>simp add: flow_of_def flow_start_def Let_def source_flags_def source_item_def\<close>)
  from example.reach_user[OF reach inv0 this]
  have u: "example.user_inv prog ?B (ex_blocks w2) s" .
  show ?thesis
    by (rule that[of ?B]) (use u flow_reach_inv[OF reach inv0] flow_reach_hand[OF reach inv0 hand0] in
        \<open>simp_all add: example.user_inv_def users_of_def\<close>)
qed

section \<open>The end of the program\<close>

lemma errno_threads: "threads (set_errno e rt) = threads rt"
  by (simp add: set_errno_def)

lemma set_workers_fields: "n_stages (set_workers g pl) = n_stages pl" "pl_enabled (set_workers g pl) = pl_enabled pl"
  by (simp_all add: set_workers_def)

lemma call_usable:
  assumes "pipeline_usable pl" "pl_enabled pl" "runtime_ok rt"
  obtains b rt' pl' where "(if c then mtdp_pipeline_start rt (Some pl) else mtdp_pipeline_stop rt (Some pl)) = Some (b, rt', Some pl')"
    "pipeline_usable pl'" "pl_enabled pl'" "runtime_ok rt'" "threads rt' = threads rt" "n_stages pl' = n_stages pl"
proof -
  have l: "length (stage_impls pl) = n_stages pl" "all_workers worker_ready pl"
    using assms(1) by (simp_all add: pipeline_usable_def workers_ready_all)
  let ?Q = "\<lambda>r. runtime_ok r \<and> threads r = threads rt"
  show ?thesis
  proof (cases "c \<longleftrightarrow> \<not> pl_active pl")
    case False
    then show ?thesis using assms that[of False "set_errno (if c then MTDP_ACTIVE else MTDP_ENABLED) rt" pl]
      by (auto simp: mtdp_pipeline_start_def mtdp_pipeline_stop_def errno_threads)
  next
    case True
    show ?thesis
    proof (cases c)
      case c: True
      obtain rt' where "mtdp_pipeline_start rt (Some pl) =
          Some (True, set_errno MTDP_OK rt', Some ((set_workers (\<lambda>w. w\<lparr>enabled := True\<rparr>) pl)\<lparr>pl_active := True\<rparr>))" "?Q rt'"
        by (rule pipeline_start_set[where Q = ?Q and R = worker_ready and g = "\<lambda>w. w\<lparr>enabled := True\<rparr>"])
           (use True c assms(2,3) l worker_setters_ok(1) in \<open>auto, metis\<close>)
      then show ?thesis using c assms(2) usable_set_workers(2)[OF assms(1), of "\<lambda>w. w\<lparr>enabled := True\<rparr>" True]
        by (intro that[of True "set_errno MTDP_OK rt'" "(set_workers (\<lambda>w. w\<lparr>enabled := True\<rparr>) pl)\<lparr>pl_active := True\<rparr>"])
           (simp_all add: errno_threads worker_ready_def set_workers_fields)
    next
      case c: False
      obtain rt' where "mtdp_pipeline_stop rt (Some pl) =
          Some (True, set_errno MTDP_OK rt', Some ((set_workers (\<lambda>w. w\<lparr>enabled := False\<rparr>) pl)\<lparr>pl_active := False\<rparr>))" "?Q rt'"
        by (rule pipeline_stop_set[where Q = ?Q and R = worker_ready and g = "\<lambda>w. w\<lparr>enabled := False\<rparr>"])
           (use True c assms(2,3) l worker_setters_ok(2) in \<open>auto, metis\<close>)
      then show ?thesis using c assms(2) usable_set_workers(2)[OF assms(1), of "\<lambda>w. w\<lparr>enabled := False\<rparr>" False]
        by (intro that[of True "set_errno MTDP_OK rt'" "(set_workers (\<lambda>w. w\<lparr>enabled := False\<rparr>) pl)\<lparr>pl_active := False\<rparr>"])
           (simp_all add: errno_threads worker_ready_def set_workers_fields)
    qed
  qed
qed

text \<open>The calls, when the threads they join have returned: every thread created is given back.\<close>

lemma run_calls_usable:
  assumes "pipeline_usable pl" "pl_enabled pl" "runtime_ok rt" "balanced hs cs"
    and "\<forall>j. Join_wait j \<in> set cs \<longrightarrow> j < length waits \<and> returned (waits ! j)"
  shows "\<exists>rt' pl'. run_calls_of waits cs hs rt pl = Some (rt', pl') \<and> pipeline_usable pl' \<and> pl_enabled pl' \<and> runtime_ok rt' \<and>
    threads rt' = threads rt - int (count (mset hs) True) \<and> n_stages pl' = n_stages pl"
  using assms
proof (induction cs arbitrary: hs rt pl)
  case Nil
  then show ?case by (simp add: count_eq_zero_iff)
next
  case (Cons c cs)
  note pl = Cons.prems(1-3)
  have w: "\<forall>j. Join_wait j \<in> set cs \<longrightarrow> j < length waits \<and> returned (waits ! j)" using Cons.prems(5) by simp
  show ?case
  proof (cases c)
    case Call_start
    obtain b rt1 pl1 where s: "mtdp_pipeline_start rt (Some pl) = Some (b, rt1, Some pl1)" "pipeline_usable pl1" "pl_enabled pl1"
      "runtime_ok rt1" "threads rt1 = threads rt" "n_stages pl1 = n_stages pl" by (rule call_usable[OF pl, of True]) simp
    from Cons.IH[OF s(2-4) _ w, of hs] Cons.prems(4) s Call_start show ?thesis by simp
  next
    case Call_stop
    obtain b rt1 pl1 where s: "mtdp_pipeline_stop rt (Some pl) = Some (b, rt1, Some pl1)" "pipeline_usable pl1" "pl_enabled pl1"
      "runtime_ok rt1" "threads rt1 = threads rt" "n_stages pl1 = n_stages pl" by (rule call_usable[OF pl, of False]) simp
    from Cons.IH[OF s(2-4) _ w, of hs] Cons.prems(4) s Call_stop show ?thesis by simp
  next
    case Create_wait
    let ?r = "rt\<lparr>calls := Suc (runtime.calls rt), threads := threads rt + 1\<rparr>"
    have s: "create_wait hs rt = (hs @ [True], ?r)" "runtime_ok ?r"
      using pl(3) by (simp_all add: create_wait_def rt_call_def runtime_ok_def)
    from Cons.IH[OF pl(1,2) s(2) _ w, of "hs @ [True]"] Cons.prems(4) s(1) Create_wait show ?thesis by simp
  next
    case (Join_wait j)
    let ?r = "rt\<lparr>calls := Suc (runtime.calls rt), threads := threads rt - 1\<rparr>"
    have j: "j < length hs" "hs ! j" "balanced (hs[j := False]) cs" "j < length waits" "returned (waits ! j)"
      using Cons.prems(4,5) Join_wait by simp_all
    have s: "join_wait waits j hs rt = Some (hs[j := False], ?r)" "runtime_ok ?r"
      using pl(3) j by (simp_all add: join_wait_def rt_call_def runtime_ok_def list_get_def)
    have "True \<in># mset hs" using j(1,2) by (metis nth_mem set_mset_mset)
    then have n: "int (count (mset hs) True) = int (count (mset (hs[j := False])) True) + 1"
      using j(1,2) by (simp add: mset_update Suc_le_eq[symmetric] of_nat_diff)
    obtain rt' pl' where r: "run_calls_of waits cs (hs[j := False]) ?r pl = Some (rt', pl')" "pipeline_usable pl'" "pl_enabled pl'"
      "runtime_ok rt'" "threads rt' = threads rt - 1 - int (count (mset (hs[j := False])) True)" "n_stages pl' = n_stages pl"
      using Cons.IH[OF pl(1,2) s(2) j(3) w] by auto
    have "threads rt' = threads rt - int (count (mset hs) True)" using r(5) n by linarith
    with r(1-4,6) s(1) Join_wait show ?thesis by simp
  qed
qed

text \<open>From the enabled pipeline on.\<close>

lemma program_end_ok:
  assumes r: "program_run cfg prog m rt w m2 rt2 pl2 w2 s" and day: "same_day w" and rest: "at_rest s"
    and cs: "balanced [] cs" "\<forall>j. Join_wait j \<in> set cs \<longrightarrow> j < length waits \<and> returned (waits ! j)"
  shows "\<exists>m' rt' w'. example_end cfg (N_BUFFERS prog) waits cs s m2 rt2 pl2 = Some (m', rt', w') \<and> ex_blocks w' = Map.empty \<and>
    heap m' = heap m \<and> live m' = live m \<and> syncs m' = syncs m \<and> threads rt' = threads rt \<and> errno rt' = MTDP_OK"
proof -
  obtain m0 bs0 bs1 pl where f: "flow_start cfg (two_pipes bs0 bs1) (flow_of m2 pl2 w2)" "shared_hold cfg m0 (fl_sh s)"
    "heap m0 = heap m" "live m0 = live m + 4" "syncs m0 = syncs m" "runtime_ok rt2" "threads rt2 = threads rt + 3"
    "pipeline_usable pl2" "pl_enabled pl2" "n_stages pl2 = 1"
    "users_of (example_source (payload_of prog)) [example_stage] example_sink (flow_of m2 pl2 w2)" "hands_on (flow_of m2 pl2 w2)"
    "length bs0 = N_BUFFERS prog" "length bs1 = N_BUFFERS prog" "distinct (bs0 @ bs1)" "NULL \<notin> set (bs0 @ bs1)"
    "\<forall>b. if b \<in> set (bs0 @ bs1) then \<exists>v. ex_blocks w2 b = Some (Some v) else ex_blocks w2 b = None"
    by (rule program_run_facts[OF r]) blast
  obtain B where b: "world_ok B (ex_blocks w2) (sh_user (fl_sh s))" "length (fl_stages s) = 1" by (rule program_world[OF r day])
  have bl: "ex_blocks (sh_user (fl_sh s)) = ex_blocks w2" using b(1) by (simp add: world_ok_def)
  have inv: "flow_inv cfg (two_pipes bs0 bs1) s"
    using flow_reach_inv[OF _ flow_start_inv[OF f(1)]] r by (simp add: program_run_def)
  obtain rt3 pl3 where c: "run_calls_of waits cs [] rt2 pl2 = Some (rt3, pl3)" "pipeline_usable pl3" "pl_enabled pl3" "runtime_ok rt3"
    "threads rt3 = threads rt2" "n_stages pl3 = n_stages pl2"
    using run_calls_usable[OF f(8,9,6) cs] by auto
  have us: "workers_ready pl3" "all_workers thread pl3" "length (stage_impls pl3) = n_stages pl3" "n_stages pl3 = length (fl_stages s)"
    using c(2,3,6) f(10) b(2) by (simp_all add: pipeline_usable_def)
  let ?off = "\<lambda>ps. pipeline_off ps (pipeline_joined (pipeline_at s (pipeline_destroyed pl3)))"
  obtain rt4 ps where d: "mtdp_pipeline_disable (settle_at s) cfg m2 rt3 (Some pl3) = Some (True, sh_mem (fl_sh s), rt4, Some (?off ps))"
    "all_cleared cfg (sh_mem (fl_sh s)) (sh_pipes (fl_sh s)) (two_pipes bs0 bs1) ps" "runtime_ok rt4"
    "threads rt4 = threads rt3 - int (n_stages pl3) - 2" "errno rt4 = MTDP_OK"
    by (rule pipeline_disable_ok[OF c(4,3) us inv rest])
  have off: "pipes (?off ps) = ps" "n_stages (?off ps) = 1" "\<not> pl_enabled (?off ps)"
    using us(4) b(2) by (simp_all add: pipeline_off_def pipeline_emptied_def pipeline_joined_def pipeline_at_def pipeline_destroyed_def)
  have l: "length (sh_pipes (fl_sh s)) = 2" using flow_invD(1)[OF inv] b(2) by simp
  then have lps: "length ps = 2" using d(2) by (simp add: all_cleared_def)
  have pipe: "pool_inv (pool (ps ! k)) \<and> mset (pool_elems (pool (ps ! k))) = mset ([bs0, bs1] ! k) \<and> length ([bs0, bs1] ! k) = N_BUFFERS prog"
    if "k < 2" for k
    using d(2) that l f(13,14) by (auto simp: all_cleared_def pipe_cleared_def pipe_inv_def two_pipes_def less_2_cases_iff)
  have two: "concat (map ((!) [bs0, bs1]) [0..<0 + 2]) = bs0 @ bs1" by (simp add: numeral_2_eq_2)
  obtain w3 where w3: "free_pipes (N_BUFFERS prog) 2 0 ps (sh_user (fl_sh s)) = Some w3"
    "ex_blocks w3 = (\<lambda>b. if b \<in> set (bs0 @ bs1) then None else ex_blocks (sh_user (fl_sh s)) b)"
  proof -
    have "\<forall>b \<in> set (bs0 @ bs1). ex_blocks w2 b \<noteq> None" by (metis f(17) option.distinct(1))
    then show ?thesis
      using free_pipes_ok[of 0 2 ps "[bs0, bs1]" "N_BUFFERS prog" "sh_user (fl_sh s)", unfolded two bl] lps pipe program_ok(2) f(15,16)
        that unfolding bl by auto
  qed
  have blocks: "ex_blocks w3 = Map.empty" unfolding w3(2) bl using f(17) by (auto simp: fun_eq_iff)
  have h: "pipes_hold cfg m0 (sh_mem (fl_sh s)) (pipes (?off ps))"
    using all_cleared_hold[OF d(2)] f(2) off(1) by (simp add: shared_hold_def)
  obtain m5 where m5: "mtdp_pipeline_destroy id cfg (sh_mem (fl_sh s)) rt4 (Some (?off ps)) =
      Some (m5, set_errno MTDP_OK (set_errno MTDP_NOT_ENABLED rt4))" "heap m5 = heap m0" "live m5 = live m0 - 4" "syncs m5 = syncs m0"
    by (rule pipeline_destroy_disabled[OF off(3) h]) (use off lps in simp)
  have "example_end cfg (N_BUFFERS prog) waits cs s m2 rt2 pl2 = Some (m5, set_errno MTDP_OK (set_errno MTDP_NOT_ENABLED rt4), w3)"
    using c(1) d(1) w3(1) m5(1) off(1) by (simp add: example_end_def N_STAGES_def numeral_2_eq_2 del: free_pipes.simps)
  then show ?thesis using blocks m5(2-4) f(3-5,7,10) d(4) c(5,6) by (simp add: set_errno_def)
qed

section \<open>A concrete run\<close>

definition raw_example :: "example mtdp_pipeline" where
  "raw_example =
    \<lparr>source_impl = \<lparr>so_context = \<lparr>so_self = NULL, so_output = NULL, so_ready_to_push = False\<rparr>, so_worker = worker_blank,
       so_user_data = \<lparr>so_name = None, so_data = NULL, so_init = None, so_process = None\<rparr>,
       so_output_pipe = 0, so_done = 0, so_initialized = False\<rparr>,
     stage_impls = [],
     sink_impl = \<lparr>sk_context = \<lparr>sk_self = NULL, sk_input = NULL, sk_ready_to_pull = False\<rparr>, sk_worker = worker_blank,
       sk_user_data = \<lparr>sk_name = None, sk_data = NULL, sk_init = None, sk_process = None\<rparr>,
       sk_input_pipe = 0, sk_done = 0, sk_initialized = False\<rparr>,
     stages = [], pipes = [], n_stages = 0, pl_enabled = False, pl_active = False, destroying = 0\<rparr>"

definition example_world :: example where
  "example_world = \<lparr>ex_data = Map.empty, ex_blocks = Map.empty, ex_next = 3, ex_grant = (\<lambda>_. True), ex_asked = 0,
     ex_clock = (\<lambda>k. (1000, 5 * k)), ex_reads = 0, ex_lines = [], ex_fault = False\<rparr>"

abbreviation example_run :: "program \<Rightarrow> (mem \<times> runtime \<times> example mtdp_pipeline \<times> example) option option" where
  "example_run prog \<equiv> example_setup default_config raw_example raw_stage_impl pipe_blank (N_BUFFERS prog) (payload_of prog)
     (mem_start (\<lambda>_. True)) (runtime_start (\<lambda>_. thrd_success)) example_world"

lemma example_world_ok: "example_begin example_world" "same_day example_world" "\<forall>j. ex_grant example_world j"
  by (simp_all add: example_begin_def same_day_def example_world_def microseconds_def)

lemma example_machine_ok: "all_granted (mem_start (\<lambda>_. True))" "runtime_ok (runtime_start (\<lambda>_. thrd_success))"
  by (simp_all add: all_granted_def mem_start_def runtime_ok_def runtime_start_def)

lemma example_runs:
  obtains m2 rt2 pl2 w2 where "example_run prog = Some (Some (m2, rt2, pl2, w2))"
    "program_run default_config prog (mem_start (\<lambda>_. True)) (runtime_start (\<lambda>_. thrd_success)) example_world m2 rt2 pl2 w2 (flow_of m2 pl2 w2)"
proof (rule example_setup_cases[OF default_config_ok mem_start_wf example_machine_ok(2) program_ok(2) program_ok(1) example_world_ok(1),
      of raw_example raw_stage_impl pipe_blank prog prog "\<lambda>_. True"])
  assume "\<not> (all_granted (mem_start (\<lambda>_. True)) \<and> (\<forall>j. ex_grant example_world j))"
  then show ?thesis using example_machine_ok(1) example_world_ok(3) by simp
next
  fix m2 rt2 pl2 w2 assume "example_run prog = Some (Some (m2, rt2, pl2, w2))"
  then show ?thesis
    by (intro that[of m2 rt2 pl2 w2])
       (auto simp: program_run_def example_machine_ok example_world_ok intro: default_config_ok mem_start_wf flow_reach.start)
qed

text \<open>The source's first callback.\<close>

lemma payload_eager: "eager_source (payload_of prog)"
  by (cases prog) (auto simp: eager_source_def source_payload_finite_def source_payload_infinite_def split: option.split)

lemma example_first:
  obtains m2 rt2 pl2 w2 s where "example_run prog = Some (Some (m2, rt2, pl2, w2))"
    "program_run default_config prog (mem_start (\<lambda>_. True)) (runtime_start (\<lambda>_. thrd_success)) example_world m2 rt2 pl2 w2 s"
    "so_at s = So_Entry" "so_ready_to_push (so_context (fl_source s))" "pushed s 0 = []" "all_granted (sh_mem (fl_sh s))"
proof -
  obtain m2 rt2 pl2 w2 where r: "example_run prog = Some (Some (m2, rt2, pl2, w2))"
    "program_run default_config prog (mem_start (\<lambda>_. True)) (runtime_start (\<lambda>_. thrd_success)) example_world m2 rt2 pl2 w2 (flow_of m2 pl2 w2)"
    by (rule example_runs)
  let ?s0 = "flow_of m2 pl2 w2"
  obtain m0 bs0 bs1 pl where f: "flow_start default_config (two_pipes bs0 bs1) ?s0" "length bs0 = N_BUFFERS prog"
    "users_of (example_source (payload_of prog)) [example_stage] example_sink ?s0"
    "all_granted (mem_start (\<lambda>_. True)) \<longrightarrow> all_granted m2"
    by (rule program_run_facts[OF r(2)]) blast
  have B: "two_pipes bs0 bs1 0 \<noteq> {#}" using f(2) program_ok(2)[of prog] by (auto simp: two_pipes_def)
  have u: "so_process (so_user_data (fl_source ?s0)) = Some (payload_of prog)" "so_init (so_user_data (fl_source ?s0)) = None"
    using f(3) by (simp_all add: users_of_def example_source_def)
  obtain s where s: "flow_run default_config [Source_thread, Source_thread, Source_thread] ?s0 = Some s"
    "flow_inv default_config (two_pipes bs0 bs1) s" "so_at s = So_Entry" "so_ready_to_push (so_context (fl_source s))" "pushed s 0 = []"
    by (rule source_starts[OF f(1) B u(1) payload_eager u(2)])
  have reach: "flow_reach default_config ?s0 s" by (rule flow_run_reach[OF flow_reach.start s(1)])
  then have "program_run default_config prog (mem_start (\<lambda>_. True)) (runtime_start (\<lambda>_. thrd_success)) example_world m2 rt2 pl2 w2 s"
    using r(2) by (auto simp: program_run_def)
  moreover have "all_granted (sh_mem (fl_sh ?s0))" using f(4) example_machine_ok(1) by (simp add: flow_of_def)
  then have "all_granted (sh_mem (fl_sh s))"
    using flow_reach_avail[OF reach flow_start_inv[OF f(1)]] by (simp add: all_granted_def)
  ultimately show ?thesis using that r(1) s(3-5) by blast
qed

text \<open>The threads other than the source's leave the source alone.\<close>

lemma source_alone:
  assumes inv: "flow_inv cfg B s" and mv: "move cfg t s = Some s'" and t: "t \<in> flow_threads s" "t \<noteq> Source_thread"
  shows "so_at s' = so_at s \<and> fl_source s' = fl_source s \<and> pushed s' 0 = pushed s 0"
proof (cases t)
  case (Stage_thread i)
  then have i: "i < length (fl_stages s)" "stage_move cfg i s = Some s'" using t(1) mv by (auto simp: flow_threads_def)
  show ?thesis by (rule stage_moveE[OF inv i]) simp
next
  case Sink_thread
  then show ?thesis using mv by (auto simp: sink_move_def bind_eq_Some_conv Let_def)
qed (use t in simp)

lemma source_alone_run:
  "flow_run cfg ts s = Some s' \<Longrightarrow> flow_inv cfg B s \<Longrightarrow> Source_thread \<notin> set ts \<Longrightarrow>
     so_at s' = so_at s \<and> fl_source s' = fl_source s \<and> pushed s' 0 = pushed s 0"
proof (induction ts arbitrary: s)
  case (Cons t ts)
  then obtain s1 where s1: "t \<in> flow_threads s" "move cfg t s = Some s1" "flow_run cfg ts s1 = Some s'"
    by (auto simp: bind_eq_Some_conv split: if_splits)
  have "flow_inv cfg B s1"
    using flow_reach_inv[OF flow_reach.step[OF flow_reach.start flow_step.thread[OF s1(1,2)]] Cons.prems(2)] .
  with Cons.IH[OF s1(3)] source_alone[OF Cons.prems(2) s1(2,1)] Cons.prems(3) show ?case by auto
qed simp

end
