(* ===== verification/Example_Properties.thy ===== *)
theory Example_Properties
  imports Example_Runs
begin

text \<open>
  What the example programs print, however their threads interleave, while the clock stays on the day they were
  started: nothing undefined is done and the lines are numbered in order; what the source has pushed can be printed, once and in
  order, the datum with which it finishes is not.
\<close>

text \<open>C16. While a program runs and its clock stays on the day it was started (\<open>same_day\<close>: no reading of the clock shows
  an earlier time of day than the first one; after midnight the callbacks do convert a negative number to \<open>size_t\<close>,
  see \<open>payload_midnight\<close>), no callback does anything undefined, the
  program's blocks stay its own, each part of the pipeline numbers its lines 0, 1, 2, ... without a gap
  (on 64 bits), the sink has printed a line for every buffer it has pulled but one it is about to print, and
  the source for every buffer it has pushed and one more if it has to push it yet.\<close>

theorem program_prints_in_order:
  assumes "program_run cfg prog m rt w m2 rt2 pl2 w2 s" "same_day w"
  shows "\<not> ex_fault (sh_user (fl_sh s)) \<and> ex_blocks (sh_user (fl_sh s)) = ex_blocks w2 \<and>
    (\<forall>p. \<exists>n. line_numbers p (sh_user (fl_sh s)) = map (\<lambda>k. k mod 2 ^ 64) [0..<n]) \<and>
    length (pulled s 1) = length (line_numbers Sink_part (sh_user (fl_sh s))) + of_bool (sk_at s = Sk_Process) \<and>
    length (line_numbers Source_part (sh_user (fl_sh s))) =
      length (pushed s 0) + of_bool (so_at s = So_Entry \<and> so_ready_to_push (so_context (fl_source s)))"
proof -
  obtain B where b: "world_ok B (ex_blocks w2) (sh_user (fl_sh s))" "sink_flags (sk_at s) (fl_sink s)"
    "length (pulled s 1) = length (line_numbers Sink_part (sh_user (fl_sh s))) + of_bool (\<not> sk_ready_to_pull (sk_context (fl_sink s)))"
    "length (line_numbers Source_part (sh_user (fl_sh s))) = length (pushed s 0) + source_item (so_at s) (fl_source s)"
    by (rule program_world[OF assms])
  have "sk_at s = Sk_Process \<longleftrightarrow> \<not> sk_ready_to_pull (sk_context (fl_sink s))"
    using b(2) by (cases "sk_at s") (simp_all add: sink_flags_def)
  with b(1,3,4) show ?thesis unfolding world_ok_def numbered_def source_item_def by auto
qed

theorem program_prints_in_order_witness:
  "\<exists>m2 rt2 pl2 w2 s. example_run Infinite = Some (Some (m2, rt2, pl2, w2)) \<and> flow_reach default_config (flow_of m2 pl2 w2) s \<and>
     \<not> ex_fault (sh_user (fl_sh s)) \<and> line_numbers Source_part (sh_user (fl_sh s)) = [0] \<and> pushed s 0 = []"
proof -
  obtain m2 rt2 pl2 w2 s where r: "example_run Infinite = Some (Some (m2, rt2, pl2, w2))"
    "program_run default_config Infinite (mem_start (\<lambda>_. True)) (runtime_start (\<lambda>_. thrd_success)) example_world m2 rt2 pl2 w2 s"
    "so_at s = So_Entry" "so_ready_to_push (so_context (fl_source s))" "pushed s 0 = []"
    by (rule example_first)
  from program_prints_in_order[OF r(2) example_world_ok(2)] r(3-5)
  have p: "\<not> ex_fault (sh_user (fl_sh s))" "\<forall>p. \<exists>n. line_numbers p (sh_user (fl_sh s)) = map (\<lambda>k. k mod 2 ^ 64) [0..<n]"
    "length (line_numbers Source_part (sh_user (fl_sh s))) = 1" by simp_all
  then obtain n where "line_numbers Source_part (sh_user (fl_sh s)) = map (\<lambda>k. k mod 2 ^ 64) [0..<n]" by blast
  then have "line_numbers Source_part (sh_user (fl_sh s)) = [0]" using p(3) by simp
  then show ?thesis using r p(1) by (auto simp: program_run_def)
qed



text \<open>The last datum of the finite program is lost: when the source's callback has returned and its
  thread does not go on (the callback has called \<open>mtdp_source_finished\<close>, so the thread exits before it pushes the
  buffer), the sink prints fewer lines than the source has printed, whatever the other threads do.\<close>

theorem program_loses_last:
  assumes "program_run cfg prog m rt w m2 rt2 pl2 w2 s" "same_day w"
    and "so_at s = So_Entry" "so_ready_to_push (so_context (fl_source s))"
    and "Source_thread \<notin> set ts" "flow_run cfg ts s = Some s'"
  shows "length (line_numbers Sink_part (sh_user (fl_sh s'))) < length (line_numbers Source_part (sh_user (fl_sh s')))"
proof -
  have r': "program_run cfg prog m rt w m2 rt2 pl2 w2 s'"
    using assms(1) flow_run_reach[OF _ assms(6)] by (auto simp: program_run_def)
  obtain B where "flow_inv cfg B s" by (rule program_world[OF assms(1,2)])
  from source_alone_run[OF assms(6) this assms(5)] assms(3,4)
  have q: "so_at s' = So_Entry" "so_ready_to_push (so_context (fl_source s'))" by simp_all
  obtain B' where w': "flow_inv cfg B' s'" "flow_hand s'" "length (fl_stages s') = 1"
    "length (pulled s' 1) = length (line_numbers Sink_part (sh_user (fl_sh s'))) + of_bool (\<not> sk_ready_to_pull (sk_context (fl_sink s')))"
    "length (line_numbers Source_part (sh_user (fl_sh s'))) = length (pushed s' 0) + source_item (so_at s') (fl_source s')"
    by (rule program_world[OF r' assms(2)])
  have link: "length (pulled s' k) \<le> length (pushed s' k)" if "k < 2" for k
  proof -
    obtain out rel inb acq where v: "producer s' k = (out, rel)" "consumer s' k = (inb, acq)" by (meson surj_pair)
    have "k < length (sh_pipes (fl_sh s'))" using that w'(3) flow_invD(1)[OF w'(1)] by simp
    from pipe_linkD[OF links_invD(1)[OF flow_invD(8)[OF w'(1)] this, unfolded v]] show ?thesis by simp
  qed
  have "length (pushed s' 1) \<le> length (pulled s' 0)" using w'(2,3) by (simp add: flow_hand_def)
  with link[of 0] link[of 1] w'(4,5) q show ?thesis by (simp add: source_item_def)
qed

theorem program_loses_last_witness:
  "\<exists>m2 rt2 pl2 w2 s. example_run Finite = Some (Some (m2, rt2, pl2, w2)) \<and> flow_reach default_config (flow_of m2 pl2 w2) s \<and>
     length (line_numbers Sink_part (sh_user (fl_sh s))) < length (line_numbers Source_part (sh_user (fl_sh s)))"
proof -
  obtain m2 rt2 pl2 w2 s where r: "example_run Finite = Some (Some (m2, rt2, pl2, w2))"
    "program_run default_config Finite (mem_start (\<lambda>_. True)) (runtime_start (\<lambda>_. thrd_success)) example_world m2 rt2 pl2 w2 s"
    "so_at s = So_Entry" "so_ready_to_push (so_context (fl_source s))" by (rule example_first)
  from program_loses_last[OF r(2) example_world_ok(2) r(3,4), of "[]"] have
    "length (line_numbers Sink_part (sh_user (fl_sh s))) < length (line_numbers Source_part (sh_user (fl_sh s)))" by simp
  then show ?thesis using r(1,2) by (auto simp: program_run_def)
qed

text \<open>The clock of the examples restarts at midnight UTC: a callback of a program started earlier on the
  previous day subtracts more than the clock shows, and converts a negative \<open>double\<close> to
  \<open>size_t\<close>, which is undefined.\<close>

theorem payload_midnight:
  assumes "ex_data w (so_self c) = Some d" "microseconds (ex_clock w (ex_reads w)) < timestamp d"
  shows "ex_fault (fst (payload_of prog w stop c))"
  using assms by (cases prog) (simp_all add: source_payload_finite_def source_payload_infinite_def source_finish_def source_print_def
      ex_stamp_def next_index_def timestamp_from_def Let_def)

theorem payload_midnight_witness:
  "ex_fault (fst (payload_of Finite
     (example_world\<lparr>ex_data := [Ptr 0 \<mapsto> \<lparr>timestamp = microseconds (86399, 0), iteration_index = 0\<rparr>], ex_clock := \<lambda>_. (86400, 0)\<rparr>)
     False \<lparr>so_self = Ptr 0, so_output = Ptr 3, so_ready_to_push = False\<rparr>))"
  by (rule payload_midnight[where d = "\<lparr>timestamp = microseconds (86399, 0), iteration_index = 0\<rparr>"])
     (simp_all add: example_world_def microseconds_def)

end
