(* ===== verification/Gated_Flow.thy ===== *)
theory Gated_Flow
  imports Worker_Protocol Pipeline_Properties
begin

text \<open>
  The two halves of a running pipeline put together. Each thread of the flow (theory Flow) is the
  callback of a worker (theory Worker\_Protocol): it moves only while its worker thread is in
  its callback, and the callback's end is the end of the stage's routine. What the user's code
  reads when it asks whether to stop are the flags of its own worker, and
  \<open>mtdp_source_finished\<close> sets the source's worker destroyed through the worker's own mutex, after
  the user's code has returned from its other work.

  Any number of other threads may enable, disable and destroy each worker and write the \<open>done\<close>
  words while this goes on.
\<close>

section \<open>States\<close>

text \<open>Where a thread that is in its callback stands: inside its routine, at the end of it with a call
  of \<open>mtdp_source_finished\<close> to make, or about to return.\<close>

datatype callback_state = Running | Finishing | Returned

record 'u gated =
  g_flow :: "'u flow"
  g_worker :: "flow_thread \<Rightarrow> wstate"
  g_callback :: "flow_thread \<Rightarrow> callback_state"

definition gated_start :: "'u flow \<Rightarrow> 'u gated" where
  "gated_start f = \<lparr>g_flow = f, g_worker = (\<lambda>_. worker_start), g_callback = (\<lambda>_. Running)\<rparr>"

text \<open>The flags a thread's own code reads are those of its worker now.\<close>

definition with_flags :: "wstate \<Rightarrow> mtdp_worker \<Rightarrow> mtdp_worker" where
  "with_flags w wk = wk\<lparr>enabled := w_enabled w, destroyed := w_destroyed w\<rparr>"

fun show_flags :: "flow_thread \<Rightarrow> wstate \<Rightarrow> 'u flow \<Rightarrow> 'u flow" where
  "show_flags Source_thread w s =
     s\<lparr>fl_source := (fl_source s)\<lparr>so_worker := with_flags w (so_worker (fl_source s))\<rparr>\<rparr>"
| "show_flags (Stage_thread i) w s =
     s\<lparr>fl_stages := (fl_stages s)[i := (fl_stages s ! i)\<lparr>st_worker := with_flags w (st_worker (fl_stages s ! i))\<rparr>]\<rparr>"
| "show_flags Sink_thread w s =
     s\<lparr>fl_sink := (fl_sink s)\<lparr>sk_worker := with_flags w (sk_worker (fl_sink s))\<rparr>\<rparr>"

fun write_done :: "flow_thread \<Rightarrow> nat \<Rightarrow> 'u flow \<Rightarrow> 'u flow" where
  "write_done Source_thread d s = s\<lparr>fl_source := (fl_source s)\<lparr>so_done := d\<rparr>\<rparr>"
| "write_done (Stage_thread i) d s = s\<lparr>fl_stages := (fl_stages s)[i := (fl_stages s ! i)\<lparr>st_done := d\<rparr>]\<rparr>"
| "write_done Sink_thread d s = s\<lparr>fl_sink := (fl_sink s)\<lparr>sk_done := d\<rparr>\<rparr>"

fun at_entry :: "flow_thread \<Rightarrow> 'u flow \<Rightarrow> bool" where
  "at_entry Source_thread s \<longleftrightarrow> so_at s = So_Entry"
| "at_entry (Stage_thread i) s \<longleftrightarrow> st_at s ! i = St_Entry"
| "at_entry Sink_thread s \<longleftrightarrow> sk_at s = Sk_Entry"

text \<open>Whether the user's code, about to run in this state, calls \<open>mtdp_source_finished\<close>: from an unset
  \<open>done\<close> word, that is what sets it.\<close>

fun finishes :: "fifo_config \<Rightarrow> flow_thread \<Rightarrow> 'u flow \<Rightarrow> bool" where
  "finishes cfg Source_thread s \<longleftrightarrow> so_at s = So_Process \<and>
     (case source_step cfg So_Process (fl_sh s, (fl_source s)\<lparr>so_done := 0\<rparr>) of
        None \<Rightarrow> False | Some (_, _, self) \<Rightarrow> so_done self = 1)"
| "finishes cfg (Stage_thread i) s \<longleftrightarrow> False"
| "finishes cfg Sink_thread s \<longleftrightarrow> False"

section \<open>Steps\<close>

text \<open>One step of a routine inside a callback.\<close>

definition callback_step :: "fifo_config \<Rightarrow> flow_thread \<Rightarrow> 'u gated \<Rightarrow> 'u gated option" where
  "callback_step cfg t s = do {
     let f = show_flags t (g_worker s t) (g_flow s);
     f' \<leftarrow> move cfg t f;
     let c = (if \<not> at_entry t f' then Running else if finishes cfg t f then Finishing else Returned);
     Some (s\<lparr>g_flow := f', g_callback := (g_callback s)(t := c)\<rparr>) }"

text \<open>One step of the worker's own loop, or of \<open>mtdp_worker_destroy\<close> called from it.\<close>

definition protocol_step :: "bool \<Rightarrow> callback_state \<Rightarrow> flow_thread \<Rightarrow> 'u gated \<Rightarrow> 'u gated option" where
  "protocol_step fin c t s = do {
     w \<leftarrow> routine_step fin (g_worker s t);
     Some (s\<lparr>g_worker := (g_worker s)(t := w), g_callback := (g_callback s)(t := c)\<rparr>) }"

definition thread_step :: "fifo_config \<Rightarrow> flow_thread \<Rightarrow> 'u gated \<Rightarrow> 'u gated option" where
  "thread_step cfg t s =
    (if pc (g_worker s t) = W_Callback then
       (case g_callback s t of
          Running \<Rightarrow> callback_step cfg t s
        | Finishing \<Rightarrow> protocol_step True Returned t s
        | Returned \<Rightarrow> protocol_step False Running t s)
     else protocol_step False (g_callback s t) t s)"

text \<open>Everything that can happen: a thread of the pipeline takes a step, another thread takes one
  inside a call on a worker or begins such a call, a wait ends spuriously, a \<open>done\<close> word is
  written.\<close>

datatype event = Turn flow_thread | Control flow_thread nat | Call flow_thread nat ctl_request
  | Wakeup flow_thread | Done_word flow_thread nat

fun event_thread :: "event \<Rightarrow> flow_thread" where
  "event_thread (Turn t) = t"
| "event_thread (Control t i) = t"
| "event_thread (Call t i r) = t"
| "event_thread (Wakeup t) = t"
| "event_thread (Done_word t d) = t"

definition set_worker :: "flow_thread \<Rightarrow> 'u gated \<Rightarrow> wstate \<Rightarrow> 'u gated" where
  "set_worker t s w = s\<lparr>g_worker := (g_worker s)(t := w)\<rparr>"

fun event_step :: "fifo_config \<Rightarrow> event \<Rightarrow> 'u gated \<Rightarrow> 'u gated option" where
  "event_step cfg (Turn t) s = thread_step cfg t s"
| "event_step cfg (Control t i) s = do { w \<leftarrow> ctl_step i (g_worker s t); Some (set_worker t s w) }"
| "event_step cfg (Call t i r) s =
     (let w = g_worker s t in
      if ctl w i = C_Idle then Some (set_worker t s (w\<lparr>ctl := (ctl w)(i := C_Lock r)\<rparr>)) else None)"
| "event_step cfg (Wakeup t) s =
     (let w = g_worker s t in
      if pc w = W_Waiting then Some (set_worker t s (w\<lparr>pc := W_Relock\<rparr>)) else None)"
| "event_step cfg (Done_word t d) s = Some (s\<lparr>g_flow := write_done t d (g_flow s)\<rparr>)"

definition gated_step :: "fifo_config \<Rightarrow> event \<Rightarrow> 'u gated \<Rightarrow> 'u gated option" where
  "gated_step cfg e s = (if event_thread e \<in> flow_threads (g_flow s) then event_step cfg e s else None)"

fun gated_run :: "fifo_config \<Rightarrow> event list \<Rightarrow> 'u gated \<Rightarrow> 'u gated option" where
  "gated_run cfg [] s = Some s"
| "gated_run cfg (e # es) s = do { s \<leftarrow> gated_step cfg e s; gated_run cfg es s }"

definition gated_reach :: "fifo_config \<Rightarrow> 'u flow \<Rightarrow> 'u gated \<Rightarrow> bool" where
  "gated_reach cfg f s \<longleftrightarrow> (\<exists>es. gated_run cfg es (gated_start f) = Some s)"

lemma gated_run_append:
  "gated_run cfg (es @ es') s = do { s \<leftarrow> gated_run cfg es s; gated_run cfg es' s }"
  by (induction es arbitrary: s) (auto simp: bind_assoc split: bind_split)

text \<open>An invariant of the steps holds in every state reached from one in which it holds.\<close>

lemma gated_run_induct:
  assumes "\<And>e s s'. gated_step cfg e s = Some s' \<Longrightarrow> P s \<Longrightarrow> P s'" "gated_run cfg es s = Some s'" "P s"
  shows "P s'"
  using assms(2,3) by (induction es arbitrary: s) (auto simp: bind_eq_Some_conv dest: assms(1))

lemma gated_reach_induct:
  assumes "gated_reach cfg f s" "P (gated_start f)" "\<And>e s s'. gated_step cfg e s = Some s' \<Longrightarrow> P s \<Longrightarrow> P s'"
  shows "P s"
  using assms(1,2) gated_run_induct[where P = P, OF assms(3)] by (auto simp: gated_reach_def)

section \<open>The two projections\<close>

lemma flow_reach_trans: "flow_reach cfg s1 s2 \<Longrightarrow> flow_reach cfg s0 s1 \<Longrightarrow> flow_reach cfg s0 s2"
  by (induction rule: flow_reach.induct) (auto intro: flow_reach.step)

lemma show_flags_step: "t \<in> flow_threads s \<Longrightarrow> flow_step cfg s (show_flags t w s)"
proof (cases t)
  case Source_thread
  then show ?thesis
    using flow_step.source_control[where cfg = cfg and s = s and w = "with_flags w (so_worker (fl_source s))" and d = "so_done (fl_source s)"] by simp
next
  case (Stage_thread i)
  moreover assume "t \<in> flow_threads s"
  ultimately have i: "i < length (fl_stages s)" by (auto simp: flow_threads_def)
  then show ?thesis
    using flow_step.stage_control[OF i, where cfg = cfg and w = "with_flags w (st_worker (fl_stages s ! i))" and d = "st_done (fl_stages s ! i)"]
      Stage_thread by simp
next
  case Sink_thread
  then show ?thesis
    using flow_step.sink_control[where cfg = cfg and s = s and w = "with_flags w (sk_worker (fl_sink s))" and d = "sk_done (fl_sink s)"] by simp
qed

lemma write_done_step: "t \<in> flow_threads s \<Longrightarrow> flow_step cfg s (write_done t d s)"
proof (cases t)
  case Source_thread
  then show ?thesis using flow_step.source_control[where cfg = cfg and s = s and w = "so_worker (fl_source s)" and d = d] by simp
next
  case (Stage_thread i)
  moreover assume "t \<in> flow_threads s"
  ultimately have i: "i < length (fl_stages s)" by (auto simp: flow_threads_def)
  then show ?thesis using flow_step.stage_control[OF i, where cfg = cfg and w = "st_worker (fl_stages s ! i)" and d = d] Stage_thread by simp
next
  case Sink_thread
  then show ?thesis using flow_step.sink_control[where cfg = cfg and s = s and w = "sk_worker (fl_sink s)" and d = d] by simp
qed


lemma thread_step_cases:
  assumes "thread_step cfg t s = Some s'"
  obtains (callback) "pc (g_worker s t) = W_Callback" "g_callback s t = Running" "callback_step cfg t s = Some s'"
  | (protocol) fin c where "protocol_step fin c t s = Some s'" "pc (g_worker s t) = W_Callback \<longrightarrow> g_callback s t \<noteq> Running"
      "c = (if pc (g_worker s t) = W_Callback then if fin then Returned else Running else g_callback s t)"
      "fin \<longleftrightarrow> pc (g_worker s t) = W_Callback \<and> g_callback s t = Finishing"
  using assms by (cases "g_callback s t") (auto simp: thread_step_def split: if_splits)

lemma callback_stepD:
  assumes "callback_step cfg t s = Some s'"
  shows "move cfg t (show_flags t (g_worker s t) (g_flow s)) = Some (g_flow s')" "g_worker s' = g_worker s"
    "g_callback s' = (g_callback s)(t := g_callback s' t)"
    "g_callback s' t = Running \<longleftrightarrow> \<not> at_entry t (g_flow s')"
proof -
  let ?f = "show_flags t (g_worker s t) (g_flow s)"
  obtain f' where m: "move cfg t ?f = Some f'" and s': "s' = s\<lparr>g_flow := f', g_callback := (g_callback s)(t :=
      if \<not> at_entry t f' then Running else if finishes cfg t ?f then Finishing else Returned)\<rparr>"
    using assms by (auto simp: callback_step_def Let_def bind_eq_Some_conv)
  show "move cfg t ?f = Some (g_flow s')" "g_worker s' = g_worker s"
    "g_callback s' = (g_callback s)(t := g_callback s' t)" "g_callback s' t = Running \<longleftrightarrow> \<not> at_entry t (g_flow s')"
    using m by (simp_all add: s')
qed

lemma protocol_stepD:
  assumes "protocol_step fin c t s = Some s'"
  shows "routine_step fin (g_worker s t) = Some (g_worker s' t)" "g_flow s' = g_flow s"
    "g_worker s' = (g_worker s)(t := g_worker s' t)" "g_callback s' = (g_callback s)(t := c)"
  using assms by (auto simp: protocol_step_def bind_eq_Some_conv)

text \<open>Every step is at most two steps of the flow, and at most one of one worker.\<close>

lemma gated_step_flow:
  assumes "gated_step cfg e s = Some s'"
  shows "flow_reach cfg (g_flow s) (g_flow s')"
proof (cases e)
  case (Turn t)
  then have t: "t \<in> flow_threads (g_flow s)" and st: "thread_step cfg t s = Some s'"
    using assms by (simp_all add: gated_step_def split: if_splits)
  from st show ?thesis
  proof (cases rule: thread_step_cases)
    case callback
    let ?f = "show_flags t (g_worker s t) (g_flow s)"
    have f: "flow_step cfg (g_flow s) ?f" by (rule show_flags_step[OF t])
    have "t \<in> flow_threads ?f" using t flow_step_stages[OF f] by (simp add: flow_threads_def)
    then have "flow_step cfg ?f (g_flow s')" using callback_stepD(1)[OF callback(3)] by (rule flow_step.thread)
    with f show ?thesis by (meson flow_reach.intros)
  next
    case (protocol fin c)
    then show ?thesis using protocol_stepD(2)[OF protocol(1)] by (simp add: flow_reach.start)
  qed
next
  case (Done_word t d)
  then have "t \<in> flow_threads (g_flow s)" "g_flow s' = write_done t d (g_flow s)"
    using assms by (auto simp: gated_step_def split: if_splits)
  then show ?thesis using write_done_step by (metis flow_reach.intros)
qed (use assms in \<open>auto simp: gated_step_def set_worker_def Let_def bind_eq_Some_conv split: if_splits intro: flow_reach.start\<close>)

lemma gated_step_worker:
  assumes "gated_step cfg e s = Some s'"
  shows "g_worker s' t = g_worker s t \<or> worker_step (g_worker s t) (g_worker s' t)"
proof (cases e)
  case (Turn u)
  then have st: "thread_step cfg u s = Some s'" using assms by (simp add: gated_step_def split: if_splits)
  from st show ?thesis
  proof (cases rule: thread_step_cases)
    case (protocol fin c)
    note d = protocol_stepD[OF protocol(1)]
    show ?thesis using worker_step.thread[OF d(1)] d(3) by (metis fun_upd_other)
  qed (simp add: callback_stepD(2))
next
  case (Control u i)
  then obtain w where w: "ctl_step i (g_worker s u) = Some w" "g_worker s' = (g_worker s)(u := w)"
    using assms by (auto simp: gated_step_def set_worker_def bind_eq_Some_conv split: if_splits)
  show ?thesis using worker_step.controller[OF w(1)] by (simp add: w(2))
next
  case (Call u i r)
  then show ?thesis
    using assms worker_step.call[of "g_worker s u" i r] by (auto simp: gated_step_def set_worker_def Let_def split: if_splits)
next
  case (Wakeup u)
  then show ?thesis
    using assms worker_step.spurious[of "g_worker s u"] by (auto simp: gated_step_def set_worker_def Let_def split: if_splits)
qed (use assms in \<open>auto simp: gated_step_def split: if_splits\<close>)

lemma gated_reach_flow: "gated_reach cfg f s \<Longrightarrow> flow_reach cfg f (g_flow s)"
  by (erule gated_reach_induct) (auto simp: gated_start_def intro: flow_reach.start flow_reach_trans gated_step_flow)

lemma gated_reach_worker: "gated_reach cfg f s \<Longrightarrow> worker_reach (g_worker s t)"
proof (erule gated_reach_induct)
  fix e and s s' :: "'a gated"
  assume "gated_step cfg e s = Some s'" "worker_reach (g_worker s t)"
  then show "worker_reach (g_worker s' t)" using gated_step_worker[of cfg e s s' t] by (metis worker_reach.step)
qed (simp add: gated_start_def worker_reach.start)

section \<open>Outside its callback a thread is at the entry of its routine\<close>

definition entry_inv :: "'u gated \<Rightarrow> flow_thread \<Rightarrow> bool" where
  "entry_inv s t \<longleftrightarrow>
     (at_entry t (g_flow s) \<or> pc (g_worker s t) = W_Callback \<and> g_callback s t = Running) \<and>
     (pc (g_worker s t) \<in> {W_FinLock, W_FinSet, W_FinUnlock, W_FinSignal} \<longrightarrow> g_callback s t = Returned) \<and>
     (pc (g_worker s t) \<notin> {W_Callback, W_FinLock, W_FinSet, W_FinUnlock, W_FinSignal} \<longrightarrow> g_callback s t = Running)"

lemma at_entry_write [simp]: "at_entry u (show_flags t w f) = at_entry u f" "at_entry u (write_done t d f) = at_entry u f"
  by (cases t; cases u; simp)+

lemma move_at_entry: "move cfg t f = Some f' \<Longrightarrow> u \<noteq> t \<Longrightarrow> at_entry u f' = at_entry u f"
  by (cases t; cases u) (auto simp: source_move_def stage_move_def sink_move_def bind_eq_Some_conv Let_def)

text \<open>What the other threads do to a worker leaves its thread where it is, except out of a wait.\<close>

lemma ctl_step_pc: "ctl_step i w = Some w' \<Longrightarrow> pc w' = pc w"
  by (cases "ctl w i") (auto simp: ctl_step_def apply_request_def worker_signal_def split: if_splits ctl_request.splits)

lemma entry_inv_cong:
  "entry_inv s t \<Longrightarrow> at_entry t (g_flow s') = at_entry t (g_flow s) \<Longrightarrow> g_callback s' t = g_callback s t \<Longrightarrow>
     pc (g_worker s' t) = pc (g_worker s t) \<Longrightarrow> entry_inv s' t"
  by (simp add: entry_inv_def)

lemma routine_step_pc:
  "routine_step fin w = Some w' \<Longrightarrow>
    (case pc w of W_Callback \<Rightarrow> pc w' = (if fin then W_FinLock else W_Test) | W_FinLock \<Rightarrow> pc w' = W_FinSet
     | W_FinSet \<Rightarrow> pc w' = W_FinUnlock | W_FinUnlock \<Rightarrow> pc w' = W_FinSignal | W_FinSignal \<Rightarrow> pc w' = W_Callback
     | W_Check \<Rightarrow> pc w' \<in> {W_Exited, W_Callback}
     | _ \<Rightarrow> pc w' \<in> {W_Test, W_Lock, W_Loop, W_Waiting, W_Relock, W_Unlock, W_Check, W_Exited})"
  by (cases "pc w") (auto simp: routine_step_def worker_signal_def split: if_splits)

lemma thread_step_entry:
  assumes st: "thread_step cfg u s = Some s'" and inv: "entry_inv s t"
  shows "entry_inv s' t"
  using st
proof (cases rule: thread_step_cases)
  case callback
  note d = callback_stepD[OF callback(3)]
  show ?thesis
  proof (cases "t = u")
    case True
    then show ?thesis using d(2,4) callback(1) by (auto simp: entry_inv_def)
  next
    case False
    then show ?thesis using entry_inv_cong[OF inv, of s'] d(2,3) move_at_entry[OF d(1), of t] by (metis at_entry_write(1) fun_upd_other)
  qed
next
  case (protocol fin c)
  note d = protocol_stepD[OF protocol(1)]
  show ?thesis
  proof (cases "t = u")
    case True
    have c: "g_callback s' u = c" using d(4) by simp
    show ?thesis
      using inv routine_step_pc[OF d(1)] d(2) protocol(2-4) unfolding True entry_inv_def c
      by (cases "pc (g_worker s u)"; cases "g_callback s u") auto
  next
    case False
    then show ?thesis using entry_inv_cong[OF inv, of s'] d(2-4) by (metis fun_upd_other)
  qed
qed

lemma gated_step_entry:
  assumes st: "gated_step cfg e s = Some s'" and inv: "entry_inv s t"
  shows "entry_inv s' t"
proof (cases e)
  case (Turn u)
  then show ?thesis using st thread_step_entry[OF _ inv] by (simp add: gated_step_def split: if_splits)
next
  case (Control u i)
  then obtain w where w: "ctl_step i (g_worker s u) = Some w" "s' = set_worker u s w"
    using st by (auto simp: gated_step_def bind_eq_Some_conv split: if_splits)
  show ?thesis by (rule entry_inv_cong[OF inv]) (use ctl_step_pc[OF w(1)] in \<open>simp_all add: w(2) set_worker_def\<close>)
next
  case (Call u i r)
  then have "s' = set_worker u s ((g_worker s u)\<lparr>ctl := (ctl (g_worker s u))(i := C_Lock r)\<rparr>)"
    using st by (simp add: gated_step_def Let_def split: if_splits)
  then show ?thesis by (intro entry_inv_cong[OF inv]) (simp_all add: set_worker_def)
next
  case (Wakeup u)
  then have "pc (g_worker s u) = W_Waiting" "s' = set_worker u s ((g_worker s u)\<lparr>pc := W_Relock\<rparr>)"
    using st by (simp_all add: gated_step_def Let_def split: if_splits)
  then show ?thesis using inv by (cases "t = u") (simp_all add: set_worker_def entry_inv_def)
next
  case (Done_word u d)
  then have "s' = s\<lparr>g_flow := write_done u d (g_flow s)\<rparr>" using st by (simp add: gated_step_def split: if_splits)
  then show ?thesis by (intro entry_inv_cong[OF inv]) simp_all
qed

lemma gated_reach_entry:
  assumes "gated_reach cfg f s" "at_entry t f"
  shows "entry_inv s t"
proof (rule gated_reach_induct[OF assms(1)])
  show "entry_inv (gated_start f) t" using assms(2) by (simp add: entry_inv_def gated_start_def worker_start_def)
qed (erule gated_step_entry)

end
