(* ===== verification/Gated_Stop.thy ===== *)
theory Gated_Stop
  imports Gated_Flow
begin

text \<open>
  Stopping and ending the threads of a running pipeline: how many steps of its routine a thread can
  still take once its worker is disabled, and how many turns it needs to exit once its worker
  is destroyed.
\<close>

section \<open>The steps left in an iteration\<close>

fun thread_rank :: "flow_thread \<Rightarrow> 'u flow \<Rightarrow> nat" where
  "thread_rank Source_thread s = source_rank (so_at s)"
| "thread_rank (Stage_thread i) s = stage_rank (st_at s ! i)"
| "thread_rank Sink_thread s = sink_rank (sk_at s)"

fun routine_length :: "flow_thread \<Rightarrow> nat" where
  "routine_length Source_thread = 4"
| "routine_length (Stage_thread i) = 8"
| "routine_length Sink_thread = 5"

lemma thread_rank_le: "Suc (thread_rank t s) \<le> routine_length t"
proof (cases t)
  case Source_thread
  then show ?thesis by (cases "so_at s") simp_all
next
  case (Stage_thread i)
  then show ?thesis by (cases "st_at s ! i") simp_all
next
  case Sink_thread
  then show ?thesis by (cases "sk_at s") simp_all
qed

lemma thread_rank_write [simp]:
  "thread_rank u (show_flags t w f) = thread_rank u f" "thread_rank u (write_done t d f) = thread_rank u f"
  by (cases t; cases u; simp)+

lemma move_rank:
  assumes inv: "flow_inv cfg B f" and t: "t \<in> flow_threads f" and m: "move cfg t f = Some f'"
  shows "at_entry t f' \<or> thread_rank t f' < thread_rank t f"
proof (cases t)
  case Source_thread
  then show ?thesis
    using m source_step_rank[of cfg "so_at f" "(fl_sh f, fl_source f)"]
    by (auto simp: source_move_def source_next_def bind_eq_Some_conv Let_def split: option.splits)
next
  case (Stage_thread i)
  then have "i < length (st_at f)" using t flow_invD(2)[OF inv] by (auto simp: flow_threads_def)
  then show ?thesis
    using m Stage_thread stage_step_rank[of cfg "st_at f ! i" "(fl_sh f, fl_stages f ! i)"]
    by (auto simp: stage_move_def stage_next_def bind_eq_Some_conv Let_def split: option.splits)
next
  case Sink_thread
  then show ?thesis
    using m sink_step_rank[of cfg "sk_at f" "(fl_sh f, fl_sink f)"]
    by (auto simp: sink_move_def sink_next_def bind_eq_Some_conv Let_def split: option.splits)
qed

lemma move_rank_other: "move cfg t f = Some f' \<Longrightarrow> u \<noteq> t \<Longrightarrow> thread_rank u f' = thread_rank u f"
  by (cases t; cases u) (auto simp: source_move_def stage_move_def sink_move_def bind_eq_Some_conv Let_def)

definition in_callback :: "flow_thread \<Rightarrow> 'u gated \<Rightarrow> bool" where
  "in_callback t s \<longleftrightarrow> pc (g_worker s t) = W_Callback \<and> g_callback s t = Running"

text \<open>What a reachable state offers to the proofs below.\<close>

definition gated_inv :: "fifo_config \<Rightarrow> (nat \<Rightarrow> mtdp_buffer multiset) \<Rightarrow> 'u gated \<Rightarrow> bool" where
  "gated_inv cfg B s \<longleftrightarrow> flow_inv cfg B (g_flow s) \<and>
     (\<forall>t \<in> flow_threads (g_flow s). worker_inv (g_worker s t) \<and> entry_inv s t)"

lemma gated_step_threads: "gated_step cfg e s = Some s' \<Longrightarrow> flow_threads (g_flow s') = flow_threads (g_flow s)"
  using flow_reach_stages[OF gated_step_flow] by (metis flow_threads_def)

lemma gated_step_inv:
  assumes st: "gated_step cfg e s = Some s'" and inv: "gated_inv cfg B s"
  shows "gated_inv cfg B s'"
proof -
  have "flow_inv cfg B (g_flow s')" using flow_reach_inv[OF gated_step_flow[OF st]] inv by (simp add: gated_inv_def)
  moreover have "worker_inv (g_worker s' t) \<and> entry_inv s' t" if "t \<in> flow_threads (g_flow s')" for t
    using that inv gated_step_worker[OF st, of t] worker_step_inv gated_step_entry[OF st, of t]
    unfolding gated_step_threads[OF st] gated_inv_def by metis
  ultimately show ?thesis by (simp add: gated_inv_def)
qed

lemma gated_start_inv:
  assumes "flow_start cfg B f"
  shows "gated_inv cfg B (gated_start f)"
proof -
  have "at_entry t f" if "t \<in> flow_threads f" for t
    using assms that by (auto simp: flow_start_def Let_def flow_threads_def)
  then show ?thesis
    using flow_start_inv[OF assms] worker_inv_start by (simp add: gated_inv_def gated_start_def entry_inv_def worker_start_def)
qed

lemma gated_reach_inv:
  assumes "gated_reach cfg f s" "flow_start cfg B f"
  shows "gated_inv cfg B s"
  by (rule gated_reach_induct[OF assms(1)]) (auto intro: gated_start_inv[OF assms(2)] gated_step_inv)

lemma gated_reach_threads: "gated_reach cfg f s \<Longrightarrow> flow_threads (g_flow s) = flow_threads f"
  by (erule gated_reach_induct) (simp_all add: gated_start_def gated_step_threads)

lemma gated_reach_step: "gated_reach cfg f s \<Longrightarrow> gated_step cfg e s = Some s' \<Longrightarrow> gated_reach cfg f s'"
  unfolding gated_reach_def by (metis gated_run.simps gated_run_append bind.bind_lunit)

text \<open>Turns of other threads leave a thread alone.\<close>

lemma thread_step_other:
  assumes "thread_step cfg u s = Some s'" "t \<noteq> u"
  shows "g_worker s' t = g_worker s t" "g_callback s' t = g_callback s t"
    "thread_rank t (g_flow s') = thread_rank t (g_flow s)"
proof -
  from assms(1) have "g_worker s' t = g_worker s t \<and> g_callback s' t = g_callback s t \<and>
    thread_rank t (g_flow s') = thread_rank t (g_flow s)"
  proof (cases rule: thread_step_cases)
    case callback
    note d = callback_stepD[OF callback(3)]
    show ?thesis using d(2,3) move_rank_other[OF d(1) assms(2)] assms(2) by (metis fun_upd_other thread_rank_write(1))
  next
    case (protocol fin c)
    note d = protocol_stepD[OF protocol(1)]
    show ?thesis using d(2-4) assms(2) by (metis fun_upd_other)
  qed
  then show "g_worker s' t = g_worker s t" "g_callback s' t = g_callback s t"
    "thread_rank t (g_flow s') = thread_rank t (g_flow s)" by simp_all
qed

section \<open>A disabled worker\<close>

text \<open>The turns that a thread takes inside its routine during a run.\<close>

fun callback_turns :: "fifo_config \<Rightarrow> flow_thread \<Rightarrow> event list \<Rightarrow> 'u gated \<Rightarrow> nat" where
  "callback_turns cfg t [] s = 0"
| "callback_turns cfg t (e # es) s = of_bool (e = Turn t \<and> in_callback t s) +
     (case gated_step cfg e s of None \<Rightarrow> 0 | Some s' \<Rightarrow> callback_turns cfg t es s')"

text \<open>Disabled, and no other thread is about to enable it.\<close>

definition stopped :: "wstate \<Rightarrow> bool" where
  "stopped w \<longleftrightarrow> \<not> w_enabled w \<and> (\<forall>i. ctl w i \<noteq> C_Lock Enable \<and> ctl w i \<noteq> C_Set Enable)"

text \<open>The steps of its routine a thread can still take then.\<close>

definition steps_left :: "flow_thread \<Rightarrow> 'u gated \<Rightarrow> nat" where
  "steps_left t s = (let w = g_worker s t in
     if in_callback t s then Suc (thread_rank t (g_flow s))
     else if pc w \<in> {W_Unlock, W_Check} \<and> \<not> w_destroyed w then routine_length t else 0)"

lemma steps_left_le: "steps_left t s \<le> routine_length t"
  using thread_rank_le[of t "g_flow s"] by (simp add: steps_left_def Let_def)

lemma routine_stopped:
  assumes "routine_step fin w = Some w'" "stopped w"
  shows "stopped w'" "pc w' \<in> {W_Unlock, W_Check} \<Longrightarrow> \<not> w_destroyed w' \<Longrightarrow> pc w = W_Unlock \<and> \<not> w_destroyed w"
    "pc w' = W_Callback \<Longrightarrow> pc w = W_FinSignal \<or> pc w = W_Check \<and> \<not> w_destroyed w"
  using assms routine_step_fields[OF assms(1)]
  by (cases "pc w"; auto simp: stopped_def routine_step_def worker_signal_def split: if_splits)+

lemma ctl_stopped:
  assumes "ctl_step i w = Some w'" "stopped w"
  shows "stopped w'" "w_destroyed w \<Longrightarrow> w_destroyed w'"
  using assms by (cases "ctl w i"; auto simp: stopped_def ctl_step_def apply_request_def worker_signal_def
      split: if_splits ctl_request.splits)+


lemma steps_left_cong:
  "g_callback s' t = g_callback s t \<Longrightarrow> thread_rank t (g_flow s') = thread_rank t (g_flow s) \<Longrightarrow>
     pc (g_worker s' t) = pc (g_worker s t) \<Longrightarrow> (w_destroyed (g_worker s t) \<Longrightarrow> w_destroyed (g_worker s' t)) \<Longrightarrow>
     steps_left t s' \<le> steps_left t s"
  by (auto simp: steps_left_def in_callback_def Let_def)

lemma turn_stopped:
  assumes st: "thread_step cfg t s = Some s'" and inv: "gated_inv cfg B s" and t: "t \<in> flow_threads (g_flow s)"
    and stop: "stopped (g_worker s t)"
  shows "stopped (g_worker s' t) \<and> of_bool (in_callback t s) + steps_left t s' \<le> steps_left t s"
  using st
proof (cases rule: thread_step_cases)
  case callback
  let ?f = "show_flags t (g_worker s t) (g_flow s)"
  note d = callback_stepD[OF callback(3)]
  have f: "flow_step cfg (g_flow s) ?f" by (rule show_flags_step[OF t])
  have "flow_inv cfg B ?f" using flow_step_inv[OF f] inv by (simp add: gated_inv_def)
  moreover have "t \<in> flow_threads ?f" using t flow_step_stages[OF f] by (simp add: flow_threads_def)
  ultimately have "at_entry t (g_flow s') \<or> thread_rank t (g_flow s') < thread_rank t (g_flow s)"
    using move_rank[OF _ _ d(1)] by simp
  then show ?thesis using d(2,4) stop callback(1,2) by (auto simp: steps_left_def in_callback_def Let_def)
next
  case (protocol fin c)
  note d = protocol_stepD[OF protocol(1)]
  note r = routine_stopped[OF d(1) stop]
  have out: "\<not> in_callback t s" using protocol(2) by (simp add: in_callback_def)
  have e: "entry_inv s t" using inv t by (simp add: gated_inv_def)
  have c: "g_callback s' t = c" using d(4) by simp
  have "steps_left t s' \<le> steps_left t s"
  proof (cases "in_callback t s'")
    case True
    then have "pc (g_worker s' t) = W_Callback" "c = Running" using c by (simp_all add: in_callback_def)
    then have "pc (g_worker s t) = W_Check \<and> \<not> w_destroyed (g_worker s t)"
      using r(3) protocol(2,3) e by (auto simp: entry_inv_def)
    then show ?thesis using out steps_left_le[of t s'] by (simp add: steps_left_def Let_def)
  next
    case False
    then show ?thesis using out r(2) by (auto simp: steps_left_def Let_def)
  qed
  with r(1) out show ?thesis by simp
qed

lemma event_stopped:
  assumes st: "gated_step cfg e s = Some s'" and inv: "gated_inv cfg B s" and t: "t \<in> flow_threads (g_flow s)"
    and stop: "stopped (g_worker s t)" and e: "\<And>i. e \<noteq> Call t i Enable"
  shows "stopped (g_worker s' t) \<and> of_bool (e = Turn t \<and> in_callback t s) + steps_left t s' \<le> steps_left t s"
proof (cases e)
  case (Turn u)
  then have st': "thread_step cfg u s = Some s'" using st by (simp add: gated_step_def split: if_splits)
  show ?thesis
  proof (cases "u = t")
    case True
    then show ?thesis using turn_stopped[OF _ inv t stop] st' Turn by simp
  next
    case False
    then show ?thesis using thread_step_other[OF st', of t] steps_left_cong[of s' t s] stop Turn by simp
  qed
next
  case (Control u i)
  then obtain w where w: "ctl_step i (g_worker s u) = Some w" "s' = set_worker u s w"
    using st by (auto simp: gated_step_def bind_eq_Some_conv split: if_splits)
  show ?thesis
  proof (cases "u = t")
    case True
    then show ?thesis using ctl_stopped[of i "g_worker s t" w] ctl_step_pc[OF w(1)] stop w Control
      by (auto simp: set_worker_def intro!: steps_left_cong)
  qed (use w(2) Control stop in \<open>auto simp: set_worker_def intro!: steps_left_cong\<close>)
next
  case (Call u i r)
  then have s': "s' = set_worker u s ((g_worker s u)\<lparr>ctl := (ctl (g_worker s u))(i := C_Lock r)\<rparr>)"
    using st by (simp add: gated_step_def Let_def split: if_splits)
  have "u = t \<Longrightarrow> r \<noteq> Enable" using e[of i] Call by blast
  then have "stopped (g_worker s' t)" using stop by (auto simp: s' set_worker_def stopped_def)
  moreover have "steps_left t s' \<le> steps_left t s" by (rule steps_left_cong) (auto simp: s' set_worker_def)
  ultimately show ?thesis using Call by simp
next
  case (Wakeup u)
  then have "pc (g_worker s u) = W_Waiting" "s' = set_worker u s ((g_worker s u)\<lparr>pc := W_Relock\<rparr>)"
    using st by (simp_all add: gated_step_def Let_def split: if_splits)
  then show ?thesis
    using stop Wakeup by (cases "u = t") (simp_all add: set_worker_def stopped_def steps_left_def in_callback_def Let_def)
next
  case (Done_word u d)
  then have "s' = s\<lparr>g_flow := write_done u d (g_flow s)\<rparr>" using st by (simp add: gated_step_def split: if_splits)
  then show ?thesis using stop Done_word by (auto intro!: steps_left_cong)
qed

lemma run_stopped:
  "gated_inv cfg B s \<Longrightarrow> t \<in> flow_threads (g_flow s) \<Longrightarrow> stopped (g_worker s t) \<Longrightarrow>
     (\<forall>i. Call t i Enable \<notin> set es) \<Longrightarrow> callback_turns cfg t es s \<le> steps_left t s"
proof (induction es arbitrary: s)
  case (Cons e es)
  show ?case
  proof (cases "gated_step cfg e s")
    case None
    have "of_bool (e = Turn t \<and> in_callback t s) \<le> steps_left t s" by (simp add: steps_left_def)
    then show ?thesis using None by simp
  next
    case (Some s')
    have e: "e \<noteq> Call t i Enable" for i using Cons.prems(4) by auto
    note d = event_stopped[OF Some Cons.prems(1-3) e]
    have "callback_turns cfg t es s' \<le> steps_left t s'"
      using Cons.IH[OF gated_step_inv[OF Some Cons.prems(1)]] gated_step_threads[OF Some] d Cons.prems(2,4) by simp
    then show ?thesis using d Some by simp
  qed
qed simp

section \<open>A destroyed worker\<close>

text \<open>The turns of a destroyed worker's thread up to its exit.\<close>

definition exit_turns :: "flow_thread \<Rightarrow> 'u gated \<Rightarrow> nat" where
  "exit_turns t s = (let w = g_worker s t in
     if pc w = W_Callback then
       (case g_callback s t of
          Running \<Rightarrow> Suc (thread_rank t (g_flow s)) + (if t = Source_thread then 7 else 2)
        | Finishing \<Rightarrow> 7
        | Returned \<Rightarrow> 2)
     else exit_distance (pc w))"

definition doomed :: "wstate \<Rightarrow> bool" where
  "doomed w \<longleftrightarrow> w_destroyed w \<and> controllers_idle w"

lemma exit_turns_0: "exit_turns t s = 0 \<longleftrightarrow> pc (g_worker s t) = W_Exited"
  by (cases "g_callback s t") (auto simp: exit_turns_def Let_def exit_distance_0)

lemma exit_turns_le: "exit_turns t s \<le> 11"
proof -
  have "exit_distance p \<le> 6" for p by (cases p) simp_all
  from this[of "pc (g_worker s t)"] have "exit_distance (pc (g_worker s t)) \<le> 11" by linarith
  moreover have "Suc (thread_rank t (g_flow s)) + (if t = Source_thread then 7 else 2) \<le> 11"
    using thread_rank_le[of t "g_flow s"] by (cases t) auto
  ultimately show ?thesis by (cases "g_callback s t") (auto simp: exit_turns_def Let_def)
qed

lemma exit_turns_cong:
  "g_callback s' t = g_callback s t \<Longrightarrow> thread_rank t (g_flow s') = thread_rank t (g_flow s) \<Longrightarrow>
     pc (g_worker s' t) = pc (g_worker s t) \<Longrightarrow> exit_turns t s' = exit_turns t s"
  by (cases "g_callback s t") (simp_all add: exit_turns_def Let_def)

text \<open>A thread that has not exited can take its turn, and comes closer to its exit.\<close>

lemma turn_doomed:
  assumes inv: "gated_inv cfg B s" and t: "t \<in> flow_threads (g_flow s)" and doom: "doomed (g_worker s t)"
    and pc: "pc (g_worker s t) \<noteq> W_Exited"
  obtains s' where "thread_step cfg t s = Some s'" "doomed (g_worker s' t)" "exit_turns t s' < exit_turns t s"
proof -
  let ?w = "g_worker s t" and ?f = "show_flags t (g_worker s t) (g_flow s)"
  have wi: "worker_inv ?w" and en: "entry_inv s t" using inv t by (simp_all add: gated_inv_def)
  have des: "w_destroyed ?w" and idle: "controllers_idle ?w" using doom by (simp_all add: doomed_def)
  consider (run) "in_callback t s" | (ends) "pc ?w = W_Callback" "g_callback s t \<noteq> Running" | (out) "pc ?w \<noteq> W_Callback"
    by (auto simp: in_callback_def)
  then show ?thesis
  proof cases
    case run
    have f: "flow_step cfg (g_flow s) ?f" by (rule show_flags_step[OF t])
    have fi: "flow_inv cfg B ?f" using flow_step_inv[OF f] inv by (simp add: gated_inv_def)
    have ft: "t \<in> flow_threads ?f" using t flow_step_stages[OF f] by (simp add: flow_threads_def)
    obtain f' where m: "move cfg t ?f = Some f'" using move_inv[OF fi ft] by blast
    then obtain s' where s': "callback_step cfg t s = Some s'" "g_flow s' = f'" "g_worker s' = g_worker s"
      "g_callback s' t = (if \<not> at_entry t f' then Running else if finishes cfg t ?f then Finishing else Returned)"
      by (simp add: callback_step_def)
    have fin: "finishes cfg t ?f \<Longrightarrow> t = Source_thread" by (cases t) simp_all
    have "exit_turns t s' < exit_turns t s"
      using move_rank[OF fi ft m] run s'(2-4) fin by (auto simp: exit_turns_def in_callback_def Let_def)
    with s' run doom show ?thesis by (intro that[of s']) (simp_all add: thread_step_def in_callback_def)
  next
    case ends
    let ?s = "\<lambda>p c. s\<lparr>g_worker := (g_worker s)(t := ?w\<lparr>pc := p\<rparr>), g_callback := (g_callback s)(t := c)\<rparr>"
    have "thread_step cfg t s = Some (if g_callback s t = Finishing then ?s W_FinLock Returned else ?s W_Test Running)"
      using ends by (cases "g_callback s t") (simp_all add: thread_step_def protocol_step_def routine_step_def)
    moreover have "exit_turns t (?s W_FinLock Returned) < exit_turns t s" if "g_callback s t = Finishing"
      using ends that by (simp add: exit_turns_def)
    moreover have "exit_turns t (?s W_Test Running) < exit_turns t s" if "g_callback s t \<noteq> Finishing"
      using ends that by (cases "g_callback s t") (simp_all add: exit_turns_def)
    moreover have "doomed (?w\<lparr>pc := p\<rparr>)" for p using doom by (simp add: doomed_def controllers_idle_def)
    ultimately show ?thesis by (intro that[of "if g_callback s t = Finishing then ?s W_FinLock Returned else ?s W_Test Running"]) simp_all
  next
    case out
    obtain w' where w': "routine_step False ?w = Some w'" "controllers_idle w'" "w_destroyed w'"
      using routine_not_blocked[OF wi idle _ pc] des by metis
    note dist = exit_distance_step[OF w'(1) des]
    let ?s = "set_worker t s w'"
    have "exit_turns t ?s < exit_turns t s"
    proof (cases "pc w' = W_Callback")
      case True
      then have "pc ?w = W_FinSignal" using routine_step_pc[OF w'(1)] out w'(1) des
        by (cases "pc ?w") (auto simp: routine_step_def)
      then show ?thesis using True en by (simp add: exit_turns_def set_worker_def entry_inv_def)
    next
      case False
      then show ?thesis using dist out by (simp add: exit_turns_def set_worker_def)
    qed
    moreover have "thread_step cfg t s = Some ?s"
      using out w'(1) by (simp add: thread_step_def protocol_step_def set_worker_def)
    ultimately show ?thesis using w' by (intro that[of ?s]) (simp_all add: set_worker_def doomed_def)
  qed
qed

text \<open>A schedule of the pipeline's threads; a thread that is blocked or has exited loses its turn.\<close>

fun turns :: "fifo_config \<Rightarrow> flow_thread list \<Rightarrow> 'u gated \<Rightarrow> 'u gated" where
  "turns cfg [] s = s"
| "turns cfg (t # ts) s = turns cfg ts (case thread_step cfg t s of None \<Rightarrow> s | Some s' \<Rightarrow> s')"

lemma turns_reach: "gated_reach cfg f s \<Longrightarrow> set ts \<subseteq> flow_threads f \<Longrightarrow> gated_reach cfg f (turns cfg ts s)"
proof (induction ts arbitrary: s)
  case (Cons t ts)
  have "thread_step cfg t s = Some s' \<Longrightarrow> gated_reach cfg f s'" for s'
    using gated_reach_step[OF Cons.prems(1), of "Turn t" s'] gated_reach_threads[OF Cons.prems(1)] Cons.prems(2)
    by (simp add: gated_step_def)
  then show ?case using Cons by (auto split: option.split)
qed simp

lemma thread_step_inv:
  assumes "thread_step cfg t s = Some s'" "t \<in> flow_threads (g_flow s)" "gated_inv cfg B s"
  shows "gated_inv cfg B s'" "flow_threads (g_flow s') = flow_threads (g_flow s)"
  using gated_step_inv[of cfg "Turn t" s s'] gated_step_threads[of cfg "Turn t" s s'] assms by (simp_all add: gated_step_def)

lemma turns_exit:
  "gated_inv cfg B s \<Longrightarrow> set ts \<subseteq> flow_threads (g_flow s) \<Longrightarrow> t \<in> flow_threads (g_flow s) \<Longrightarrow>
     doomed (g_worker s t) \<Longrightarrow> exit_turns t (turns cfg ts s) \<le> exit_turns t s - count_list ts t"
proof (induction ts arbitrary: s)
  case (Cons u ts)
  have u: "u \<in> flow_threads (g_flow s)" using Cons.prems(2) by simp
  show ?case
  proof (cases "thread_step cfg u s")
    case None
    have "exit_turns t s = 0" if "u = t"
      using turn_doomed[OF Cons.prems(1,3,4)] None that by (metis exit_turns_0 option.distinct(1))
    moreover have "exit_turns t (turns cfg ts s) \<le> exit_turns t s - count_list ts t" using Cons by simp
    ultimately show ?thesis using None by auto
  next
    case (Some s')
    note inv = thread_step_inv[OF Some u Cons.prems(1)]
    have IH: "doomed (g_worker s' t) \<Longrightarrow> exit_turns t (turns cfg ts s') \<le> exit_turns t s' - count_list ts t"
      using Cons.IH[OF inv(1)] Cons.prems(2,3) inv(2) by simp
    show ?thesis
    proof (cases "u = t")
      case True
      have "pc (g_worker s t) \<noteq> W_Exited"
        using Some True by (auto simp: thread_step_def protocol_step_def routine_step_def)
      then have "doomed (g_worker s' t)" "exit_turns t s' < exit_turns t s"
        using turn_doomed[OF Cons.prems(1,3,4)] Some True by (metis option.inject)+
      with IH show ?thesis using Some True by simp
    next
      case False
      note o = thread_step_other[OF Some, of t]
      have "exit_turns t s' = exit_turns t s" using o False by (intro exit_turns_cong) simp_all
      with IH o(1) Cons.prems(4) False Some show ?thesis by simp
    qed
  qed
qed simp

end
