(* ===== verification/Gated_Requests.thy ===== *)
theory Gated_Requests
  imports Gated_Stop
begin

text \<open>
  \<open>mtdp_pipeline_start\<close>, \<open>mtdp_pipeline_stop\<close> and the first half of \<open>mtdp_pipeline_disable\<close> as the
  threads of the pipeline see them: one other thread goes through the workers in the order of the
  code and enables, disables or destroys each of them, while they run.
\<close>

section \<open>The calls\<close>

definition request_order :: "nat \<Rightarrow> ctl_request \<Rightarrow> flow_thread list" where
  "request_order n r =
    (case r of
       Enable \<Rightarrow> Sink_thread # map Stage_thread (rev [0..<n]) @ [Source_thread]
     | _ \<Rightarrow> Source_thread # map Stage_thread [0..<n] @ [Sink_thread])"

text \<open>A call on one worker: it is begun, and goes through its four steps (lock, assignment, unlock,
  signal). Thread \<open>i\<close> makes it.\<close>

definition worker_request :: "nat \<Rightarrow> ctl_request \<Rightarrow> flow_thread \<Rightarrow> event list" where
  "worker_request i r t = Call t i r # replicate 4 (Control t i)"

text \<open>When destroying, \<open>mtdp_source_destroy\<close> sets the source's \<open>done\<close> word first, \<open>mtdp_stage_destroy\<close>
  and \<open>mtdp_sink_destroy\<close> theirs last.\<close>

definition stage_request :: "nat \<Rightarrow> ctl_request \<Rightarrow> flow_thread \<Rightarrow> event list" where
  "stage_request i r t =
    (if r = Destroy then
       (if t = Source_thread then Done_word t 1 # worker_request i r t else worker_request i r t @ [Done_word t 1])
     else worker_request i r t)"

definition pipeline_request :: "nat \<Rightarrow> nat \<Rightarrow> ctl_request \<Rightarrow> event list" where
  "pipeline_request n i r = concat (map (stage_request i r) (request_order n r))"

text \<open>The other events of a run: the pipeline's own threads.\<close>

fun own_event :: "event \<Rightarrow> bool" where
  "own_event (Turn t) \<longleftrightarrow> True"
| "own_event (Wakeup t) \<longleftrightarrow> True"
| "own_event _ \<longleftrightarrow> False"

definition requested :: "event list \<Rightarrow> event list" where
  "requested es = filter (\<lambda>e. \<not> own_event e) es"

lemma set_request_order: "set (request_order n r) = {Source_thread, Sink_thread} \<union> Stage_thread ` {..<n}"
  by (cases r) (auto simp: request_order_def)

lemma distinct_request_order: "distinct (request_order n r)"
  by (cases r) (auto simp: request_order_def distinct_map inj_on_def)

section \<open>A completed call is effective\<close>

definition granted :: "ctl_request \<Rightarrow> wstate \<Rightarrow> bool" where
  "granted r w \<longleftrightarrow> (case r of Enable \<Rightarrow> w_enabled w | Disable \<Rightarrow> \<not> w_enabled w | Destroy \<Rightarrow> w_destroyed w)"

text \<open>Thread \<open>i\<close> has done \<open>k\<close> of the five steps of its call on a worker; no other thread is in one.\<close>

definition request_at :: "nat \<Rightarrow> ctl_request \<Rightarrow> nat \<Rightarrow> wstate \<Rightarrow> bool" where
  "request_at i r k w \<longleftrightarrow> (\<forall>j. j \<noteq> i \<longrightarrow> ctl w j = C_Idle) \<and> (3 \<le> k \<longrightarrow> granted r w) \<and>
     ctl w i = [C_Idle, C_Lock r, C_Set r, C_Unlock, C_Signal, C_Idle] ! k"

lemma request_at_0: "controllers_idle w \<Longrightarrow> request_at i r 0 w"
  by (simp add: request_at_def controllers_idle_def)

lemma request_at_5: "request_at i r 5 w \<Longrightarrow> controllers_idle w \<and> granted r w"
  by (auto simp: request_at_def controllers_idle_def)

lemma routine_request:
  "routine_step fin w = Some w' \<Longrightarrow> request_at i r k w \<Longrightarrow> request_at i r k w'"
  using routine_step_fields[of fin w w'] by (cases r) (auto simp: request_at_def granted_def)

lemma ctl_request_step:
  assumes st: "ctl_step i w = Some w'" and at: "request_at i r k w" and k: "k \<le> 5"
  shows "1 \<le> k \<and> k < 5 \<and> request_at i r (Suc k) w'"
proof -
  have "k = 0 \<or> k = 1 \<or> k = 2 \<or> k = 3 \<or> k = 4 \<or> k = 5" using k by linarith
  then show ?thesis
  proof (elim disjE)
    assume "k = 2"
    then show ?thesis
      using st at by (cases r) (auto simp: request_at_def ctl_step_def apply_request_def granted_def)
  qed (use st at in \<open>cases r; auto simp: request_at_def ctl_step_def worker_signal_def granted_def split: if_splits\<close>)+
qed

lemma call_request_step:
  assumes "ctl w i = C_Idle" "request_at i r k w" "k \<le> 5"
  shows "k = 0 \<and> request_at i r 1 (w\<lparr>ctl := (ctl w)(i := C_Lock r)\<rparr>) \<or> k = 5"
proof -
  have "k = 0 \<or> k = 1 \<or> k = 2 \<or> k = 3 \<or> k = 4 \<or> k = 5" using assms(3) by linarith
  then show ?thesis by (elim disjE) (use assms(1,2) in \<open>simp_all add: request_at_def\<close>)
qed

text \<open>The steps of a list that belong to the call of thread \<open>i\<close> on the worker \<open>t\<close>.\<close>

definition request_steps :: "nat \<Rightarrow> ctl_request \<Rightarrow> flow_thread \<Rightarrow> event list \<Rightarrow> nat" where
  "request_steps i r t es = length (filter (\<lambda>e. e = Call t i r \<or> e = Control t i) es)"

definition only_requests :: "nat \<Rightarrow> ctl_request \<Rightarrow> event list \<Rightarrow> bool" where
  "only_requests i r es \<longleftrightarrow> (\<forall>t j q. Call t j q \<in> set es \<longrightarrow> j = i \<and> q = r) \<and> (\<forall>t j. Control t j \<in> set es \<longrightarrow> j = i)"

lemma event_request:
  assumes st: "gated_step cfg e s = Some s'" and at: "request_at i r k (g_worker s t)" and only: "only_requests i r [e]"
    and k: "k + request_steps i r t [e] \<le> 5"
  shows "request_at i r (k + request_steps i r t [e]) (g_worker s' t)"
proof (cases e)
  case (Turn u)
  then have "thread_step cfg u s = Some s'" using st by (simp add: gated_step_def split: if_splits)
  then have "request_at i r k (g_worker s' t)"
  proof (cases rule: thread_step_cases)
    case (protocol fin c)
    note d = protocol_stepD[OF protocol(1)]
    show ?thesis using routine_request[OF d(1)] at d(3) by (metis fun_upd_other)
  qed (use at in \<open>simp add: callback_stepD(2)\<close>)
  then show ?thesis using Turn by (simp add: request_steps_def)
next
  case (Control u j)
  then have j: "j = i" using only by (simp add: only_requests_def)
  obtain w where w: "ctl_step i (g_worker s u) = Some w" "s' = set_worker u s w"
    using st Control j by (auto simp: gated_step_def bind_eq_Some_conv split: if_splits)
  show ?thesis
    using ctl_request_step[OF w(1), of r k] at k by (cases "u = t") (simp_all add: w(2) set_worker_def request_steps_def Control j)
next
  case (Call u j q)
  then have j: "j = i" "q = r" using only by (simp_all add: only_requests_def)
  have s': "ctl (g_worker s u) i = C_Idle" "s' = set_worker u s ((g_worker s u)\<lparr>ctl := (ctl (g_worker s u))(i := C_Lock r)\<rparr>)"
    using st Call j by (simp_all add: gated_step_def Let_def split: if_splits)
  show ?thesis
    using call_request_step[of "g_worker s u" i r k] at k s' by (cases "u = t") (auto simp: set_worker_def request_steps_def Call j)
next
  case (Wakeup u)
  then have "s' = set_worker u s ((g_worker s u)\<lparr>pc := W_Relock\<rparr>)"
    using st by (simp add: gated_step_def Let_def split: if_splits)
  then show ?thesis using at Wakeup by (cases r) (auto simp: set_worker_def request_steps_def request_at_def granted_def)
next
  case (Done_word u d)
  then show ?thesis using st at by (auto simp: gated_step_def request_steps_def split: if_splits)
qed

lemma run_request:
  "gated_run cfg es s = Some s' \<Longrightarrow> request_at i r k (g_worker s t) \<Longrightarrow> only_requests i r es \<Longrightarrow>
     k + request_steps i r t es \<le> 5 \<Longrightarrow> request_at i r (k + request_steps i r t es) (g_worker s' t)"
proof (induction es arbitrary: k s)
  case (Cons e es)
  obtain s1 where s1: "gated_step cfg e s = Some s1" "gated_run cfg es s1 = Some s'"
    using Cons.prems(1) by (auto simp: bind_eq_Some_conv)
  have split: "request_steps i r t (e # es) = request_steps i r t [e] + request_steps i r t es"
    by (simp add: request_steps_def)
  have "only_requests i r [e]" "only_requests i r es" using Cons.prems(3) by (auto simp: only_requests_def)
  moreover from event_request[OF s1(1) Cons.prems(2) this(1)] Cons.prems(4)
  have "request_at i r (k + request_steps i r t [e]) (g_worker s1 t)" unfolding split by simp
  ultimately show ?case using Cons.IH[OF s1(2), of "k + request_steps i r t [e]"] Cons.prems(4) unfolding split by (simp add: add.assoc)
qed (simp add: request_steps_def)

text \<open>What the pipeline's calls contain.\<close>

lemma request_steps_requested: "request_steps i r t (requested es) = request_steps i r t es"
  unfolding request_steps_def requested_def filter_filter by (rule arg_cong[where f = length], rule filter_cong) auto

lemma only_requests_requested: "only_requests i r (requested es) = only_requests i r es"
  by (simp add: only_requests_def requested_def)

lemma pipeline_request_only: "only_requests i r (pipeline_request n i r)"
  by (auto simp: only_requests_def pipeline_request_def stage_request_def worker_request_def split: if_splits)

lemma request_steps_concat: "request_steps i r t (concat ess) = (\<Sum>es \<leftarrow> ess. request_steps i r t es)"
  by (induction ess) (simp_all add: request_steps_def)

lemma stage_request_steps: "request_steps i r t (stage_request i r u) = (if u = t then 5 else 0)"
  by (simp add: request_steps_def stage_request_def worker_request_def)

lemma pipeline_request_steps:
  assumes "t \<in> set (request_order n r)"
  shows "request_steps i r t (pipeline_request n i r) = 5"
proof -
  have "(\<Sum>u \<leftarrow> us. if u = t then 5 else (0::nat)) = 5" if "distinct us" "t \<in> set us" for us
    using that by (induction us) (auto simp: sum_list_eq_0_iff)
  then show ?thesis
    using assms distinct_request_order by (simp add: pipeline_request_def request_steps_concat stage_request_steps comp_def)
qed

lemma request_effective:
  assumes run: "gated_run cfg es s = Some s'" "requested es = pipeline_request (length (fl_stages (g_flow s))) i r"
    and t: "t \<in> flow_threads (g_flow s)" and idle: "controllers_idle (g_worker s t)"
  shows "controllers_idle (g_worker s' t)" "granted r (g_worker s' t)"
proof -
  let ?n = "length (fl_stages (g_flow s))"
  have "t \<in> set (request_order ?n r)" using t by (auto simp: set_request_order flow_threads_def)
  from pipeline_request_steps[OF this, of i] have steps: "request_steps i r t es = 5"
    by (metis request_steps_requested run(2))
  have only: "only_requests i r es" by (metis only_requests_requested pipeline_request_only run(2))
  have "request_at i r 5 (g_worker s' t)" using run_request[OF run(1) request_at_0[OF idle, of i r] only] steps by simp
  from request_at_5[OF this] show "controllers_idle (g_worker s' t)" "granted r (g_worker s' t)" by simp_all
qed


section \<open>A call can always be completed\<close>

definition all_idle :: "'u gated \<Rightarrow> bool" where
  "all_idle s \<longleftrightarrow> (\<forall>t \<in> flow_threads (g_flow s). controllers_idle (g_worker s t))"

text \<open>A thread that holds its worker's mutex gives it back within two of its turns.\<close>

lemma turn_outside:
  assumes "t \<in> flow_threads (g_flow s)" "pc (g_worker s t) \<noteq> W_Callback" "routine_step False (g_worker s t) = Some w"
  shows "gated_step cfg (Turn t) s = Some (set_worker t s w)"
  using assms by (simp add: gated_step_def thread_step_def protocol_step_def set_worker_def)

lemma set_worker_simps [simp]:
  "g_flow (set_worker t s w) = g_flow s" "g_worker (set_worker t s w) = (g_worker s)(t := w)"
  "g_callback (set_worker t s w) = g_callback s" "set_worker t (set_worker t s w) w' = set_worker t s w'"
  by (simp_all add: set_worker_def)

lemma lets_go:
  assumes inv: "gated_inv cfg B s" and idle: "all_idle s" and t: "t \<in> flow_threads (g_flow s)"
  obtains n w where "n \<le> 2" "gated_run cfg (replicate n (Turn t)) s = Some (set_worker t s w)" "owner w = None" "controllers_idle w"
proof -
  let ?w = "g_worker s t"
  have wi: "worker_inv ?w" and id: "controllers_idle ?w" using inv idle t by (simp_all add: gated_inv_def all_idle_def)
  note d = worker_invD(1)[OF wi] idle_owner[OF wi id]
  have once: "gated_run cfg (replicate 1 (Turn t)) s = Some (set_worker t s w)"
    if "routine_step False ?w = Some w" "pc ?w \<noteq> W_Callback" for w
    using turn_outside[OF t that(2,1)] by simp
  have twice: "gated_run cfg (replicate 2 (Turn t)) s = Some (set_worker t s w')"
    if "routine_step False ?w = Some w" "pc ?w \<noteq> W_Callback" "routine_step False w = Some w'" "pc w \<noteq> W_Callback" for w w'
    using turn_outside[OF t that(2,1)] turn_outside[of t "set_worker t s w" w' cfg] t that(3,4) by (simp add: numeral_2_eq_2)
  let ?free = "\<lambda>p. ?w\<lparr>owner := None, pc := p\<rparr>"
  have idle': "controllers_idle (?free p)" for p using id by (simp add: controllers_idle_def)
  consider "owner ?w = None" | "pc ?w = W_Unlock" | "pc ?w = W_FinUnlock" | "pc ?w = W_FinSet"
    | "pc ?w = W_Loop" "w_enabled ?w \<or> w_destroyed ?w" | "pc ?w = W_Loop" "\<not> (w_enabled ?w \<or> w_destroyed ?w)"
    using d by auto
  then show ?thesis
  proof cases
    case 1
    then show ?thesis using id by (intro that[of 0 ?w]) (simp_all add: set_worker_def)
  next
    case 2
    then have "routine_step False ?w = Some (?free W_Check)" by (simp add: routine_step_def)
    from once[OF this] 2 idle' show ?thesis by (intro that[of 1 "?free W_Check"]) simp_all
  next
    case 3
    then have "routine_step False ?w = Some (?free W_FinSignal)" by (simp add: routine_step_def)
    from once[OF this] 3 idle' show ?thesis by (intro that[of 1 "?free W_FinSignal"]) simp_all
  next
    case 4
    let ?w1 = "?w\<lparr>w_destroyed := True, pc := W_FinUnlock\<rparr>"
    have "routine_step False ?w = Some ?w1" "routine_step False ?w1 = Some (?w1\<lparr>owner := None, pc := W_FinSignal\<rparr>)"
      using 4 by (simp_all add: routine_step_def)
    from twice[OF this(1) _ this(2)] 4 id show ?thesis
      by (intro that[of 2 "?w1\<lparr>owner := None, pc := W_FinSignal\<rparr>"]) (simp_all add: controllers_idle_def)
  next
    case 5
    let ?w1 = "?w\<lparr>pc := W_Unlock\<rparr>"
    have "routine_step False ?w = Some ?w1" "routine_step False ?w1 = Some (?w1\<lparr>owner := None, pc := W_Check\<rparr>)"
      using 5 by (simp_all add: routine_step_def)
    from twice[OF this(1) _ this(2)] 5 id show ?thesis
      by (intro that[of 2 "?w1\<lparr>owner := None, pc := W_Check\<rparr>"]) (simp_all add: controllers_idle_def)
  next
    case 6
    then have "routine_step False ?w = Some (?w\<lparr>owner := None, signalled := False, pc := W_Waiting\<rparr>)"
      by (simp add: routine_step_def)
    from once[OF this] 6 id show ?thesis
      by (intro that[of 1 "?w\<lparr>owner := None, signalled := False, pc := W_Waiting\<rparr>"]) (simp_all add: controllers_idle_def)
  qed
qed

lemma ctl_step_runs:
  "ctl v i = C_Lock r \<Longrightarrow> owner v = None \<Longrightarrow> \<exists>v'. ctl_step i v = Some v' \<and> ctl v' = (ctl v)(i := C_Set r)"
  "ctl v i = C_Set r \<Longrightarrow> \<exists>v'. ctl_step i v = Some v' \<and> ctl v' = (ctl v)(i := C_Unlock)"
  "ctl v i = C_Unlock \<Longrightarrow> \<exists>v'. ctl_step i v = Some v' \<and> ctl v' = (ctl v)(i := C_Signal)"
  "ctl v i = C_Signal \<Longrightarrow> \<exists>v'. ctl_step i v = Some v' \<and> ctl v' = (ctl v)(i := C_Idle)"
  by (simp_all add: ctl_step_def apply_request_def worker_signal_def split: ctl_request.split)

lemma worker_request_run:
  assumes t: "t \<in> flow_threads (g_flow s)" and w: "owner (g_worker s t) = None" "controllers_idle (g_worker s t)"
  obtains w' where "gated_run cfg (worker_request i r t) s = Some (set_worker t s w')" "controllers_idle w'"
proof -
  let ?c = "\<lambda>c. (\<lambda>_. C_Idle)(i := c)"
  define w1 where "w1 = (g_worker s t)\<lparr>ctl := ?c (C_Lock r)\<rparr>"
  have idle: "ctl (g_worker s t) = (\<lambda>_. C_Idle)" using w(2) by (auto simp: controllers_idle_def)
  have st: "gated_step cfg (Control t i) (set_worker t s v) = Some (set_worker t s v')" if "ctl_step i v = Some v'" for v v'
    using t that by (simp add: gated_step_def)
  have 1: "gated_step cfg (Call t i r) s = Some (set_worker t s w1)" using t idle by (simp add: gated_step_def w1_def)
  obtain w2 where 2: "ctl_step i w1 = Some w2" "ctl w2 = ?c (C_Set r)"
    using ctl_step_runs(1)[of w1 i r] w(1) by (auto simp: w1_def)
  obtain w3 where 3: "ctl_step i w2 = Some w3" "ctl w3 = ?c C_Unlock"
    using ctl_step_runs(2)[of w2 i r] 2(2) by auto
  obtain w4 where 4: "ctl_step i w3 = Some w4" "ctl w4 = ?c C_Signal"
    using ctl_step_runs(3)[of w3 i] 3(2) by auto
  obtain w5 where 5: "ctl_step i w4 = Some w5" "ctl w5 = ?c C_Idle"
    using ctl_step_runs(4)[of w4 i] 4(2) by auto
  have "gated_run cfg (worker_request i r t) s = Some (set_worker t s w5)"
    using 1 st[OF 2(1)] st[OF 3(1)] st[OF 4(1)] st[OF 5(1)] by (simp add: worker_request_def numeral_eq_Suc)
  moreover have "controllers_idle w5" using 5(2) by (simp add: controllers_idle_def)
  ultimately show ?thesis by (rule that)
qed

lemma gated_run_inv:
  "gated_run cfg es s = Some s' \<Longrightarrow> gated_inv cfg B s \<Longrightarrow> gated_inv cfg B s'"
  by (rule gated_run_induct[where P = "gated_inv cfg B"]) (auto intro: gated_step_inv)

lemma requested_own: "requested (replicate n (Turn t)) = []"
  by (simp add: requested_def)

lemma requested_append: "requested (es @ es') = requested es @ requested es'"
  by (simp add: requested_def)

lemma requested_stage: "requested (stage_request i r t) = stage_request i r t"
  by (simp add: requested_def stage_request_def worker_request_def)

lemma stage_request_possible:
  assumes inv: "gated_inv cfg B s" and idle: "all_idle s" and t: "t \<in> flow_threads (g_flow s)"
  obtains es s' where "requested es = stage_request i r t" "gated_run cfg es s = Some s'" "gated_inv cfg B s'" "all_idle s'"
    "flow_threads (g_flow s') = flow_threads (g_flow s)"
proof -
  obtain n w where n: "gated_run cfg (replicate n (Turn t)) s = Some (set_worker t s w)" "owner w = None" "controllers_idle w"
    by (rule lets_go[OF inv idle t])
  have wr: "\<exists>w'. gated_run cfg (worker_request i r t) s1 = Some (set_worker t s1 w') \<and> controllers_idle w'"
    if "g_worker s1 t = w" "flow_threads (g_flow s1) = flow_threads (g_flow s)" for s1
    using worker_request_run[of t s1 cfg i r] that t n(2,3) by metis
  have th: "flow_threads (write_done t d f) = flow_threads f" for d and f :: "'a flow"
    by (cases t) (simp_all add: flow_threads_def)
  have dn: "gated_step cfg (Done_word t 1) s1 = Some (s1\<lparr>g_flow := write_done t 1 (g_flow s1)\<rparr>)"
    if "flow_threads (g_flow s1) = flow_threads (g_flow s)" for s1
    using that t by (simp add: gated_step_def)
  have "\<exists>s'. gated_run cfg (stage_request i r t) (set_worker t s w) = Some s' \<and>
      flow_threads (g_flow s') = flow_threads (g_flow s) \<and> controllers_idle (g_worker s' t) \<and>
      (\<forall>u. u \<noteq> t \<longrightarrow> g_worker s' u = g_worker s u)"
  proof (cases "r = Destroy \<and> t = Source_thread")
    case True
    let ?s = "(set_worker t s w)\<lparr>g_flow := write_done t 1 (g_flow s)\<rparr>"
    obtain w' where "gated_run cfg (worker_request i r t) ?s = Some (set_worker t ?s w')" "controllers_idle w'"
      using wr[of ?s] th by auto
    then show ?thesis using True dn[of "set_worker t s w"] th by (simp add: stage_request_def)
  next
    case False
    obtain w' where "gated_run cfg (worker_request i r t) (set_worker t s w) = Some (set_worker t s w')" "controllers_idle w'"
      using wr[of "set_worker t s w"] by auto
    then show ?thesis using False dn[of "set_worker t s w'"] th by (auto simp: stage_request_def gated_run_append)
  qed
  then obtain s' where s': "gated_run cfg (stage_request i r t) (set_worker t s w) = Some s'"
    "flow_threads (g_flow s') = flow_threads (g_flow s)" "controllers_idle (g_worker s' t)"
    "\<And>u. u \<noteq> t \<Longrightarrow> g_worker s' u = g_worker s u" by blast
  have run: "gated_run cfg (replicate n (Turn t) @ stage_request i r t) s = Some s'" using n(1) s'(1) by (simp add: gated_run_append)
  have "all_idle s'" using s'(2-4) idle by (metis all_idle_def)
  with run gated_run_inv[OF run inv] s'(2) show ?thesis
    by (intro that[of "replicate n (Turn t) @ stage_request i r t" s']) (simp_all add: requested_append requested_own requested_stage)
qed

lemma requests_possible:
  "gated_inv cfg B s \<Longrightarrow> all_idle s \<Longrightarrow> set us \<subseteq> flow_threads (g_flow s) \<Longrightarrow>
     \<exists>es s'. requested es = concat (map (stage_request i r) us) \<and> gated_run cfg es s = Some s'"
proof (induction us arbitrary: s)
  case Nil
  have "requested [] = concat (map (stage_request i r) []) \<and> gated_run cfg [] s = Some s" by (simp add: requested_def)
  then show ?case by blast
next
  case (Cons t us)
  obtain es s1 where s1: "requested es = stage_request i r t" "gated_run cfg es s = Some s1" "gated_inv cfg B s1" "all_idle s1"
    "flow_threads (g_flow s1) = flow_threads (g_flow s)"
    using stage_request_possible[OF Cons.prems(1,2), of t i r] Cons.prems(3) by (metis list.set_intros(1) subset_code(1))
  obtain es' s' where "requested es' = concat (map (stage_request i r) us)" "gated_run cfg es' s1 = Some s'"
    using Cons.IH[OF s1(3,4)] s1(5) Cons.prems(3) by auto
  with s1(1,2) have "requested (es @ es') = concat (map (stage_request i r) (t # us))" "gated_run cfg (es @ es') s = Some s'"
    by (simp_all add: requested_append gated_run_append)
  then show ?case by blast
qed

lemma request_possible:
  assumes "gated_inv cfg B s" "all_idle s"
  obtains es s' where "requested es = pipeline_request (length (fl_stages (g_flow s))) i r" "gated_run cfg es s = Some s'"
  using requests_possible[OF assms, of "request_order (length (fl_stages (g_flow s))) r" i r]
  by (auto simp: pipeline_request_def set_request_order flow_threads_def)

end
