(* ===== verification/Gated_Progress.thy ===== *)
theory Gated_Progress
  imports Gated_Requests
begin

text \<open>
  A started pipeline runs: an enabled worker's thread is never blocked for good, and each fourteen of
  its turns contain the end of an iteration of its routine.
\<close>

section \<open>Iterations\<close>

text \<open>The iterations of its routine that a thread ends along a schedule.\<close>

fun iterations :: "fifo_config \<Rightarrow> flow_thread \<Rightarrow> flow_thread list \<Rightarrow> 'u gated \<Rightarrow> nat" where
  "iterations cfg t [] s = 0"
| "iterations cfg t (u # ts) s =
     (case thread_step cfg u s of
        None \<Rightarrow> iterations cfg t ts s
      | Some s' \<Rightarrow> of_bool (u = t \<and> in_callback t s \<and> \<not> in_callback t s') + iterations cfg t ts s')"

text \<open>The source has finished, or someone has destroyed the worker.\<close>

definition finished :: "flow_thread \<Rightarrow> 'u gated \<Rightarrow> bool" where
  "finished t s \<longleftrightarrow> w_destroyed (g_worker s t) \<or> g_callback s t = Finishing \<or> pc (g_worker s t) \<in> {W_FinLock, W_FinSet}"

definition running :: "wstate \<Rightarrow> bool" where
  "running w \<longleftrightarrow> w_enabled w \<and> controllers_idle w"

text \<open>The turns up to the end of the next iteration.\<close>

definition turns_to_end :: "flow_thread \<Rightarrow> 'u gated \<Rightarrow> nat" where
  "turns_to_end t s =
    (if in_callback t s then Suc (thread_rank t (g_flow s))
     else if pc (g_worker s t) = W_Callback then 14
     else start_distance (pc (g_worker s t)) + 8)"

lemma turns_to_end_le: "turns_to_end t s \<le> 14"
proof -
  have "Suc (thread_rank t (g_flow s)) \<le> 14"
    using thread_rank_le[of t "g_flow s"] by (cases t) simp_all
  moreover have "start_distance (pc (g_worker s t)) \<le> 5" by (cases "pc (g_worker s t)") simp_all
  ultimately show ?thesis by (simp add: turns_to_end_def)
qed

lemma turns_to_end_pos: "0 < turns_to_end t s"
  by (simp add: turns_to_end_def)

lemma fin_set: "routine_step fin w = Some w' \<Longrightarrow> pc w = W_FinSet \<Longrightarrow> w_destroyed w'"
  by (auto simp: routine_step_def)

lemma reach_fin_destroyed:
  "worker_reach w \<Longrightarrow> pc w \<in> {W_FinUnlock, W_FinSignal} \<longrightarrow> w_destroyed w"
proof (induction rule: worker_reach.induct)
  case (step w w')
  from step.hyps(2) show ?case
  proof cases
    case (thread fin)
    then show ?thesis
      using step.IH routine_step_fields[OF thread] routine_step_pc[OF thread] fin_set[OF thread] by (cases "pc w") auto
  next
    case (controller i)
    have "w_destroyed w \<Longrightarrow> w_destroyed w'"
      using controller by (cases "ctl w i") (auto simp: ctl_step_def apply_request_def worker_signal_def split: if_splits ctl_request.splits)
    then show ?thesis using step.IH ctl_step_pc[OF controller] by simp
  qed (use step.IH in auto)
qed (simp add: worker_start_def)

lemma thread_step_finished:
  assumes "thread_step cfg u s = Some s'" "finished t s"
  shows "finished t s'"
proof (cases "t = u")
  case False
  then show ?thesis using thread_step_other[OF assms(1) False] assms(2) by (simp add: finished_def)
next
  case True
  from assms(1) show ?thesis
  proof (cases rule: thread_step_cases)
    case callback
    then show ?thesis using assms(2) True callback_stepD(2)[OF callback(3)] by (simp add: finished_def)
  next
    case (protocol fin c)
    note d = protocol_stepD[OF protocol(1)]
    have "g_callback s' t = c" using d(4) True by simp
    then show ?thesis
      using assms(2) routine_step_fields[OF d(1)] routine_step_pc[OF d(1)] fin_set[OF d(1)] protocol(2-4) unfolding True finished_def
      by (cases "pc (g_worker s u)"; cases "g_callback s u") auto
  qed
qed

lemma turns_finished: "finished t s \<Longrightarrow> finished t (turns cfg ts s)"
  by (induction ts arbitrary: s) (auto simp: thread_step_finished split: option.split)

text \<open>Each turn of the thread ends an iteration or brings its end closer.\<close>

lemma turn_running:
  assumes start: "flow_start cfg B f" and reach: "gated_reach cfg f s" and th: "t \<in> flow_threads f"
    and run: "running (g_worker s t)" and fin: "\<not> finished t s"
  obtains s' where "thread_step cfg t s = Some s'" "running (g_worker s' t)"
    "in_callback t s \<and> \<not> in_callback t s' \<or> turns_to_end t s' < turns_to_end t s"
proof -
  let ?w = "g_worker s t" and ?f = "show_flags t (g_worker s t) (g_flow s)"
  have inv: "gated_inv cfg B s" and t: "t \<in> flow_threads (g_flow s)"
    using gated_reach_inv[OF reach start] gated_reach_threads[OF reach] th by simp_all
  have wi: "worker_inv ?w" and en: "entry_inv s t" using inv t by (simp_all add: gated_inv_def)
  have on: "w_enabled ?w" and idle: "controllers_idle ?w" using run by (simp_all add: running_def)
  have alive: "\<not> w_destroyed ?w" "g_callback s t \<noteq> Finishing" "pc ?w \<notin> {W_FinLock, W_FinSet}"
    using fin by (simp_all add: finished_def)
  consider (inside) "in_callback t s" | (outside) "\<not> in_callback t s" by blast
  then show ?thesis
  proof cases
    case inside
    have f: "flow_step cfg (g_flow s) ?f" by (rule show_flags_step[OF t])
    have fi: "flow_inv cfg B ?f" using flow_step_inv[OF f] inv by (simp add: gated_inv_def)
    have ft: "t \<in> flow_threads ?f" using t flow_step_stages[OF f] by (simp add: flow_threads_def)
    obtain f' where m: "move cfg t ?f = Some f'" using move_inv[OF fi ft] by blast
    then obtain s' where s': "callback_step cfg t s = Some s'" by (simp add: callback_step_def)
    note d = callback_stepD[OF s']
    have pc: "pc ?w = W_Callback" "g_callback s t = Running" using inside by (simp_all add: in_callback_def)
    have "in_callback t s' \<Longrightarrow> turns_to_end t s' < turns_to_end t s"
      using move_rank[OF fi ft d(1)] d(4) inside by (auto simp: turns_to_end_def in_callback_def)
    then show ?thesis using s' pc run d(2) inside by (intro that[of s']) (auto simp: thread_step_def)
  next
    case outside
    have p: "thread_step cfg t s = protocol_step False (if pc ?w = W_Callback then Running else g_callback s t) t s"
      using outside alive(2) by (cases "g_callback s t") (auto simp: thread_step_def in_callback_def)
    have "pc ?w \<noteq> W_Exited" using worker_invD(6)[OF wi] alive(1) by blast
    then obtain w' where w': "routine_step False ?w = Some w'" "controllers_idle w'" "w_enabled w' = w_enabled ?w"
      using routine_not_blocked[OF wi idle] on by metis
    obtain s' where s': "thread_step cfg t s = Some s'" using p w'(1) by (simp add: protocol_step_def)
    note d = protocol_stepD[OF s'[unfolded p]]
    have w: "g_worker s' t = w'" using d(1) w'(1) by simp
    have "turns_to_end t s' < turns_to_end t s"
    proof (cases "pc ?w = W_Callback")
      case True
      then have "pc w' = W_Test" using w'(1) by (auto simp: routine_step_def)
      then show ?thesis using True outside w by (simp add: turns_to_end_def in_callback_def)
    next
      case False
      have ws: "will_start ?w" using on alive(1) by (simp add: will_start_def)
      have c: "g_callback s' t = g_callback s t" using d(4) False by simp
      have sd: "start_distance (pc w') < start_distance (pc ?w)" using start_distance_step[OF w'(1) ws False] by simp
      show ?thesis
      proof (cases "pc w' = W_Callback")
        case True
        have "pc ?w \<noteq> W_FinSignal" using reach_fin_destroyed[OF gated_reach_worker[OF reach, of t]] alive(1) by auto
        then have chk: "pc ?w = W_Check" using w'(1) True False routine_step_pc[OF w'(1)] by (cases "pc ?w") auto
        then have "g_callback s t = Running" using en by (auto simp: entry_inv_def)
        then have "turns_to_end t s' = Suc (thread_rank t (g_flow s'))"
          using True w c by (simp add: turns_to_end_def in_callback_def)
        moreover have "turns_to_end t s = 9" using chk by (simp add: turns_to_end_def in_callback_def)
        moreover have "Suc (thread_rank t (g_flow s')) \<le> 8" using thread_rank_le[of t "g_flow s'"] by (cases t) simp_all
        ultimately show ?thesis by simp
      qed (use sd w False in \<open>simp add: turns_to_end_def in_callback_def\<close>)
    qed
    then show ?thesis using s' w w'(2,3) on by (intro that[of s']) (simp_all add: running_def)
  qed
qed


lemma turns_iterate:
  "flow_start cfg B f \<Longrightarrow> gated_reach cfg f s \<Longrightarrow> set ts \<subseteq> flow_threads f \<Longrightarrow> t \<in> flow_threads f \<Longrightarrow>
     running (g_worker s t) \<Longrightarrow> \<not> finished t (turns cfg ts s) \<Longrightarrow>
     count_list ts t + turns_to_end t (turns cfg ts s) \<le> 14 * iterations cfg t ts s + turns_to_end t s"
proof (induction ts arbitrary: s)
  case (Cons u ts)
  have alive: "\<not> finished t s" using turns_finished[of t s cfg "u # ts"] Cons.prems(6) by blast
  show ?case
  proof (cases "thread_step cfg u s")
    case None
    then have "u \<noteq> t" using turn_running[OF Cons.prems(1,2,4,5) alive] by (metis option.distinct(1))
    then show ?thesis using Cons None by simp
  next
    case (Some s')
    have r': "gated_reach cfg f s'"
      using gated_reach_step[OF Cons.prems(2), of "Turn u" s'] Some Cons.prems(3) gated_reach_threads[OF Cons.prems(2)]
      by (simp add: gated_step_def)
    have IH: "running (g_worker s' t) \<Longrightarrow>
      count_list ts t + turns_to_end t (turns cfg ts s') \<le> 14 * iterations cfg t ts s' + turns_to_end t s'"
      using Cons.IH[OF Cons.prems(1) r' _ Cons.prems(4)] Cons.prems(3,6) Some by simp
    show ?thesis
    proof (cases "u = t")
      case True
      obtain "running (g_worker s' t)" "in_callback t s \<and> \<not> in_callback t s' \<or> turns_to_end t s' < turns_to_end t s"
        using turn_running[OF Cons.prems(1,2,4,5) alive] Some True by (metis option.inject)
      with IH turns_to_end_le[of t s'] turns_to_end_pos[of t s] Some True show ?thesis by auto
    next
      case False
      note o = thread_step_other[OF Some, of t]
      have "turns_to_end t s' = turns_to_end t s" using o False by (simp add: turns_to_end_def in_callback_def)
      with IH o(1) Cons.prems(5) False Some show ?thesis by simp
    qed
  qed
qed simp

lemma iterates:
  assumes "flow_start cfg B f" "gated_reach cfg f s" "set ts \<subseteq> flow_threads f" "t \<in> flow_threads f"
    and "running (g_worker s t)" "14 * k \<le> count_list ts t"
  shows "k \<le> iterations cfg t ts s \<or> finished t (turns cfg ts s)"
  using turns_iterate[OF assms(1-5)] assms(6) turns_to_end_le[of t s] turns_to_end_pos[of t "turns cfg ts s"] by fastforce

end
