(* ===== verification/Gated_Drain.thy ===== *)
theory Gated_Drain
  imports Gated_Progress Drained
begin

text \<open>
  From schedules of the flow to schedules of the workers: when the workers of the stages and the sink
  are enabled and no call is going on, every schedule of these threads' moves can be played by
  their workers.
\<close>

section \<open>States that differ in their workers\<close>

definition no_worker :: mtdp_worker where
  "no_worker = \<lparr>thread = False, cv = False, mutex = None, enabled = False, destroyed = False, wname = None,
     cb = None, args = None\<rparr>"

text \<open>A state of the flow without the workers.\<close>

definition bare :: "'u flow \<Rightarrow> 'u flow" where
  "bare s = s\<lparr>fl_source := (fl_source s)\<lparr>so_worker := no_worker\<rparr>,
     fl_stages := map (\<lambda>g. g\<lparr>st_worker := no_worker\<rparr>) (fl_stages s),
     fl_sink := (fl_sink s)\<lparr>sk_worker := no_worker\<rparr>\<rparr>"

fun worker_in :: "flow_thread \<Rightarrow> 'u flow \<Rightarrow> mtdp_worker" where
  "worker_in Source_thread s = so_worker (fl_source s)"
| "worker_in (Stage_thread i) s = st_worker (fl_stages s ! i)"
| "worker_in Sink_thread s = sk_worker (fl_sink s)"

definition flags_in :: "flow_thread \<Rightarrow> 'u flow \<Rightarrow> bool \<times> bool" where
  "flags_in t s = (enabled (worker_in t s), destroyed (worker_in t s))"

definition flags_of :: "wstate \<Rightarrow> bool \<times> bool" where
  "flags_of w = (w_enabled w, w_destroyed w)"


lemma bareD:
  assumes "bare g = bare f"
  shows "fl_sh g = fl_sh f" "so_at g = so_at f" "st_at g = st_at f" "sk_at g = sk_at f" "pushed g = pushed f" "pulled g = pulled f"
    "length (fl_stages g) = length (fl_stages f)" "flow_threads g = flow_threads f"
    "i < length (fl_stages f) \<Longrightarrow> fl_stages g ! i = (fl_stages f ! i)\<lparr>st_worker := st_worker (fl_stages g ! i)\<rparr>"
    "fl_sink g = (fl_sink f)\<lparr>sk_worker := sk_worker (fl_sink g)\<rparr>"
    "(fl_source g)\<lparr>so_worker := no_worker\<rparr> = (fl_source f)\<lparr>so_worker := no_worker\<rparr>"
    "map (\<lambda>h. h\<lparr>st_worker := no_worker\<rparr>) (fl_stages g) = map (\<lambda>h. h\<lparr>st_worker := no_worker\<rparr>) (fl_stages f)"
    "(fl_sink g)\<lparr>sk_worker := no_worker\<rparr> = (fl_sink f)\<lparr>sk_worker := no_worker\<rparr>"
proof -
  let ?ms = "\<lambda>s :: 'a flow. map (\<lambda>h. h\<lparr>st_worker := no_worker\<rparr>) (fl_stages s)"
  have "fl_sh (bare g) = fl_sh (bare f)" "so_at (bare g) = so_at (bare f)" "st_at (bare g) = st_at (bare f)"
    "sk_at (bare g) = sk_at (bare f)" "pushed (bare g) = pushed (bare f)" "pulled (bare g) = pulled (bare f)"
    "fl_stages (bare g) = fl_stages (bare f)" "fl_sink (bare g) = fl_sink (bare f)" "fl_source (bare g) = fl_source (bare f)" by (simp_all only: assms)
  then have e: "fl_sh g = fl_sh f" "so_at g = so_at f" "st_at g = st_at f" "sk_at g = sk_at f" "pushed g = pushed f"
    "pulled g = pulled f" "?ms g = ?ms f" "(fl_sink g)\<lparr>sk_worker := no_worker\<rparr> = (fl_sink f)\<lparr>sk_worker := no_worker\<rparr>"
    "(fl_source g)\<lparr>so_worker := no_worker\<rparr> = (fl_source f)\<lparr>so_worker := no_worker\<rparr>"
    by (simp_all add: bare_def)
  from arg_cong[OF e(7), of length] have l: "length (fl_stages g) = length (fl_stages f)" by simp
  show "fl_sh g = fl_sh f" "so_at g = so_at f" "st_at g = st_at f" "sk_at g = sk_at f" "pushed g = pushed f" "pulled g = pulled f"
    "length (fl_stages g) = length (fl_stages f)" "flow_threads g = flow_threads f"
    "(fl_source g)\<lparr>so_worker := no_worker\<rparr> = (fl_source f)\<lparr>so_worker := no_worker\<rparr>" "?ms g = ?ms f"
    "(fl_sink g)\<lparr>sk_worker := no_worker\<rparr> = (fl_sink f)\<lparr>sk_worker := no_worker\<rparr>"
    using e l by (simp_all add: flow_threads_def)
  show "fl_sink g = (fl_sink f)\<lparr>sk_worker := sk_worker (fl_sink g)\<rparr>"
    using e(8) by (metis mtdp_sink_impl.surjective mtdp_sink_impl.update_convs(2))
  show "i < length (fl_stages f) \<Longrightarrow> fl_stages g ! i = (fl_stages f ! i)\<lparr>st_worker := st_worker (fl_stages g ! i)\<rparr>"
  proof -
    assume i: "i < length (fl_stages f)"
    have "?ms g ! i = ?ms f ! i" by (simp only: e(7))
    then have "(fl_stages g ! i)\<lparr>st_worker := no_worker\<rparr> = (fl_stages f ! i)\<lparr>st_worker := no_worker\<rparr>" using i l by simp
    then show ?thesis by (metis mtdp_stage_impl.surjective mtdp_stage_impl.update_convs(2))
  qed
qed

lemma bareI:
  assumes "fl_sh g = fl_sh f" "so_at g = so_at f" "st_at g = st_at f" "sk_at g = sk_at f" "pushed g = pushed f" "pulled g = pulled f"
    "(fl_source g)\<lparr>so_worker := no_worker\<rparr> = (fl_source f)\<lparr>so_worker := no_worker\<rparr>"
    "map (\<lambda>h. h\<lparr>st_worker := no_worker\<rparr>) (fl_stages g) = map (\<lambda>h. h\<lparr>st_worker := no_worker\<rparr>) (fl_stages f)"
    "(fl_sink g)\<lparr>sk_worker := no_worker\<rparr> = (fl_sink f)\<lparr>sk_worker := no_worker\<rparr>"
  shows "bare g = bare (f :: 'u flow)"
  using assms by (simp add: bare_def)

text \<open>A step of a stage or of the sink reads of its worker only the flags, and keeps the worker.\<close>

lemma stage_worker_last:
  "g\<lparr>st_worker := v, st_context := c\<rparr> = g\<lparr>st_context := c, st_worker := v\<rparr>"
  "g\<lparr>st_worker := v, st_done := d\<rparr> = g\<lparr>st_done := d, st_worker := v\<rparr>"
  by simp_all

lemma stage_step_swap:
  fixes sh :: "'u shared"
  assumes "enabled v = enabled (st_worker self)" "destroyed v = destroyed (st_worker self)"
  shows "stage_step cfg spc (sh, self\<lparr>st_worker := v\<rparr>) =
    map_option (\<lambda>(r, sh', self'). (r, sh', self'\<lparr>st_worker := v\<rparr>)) (stage_step cfg spc (sh, self))"
proof -
  have stop: "mtdp_stage_stop_requested (g\<lparr>st_worker := v\<rparr>) = mtdp_stage_stop_requested g"
    if "st_worker g = st_worker self" for g
    using assms that by (simp add: mtdp_stage_stop_requested_def)
  have call: "call_stage c sh (g\<lparr>st_worker := v\<rparr>) = map_option (\<lambda>(sh', g'). (sh', g'\<lparr>st_worker := v\<rparr>)) (call_stage c sh g)"
    if "st_worker g = st_worker self" for c and sh :: "'u shared" and g
    using stop[OF that] by (cases c) (simp_all add: call_stage_def case_prod_beta Let_def)
  show ?thesis
  proof (cases spc)
    case St_Process
    have user: "stage_user sh (self\<lparr>st_worker := v\<rparr>) = stage_user sh self" by (simp add: stage_user_def)
    have keep: "st_worker g' = st_worker g" if "call_stage c sh g = Some (sh', g')" for c and sh sh' :: "'u shared" and g g' :: mtdp_stage_impl
      using that by (cases c) (auto simp: call_stage_def case_prod_beta Let_def)
    show ?thesis
    proof (cases "stage_user sh self")
      case None
      then show ?thesis using St_Process user by (simp add: stage_step_def)
    next
      case (Some u)
      let ?go = "\<lambda>(sh, g). do { (sh, g) \<leftarrow> call_stage (st_process u) sh g;
          Some (if st_ready_to_pull (st_context g) then Some St_PutBack else None, sh, g) }"
      let ?sw = "\<lambda>(r, sh', g'). (r, sh', g'\<lparr>st_worker := v\<rparr>)"
      have go: "?go (sh1, g\<lparr>st_worker := v\<rparr>) = map_option ?sw (?go (sh1, g))" if "st_worker g = st_worker self" for sh1 g
        using call[OF that] by (simp add: case_prod_beta map_option_bind comp_def bind_map_option)
      have init: "call_stage (Some c) sh (self\<lparr>st_worker := v\<rparr>) =
          map_option (\<lambda>(sh', g'). (sh', g'\<lparr>st_worker := v\<rparr>)) (call_stage (Some c) sh self)" for c by (rule call) simp
      have swap: "g\<lparr>st_initialized := True, st_worker := v\<rparr> = g\<lparr>st_worker := v, st_initialized := True\<rparr>"
        for g :: mtdp_stage_impl by simp
      show ?thesis
      proof (cases "st_initialized self \<or> st_init u = None")
        case True
        then show ?thesis
          using St_Process user Some go[of "self\<lparr>st_initialized := True\<rparr>", unfolded swap] go[of self]
          by (auto simp: stage_step_def)
      next
        case False
        then obtain c sh1 g1 where c: "st_init u = Some c" "call_stage (Some c) sh self = Some (sh1, g1)"
          by (auto simp: call_stage_def case_prod_beta)
        then show ?thesis
          using St_Process user Some False go[of "g1\<lparr>st_initialized := True\<rparr>", unfolded swap] init keep[OF c(2)] by (simp add: stage_step_def)
      qed
    qed
  qed (simp_all add: stage_step_def Let_def case_prod_unfold map_option_bind comp_def stage_worker_last
      if_distrib[of "map_option F" for F] cong: if_cong)
qed


lemma sink_worker_last:
  "g\<lparr>sk_worker := v, sk_context := c\<rparr> = g\<lparr>sk_context := c, sk_worker := v\<rparr>"
  "g\<lparr>sk_worker := v, sk_done := d\<rparr> = g\<lparr>sk_done := d, sk_worker := v\<rparr>"
  by simp_all

lemma sink_step_swap:
  fixes sh :: "'u shared"
  assumes "enabled v = enabled (sk_worker self)" "destroyed v = destroyed (sk_worker self)"
  shows "sink_step cfg spc (sh, self\<lparr>sk_worker := v\<rparr>) =
    map_option (\<lambda>(r, sh', self'). (r, sh', self'\<lparr>sk_worker := v\<rparr>)) (sink_step cfg spc (sh, self))"
proof -
  have call: "call_sink c sh (g\<lparr>sk_worker := v\<rparr>) = map_option (\<lambda>(sh', g'). (sh', g'\<lparr>sk_worker := v\<rparr>)) (call_sink c sh g)"
    if "sk_worker g = sk_worker self" for c and sh :: "'u shared" and g :: "'u mtdp_sink_impl"
    using assms that by (cases c) (simp_all add: call_sink_def mtdp_sink_stop_requested_def case_prod_beta Let_def)
  show ?thesis
  proof (cases spc)
    case Sk_Process
    have keep: "sk_worker g' = sk_worker g" if "call_sink c sh g = Some (sh', g')" for c and sh sh' :: "'u shared" and g g'
      using that by (cases c) (auto simp: call_sink_def case_prod_beta Let_def)
    let ?u = "sk_user_data self"
    let ?go = "\<lambda>(sh, g). do { (sh, g) \<leftarrow> call_sink (sk_process (sk_user_data g)) sh g; Some (None, sh, g) }"
    let ?sw = "\<lambda>(r, sh', g'). (r, sh', g'\<lparr>sk_worker := v\<rparr>)"
    have go: "?go (sh1, g\<lparr>sk_worker := v\<rparr>) = map_option ?sw (?go (sh1, g))" if "sk_worker g = sk_worker self" for sh1 and g :: "'u mtdp_sink_impl"
      using call[OF that] by (simp add: case_prod_beta map_option_bind comp_def bind_map_option)
    have init: "call_sink (Some c) sh (self\<lparr>sk_worker := v\<rparr>) =
        map_option (\<lambda>(sh', g'). (sh', g'\<lparr>sk_worker := v\<rparr>)) (call_sink (Some c) sh self)" for c by (rule call) simp
    have swap: "g\<lparr>sk_initialized := True, sk_worker := v\<rparr> = g\<lparr>sk_worker := v, sk_initialized := True\<rparr>"
      for g :: "'u mtdp_sink_impl" by simp
    show ?thesis
    proof (cases "sk_input (sk_context self) = NULL")
      case True
      then show ?thesis using Sk_Process by (simp add: sink_step_def sink_worker_last)
    next
      case in_use: False
      show ?thesis
      proof (cases "sk_initialized self \<or> sk_init ?u = None")
        case True
        then show ?thesis
          using Sk_Process in_use go[of "self\<lparr>sk_initialized := True\<rparr>", unfolded swap] go[of self] by (auto simp: sink_step_def)
      next
        case False
        then obtain c sh1 g1 where c: "sk_init ?u = Some c" "call_sink (Some c) sh self = Some (sh1, g1)"
          by (auto simp: call_sink_def case_prod_beta)
        then show ?thesis
          using Sk_Process in_use False go[of "g1\<lparr>sk_initialized := True\<rparr>", unfolded swap] init keep[OF c(2)]
          by (simp add: sink_step_def)
      qed
    qed
  qed (simp_all add: sink_step_def Let_def case_prod_unfold map_option_bind comp_def sink_worker_last
      if_distrib[of "map_option F" for F] cong: if_cong)
qed

lemma stage_step_worker: "stage_step cfg spc (sh, self) = Some (r, sh', self') \<Longrightarrow> st_worker self' = st_worker self"
proof -
  assume st: "stage_step cfg spc (sh, self) = Some (r, sh', self')"
  from stage_step_swap[where self = self and v = "st_worker self" and cfg = cfg and spc = spc and sh = sh] st
  have "self'\<lparr>st_worker := st_worker self\<rparr> = self'" by simp
  then show ?thesis by (metis mtdp_stage_impl.select_convs(2) mtdp_stage_impl.surjective mtdp_stage_impl.update_convs(2))
qed

lemma sink_step_worker: "sink_step cfg spc (sh, self) = Some (r, sh', self') \<Longrightarrow> sk_worker self' = sk_worker self"
proof -
  assume st: "sink_step cfg spc (sh, self) = Some (r, sh', self')"
  from sink_step_swap[where self = self and v = "sk_worker self" and cfg = cfg and spc = spc and sh = sh] st
  have "self'\<lparr>sk_worker := sk_worker self\<rparr> = self'" by simp
  then show ?thesis by (metis mtdp_sink_impl.select_convs(2) mtdp_sink_impl.surjective mtdp_sink_impl.update_convs(2))
qed

text \<open>So a move of a stage or of the sink is the same move in both states.\<close>

lemma bare_move:
  assumes b: "bare g = bare f" and t: "t \<in> flow_threads f" "t \<noteq> Source_thread" and fl: "flags_in t g = flags_in t f"
    and m: "move cfg t f = Some f'"
  obtains g' where "move cfg t g = Some g'" "bare g' = bare f'" "\<And>u. worker_in u g' = worker_in u g"
    "\<And>u. worker_in u f' = worker_in u f"
proof (cases t)
  case Source_thread
  then show ?thesis using t(2) by simp
next
  case (Stage_thread i)
  note d = bareD[OF b]
  have i: "i < length (fl_stages f)" using t(1) Stage_thread by (auto simp: flow_threads_def)
  let ?v = "st_worker (fl_stages g ! i)"
  have gi: "fl_stages g ! i = (fl_stages f ! i)\<lparr>st_worker := ?v\<rparr>" by (rule d(9)[OF i])
  have v: "enabled ?v = enabled (st_worker (fl_stages f ! i))" "destroyed ?v = destroyed (st_worker (fl_stages f ! i))"
    using fl Stage_thread by (simp_all add: flags_in_def)
  obtain r sh h where s: "stage_step cfg (st_at f ! i) (fl_sh f, fl_stages f ! i) = Some (r, sh, h)"
    using m Stage_thread by (auto simp: stage_move_def bind_eq_Some_conv Let_def)
  have s': "stage_step cfg (st_at f ! i) (fl_sh f, fl_stages g ! i) = Some (r, sh, h\<lparr>st_worker := ?v\<rparr>)"
    using stage_step_swap[OF v, of cfg "st_at f ! i" "fl_sh f"] s gi by simp
  have ps: "stage_pushes p r (fl_stages g ! i) = stage_pushes p r (fl_stages f ! i)"
    "stage_pulls p r (h\<lparr>st_worker := ?v\<rparr>) = stage_pulls p r h"
    "st_output_pipe (fl_stages g ! i) = st_output_pipe (fl_stages f ! i)"
    "st_input_pipe (fl_stages g ! i) = st_input_pipe (fl_stages f ! i)" for p
    by (subst gi, simp add: stage_pushes_def stage_pulls_def)+
  let ?out = "\<lambda>s k. s\<lparr>fl_sh := sh, fl_stages := (fl_stages s)[i := k], st_at := (st_at f)[i := stage_next r],
     pushed := (pushed f)(st_output_pipe (fl_stages f ! i) := pushed f (st_output_pipe (fl_stages f ! i)) @
       stage_pushes (st_at f ! i) r (fl_stages f ! i)),
     pulled := (pulled f)(st_input_pipe (fl_stages f ! i) := pulled f (st_input_pipe (fl_stages f ! i)) @ stage_pulls (st_at f ! i) r h)\<rparr>"
  have f': "f' = ?out f h" using m s Stage_thread by (simp add: stage_move_def Let_def)
  have g': "move cfg t g = Some (?out g (h\<lparr>st_worker := ?v\<rparr>))" using s' Stage_thread d ps by (simp add: stage_move_def Let_def)
  show ?thesis
  proof (rule that[OF g'])
    show "worker_in u f' = worker_in u f" for u
      using stage_step_worker[OF s] i unfolding f' by (cases u) (auto simp: nth_list_update)
    show "worker_in u (?out g (h\<lparr>st_worker := ?v\<rparr>)) = worker_in u g" for u
      using i d(7) by (cases u) (auto simp: nth_list_update)
    show "bare (?out g (h\<lparr>st_worker := ?v\<rparr>)) = bare f'"
      unfolding f' by (rule bareI) (use d in \<open>simp_all add: map_update\<close>)
  qed
next
  case Sink_thread
  note d = bareD[OF b]
  let ?v = "sk_worker (fl_sink g)"
  have v: "enabled ?v = enabled (sk_worker (fl_sink f))" "destroyed ?v = destroyed (sk_worker (fl_sink f))"
    using fl Sink_thread by (simp_all add: flags_in_def)
  obtain r sh h where s: "sink_step cfg (sk_at f) (fl_sh f, fl_sink f) = Some (r, sh, h)"
    using m Sink_thread by (auto simp: sink_move_def bind_eq_Some_conv Let_def)
  have s': "sink_step cfg (sk_at f) (fl_sh f, fl_sink g) = Some (r, sh, h\<lparr>sk_worker := ?v\<rparr>)"
    using sink_step_swap[OF v, of cfg "sk_at f" "fl_sh f"] s d(10) by simp
  have ps: "sink_pulls p r (h\<lparr>sk_worker := ?v\<rparr>) = sink_pulls p r h"
    "sk_input_pipe (fl_sink g) = sk_input_pipe (fl_sink f)" for p
    by (simp add: sink_pulls_def) (subst d(10), simp)
  let ?out = "\<lambda>s k. s\<lparr>fl_sh := sh, fl_sink := k, sk_at := sink_next r,
     pulled := (pulled f)(sk_input_pipe (fl_sink f) := pulled f (sk_input_pipe (fl_sink f)) @ sink_pulls (sk_at f) r h)\<rparr>"
  have f': "f' = ?out f h" using m s Sink_thread by (simp add: sink_move_def Let_def)
  have g': "move cfg t g = Some (?out g (h\<lparr>sk_worker := ?v\<rparr>))" using s' Sink_thread d ps by (simp add: sink_move_def Let_def)
  show ?thesis
  proof (rule that[OF g'])
    show "worker_in u f' = worker_in u f" for u using sink_step_worker[OF s] unfolding f' by (cases u) simp_all
    show "worker_in u (?out g (h\<lparr>sk_worker := ?v\<rparr>)) = worker_in u g" for u by (cases u) simp_all
    show "bare (?out g (h\<lparr>sk_worker := ?v\<rparr>)) = bare f'" unfolding f' by (rule bareI) (use d in simp_all)
  qed
qed


section \<open>Showing all flags\<close>

lemma map_update_same: "map h (xs[i := y]) = map h xs" if "h y = h (xs ! i)"
  using that by (cases "i < length xs") (simp_all add: map_update list_update_beyond, metis list_update_id nth_map)

lemma show_flags_bare: "bare (show_flags t w f) = bare f"
  by (cases t) (auto simp: map_update_same intro!: bareI)

lemma show_flags_threads: "flow_threads (show_flags t w f) = flow_threads f"
  by (cases t) (simp_all add: flow_threads_def)

lemma show_flags_in:
  "t \<in> flow_threads f \<Longrightarrow> flags_in u (show_flags t w f) = (if u = t then flags_of w else flags_in u f)"
  by (cases t; cases u) (auto simp: flags_in_def flags_of_def with_flags_def flow_threads_def nth_list_update)

fun show_all :: "flow_thread list \<Rightarrow> (flow_thread \<Rightarrow> wstate) \<Rightarrow> 'u flow \<Rightarrow> 'u flow" where
  "show_all [] w f = f"
| "show_all (t # ts) w f = show_flags t (w t) (show_all ts w f)"

lemma show_all_facts:
  assumes "set ts \<subseteq> flow_threads f"
  shows "flow_reach cfg f (show_all ts w f)" "bare (show_all ts w f) = bare f" "flow_threads (show_all ts w f) = flow_threads f"
    "\<forall>t \<in> set ts. flags_in t (show_all ts w f) = flags_of (w t)"
proof -
  have "flow_reach cfg f (show_all ts w f) \<and> bare (show_all ts w f) = bare f \<and> flow_threads (show_all ts w f) = flow_threads f \<and>
    (\<forall>t \<in> set ts. flags_in t (show_all ts w f) = flags_of (w t))"
    using assms
  proof (induction ts)
    case (Cons t ts)
    then have t: "t \<in> flow_threads (show_all ts w f)" by simp
    show ?case
      using Cons flow_reach.step[OF _ show_flags_step[OF t, of cfg "w t"]] show_flags_in[OF t]
      by (auto simp: show_flags_bare show_flags_threads)
  qed (simp add: flow_reach.start)
  then show "flow_reach cfg f (show_all ts w f)" "bare (show_all ts w f) = bare f" "flow_threads (show_all ts w f) = flow_threads f"
    "\<forall>t \<in> set ts. flags_in t (show_all ts w f) = flags_of (w t)" by simp_all
qed

section \<open>Playing moves\<close>

text \<open>Only the source's worker finishes from within.\<close>

definition no_finish :: "flow_thread \<Rightarrow> 'u gated \<Rightarrow> bool" where
  "no_finish t s \<longleftrightarrow> g_callback s t \<noteq> Finishing \<and> pc (g_worker s t) \<notin> {W_FinLock, W_FinSet, W_FinUnlock, W_FinSignal}"

lemma routine_destroyed: "routine_step fin w = Some w' \<Longrightarrow> pc w \<noteq> W_FinSet \<Longrightarrow> w_destroyed w' = w_destroyed w"
  by (cases "pc w") (auto simp: routine_step_def worker_signal_def split: if_splits)

lemma thread_step_no_finish:
  assumes st: "thread_step cfg u s = Some s'" and t: "t \<noteq> Source_thread" and nf: "no_finish t s"
  shows "no_finish t s' \<and> w_destroyed (g_worker s' t) = w_destroyed (g_worker s t)"
proof (cases "t = u")
  case False
  then show ?thesis using thread_step_other[OF st False] nf by (simp add: no_finish_def)
next
  case True
  from st show ?thesis
  proof (cases rule: thread_step_cases)
    case callback
    have "\<not> finishes cfg t f" for f :: "'a flow" using t by (cases t) simp_all
    then have "g_callback s' t \<noteq> Finishing"
      using callback(3) True by (auto simp: callback_step_def Let_def bind_eq_Some_conv split: if_splits)
    then show ?thesis using nf True callback_stepD(2)[OF callback(3)] by (simp add: no_finish_def)
  next
    case (protocol fin c)
    note d = protocol_stepD[OF protocol(1)]
    have c: "g_callback s' u = c" using d(4) by simp
    have "\<not> fin" using nf True protocol(4) by (simp add: no_finish_def)
    moreover have "w_destroyed (g_worker s' u) = w_destroyed (g_worker s u)"
      using routine_destroyed[OF d(1)] nf True by (simp add: no_finish_def)
    ultimately show ?thesis
      using nf protocol(3) c routine_step_pc[OF d(1)] unfolding True no_finish_def
      by (cases "pc (g_worker s u)") (auto split: if_splits)
  qed
qed

lemma gated_step_no_finish:
  assumes st: "gated_step cfg e s = Some s'" and t: "t \<noteq> Source_thread" and nf: "no_finish t s"
  shows "no_finish t s'"
proof (cases e)
  case (Turn u)
  then show ?thesis using st thread_step_no_finish[OF _ t nf] by (simp add: gated_step_def split: if_splits)
next
  case (Control u i)
  then show ?thesis
    using st nf ctl_step_pc[of i "g_worker s u"] by (auto simp: gated_step_def bind_eq_Some_conv no_finish_def split: if_splits)
qed (use st nf in \<open>auto simp: gated_step_def Let_def no_finish_def split: if_splits\<close>)

lemma gated_reach_no_finish:
  assumes "gated_reach cfg f s" "t \<noteq> Source_thread"
  shows "no_finish t s"
proof (rule gated_reach_induct[OF assms(1)])
  show "no_finish t (gated_start f)" by (simp add: no_finish_def gated_start_def worker_start_def)
qed (rule gated_step_no_finish[OF _ assms(2)])

text \<open>The workers of the stages and the sink run.\<close>

definition on_duty :: "'u gated \<Rightarrow> flow_thread \<Rightarrow> bool" where
  "on_duty s t \<longleftrightarrow> running (g_worker s t) \<and> \<not> w_destroyed (g_worker s t)"

lemma on_duty_finished:
  assumes "gated_reach cfg f s" "t \<noteq> Source_thread" "on_duty s t"
  shows "\<not> finished t s"
  using gated_reach_no_finish[OF assms(1,2)] assms(3) by (simp add: finished_def no_finish_def on_duty_def)

lemma to_callback:
  "flow_start cfg B f \<Longrightarrow> gated_reach cfg f s \<Longrightarrow> t \<in> flow_threads f \<Longrightarrow> t \<noteq> Source_thread \<Longrightarrow> on_duty s t \<Longrightarrow>
     \<exists>n s'. turns cfg (replicate n t) s = s' \<and> in_callback t s' \<and> g_flow s' = g_flow s \<and> on_duty s' t \<and>
       (\<forall>u. u \<noteq> t \<longrightarrow> g_worker s' u = g_worker s u) \<and> flags_of (g_worker s' t) = flags_of (g_worker s t)"
proof (induction "turns_to_end t s" arbitrary: s rule: less_induct)
  case less
  show ?case
  proof (cases "in_callback t s")
    case True
    then show ?thesis using less.prems(5) by (intro exI[of _ 0]) simp
  next
    case False
    obtain s1 where s1: "thread_step cfg t s = Some s1" "running (g_worker s1 t)" "turns_to_end t s1 < turns_to_end t s"
      using turn_running[OF less.prems(1-3) _ on_duty_finished[OF less.prems(2,4,5)]] less.prems(5) False
      by (auto simp: on_duty_def)
    have r: "gated_reach cfg f s1"
      using gated_reach_step[OF less.prems(2), of "Turn t" s1] s1(1) less.prems(3) gated_reach_threads[OF less.prems(2)]
      by (simp add: gated_step_def)
    have des: "w_destroyed (g_worker s1 t) = w_destroyed (g_worker s t)"
      using thread_step_no_finish[OF s1(1) less.prems(4) gated_reach_no_finish[OF less.prems(2,4)]] by simp
    then have duty: "on_duty s1 t" using s1(2) less.prems(5) by (simp add: on_duty_def)
    have fl: "g_flow s1 = g_flow s" using s1(1) False
      by (cases rule: thread_step_cases) (auto simp: in_callback_def dest: protocol_stepD(2))
    obtain n s' where s': "turns cfg (replicate n t) s1 = s'" "in_callback t s'" "g_flow s' = g_flow s1" "on_duty s' t"
      "\<And>u. u \<noteq> t \<Longrightarrow> g_worker s' u = g_worker s1 u" "flags_of (g_worker s' t) = flags_of (g_worker s1 t)"
      using less.hyps[OF s1(3) less.prems(1) r less.prems(3,4) duty] by blast
    have "flags_of (g_worker s1 t) = flags_of (g_worker s t)"
      using des s1(2) less.prems(5) by (simp add: flags_of_def on_duty_def running_def)
    with s' s1(1) fl thread_step_other(1)[OF s1(1)] show ?thesis by (intro exI[of _ "Suc n"]) simp
  qed
qed

text \<open>The flow \<open>f\<close> stands for the state \<open>s\<close>.\<close>

definition stands_for :: "fifo_config \<Rightarrow> 'u flow \<Rightarrow> 'u flow \<Rightarrow> 'u gated \<Rightarrow> bool" where
  "stands_for cfg f0 f s \<longleftrightarrow> gated_reach cfg f0 s \<and> bare (g_flow s) = bare f \<and>
     (\<forall>t \<in> flow_threads f0 - {Source_thread}. on_duty s t \<and> flags_in t f = flags_of (g_worker s t))"

lemma turns_append: "turns cfg (ts @ us) s = turns cfg us (turns cfg ts s)"
  by (induction ts arbitrary: s) simp_all

lemma play_move:
  assumes start: "flow_start cfg B f0" and st: "stands_for cfg f0 f s" and t: "t \<in> flow_threads f0" "t \<noteq> Source_thread"
    and m: "move cfg t f = Some f'"
  shows "\<exists>n. stands_for cfg f0 f' (turns cfg (replicate n t) s)"
proof -
  have r: "gated_reach cfg f0 s" and b: "bare (g_flow s) = bare f" and duty: "on_duty s t"
    and fl: "\<And>u. u \<in> flow_threads f0 - {Source_thread} \<Longrightarrow> on_duty s u \<and> flags_in u f = flags_of (g_worker s u)"
    using st t by (auto simp: stands_for_def)
  obtain n s1 where s1: "turns cfg (replicate n t) s = s1" "in_callback t s1" "g_flow s1 = g_flow s" "on_duty s1 t"
    "\<And>u. u \<noteq> t \<Longrightarrow> g_worker s1 u = g_worker s u" "flags_of (g_worker s1 t) = flags_of (g_worker s t)"
    using to_callback[OF start r t duty] by blast
  let ?g = "show_flags t (g_worker s1 t) (g_flow s1)"
  have tf: "t \<in> flow_threads (g_flow s1)" "t \<in> flow_threads f"
    using t(1) gated_reach_threads[OF r] s1(3) bareD(8)[OF b] by simp_all
  have "bare ?g = bare f" using b s1(3) by (simp add: show_flags_bare)
  moreover have "flags_in t ?g = flags_in t f" using show_flags_in[OF tf(1)] fl[of t] t s1(6) by simp
  ultimately obtain g' where g': "move cfg t ?g = Some g'" "bare g' = bare f'" "\<And>u. worker_in u f' = worker_in u f"
    using bare_move[OF _ tf(2) t(2) _ m, of ?g] by metis
  then obtain s2 where s2: "callback_step cfg t s1 = Some s2" by (simp add: callback_step_def)
  note d = callback_stepD[OF s2]
  have ts: "thread_step cfg t s1 = Some s2" using s2 s1(2) by (simp add: thread_step_def in_callback_def)
  have "turns cfg (replicate n t @ [t]) s = s2" using s1(1) ts by (simp add: turns_append)
  then have run: "turns cfg (replicate (Suc n) t) s = s2" by (simp add: replicate_append_same)
  have "gated_reach cfg f0 s2" using turns_reach[OF r, of "replicate (Suc n) t"] t(1) run by (metis empty_subsetI insert_subset set_replicate_Suc)
  moreover have "bare (g_flow s2) = bare f'" using d(1) g'(1,2) by simp
  moreover have "on_duty s2 u \<and> flags_in u f' = flags_of (g_worker s2 u)" if "u \<in> flow_threads f0 - {Source_thread}" for u
    using fl[OF that] s1(4-6) d(2) g'(3) by (cases "u = t") (simp_all add: on_duty_def flags_in_def)
  ultimately have "stands_for cfg f0 f' s2" by (simp add: stands_for_def)
  then show ?thesis unfolding run[symmetric] by blast
qed

lemma play_moves:
  "flow_start cfg B f0 \<Longrightarrow> stands_for cfg f0 f s \<Longrightarrow> Source_thread \<notin> set ts \<Longrightarrow> flow_run cfg ts f = Some f' \<Longrightarrow>
     \<exists>us. set us \<subseteq> flow_threads f0 - {Source_thread} \<and> stands_for cfg f0 f' (turns cfg us s)"
proof (induction ts arbitrary: f s)
  case Nil
  then show ?case by (intro exI[of _ "[]"]) simp
next
  case (Cons t ts)
  obtain f1 where f1: "t \<in> flow_threads f" "move cfg t f = Some f1" "flow_run cfg ts f1 = Some f'"
    using Cons.prems(4) by (auto simp: bind_eq_Some_conv split: if_splits)
  have th: "flow_threads f = flow_threads f0"
    using Cons.prems(2) bareD(8) gated_reach_threads unfolding stands_for_def by metis
  obtain n where "stands_for cfg f0 f1 (turns cfg (replicate n t) s)"
    using play_move[OF Cons.prems(1,2) _ _ f1(2)] f1(1) th Cons.prems(3) by auto
  from Cons.IH[OF Cons.prems(1) this _ f1(3)] Cons.prems(3) obtain us where
    us: "set us \<subseteq> flow_threads f0 - {Source_thread}" "stands_for cfg f0 f' (turns cfg us (turns cfg (replicate n t) s))" by auto
  have "set (replicate n t @ us) \<subseteq> flow_threads f0 - {Source_thread}" using us(1) f1(1) th Cons.prems(3) by auto
  then show ?case using us(2) by (intro exI[of _ "replicate n t @ us"]) (simp add: turns_append)
qed

section \<open>Schedules from any state\<close>

text \<open>A state of the flow that shows all flags stands for each state in which these workers run.\<close>

lemma shown_flow:
  assumes r: "gated_reach cfg f s" and duty: "\<forall>t \<in> flow_threads f - {Source_thread}. on_duty s t"
  obtains g where "flow_reach cfg f g" "stands_for cfg f g s" "bare g = bare (g_flow s)"
proof -
  let ?us = "Sink_thread # map Stage_thread [0..<length (fl_stages f)]"
  have us: "set ?us = flow_threads f - {Source_thread}" by (auto simp: flow_threads_def)
  define g where "g = show_all ?us (g_worker s) (g_flow s)"
  have th: "set ?us \<subseteq> flow_threads (g_flow s)" using us gated_reach_threads[OF r] by auto
  note g = show_all_facts[OF th, where w = "g_worker s", folded g_def]
  have "stands_for cfg f g s" using r duty g(2,4) us unfolding stands_for_def by metis
  then show ?thesis by (rule that[OF flow_reach_trans[OF g(1) gated_reach_flow[OF r]] _ g(2)])
qed

lemma workers_drain:
  assumes "flow_start cfg B f" "hands_on f" "\<forall>k \<le> length (fl_stages f). B k \<noteq> {#}" "\<forall>n. avail (sh_mem (fl_sh f)) n"
    and "gated_reach cfg f s" "\<forall>t \<in> flow_threads f - {Source_thread}. on_duty s t" "so_at (g_flow s) \<noteq> So_Release"
  shows "\<exists>ts. set ts \<subseteq> flow_threads f - {Source_thread} \<and> sk_at (g_flow (turns cfg ts s)) = Sk_Entry \<and>
    (\<forall>k \<le> length (fl_stages f). mtdp_buffer_fifo_size (fifo (sh_pipes (fl_sh (g_flow (turns cfg ts s))) ! k)) = 0 \<and>
      length (pulled (g_flow (turns cfg ts s)) k) = length (pushed (g_flow s) 0))"
proof -
  obtain g where g: "flow_reach cfg f g" "stands_for cfg f g s" "bare g = bare (g_flow s)" by (rule shown_flow[OF assms(5,6)])
  note b = bareD[OF g(3)]
  obtain ts g' where ts: "Source_thread \<notin> set ts" "flow_run cfg ts g = Some g'" "settled g'"
    "\<forall>k \<le> length (fl_stages g). mtdp_buffer_fifo_size (fifo (sh_pipes (fl_sh g') ! k)) = 0 \<and>
       length (pulled g' k) = length (pushed g 0)"
    using flow_drains[OF assms(1-4) g(1)] assms(7) b(2) by metis
  obtain vs where vs: "set vs \<subseteq> flow_threads f - {Source_thread}" "stands_for cfg f g' (turns cfg vs s)"
    using play_moves[OF assms(1) g(2) ts(1,2)] by blast
  then have "bare (g_flow (turns cfg vs s)) = bare g'" by (simp add: stands_for_def)
  note b' = bareD[OF this]
  show ?thesis
    using vs(1) ts(3,4) b(5,7) b' flow_reach_stages[OF gated_reach_flow[OF assms(5)]] by (intro exI[of _ vs]) (simp add: settled_def)
qed

end
