(* ===== verification/Gated_Finish.thy ===== *)
theory Gated_Finish
  imports Gated_Progress
begin

text \<open>
  After \<open>mtdp_source_finished\<close>: the source's thread ends without another step of its routine, whatever
  the other threads do and whatever is called on its worker.
\<close>

section \<open>No step after the end\<close>

text \<open>Outside its callback, with its worker destroyed or about to be destroyed by itself.\<close>

definition ending :: "flow_thread \<Rightarrow> 'u gated \<Rightarrow> bool" where
  "ending t s \<longleftrightarrow> \<not> in_callback t s \<and>
     (w_destroyed (g_worker s t) \<or> pc (g_worker s t) = W_Callback \<and> g_callback s t = Finishing \<or>
      pc (g_worker s t) \<in> {W_FinLock, W_FinSet})"

lemma turn_ending:
  assumes st: "thread_step cfg t s = Some s'" and en: "entry_inv s t" and ending: "ending t s"
  shows "ending t s' \<and> g_flow s' = g_flow s"
  using st
proof (cases rule: thread_step_cases)
  case callback
  then show ?thesis using ending by (simp add: ending_def in_callback_def)
next
  case (protocol fin c)
  note d = protocol_stepD[OF protocol(1)]
  have c: "g_callback s' t = c" using d(4) by simp
  have "w_destroyed (g_worker s t) \<Longrightarrow> pc (g_worker s t) = W_Check \<Longrightarrow> pc (g_worker s' t) = W_Exited"
    using d(1)[symmetric] by (simp add: routine_step_def)
  then show ?thesis
    using ending en d(2) protocol(2-4) routine_step_pc[OF d(1)] routine_step_fields[OF d(1)] fin_set[OF d(1)]
    unfolding ending_def in_callback_def entry_inv_def c
    by (cases "pc (g_worker s t)"; cases "g_callback s t") auto
qed

lemma ctl_destroyed: "ctl_step i w = Some w' \<Longrightarrow> w_destroyed w \<Longrightarrow> w_destroyed w'"
  by (cases "ctl w i") (auto simp: ctl_step_def apply_request_def worker_signal_def split: if_splits ctl_request.splits)

lemma ending_cong:
  "ending t s \<Longrightarrow> g_callback s' t = g_callback s t \<Longrightarrow> pc (g_worker s' t) = pc (g_worker s t) \<Longrightarrow>
     (w_destroyed (g_worker s t) \<Longrightarrow> w_destroyed (g_worker s' t)) \<Longrightarrow> ending t s'"
  by (auto simp: ending_def in_callback_def)

text \<open>What the source alone changes.\<close>

definition source_part :: "'u flow \<Rightarrow> source_pc \<times> mtdp_source_context \<times> mtdp_buffer list" where
  "source_part f = (so_at f, so_context (fl_source f), pushed f 0)"

lemma move_source_part:
  assumes inv: "flow_inv cfg B f" and t: "t \<in> flow_threads f" "t \<noteq> Source_thread" and m: "move cfg t f = Some f'"
  shows "source_part f' = source_part f"
proof (cases t)
  case (Stage_thread i)
  then have "i < length (fl_stages f)" using t(1) by (auto simp: flow_threads_def)
  then have "st_output_pipe (fl_stages f ! i) = Suc i" using flow_invD(6)[OF inv] by (simp add: stage_ok_def)
  then show ?thesis using m Stage_thread by (auto simp: source_part_def stage_move_def bind_eq_Some_conv Let_def)
qed (use t m in \<open>auto simp: source_part_def sink_move_def bind_eq_Some_conv Let_def\<close>)

lemma source_part_write [simp]: "source_part (show_flags t w f) = source_part f" "source_part (write_done t d f) = source_part f"
  by (cases t; simp add: source_part_def)+

lemma event_ending:
  assumes st: "gated_step cfg e s = Some s'" and inv: "gated_inv cfg B s" and ending: "ending Source_thread s"
  shows "ending Source_thread s' \<and> source_part (g_flow s') = source_part (g_flow s) \<and>
    \<not> (e = Turn Source_thread \<and> in_callback Source_thread s)"
proof (cases e)
  case (Turn u)
  then have st': "thread_step cfg u s = Some s'" and u: "u \<in> flow_threads (g_flow s)"
    using st by (simp_all add: gated_step_def split: if_splits)
  show ?thesis
  proof (cases "u = Source_thread")
    case True
    have "entry_inv s Source_thread" using inv by (simp add: gated_inv_def flow_threads_def)
    from turn_ending[OF st'[unfolded True] this ending] ending show ?thesis by (simp add: ending_def)
  next
    case False
    note o = thread_step_other[OF st' False[symmetric]]
    have "ending Source_thread s'" using ending_cong[OF ending, of s'] o by simp
    moreover have "source_part (g_flow s') = source_part (g_flow s)" using st'
    proof (cases rule: thread_step_cases)
      case callback
      let ?f = "show_flags u (g_worker s u) (g_flow s)"
      have f: "flow_step cfg (g_flow s) ?f" by (rule show_flags_step[OF u])
      have "flow_inv cfg B ?f" "u \<in> flow_threads ?f"
        using flow_step_inv[OF f] inv u flow_step_stages[OF f] by (simp_all add: gated_inv_def flow_threads_def)
      from move_source_part[OF this False callback_stepD(1)[OF callback(3)]] show ?thesis by simp
    next
      case (protocol fin c)
      then show ?thesis using protocol_stepD(2) by metis
    qed
    ultimately show ?thesis using Turn False by simp
  qed
next
  case (Control u i)
  then obtain w where w: "ctl_step i (g_worker s u) = Some w" "s' = set_worker u s w"
    using st by (auto simp: gated_step_def bind_eq_Some_conv split: if_splits)
  have "ending Source_thread s'"
    by (rule ending_cong[OF ending]) (use ctl_step_pc[OF w(1)] ctl_destroyed[OF w(1)] in \<open>auto simp: w(2) set_worker_def\<close>)
  then show ?thesis using w(2) Control by (simp add: set_worker_def)
next
  case (Call u i r)
  then have "s' = set_worker u s ((g_worker s u)\<lparr>ctl := (ctl (g_worker s u))(i := C_Lock r)\<rparr>)"
    using st by (simp add: gated_step_def Let_def split: if_splits)
  then show ?thesis using Call ending_cong[OF ending, of s'] by (simp add: set_worker_def)
next
  case (Wakeup u)
  then have "pc (g_worker s u) = W_Waiting" "s' = set_worker u s ((g_worker s u)\<lparr>pc := W_Relock\<rparr>)"
    using st by (simp_all add: gated_step_def Let_def split: if_splits)
  then show ?thesis using ending Wakeup by (auto simp: set_worker_def ending_def in_callback_def)
next
  case (Done_word u d)
  then have "s' = s\<lparr>g_flow := write_done u d (g_flow s)\<rparr>" using st by (simp add: gated_step_def split: if_splits)
  then show ?thesis using ending_cong[OF ending, of s'] Done_word by simp
qed

lemma run_ending:
  "gated_run cfg es s = Some s' \<Longrightarrow> gated_inv cfg B s \<Longrightarrow> ending Source_thread s \<Longrightarrow>
     callback_turns cfg Source_thread es s = 0 \<and> source_part (g_flow s') = source_part (g_flow s)"
proof (induction es arbitrary: s)
  case (Cons e es)
  obtain s1 where s1: "gated_step cfg e s = Some s1" "gated_run cfg es s1 = Some s'"
    using Cons.prems(1) by (auto simp: bind_eq_Some_conv)
  note d = event_ending[OF s1(1) Cons.prems(2,3)]
  have "callback_turns cfg Source_thread es s1 = 0 \<and> source_part (g_flow s') = source_part (g_flow s1)"
    using Cons.IH[OF s1(2) gated_step_inv[OF s1(1) Cons.prems(2)]] d by simp
  then show ?case using d s1(1) by simp
qed simp

end
