(* ===== verification/Drained_Words.thy ===== *)
theory Drained_Words
  imports Drained
begin

text \<open>
  After the last buffer: in a pipeline that every buffer has passed, a stage and the sink find
  nothing to take and set their \<open>done\<close> words, which then stay set.
\<close>

section \<open>A drained pipeline\<close>

definition drained :: "'u flow \<Rightarrow> bool" where
  "drained s \<longleftrightarrow> (\<forall>k \<le> length (fl_stages s). length (pulled s k) = length (pushed s 0) \<and> length (pushed s k) = length (pushed s 0))"

lemma drainedD:
  assumes "drained s" "k \<le> length (fl_stages s)"
  shows "length (pulled s k) = length (pushed s 0)" "length (pushed s k) = length (pushed s 0)"
  using assms unfolding drained_def by blast+

lemma drained_end:
  assumes d: "draining cfg B s" and e: "length (pushed s 0) \<le> length (pulled s (length (fl_stages s)))"
  shows "drained s"
  unfolding drained_def
proof (intro allI impI)
  fix k assume k: "k \<le> length (fl_stages s)"
  show "length (pulled s k) = length (pushed s 0) \<and> length (pushed s k) = length (pushed s 0)"
    using log_chain[OF d k] draining_link(2)[OF d k] e by linarith
qed

lemma drained_kept:
  assumes "drained s" "draining cfg B s'" "moved_on s s'"
  shows "drained s'"
proof (rule drained_end[OF assms(2)])
  have "length (pushed s 0) = length (pulled s (length (fl_stages s)))" using drainedD(1)[OF assms(1), of "length (fl_stages s)"] by simp
  then show "length (pushed s' 0) \<le> length (pulled s' (length (fl_stages s')))"
    using assms(3) by (simp add: moved_on_def)
qed

text \<open>Where its threads can be.\<close>

lemma drained_stage:
  assumes d: "draining cfg B s" and dr: "drained s" and i: "i < length (fl_stages s)"
  shows "st_at s ! i = St_Entry \<or> st_at s ! i = St_Acquire" "\<not> st_ready_to_push (st_context (fl_stages s ! i))"
    "st_ready_to_pull (st_context (fl_stages s ! i))" "semaphore (sh_pipes (fl_sh s) ! i) = 0"
proof -
  note f = draining_stage[OF d i]
  have gone: "length (pulled s i) = length (pushed s i)" "length (pulled s (Suc i)) = length (pushed s (Suc i))"
    "stage_item (st_at s ! i) (fl_stages s ! i) = 0"
    using drainedD[OF dr, of i] drainedD[OF dr, of "Suc i"] i f(8) by simp_all
  have "\<not> snd (consumer s i)" "\<not> snd (producer s (Suc i))" and sem: "semaphore (sh_pipes (fl_sh s) ! i) = 0"
    using draining_link(1)[OF d, of i] draining_link(1)[OF d, of "Suc i"] gone i by (simp_all add: of_bool_def split: if_splits)
  then have "st_at s ! i \<notin> {St_Unset, St_GetFull, St_Release}"
    using i by (auto simp: consumer_def producer_def stage_in_view_def stage_out_view_def)
  then show "st_at s ! i = St_Entry \<or> st_at s ! i = St_Acquire" "\<not> st_ready_to_push (st_context (fl_stages s ! i))"
    "st_ready_to_pull (st_context (fl_stages s ! i))"
    using f(4) gone(3) by (cases "st_at s ! i"; auto simp: stage_flags_def stage_item_def Let_def)+
  show "semaphore (sh_pipes (fl_sh s) ! i) = 0" by (rule sem)
qed

lemma drained_sink:
  assumes d: "draining cfg B s" and dr: "drained s"
  shows "sk_at s \<in> {Sk_Entry, Sk_Acquire, Sk_Process}" "semaphore (sh_pipes (fl_sh s) ! length (fl_stages s)) = 0"
    "sk_at s = Sk_Entry \<Longrightarrow> sk_ready_to_pull (sk_context (fl_sink s))"
proof -
  let ?n = "length (fl_stages s)"
  have "length (pulled s ?n) = length (pushed s ?n)" using drainedD[OF dr, of ?n] by simp
  then have "\<not> snd (consumer s ?n)" and sem: "semaphore (sh_pipes (fl_sh s) ! ?n) = 0"
    using draining_link(1)[OF d, of ?n] by (simp_all add: of_bool_def split: if_splits)
  then have "sk_at s \<notin> {Sk_Unset, Sk_GetFull}" by (auto simp: consumer_def sink_view_def)
  moreover have "sk_at s \<noteq> Sk_Return" using d by (auto simp: draining_def flow_hand_def sink_flags_def)
  ultimately show "sk_at s \<in> {Sk_Entry, Sk_Acquire, Sk_Process}" by (cases "sk_at s") auto
  show "sk_at s = Sk_Entry \<Longrightarrow> sk_ready_to_pull (sk_context (fl_sink s))"
    using d by (simp add: draining_def flow_hand_def sink_flags_def)
  show "semaphore (sh_pipes (fl_sh s) ! ?n) = 0" by (rule sem)
qed

section \<open>The moves of its threads\<close>

lemma drained_stage_move:
  assumes d: "draining cfg B s" and dr: "drained s" and i: "i < length (fl_stages s)"
  obtains s' where "stage_move cfg i s = Some s'" "draining cfg B s'" "drained s'" "fl_source s' = fl_source s"
    "fl_sink s' = fl_sink s" "fl_stages s' = (fl_stages s)[i := (fl_stages s ! i)\<lparr>st_done :=
       if st_at s ! i = St_Acquire then 1 else st_done (fl_stages s ! i)\<rparr>]"
    "st_at s' ! i = (if st_at s ! i = St_Entry then St_Acquire else St_Entry)" "moved_on s s'" "sk_at s' = sk_at s"
proof -
  note p = drained_stage[OF d dr i]
  note f = draining_stage[OF d i]
  let ?g = "fl_stages s ! i"
  have pa: "pipe_at (fl_sh s) i = Some (sh_pipes (fl_sh s) ! i)" using f(7) by (simp add: pipe_at_def)
  obtain r sh self where st: "stage_step cfg (st_at s ! i) (fl_sh s, ?g) = Some (r, sh, self)"
    and r: "r = (if st_at s ! i = St_Entry then Some St_Acquire else None)"
    and self: "self = ?g\<lparr>st_done := if st_at s ! i = St_Acquire then 1 else st_done ?g\<rparr>"
    using p pa f(3) by (auto simp: stage_step_def Let_def try_acquire_pipe_def mtdp_semaphore_try_acquire_for_def)
  obtain s' where s': "stage_move cfg i s = Some s'" "draining cfg B s'" "moved_on s s'"
    "st_at s' = (st_at s)[i := stage_next r]" "fl_stages s' = (fl_stages s)[i := self]" "fl_sink s' = fl_sink s" "sk_at s' = sk_at s"
    by (rule stage_draining[OF d i st])
  have "fl_source s' = fl_source s" using s'(1) by (auto simp: stage_move_def bind_eq_Some_conv Let_def)
  moreover have "drained s'" by (rule drained_kept[OF dr s'(2,3)])
  ultimately show ?thesis using s' r self f(6) by (intro that[of s']) (simp_all add: stage_next_def)
qed

lemma drained_sink_move:
  assumes d: "draining cfg B s" and dr: "drained s"
  obtains s' where "sink_move cfg s = Some s'" "draining cfg B s'" "drained s'" "fl_source s' = fl_source s"
    "fl_stages s' = fl_stages s" "sk_done (fl_sink s') = (if sk_at s = Sk_Acquire then 1 else sk_done (fl_sink s))"
    "sk_at s' = (if sk_at s = Sk_Entry then Sk_Acquire else Sk_Entry)" "moved_on s s'"
proof -
  let ?n = "length (fl_stages s)"
  have inv: "flow_inv cfg B s" using d by (simp add: draining_def)
  note p = drained_sink[OF d dr]
  have k: "sk_input_pipe (fl_sink s) = ?n" "length (sh_pipes (fl_sh s)) = Suc ?n"
    using flow_invD(1,7)[OF inv] by (simp_all add: sink_ok_def)
  then have pa: "pipe_at (fl_sh s) ?n = Some (sh_pipes (fl_sh s) ! ?n)" by (simp add: pipe_at_def)
  obtain r sh self s' where e: "sink_step cfg (sk_at s) (fl_sh s, fl_sink s) = Some (r, sh, self)"
    "sink_move cfg s = Some s'" "draining cfg B s'" "moved_on s s'" "fl_stages s' = fl_stages s" "sk_at s' = sink_next r" "fl_sink s' = self"
  proof -
    obtain s0 where mv: "sink_move cfg s = Some s0" using sink_move_inv[OF inv] by blast
    obtain r sh self where e: "sink_step cfg (sk_at s) (fl_sh s, fl_sink s) = Some (r, sh, self)" by (rule sink_moveE[OF inv mv])
    from sink_draining[OF d e] e that show ?thesis by metis
  qed
  have "r = (if sk_at s = Sk_Entry then Some Sk_Acquire else None) \<and>
      sk_done self = (if sk_at s = Sk_Acquire then 1 else sk_done (fl_sink s))"
  proof (cases "sk_at s")
    case Sk_Entry
    have l: "sk_ready_to_pull (sk_context (fl_sink s))" by (rule p(3)[OF Sk_Entry])
    show ?thesis
    proof (cases "sk_input (sk_context (fl_sink s)) = NULL")
      case False
      have "link_at cfg (B ?n) (fl_sh s) ?n (producer s ?n) (sk_input (sk_context (fl_sink s)), False) (pushed s ?n) (pulled s ?n)"
        using links_invD(1)[OF flow_invD(8)[OF inv], of ?n] k(2) Sk_Entry by (simp add: consumer_def sink_view_def)
      from link_put_back[OF this False] obtain p' where
        "mtdp_pipe_put_back (sh_mem (fl_sh s)) (sh_pipes (fl_sh s) ! ?n) (sk_input (sk_context (fl_sink s))) =
          Some (True, sh_mem (fl_sh s), p')" by metis
      then show ?thesis using e(1) Sk_Entry l k pa False by (auto simp: sink_step_def Let_def)
    qed (use e(1) Sk_Entry l in \<open>auto simp: sink_step_def Let_def\<close>)
  next
    case Sk_Acquire
    then show ?thesis using e(1) p(2) k pa
      by (auto simp: sink_step_def Let_def try_acquire_pipe_def mtdp_semaphore_try_acquire_for_def)
  next
    case Sk_Process
    then show ?thesis using e(1)
      by (auto simp: sink_step_def Let_def bind_eq_Some_conv call_sink_def case_prod_unfold split: if_splits option.splits)
  qed (use p(1) in auto)
  moreover have "fl_source s' = fl_source s" using e(2) by (auto simp: sink_move_def bind_eq_Some_conv Let_def)
  moreover have "drained s'" by (rule drained_kept[OF dr e(3,4)])
  ultimately show ?thesis using e(2-7) by (intro that[of s']) (simp_all add: sink_next_def)
qed

section \<open>Its words\<close>

text \<open>The words of the stages and of the sink are set, and the sink is not about to call its user's code.\<close>

definition words_set :: "'u flow \<Rightarrow> bool" where
  "words_set s \<longleftrightarrow> (\<forall>i < length (fl_stages s). st_done (fl_stages s ! i) = 1) \<and> sk_done (fl_sink s) = 1 \<and>
     sk_at s \<noteq> Sk_Process"

text \<open>Set words stay set.\<close>

lemma drained_move:
  assumes d: "draining cfg B s" and dr: "drained s" and t: "t \<in> flow_threads s" "t \<noteq> Source_thread"
  obtains s' where "move cfg t s = Some s'" "draining cfg B s'" "drained s'" "fl_source s' = fl_source s" "moved_on s s'"
    "words_set s \<Longrightarrow> words_set s'"
proof (cases t)
  case (Stage_thread i)
  then have i: "i < length (fl_stages s)" using t(1) by (auto simp: flow_threads_def)
  obtain s' where s': "stage_move cfg i s = Some s'" "draining cfg B s'" "drained s'" "fl_source s' = fl_source s"
    "fl_sink s' = fl_sink s" "fl_stages s' = (fl_stages s)[i := (fl_stages s ! i)\<lparr>st_done :=
       if st_at s ! i = St_Acquire then 1 else st_done (fl_stages s ! i)\<rparr>]" "moved_on s s'" "sk_at s' = sk_at s"
    by (rule drained_stage_move[OF d dr i])
  have "words_set s \<Longrightarrow> words_set s'" using i by (simp add: words_set_def s'(5,6,8) nth_list_update)
  with s' Stage_thread show ?thesis by (intro that[of s']) simp_all
next
  case Sink_thread
  obtain s' where s': "sink_move cfg s = Some s'" "draining cfg B s'" "drained s'" "fl_source s' = fl_source s"
    "fl_stages s' = fl_stages s" "sk_done (fl_sink s') = (if sk_at s = Sk_Acquire then 1 else sk_done (fl_sink s))"
    "sk_at s' = (if sk_at s = Sk_Entry then Sk_Acquire else Sk_Entry)" "moved_on s s'"
    by (rule drained_sink_move[OF d dr])
  have "words_set s \<Longrightarrow> words_set s'" using s'(5-7) by (simp add: words_set_def)
  with s' Sink_thread show ?thesis by (intro that[of s']) simp_all
qed (use t in simp)

text \<open>Each of these threads sets its word in its first iteration.\<close>

definition drained_on :: "fifo_config \<Rightarrow> (nat \<Rightarrow> mtdp_buffer multiset) \<Rightarrow> 'u flow \<Rightarrow> 'u flow \<Rightarrow> bool" where
  "drained_on cfg B s s' \<longleftrightarrow> drained_to cfg B s s' \<and> drained s' \<and> fl_source s' = fl_source s"

lemma drained_on_trans: "drained_on cfg B s1 s2 \<Longrightarrow> drained_on cfg B s2 s3 \<Longrightarrow> drained_on cfg B s1 s3"
  using drained_to_trans by (auto simp: drained_on_def)

lemma drained_on_refl: "draining cfg B s \<Longrightarrow> drained s \<Longrightarrow> drained_on cfg B s s"
  using drained_to_refl by (auto simp: drained_on_def)

lemma drained_onD: "drained_on cfg B s s' \<Longrightarrow> draining cfg B s' \<and> drained s' \<and> length (fl_stages s') = length (fl_stages s)"
  using drained_toD by (auto simp: drained_on_def)

lemma stage_turn:
  assumes d: "draining cfg B s" and dr: "drained s" and i: "i < length (fl_stages s)"
  obtains s' where "drained_on cfg B s s'" "st_at s' ! i = (if st_at s ! i = St_Entry then St_Acquire else St_Entry)"
    "fl_stages s' = (fl_stages s)[i := (fl_stages s ! i)\<lparr>st_done := if st_at s ! i = St_Acquire then 1 else st_done (fl_stages s ! i)\<rparr>]"
proof -
  obtain s' where s': "stage_move cfg i s = Some s'" "draining cfg B s'" "drained s'" "fl_source s' = fl_source s"
    "fl_sink s' = fl_sink s" "fl_stages s' = (fl_stages s)[i := (fl_stages s ! i)\<lparr>st_done :=
       if st_at s ! i = St_Acquire then 1 else st_done (fl_stages s ! i)\<rparr>]"
    "st_at s' ! i = (if st_at s ! i = St_Entry then St_Acquire else St_Entry)" "moved_on s s'"
    by (rule drained_stage_move[OF d dr i])
  have "drained_on cfg B s s'" using s' drains_stage[OF i s'(1)] by (simp add: drained_on_def drained_to_def)
  then show ?thesis using s'(6,7) by (intro that[of s'])
qed

lemma stage_sets:
  assumes d: "draining cfg B s" and dr: "drained s" and i: "i < length (fl_stages s)"
  obtains s' where "drained_on cfg B s s'" "st_done (fl_stages s' ! i) = 1"
    "\<forall>j. st_done (fl_stages s ! j) = 1 \<longrightarrow> st_done (fl_stages s' ! j) = 1"
proof -
  have acq: "\<exists>s2. drained_on cfg B s1 s2 \<and> st_done (fl_stages s2 ! i) = 1 \<and>
      (\<forall>j. st_done (fl_stages s1 ! j) = 1 \<longrightarrow> st_done (fl_stages s2 ! j) = 1)"
    if s1: "draining cfg B s1" "drained s1" "i < length (fl_stages s1)" "st_at s1 ! i = St_Acquire" for s1
  proof -
    obtain s2 where s2: "drained_on cfg B s1 s2" "fl_stages s2 = (fl_stages s1)[i := (fl_stages s1 ! i)\<lparr>st_done :=
        if st_at s1 ! i = St_Acquire then 1 else st_done (fl_stages s1 ! i)\<rparr>]" by (rule stage_turn[OF s1(1-3)])
    have "st_done (fl_stages s1 ! j) = 1 \<Longrightarrow> st_done (fl_stages s2 ! j) = 1" for j
      using s1(3,4) by (cases "j = i") (simp_all add: s2(2))
    then show ?thesis using s1(3,4) s2 by auto
  qed
  show ?thesis
  proof (cases "st_at s ! i = St_Acquire")
    case True
    from acq[OF d dr i True] that show ?thesis by blast
  next
    case False
    then have pc: "st_at s ! i = St_Entry" using drained_stage(1)[OF d dr i] by simp
    obtain s1 where s1: "drained_on cfg B s s1" "st_at s1 ! i = (if st_at s ! i = St_Entry then St_Acquire else St_Entry)"
      "fl_stages s1 = (fl_stages s)[i := (fl_stages s ! i)\<lparr>st_done := if st_at s ! i = St_Acquire then 1 else st_done (fl_stages s ! i)\<rparr>]"
      by (rule stage_turn[OF d dr i])
    have eq: "fl_stages s1 = fl_stages s" using s1(3) False by simp
    have "draining cfg B s1" "drained s1" "i < length (fl_stages s1)" "st_at s1 ! i = St_Acquire"
      using drained_onD[OF s1(1)] i eq s1(2) pc by simp_all
    from acq[OF this] obtain s2 where s2: "drained_on cfg B s1 s2" "st_done (fl_stages s2 ! i) = 1"
      "\<forall>j. st_done (fl_stages s1 ! j) = 1 \<longrightarrow> st_done (fl_stages s2 ! j) = 1" by blast
    show ?thesis by (rule that[OF drained_on_trans[OF s1(1) s2(1)] s2(2)]) (use s2(3) eq in simp)
  qed
qed

lemma stages_set:
  "draining cfg B s \<Longrightarrow> drained s \<Longrightarrow> m \<le> length (fl_stages s) \<Longrightarrow>
     \<exists>s'. drained_on cfg B s s' \<and> (\<forall>i < m. st_done (fl_stages s' ! i) = 1)"
proof (induction m)
  case 0
  then show ?case using drained_on_refl by auto
next
  case (Suc m)
  then obtain s1 where s1: "drained_on cfg B s s1" "\<forall>i < m. st_done (fl_stages s1 ! i) = 1" by auto
  have d1: "draining cfg B s1" "drained s1" "m < length (fl_stages s1)" using drained_onD[OF s1(1)] Suc.prems(3) by simp_all
  obtain s2 where s2: "drained_on cfg B s1 s2" "st_done (fl_stages s2 ! m) = 1"
    "\<forall>j. st_done (fl_stages s1 ! j) = 1 \<longrightarrow> st_done (fl_stages s2 ! j) = 1" by (rule stage_sets[OF d1])
  have "\<forall>i < Suc m. st_done (fl_stages s2 ! i) = 1" using s1(2) s2(2,3) by (auto simp: less_Suc_eq)
  then show ?case using drained_on_trans[OF s1(1) s2(1)] by blast
qed

fun sink_to_word :: "sink_pc \<Rightarrow> nat" where
  "sink_to_word Sk_Process = 2"
| "sink_to_word Sk_Entry = 1"
| "sink_to_word _ = 0"

lemma sink_sets:
  "draining cfg B s \<Longrightarrow> drained s \<Longrightarrow>
     \<exists>s'. drained_on cfg B s s' \<and> fl_stages s' = fl_stages s \<and> sk_done (fl_sink s') = 1 \<and> sk_at s' = Sk_Entry"
proof (induction "sink_to_word (sk_at s)" arbitrary: s rule: less_induct)
  case less
  obtain s' where s': "sink_move cfg s = Some s'" "draining cfg B s'" "drained s'" "fl_source s' = fl_source s"
    "fl_stages s' = fl_stages s" "sk_done (fl_sink s') = (if sk_at s = Sk_Acquire then 1 else sk_done (fl_sink s))"
    "sk_at s' = (if sk_at s = Sk_Entry then Sk_Acquire else Sk_Entry)" "moved_on s s'"
    by (rule drained_sink_move[OF less.prems])
  have on: "drained_on cfg B s s'" using s' drains_sink[OF s'(1)] by (simp add: drained_on_def drained_to_def)
  show ?case
  proof (cases "sk_at s = Sk_Acquire")
    case True
    then show ?thesis using on s'(5-7) by (intro exI[of _ s']) simp
  next
    case False
    then have "sink_to_word (sk_at s') < sink_to_word (sk_at s)"
      using drained_sink(1)[OF less.prems] s'(7) by auto
    from less.hyps[OF this s'(2,3)] s'(5) show ?thesis using drained_on_trans[OF on] by auto
  qed
qed

lemma words_get_set:
  assumes "draining cfg B s" "drained s"
  shows "\<exists>s'. drained_on cfg B s s' \<and> words_set s'"
proof -
  obtain s1 where s1: "drained_on cfg B s s1" "\<forall>i < length (fl_stages s). st_done (fl_stages s1 ! i) = 1"
    using stages_set[OF assms, of "length (fl_stages s)"] by auto
  note d1 = drained_onD[OF s1(1)]
  then obtain s2 where s2: "drained_on cfg B s1 s2" "fl_stages s2 = fl_stages s1" "sk_done (fl_sink s2) = 1" "sk_at s2 = Sk_Entry"
    using sink_sets by blast
  then have "words_set s2" using s1(2) d1 by (simp add: words_set_def)
  then show ?thesis using drained_on_trans[OF s1(1) s2(1)] by blast
qed

end
