(* ===== verification/Gated_Words.thy ===== *)
theory Gated_Words
  imports Gated_Drain Gated_Finish Drained_Words Wait_Properties
begin

text \<open>
  The end of a stream: when the source has finished and every buffer has passed, the stages and the
  sink set their \<open>done\<close> words under their workers, and whatever happens next leaves the words set.
\<close>

section \<open>Over\<close>

definition over :: "fifo_config \<Rightarrow> (nat \<Rightarrow> mtdp_buffer multiset) \<Rightarrow> 'u gated \<Rightarrow> bool" where
  "over cfg B s \<longleftrightarrow> gated_inv cfg B s \<and> ending Source_thread s \<and> draining cfg B (g_flow s) \<and> drained (g_flow s) \<and>
     words_set (g_flow s) \<and> so_done (fl_source (g_flow s)) = 1"

lemma draining_flags:
  assumes t: "t \<in> flow_threads f" and d: "draining cfg B f"
  shows "draining cfg B (show_flags t w f)"
proof -
  note st = show_flags_step[OF t, of cfg w]
  have inv: "flow_inv cfg B f" "flow_hand f" using d by (simp_all add: draining_def)
  have "so_at (show_flags t w f) = so_at f" "fl_sh (show_flags t w f) = fl_sh f" by (cases t; simp)+
  then show ?thesis
    using d flow_step_inv[OF st inv(1)] flow_step_hand[OF st inv] flow_step_stages[OF st] by (simp add: draining_def)
qed

lemma drained_flags:
  "drained (show_flags t w f) = drained f" "words_set (show_flags t w f) = words_set f"
  "so_done (fl_source (show_flags t w f)) = so_done (fl_source f)" "pushed (show_flags t w f) = pushed f"
proof -
  have g: "st_done (((fl_stages f)[i := (fl_stages f ! i)\<lparr>st_worker := v\<rparr>]) ! j) = st_done (fl_stages f ! j)" for i j v
    by (cases "i < length (fl_stages f)"; cases "i = j") (simp_all add: list_update_beyond)
  show "drained (show_flags t w f) = drained f" by (cases t) (simp_all add: drained_def)
  show "words_set (show_flags t w f) = words_set f" by (cases t) (simp_all add: words_set_def g)
qed (cases t; simp)+

lemma event_over:
  assumes st: "gated_step cfg e s = Some s'" and ov: "over cfg B s" and e: "\<And>t d. e \<noteq> Done_word t d"
  shows "over cfg B s' \<and> pushed (g_flow s') 0 = pushed (g_flow s) 0"
proof -
  have inv: "gated_inv cfg B s" "ending Source_thread s" using ov by (simp_all add: over_def)
  note en = event_ending[OF st inv]
  have same: ?thesis if "g_flow s' = g_flow s"
    using ov en gated_step_inv[OF st inv(1)] that by (simp add: over_def)
  show ?thesis
  proof (cases e)
    case (Turn t)
    then have st': "thread_step cfg t s = Some s'" and t: "t \<in> flow_threads (g_flow s)"
      using st by (simp_all add: gated_step_def split: if_splits)
    from st' show ?thesis
    proof (cases rule: thread_step_cases)
      case callback
      let ?f = "show_flags t (g_worker s t) (g_flow s)"
      have t': "t \<noteq> Source_thread" using en callback(1,2) Turn by (auto simp: in_callback_def)
      have d: "draining cfg B ?f" "drained ?f" "words_set ?f" "so_done (fl_source ?f) = 1" "pushed ?f = pushed (g_flow s)"
        using ov draining_flags[OF t] by (simp_all add: over_def drained_flags)
      have "t \<in> flow_threads ?f" using t by (simp add: show_flags_threads)
      then obtain f' where "move cfg t ?f = Some f'" "draining cfg B f'" "drained f'" "fl_source f' = fl_source ?f" "moved_on ?f f'"
        "words_set f'" using drained_move[OF d(1,2) _ t'] d(3) by metis
      then have "draining cfg B (g_flow s')" "drained (g_flow s')" "words_set (g_flow s')" "so_done (fl_source (g_flow s')) = 1"
        "pushed (g_flow s') 0 = pushed (g_flow s) 0"
        using callback_stepD(1)[OF callback(3)] d(4,5) by (simp_all add: moved_on_def)
      then show ?thesis using en gated_step_inv[OF st inv(1)] by (simp add: over_def)
    next
      case (protocol fin c)
      then show ?thesis using same protocol_stepD(2) by blast
    qed
  qed (use same st e in \<open>auto simp: gated_step_def set_worker_def Let_def bind_eq_Some_conv split: if_splits\<close>)
qed

lemma run_over:
  "gated_run cfg es s = Some s' \<Longrightarrow> over cfg B s \<Longrightarrow> \<forall>t d. Done_word t d \<notin> set es \<Longrightarrow>
     over cfg B s' \<and> pushed (g_flow s') 0 = pushed (g_flow s) 0"
proof (induction es arbitrary: s)
  case (Cons e es)
  obtain s1 where s1: "gated_step cfg e s = Some s1" "gated_run cfg es s1 = Some s'"
    using Cons.prems(1) by (auto simp: bind_eq_Some_conv)
  have "over cfg B s1 \<and> pushed (g_flow s1) 0 = pushed (g_flow s) 0" by (rule event_over[OF s1(1) Cons.prems(2)]) (use Cons.prems(3) in auto)
  then show ?case using Cons.IH[OF s1(2)] Cons.prems(3) by auto
qed simp

lemma gated_run_stages: "gated_run cfg es s = Some s' \<Longrightarrow> length (fl_stages (g_flow s')) = length (fl_stages (g_flow s))"
  by (induction es arbitrary: s) (auto simp: bind_eq_Some_conv flow_reach_stages[OF gated_step_flow])

section \<open>Getting there\<close>

lemma turns_ending:
  "gated_inv cfg B s \<Longrightarrow> ending Source_thread s \<Longrightarrow> set ts \<subseteq> flow_threads (g_flow s) \<Longrightarrow>
     gated_inv cfg B (turns cfg ts s) \<and> ending Source_thread (turns cfg ts s)"
proof (induction ts arbitrary: s)
  case (Cons t ts)
  show ?case
  proof (cases "thread_step cfg t s")
    case (Some s1)
    then have e: "gated_step cfg (Turn t) s = Some s1" using Cons.prems(3) by (simp add: gated_step_def)
    have "flow_threads (g_flow s1) = flow_threads (g_flow s)"
      using flow_reach_stages[OF gated_step_flow[OF e]] by (simp add: flow_threads_def)
    then show ?thesis
      using Cons.IH[of s1] gated_step_inv[OF e Cons.prems(1)] event_ending[OF e Cons.prems(1,2)] Cons.prems(3) Some by simp
  qed (use Cons in simp)
qed simp

lemma flow_run_source: "flow_run cfg ts s = Some s' \<Longrightarrow> Source_thread \<notin> set ts \<Longrightarrow> fl_source s' = fl_source s"
proof (induction ts arbitrary: s)
  case (Cons t ts)
  then obtain s1 where s1: "move cfg t s = Some s1" "flow_run cfg ts s1 = Some s'" by (auto simp: bind_eq_Some_conv split: if_splits)
  have "fl_source s1 = fl_source s"
    using s1(1) Cons.prems(2) by (cases t) (auto simp: stage_move_def sink_move_def bind_eq_Some_conv Let_def)
  then show ?case using Cons.IH[OF s1(2)] Cons.prems(2) by simp
qed simp

lemma draining_reach:
  assumes "flow_start cfg B f" "hands_on f" "\<forall>k \<le> length (fl_stages f). B k \<noteq> {#}" "\<forall>n. avail (sh_mem (fl_sh f)) n"
    and "flow_reach cfg f s" "so_at s \<noteq> So_Release"
  shows "draining cfg B s"
proof -
  note inv0 = flow_start_inv[OF assms(1)]
  show ?thesis
    using flow_reach_inv[OF assms(5) inv0] flow_reach_hand[OF assms(5) inv0 flow_start_hand[OF assms(1,2)]]
      flow_reach_stages[OF assms(5)] flow_reach_avail[OF assms(5) inv0] assms(3,4,6) by (simp add: draining_def)
qed

text \<open>From any state of the flow, without the source.\<close>

lemma stream_ends:
  assumes "draining cfg B s"
  obtains ts s' where "Source_thread \<notin> set ts" "flow_run cfg ts s = Some s'" "drained s'" "words_set s'" "moved_on s s'"
proof -
  obtain s1 where s1: "drained_to cfg B s s1" "length (pulled s1 (length (fl_stages s1))) = length (pushed s1 0)"
    using drain_all[OF assms] by blast
  have "drained s1" using drained_end[OF drained_toD(1)[OF s1(1)]] s1(2) by simp
  then obtain s2 where s2: "drained_on cfg B s1 s2" "words_set s2" using words_get_set[OF drained_toD(1)[OF s1(1)]] by blast
  then have "drained_to cfg B s s2" "drained s2" using drained_to_trans[OF s1(1)] by (simp_all add: drained_on_def)
  then show ?thesis using s2(2) that by (auto simp: drained_to_def drains_def)
qed

lemma bare_words:
  assumes b: "bare g = bare f"
  shows "drained g = drained f" "words_set g = words_set f" "so_done (fl_source g) = so_done (fl_source f)"
proof -
  note d = bareD[OF b]
  show "drained g = drained f" unfolding drained_def d(5-7) ..
  have "st_done (fl_stages g ! i) = st_done (fl_stages f ! i)" if "i < length (fl_stages f)" for i
    by (subst d(9)[OF that]) simp
  moreover have "sk_done (fl_sink g) = sk_done (fl_sink f)" by (subst d(10)) simp
  ultimately show "words_set g = words_set f" using d(4,7) by (simp add: words_set_def)
  show "so_done (fl_source g) = so_done (fl_source f)" using arg_cong[OF d(11), of so_done] by simp
qed

lemma workers_end_stream:
  assumes start: "flow_start cfg B f" "hands_on f" "\<forall>k \<le> length (fl_stages f). B k \<noteq> {#}" "\<forall>n. avail (sh_mem (fl_sh f)) n"
    and r: "gated_reach cfg f s" and fin: "ending Source_thread s" "so_done (fl_source (g_flow s)) = 1"
    and duty: "\<forall>t \<in> flow_threads f - {Source_thread}. on_duty s t"
  obtains ts where "set ts \<subseteq> flow_threads f - {Source_thread}" "over cfg B (turns cfg ts s)"
    "pushed (g_flow (turns cfg ts s)) 0 = pushed (g_flow s) 0"
proof -
  obtain g where g: "flow_reach cfg f g" "stands_for cfg f g s" "bare g = bare (g_flow s)" by (rule shown_flow[OF r duty])
  note b = bareD[OF g(3)]
  have inv: "gated_inv cfg B s" by (rule gated_reach_inv[OF r start(1)])
  have at: "so_at (g_flow s') \<noteq> So_Release" if "gated_inv cfg B s'" "ending Source_thread s'" for s' :: "'a gated"
  proof -
    have "entry_inv s' Source_thread" using that(1) by (simp add: gated_inv_def flow_threads_def)
    then have "so_at (g_flow s') = So_Entry" using that(2) by (auto simp: entry_inv_def ending_def in_callback_def)
    then show ?thesis by simp
  qed
  have d: "draining cfg B g" using draining_reach[OF start g(1)] at[OF inv fin(1)] b(2) by simp
  obtain ts g' where ts: "Source_thread \<notin> set ts" "flow_run cfg ts g = Some g'" "drained g'" "words_set g'" "moved_on g g'"
    by (rule stream_ends[OF d])
  obtain vs where vs: "set vs \<subseteq> flow_threads f - {Source_thread}" "stands_for cfg f g' (turns cfg vs s)"
    using play_moves[OF start(1) g(2) ts(1,2)] by blast
  let ?s = "turns cfg vs s"
  have b': "bare (g_flow ?s) = bare g'" and r': "gated_reach cfg f ?s" using vs(2) by (simp_all add: stands_for_def)
  have "set vs \<subseteq> flow_threads (g_flow s)" using vs(1) gated_reach_threads[OF r] by auto
  note en = turns_ending[OF inv fin(1) this]
  have "draining cfg B (g_flow ?s)" using draining_reach[OF start gated_reach_flow[OF r']] at en by blast
  moreover have "so_done (fl_source (g_flow ?s)) = 1"
    using bare_words(3)[OF b'] bare_words(3)[OF g(3)] flow_run_source[OF ts(2,1)] fin(2) by simp
  ultimately have "over cfg B ?s" using en ts(3,4) bare_words(1,2)[OF b'] by (simp add: over_def)
  moreover have "pushed (g_flow ?s) 0 = pushed (g_flow s) 0" using bareD(5)[OF b'] b(5) ts(5) by (simp add: moved_on_def)
  ultimately show ?thesis by (rule that[OF vs(1)])
qed

end
