(* ===== verification/Example_Waits.thy ===== *)
theory Example_Waits
  imports Example_Main Gated_Words
begin

text \<open>
  The threads of an example program: the pipeline's threads with their workers (theory Gated_Flow), the threads that the
  finite program creates to wait for the end of the pipeline (\<open>wait_on\<close>), and the main thread, which creates and
  joins these and calls start, stop and disable, one step at a time.

  A store to a \<open>done\<close> word or to \<open>destroying\<close> is followed by a wake-up call of the same thread (\<open>src/bell.h\<close>); a
  thread that has it to make makes it before anything else. The wake-up call of a store that does not change
  the word is not modelled: it is one more spurious wake-up, and a wait may end spuriously at any time.
\<close>

section \<open>The threads\<close>

text \<open>What main has still to do until it joins the pipeline's threads in \<open>mtdp_pipeline_disable\<close>.\<close>

datatype main_action = Ask event | Spawn | Join nat | Set_destroying

text \<open>\<open>None\<close> is the main thread.\<close>

type_synonym actor = "flow_thread option"

record 'u crew =
  cr_gated :: "'u gated"
  cr_destroying :: nat
  cr_ring :: "actor \<Rightarrow> bell option"   \<comment> \<open>the wake-up call a thread has to make\<close>
  cr_waits :: "wait_pc list"           \<comment> \<open>the threads created to wait, in the order of their creation\<close>
  cr_main :: "main_action list"

fun thread_bell :: "flow_thread \<Rightarrow> bell" where
  "thread_bell Source_thread = Source_done"
| "thread_bell (Stage_thread i) = Stage_done i"
| "thread_bell Sink_thread = Sink_done"

definition crew_words :: "'u crew \<Rightarrow> bell \<Rightarrow> nat" where
  "crew_words s = flow_words (cr_destroying s) (g_flow (cr_gated s))"

text \<open>\<open>destroying\<close> is 0 since the creation of the pipeline.\<close>

definition crew_start :: "'u flow \<Rightarrow> main_action list \<Rightarrow> 'u crew" where
  "crew_start f as = \<lparr>cr_gated = gated_start f, cr_destroying = 0, cr_ring = (\<lambda>_. None), cr_waits = [], cr_main = as\<rparr>"

text \<open>A step on the pipeline, taken by \<open>a\<close>.\<close>

definition crew_gated :: "fifo_config \<Rightarrow> actor \<Rightarrow> event \<Rightarrow> 'u crew \<Rightarrow> 'u crew option" where
  "crew_gated cfg a e s =
    (if cr_ring s a = None then do {
       g \<leftarrow> gated_step cfg e (cr_gated s);
       let s' = s\<lparr>cr_gated := g\<rparr>;
       let b = thread_bell (event_thread e);
       Some (s'\<lparr>cr_ring := (cr_ring s)(a := if crew_words s' b \<noteq> crew_words s b then Some b else None)\<rparr>) }
     else None)"

text \<open>One action of main. A join waits until the thread has returned.\<close>

fun main_step :: "fifo_config \<Rightarrow> 'u mtdp_pipeline \<Rightarrow> main_action \<Rightarrow> 'u crew \<Rightarrow> 'u crew option" where
  "main_step cfg pl (Ask e) s = crew_gated cfg None e s"
| "main_step cfg pl Spawn s = (if cr_ring s None = None then Some (s\<lparr>cr_waits := cr_waits s @ [wait_on pl]\<rparr>) else None)"
| "main_step cfg pl (Join j) s =
     (if cr_ring s None = None then do { p \<leftarrow> list_get (cr_waits s) j; if returned p then Some s else None } else None)"
| "main_step cfg pl Set_destroying s =
     (if cr_ring s None = None then Some (s\<lparr>cr_destroying := 1, cr_ring := (cr_ring s)(None \<mapsto> Destroying)\<rparr>) else None)"

fun wait_wakeup :: "wait_pc \<Rightarrow> wait_pc option" where
  "wait_wakeup (Wait_in (Futex_sleep b v)) = Some (Wait_in (Futex_load b v))"
| "wait_wakeup _ = None"

text \<open>An event: a step of main; of a thread of the pipeline (or the spurious end of its wait); the wake-up call a
  thread has to make; a step of the waiting thread \<open>j\<close>, at which a signal may arrive; the spurious end of its
  sleep. The pipeline is enabled all the time: main is before the last assignments of \<open>mtdp_pipeline_disable\<close>.\<close>

datatype crew_event = Main | Own event | Ring actor | Wait_turn nat bool | Wait_wakeup nat

fun crew_step :: "fifo_config \<Rightarrow> 'u mtdp_pipeline \<Rightarrow> crew_event \<Rightarrow> 'u crew \<Rightarrow> 'u crew option" where
  "crew_step cfg pl Main s =
     (case cr_main s of [] \<Rightarrow> None | a # as \<Rightarrow> do { s \<leftarrow> main_step cfg pl a s; Some (s\<lparr>cr_main := as\<rparr>) })"
| "crew_step cfg pl (Own e) s = (if own_event e then crew_gated cfg (Some (event_thread e)) e s else None)"
| "crew_step cfg pl (Ring a) s = do {
     b \<leftarrow> cr_ring s a;
     Some (s\<lparr>cr_ring := (cr_ring s)(a := None), cr_waits := map (wake b) (cr_waits s)\<rparr>) }"
| "crew_step cfg pl (Wait_turn j intr) s = do {
     p \<leftarrow> list_get (cr_waits s) j;
     p \<leftarrow> wait_step (n_stages pl) True intr (crew_words s) p;
     Some (s\<lparr>cr_waits := (cr_waits s)[j := p]\<rparr>) }"
| "crew_step cfg pl (Wait_wakeup j) s = do {
     p \<leftarrow> list_get (cr_waits s) j;
     p \<leftarrow> wait_wakeup p;
     Some (s\<lparr>cr_waits := (cr_waits s)[j := p]\<rparr>) }"

fun crew_run :: "fifo_config \<Rightarrow> 'u mtdp_pipeline \<Rightarrow> crew_event list \<Rightarrow> 'u crew \<Rightarrow> 'u crew option" where
  "crew_run cfg pl [] s = Some s"
| "crew_run cfg pl (e # es) s = do { s \<leftarrow> crew_step cfg pl e s; crew_run cfg pl es s }"

text \<open>Main's actions for its calls, the pipeline being active or not (starting an active pipeline and stopping
  an inactive one do nothing), and for the first half of the disabling at the end. Its number among the threads that
  call functions on the workers is \<open>i\<close>.\<close>

fun main_actions :: "nat \<Rightarrow> nat \<Rightarrow> bool \<Rightarrow> main_call list \<Rightarrow> main_action list" where
  "main_actions n i active [] = Set_destroying # map Ask (pipeline_request n i Destroy)"
| "main_actions n i active (Call_start # cs) = (if active then [] else map Ask (pipeline_request n i Enable)) @ main_actions n i True cs"
| "main_actions n i active (Call_stop # cs) = (if active then map Ask (pipeline_request n i Disable) else []) @ main_actions n i False cs"
| "main_actions n i active (Create_wait # cs) = Spawn # main_actions n i active cs"
| "main_actions n i active (Join_wait j # cs) = Join j # main_actions n i active cs"

text \<open>The same calls as requests on the workers.\<close>

fun main_requests :: "bool \<Rightarrow> main_call list \<Rightarrow> ctl_request list" where
  "main_requests active [] = [Destroy]"
| "main_requests active (Call_start # cs) = (if active then [] else [Enable]) @ main_requests True cs"
| "main_requests active (Call_stop # cs) = (if active then [Disable] else []) @ main_requests False cs"
| "main_requests active (_ # cs) = main_requests active cs"

fun asks :: "main_action list \<Rightarrow> event list" where
  "asks [] = []"
| "asks (Ask e # as) = e # asks as"
| "asks (_ # as) = asks as"

lemma asks_append: "asks (as @ bs) = asks as @ asks bs"
  by (induction as rule: asks.induct) simp_all

lemma asks_map [simp]: "asks (map Ask es) = es"
  by (induction es) simp_all

lemma main_actions_asks: "asks (main_actions n i active cs) = concat (map (pipeline_request n i) (main_requests active cs))"
  by (induction n i active cs rule: main_actions.induct) (simp_all add: asks_append)

lemma main_requests_last: "\<exists>rs. main_requests active cs = rs @ [Destroy]"
  by (induction active cs rule: main_requests.induct) auto

lemma crew_run_append:
  "crew_run cfg pl (es @ es') s = do { s \<leftarrow> crew_run cfg pl es s; crew_run cfg pl es' s }"
  by (induction es arbitrary: s) (auto simp: bind_assoc split: bind_split)

lemma crew_run_trans: "crew_run cfg pl es s = Some s1 \<Longrightarrow> crew_run cfg pl es' s1 = Some s2 \<Longrightarrow> crew_run cfg pl (es @ es') s = Some s2"
  by (simp add: crew_run_append)

lemma crew_run_induct:
  assumes "\<And>e s s'. crew_step cfg pl e s = Some s' \<Longrightarrow> P s \<Longrightarrow> P s'" "crew_run cfg pl es s = Some s'" "P s"
  shows "P s'"
  using assms(2,3) by (induction es arbitrary: s) (auto simp: bind_eq_Some_conv dest: assms(1))

section \<open>The pipeline's part of a run\<close>

lemma crew_gatedD:
  assumes "crew_gated cfg a e s = Some s'"
  shows "gated_step cfg e (cr_gated s) = Some (cr_gated s')" "cr_ring s a = None" "cr_waits s' = cr_waits s"
    "cr_main s' = cr_main s" "cr_destroying s' = cr_destroying s"
    "cr_ring s' = (cr_ring s)(a := if crew_words s' (thread_bell (event_thread e)) \<noteq> crew_words s (thread_bell (event_thread e))
       then Some (thread_bell (event_thread e)) else None)"
proof -
  let ?b = "thread_bell (event_thread e)"
  obtain g where g: "cr_ring s a = None" "gated_step cfg e (cr_gated s) = Some g"
    "s' = s\<lparr>cr_gated := g, cr_ring := (cr_ring s)(a := if crew_words (s\<lparr>cr_gated := g\<rparr>) ?b \<noteq> crew_words s ?b then Some ?b else None)\<rparr>"
    using assms by (auto simp: crew_gated_def Let_def bind_eq_Some_conv split: if_split_asm)
  have "crew_words s' = crew_words (s\<lparr>cr_gated := g\<rparr>)" by (simp add: g(3) crew_words_def)
  with g show "gated_step cfg e (cr_gated s) = Some (cr_gated s')" "cr_ring s a = None" "cr_waits s' = cr_waits s"
    "cr_main s' = cr_main s" "cr_destroying s' = cr_destroying s"
    "cr_ring s' = (cr_ring s)(a := if crew_words s' ?b \<noteq> crew_words s ?b then Some ?b else None)"
    by simp_all
qed

text \<open>Main alone makes the requests, in its order.\<close>

lemma requested_Cons: "requested (e # es) = (if own_event e then requested es else e # requested es)"
  by (simp add: requested_def)

lemma pipeline_request_foreign: "\<forall>e \<in> set (pipeline_request n i r). \<not> own_event e"
  by (auto simp: pipeline_request_def stage_request_def worker_request_def split: if_splits)

lemma crew_run_gated:
  "crew_run cfg pl es s = Some s' \<Longrightarrow> \<forall>e \<in> set (asks (cr_main s)). \<not> own_event e \<Longrightarrow>
     \<exists>ges. gated_run cfg ges (cr_gated s) = Some (cr_gated s') \<and> asks (cr_main s) = requested ges @ asks (cr_main s')"
proof (induction es arbitrary: s)
  case Nil
  then show ?case by (intro exI[of _ "[]"]) (simp add: requested_def)
next
  case (Cons e es)
  then obtain s1 where s1: "crew_step cfg pl e s = Some s1" "crew_run cfg pl es s1 = Some s'" by (auto simp: bind_eq_Some_conv)
  have "\<exists>gs. gated_run cfg gs (cr_gated s) = Some (cr_gated s1) \<and> asks (cr_main s) = requested gs @ asks (cr_main s1)"
  proof (cases e)
    case Main
    then obtain a as s2 where a: "cr_main s = a # as" "main_step cfg pl a s = Some s2" "s1 = s2\<lparr>cr_main := as\<rparr>"
      using s1(1) by (auto simp: bind_eq_Some_conv split: list.splits)
    show ?thesis
    proof (cases a)
      case (Ask g)
      then have "crew_gated cfg None g s = Some s2" using a(2) by simp
      with crew_gatedD(1)[OF this] a Ask Cons.prems(2) show ?thesis
        by (intro exI[of _ "[g]"]) (simp add: requested_def)
    qed (use a in \<open>auto simp: bind_eq_Some_conv requested_def intro!: exI[of _ "[]"] split: if_splits\<close>)
  next
    case (Own g)
    then have g: "own_event g" "crew_gated cfg (Some (event_thread g)) g s = Some s1" using s1(1) by (simp_all split: if_splits)
    with crew_gatedD(1,4)[OF g(2)] show ?thesis by (intro exI[of _ "[g]"]) (simp add: requested_def)
  qed (use s1(1) in \<open>auto simp: bind_eq_Some_conv requested_def intro!: exI[of _ "[]"]\<close>)
  then obtain gs where gs: "gated_run cfg gs (cr_gated s) = Some (cr_gated s1)" "asks (cr_main s) = requested gs @ asks (cr_main s1)" by blast
  moreover obtain gs' where "gated_run cfg gs' (cr_gated s1) = Some (cr_gated s')" "asks (cr_main s1) = requested gs' @ asks (cr_main s')"
    using Cons.IH[OF s1(2)] Cons.prems(2) gs(2) by auto
  ultimately show ?case
    by (intro exI[of _ "gs @ gs'"]) (simp add: gated_run_append requested_append)
qed

section \<open>What the waiting threads keep\<close>

text \<open>The words, with whether a wake-up call is to come.\<close>

definition crew_bells :: "'u crew \<Rightarrow> bell bells" where
  "crew_bells s = \<lparr>wd = crew_words s, unrung = (\<lambda>b. of_bool (\<exists>a. cr_ring s a = Some b))\<rparr>"

definition wait_ok :: "nat \<Rightarrow> 'u crew \<Rightarrow> wait_pc \<Rightarrow> bool" where
  "wait_ok n s p \<longleftrightarrow> wait_inv n True \<lparr>ws_bells = crew_bells s, ws_enabled = True, ws_at = p\<rparr> \<and> (\<forall>e. p = Wait_returned e \<longrightarrow> e = MTDP_OK)"

lemma wait_ok_iff:
  "wait_ok n s p \<longleftrightarrow> wait_wf n p \<and> (\<forall>b v. p = Wait_in (Futex_sleep b v) \<longrightarrow> (\<exists>a. cr_ring s a = Some b) \<or> crew_words s b = v) \<and>
     (\<forall>e. p = Wait_returned e \<longrightarrow> e = MTDP_OK)"
  by (auto simp: wait_ok_def wait_inv_def futex_ok_def crew_bells_def split: futex_pc.split)

lemma move_words:
  assumes "move cfg t f = Some f'" "b \<noteq> thread_bell t"
  shows "flow_words d f' b = flow_words d f b"
proof (cases t)
  case (Stage_thread i)
  then show ?thesis
    using assms by (cases b) (auto simp: flow_words_def stage_move_def bind_eq_Some_conv Let_def)
qed (use assms in \<open>cases b; auto simp: flow_words_def source_move_def sink_move_def bind_eq_Some_conv Let_def\<close>)+

lemma write_words: "b \<noteq> thread_bell t \<Longrightarrow> flow_words d (write_done t v f) b = flow_words d f b"
  by (cases t; cases b) (auto simp: flow_words_def)

lemma flags_words: "flow_words d (show_flags t w f) = flow_words d f"
proof
  fix b
  have "st_done (((fl_stages f)[i := (fl_stages f ! i)\<lparr>st_worker := v\<rparr>]) ! j) = st_done (fl_stages f ! j)" for i j v
    by (cases "i < length (fl_stages f)"; cases "i = j") (simp_all add: list_update_beyond)
  then show "flow_words d (show_flags t w f) b = flow_words d f b" by (cases t; cases b) (simp_all add: flow_words_def)
qed

lemma gated_step_words:
  assumes st: "gated_step cfg e s = Some s'" and b: "b \<noteq> thread_bell (event_thread e)"
  shows "flow_words d (g_flow s') b = flow_words d (g_flow s) b"
proof (cases e)
  case (Turn t)
  then have "thread_step cfg t s = Some s'" using st by (simp add: gated_step_def split: if_splits)
  then show ?thesis
  proof (cases rule: thread_step_cases)
    case callback
    show ?thesis using move_words[OF callback_stepD(1)[OF callback(3)], of b d] b Turn by (simp add: flags_words)
  next
    case (protocol fin c)
    then show ?thesis using protocol_stepD(2)[OF protocol(1)] by simp
  qed
qed (use st b write_words[of b] in \<open>auto simp: gated_step_def set_worker_def Let_def bind_eq_Some_conv split: if_splits\<close>)

text \<open>A step on the pipeline announces the word it changes.\<close>

lemma crew_gated_ok:
  assumes st: "crew_gated cfg a e s = Some s'" and ok: "wait_ok n s p"
  shows "wait_ok n s' p"
proof -
  note d = crew_gatedD[OF st]
  let ?b = "thread_bell (event_thread e)"
  have w: "crew_words s' b = crew_words s b" if "b \<noteq> ?b" for b
    using gated_step_words[OF d(1) that] by (simp add: crew_words_def d(5))
  have "(\<exists>a. cr_ring s' a = Some b) \<or> crew_words s' b = v" if "(\<exists>a. cr_ring s a = Some b) \<or> crew_words s b = v" for b v
  proof (cases "\<exists>a. cr_ring s a = Some b")
    case True
    then obtain a' where "cr_ring s a' = Some b" by blast
    then have "cr_ring s' a' = Some b" using d(2,6) by auto
    then show ?thesis by blast
  next
    case False
    then show ?thesis using that w[of b] d(6) by (cases "b = ?b"; cases "crew_words s' ?b = crew_words s ?b") auto
  qed
  then show ?thesis using ok unfolding wait_ok_iff by blast
qed

lemma ring_ok:
  assumes "cr_ring s a = Some b" "wait_ok n s p"
  shows "wait_ok n (s\<lparr>cr_ring := (cr_ring s)(a := None), cr_waits := ws\<rparr>) (wake b p)"
proof -
  let ?s = "s\<lparr>cr_ring := (cr_ring s)(a := None), cr_waits := ws\<rparr>"
  have w: "crew_words ?s = crew_words s" by (simp add: crew_words_def)
  show ?thesis
  proof (cases "\<exists>b' v. p = Wait_in (Futex_sleep b' v) \<and> b' \<noteq> b")
    case True
    then obtain b' v where p: "p = Wait_in (Futex_sleep b' v)" "b' \<noteq> b" by blast
    have "(\<exists>a. cr_ring ?s a = Some b') \<longleftrightarrow> (\<exists>a. cr_ring s a = Some b')" using assms(1) p(2) by (auto, metis option.inject)
    then show ?thesis using assms(2) p by (simp add: wait_ok_iff w wake_wf)
  next
    case False
    then have "\<forall>b' v. wake b p \<noteq> Wait_in (Futex_sleep b' v)"
      by (cases p; simp; cases "case p of Wait_in f \<Rightarrow> f") auto
    moreover have "wake b p = Wait_returned e \<Longrightarrow> p = Wait_returned e" for e by (cases p) simp_all
    ultimately show ?thesis using assms(2) wake_wf[of n p b] unfolding wait_ok_iff by blast
  qed
qed

lemma wait_turn_ok:
  assumes "wait_step n True intr (crew_words s) p = Some p'" "wait_ok n s p"
  shows "wait_ok n s p'"
proof -
  have "wait_step n True intr (wd (crew_bells s)) p = Some p'" using assms(1) by (simp add: crew_bells_def)
  from wait_step_wf[OF assms(1)] wait_step_ok[of n True intr "crew_bells s" p] this assms(2)
  have "wait_inv n True \<lparr>ws_bells = crew_bells s, ws_enabled = True, ws_at = p'\<rparr>" by (auto simp: wait_ok_def wait_inv_def)
  moreover have "p' = Wait_returned e \<Longrightarrow> e = MTDP_OK" for e
  proof -
    assume e: "p' = Wait_returned e"
    have "wait_next n b \<noteq> Wait_returned e" for b by (cases b) (simp_all add: wait_stages_def)
    then show ?thesis using assms(1) e by (auto simp: wait_step_def Let_def split: wait_pc.split_asm option.split_asm if_split_asm)
  qed
  ultimately show ?thesis by (simp add: wait_ok_def)
qed

section \<open>The invariant\<close>

definition actors :: "'u crew \<Rightarrow> actor set" where
  "actors s = insert None (Some ` flow_threads (g_flow (cr_gated s)))"

definition crew_inv :: "nat \<Rightarrow> 'u crew \<Rightarrow> bool" where
  "crew_inv n s \<longleftrightarrow> (\<forall>p \<in> set (cr_waits s). wait_ok n s p) \<and> (\<forall>a. cr_ring s a \<noteq> None \<longrightarrow> a \<in> actors s)"

lemma wait_ok_cong:
  "cr_gated s' = cr_gated s \<Longrightarrow> cr_destroying s' = cr_destroying s \<Longrightarrow> cr_ring s' = cr_ring s \<Longrightarrow> wait_ok n s' p = wait_ok n s p"
  by (simp add: wait_ok_iff crew_words_def)

lemma wait_on_ok: "wait_ok n s (wait_on pl)"
  by (simp add: wait_ok_iff wait_on_def wait_entry_def wait_wf_def)

lemma list_get_SomeD: "list_get xs j = Some x \<Longrightarrow> j < length xs \<and> xs ! j = x"
  by (auto simp: list_get_def split: if_splits)

lemma crew_gated_actors:
  assumes "crew_gated cfg a e s = Some s'" "a \<in> actors s" "crew_inv n s"
  shows "crew_inv n s'"
proof -
  note d = crew_gatedD[OF assms(1)]
  have "actors s' = actors s" using gated_step_threads[OF d(1)] by (simp add: actors_def)
  then show ?thesis
    using assms(2,3) crew_gated_ok[OF assms(1)] d(3,6) unfolding crew_inv_def by auto
qed

lemma destroying_ok:
  assumes "wait_ok n s p" "cr_ring s None = None"
  shows "wait_ok n (s\<lparr>cr_destroying := v, cr_ring := (cr_ring s)(None \<mapsto> Destroying)\<rparr>) p"
proof -
  let ?s = "s\<lparr>cr_destroying := v, cr_ring := (cr_ring s)(None \<mapsto> Destroying)\<rparr>"
  have w: "crew_words ?s b = crew_words s b" if "b \<noteq> Destroying" for b
    using that by (cases b) (simp_all add: crew_words_def flow_words_def)
  have "(\<exists>a. cr_ring ?s a = Some b) \<or> crew_words ?s b = u" if "(\<exists>a. cr_ring s a = Some b) \<or> crew_words s b = u" for b u
  proof (cases "b = Destroying")
    case False
    obtain a where "a = (SOME a. cr_ring s a = Some b)" by blast
    show ?thesis using that w[OF False] assms(2)
      by (metis crew.select_convs(3) crew.surjective crew.update_convs(2,3) fun_upd_other option.distinct(1))
  qed auto
  then show ?thesis using assms(1) unfolding wait_ok_iff by blast
qed

lemma main_step_inv:
  assumes st: "main_step cfg pl a s = Some s'" and inv: "crew_inv (n_stages pl) s"
  shows "crew_inv (n_stages pl) s'"
proof (cases a)
  case (Ask e)
  then show ?thesis using st crew_gated_actors[OF _ _ inv, of cfg None e] by (simp add: actors_def)
next
  case Spawn
  then have s': "s' = s\<lparr>cr_waits := cr_waits s @ [wait_on pl]\<rparr>" using st by (simp split: if_splits)
  have "wait_ok n s' p = wait_ok n s p" for n p by (rule wait_ok_cong) (simp_all add: s')
  then show ?thesis using inv wait_on_ok by (auto simp: crew_inv_def s' actors_def)
next
  case (Join j)
  then show ?thesis using st inv by (auto simp: bind_eq_Some_conv split: if_splits)
next
  case Set_destroying
  then have r: "cr_ring s None = None" and s': "s' = s\<lparr>cr_destroying := 1, cr_ring := (cr_ring s)(None \<mapsto> Destroying)\<rparr>"
    using st by (simp_all split: if_splits)
  have "wait_ok n s p \<Longrightarrow> wait_ok n s' p" for n p using destroying_ok[OF _ r, of n p 1] s' by simp
  then show ?thesis using inv by (auto simp: crew_inv_def s' actors_def)
qed

lemma waits_update_inv:
  assumes "crew_inv n s" "wait_ok n s p"
  shows "crew_inv n (s\<lparr>cr_waits := (cr_waits s)[j := p]\<rparr>)"
proof -
  have "wait_ok n (s\<lparr>cr_waits := (cr_waits s)[j := p]\<rparr>) q = wait_ok n s q" for q by (rule wait_ok_cong) simp_all
  moreover have "q = p \<or> q \<in> set (cr_waits s)" if "q \<in> set ((cr_waits s)[j := p])" for q
    using that set_update_subset_insert[of "cr_waits s" j p] by blast
  ultimately show ?thesis using assms unfolding crew_inv_def by (auto simp: actors_def)
qed

lemma crew_step_inv:
  assumes st: "crew_step cfg pl e s = Some s'" and inv: "crew_inv (n_stages pl) s"
  shows "crew_inv (n_stages pl) s'"
proof (cases e)
  case Main
  then obtain a as s2 where a: "main_step cfg pl a s = Some s2" "s' = s2\<lparr>cr_main := as\<rparr>"
    using st by (auto simp: bind_eq_Some_conv split: list.splits)
  have "wait_ok n s' p = wait_ok n s2 p" for n p by (rule wait_ok_cong) (simp_all add: a(2))
  then show ?thesis using main_step_inv[OF a(1) inv] by (simp add: crew_inv_def a(2) actors_def)
next
  case (Own g)
  then have g: "crew_gated cfg (Some (event_thread g)) g s = Some s'" using st by (simp split: if_splits)
  moreover have "event_thread g \<in> flow_threads (g_flow (cr_gated s))"
    using crew_gatedD(1)[OF g] by (simp add: gated_step_def split: if_splits)
  ultimately show ?thesis using crew_gated_actors[OF _ _ inv] by (simp add: actors_def)
next
  case (Ring a)
  then obtain b where b: "cr_ring s a = Some b"
    "s' = s\<lparr>cr_ring := (cr_ring s)(a := None), cr_waits := map (wake b) (cr_waits s)\<rparr>"
    using st by (auto simp: bind_eq_Some_conv)
  have "wait_ok n s p \<Longrightarrow> wait_ok n s' (wake b p)" for n p using ring_ok[OF b(1)] by (simp add: b(2))
  then show ?thesis using inv by (auto simp: crew_inv_def b(2) actors_def)
next
  case (Wait_turn j intr)
  then obtain p' where p: "j < length (cr_waits s)" "wait_step (n_stages pl) True intr (crew_words s) (cr_waits s ! j) = Some p'"
    "s' = s\<lparr>cr_waits := (cr_waits s)[j := p']\<rparr>"
    using st by (auto simp: bind_eq_Some_conv dest!: list_get_SomeD)
  have "wait_ok (n_stages pl) s (cr_waits s ! j)" using inv p(1) by (simp add: crew_inv_def)
  from waits_update_inv[OF inv wait_turn_ok[OF p(2) this]] show ?thesis by (simp add: p(3))
next
  case (Wait_wakeup j)
  then obtain p' where p: "j < length (cr_waits s)" "wait_wakeup (cr_waits s ! j) = Some p'"
    "s' = s\<lparr>cr_waits := (cr_waits s)[j := p']\<rparr>"
    using st by (auto simp: bind_eq_Some_conv dest!: list_get_SomeD)
  have "wait_ok (n_stages pl) s (cr_waits s ! j)" using inv p(1) by (simp add: crew_inv_def)
  then have "wait_ok (n_stages pl) s p'"
    using p(2) by (cases "cr_waits s ! j" rule: wait_wakeup.cases) (auto simp: wait_ok_iff wait_wf_def)
  from waits_update_inv[OF inv this] show ?thesis by (simp add: p(3))
qed

lemma crew_run_inv:
  "crew_run cfg pl es s = Some s' \<Longrightarrow> crew_inv (n_stages pl) s \<Longrightarrow> crew_inv (n_stages pl) s'"
  by (rule crew_run_induct[where P = "crew_inv (n_stages pl)"]) (auto intro: crew_step_inv)

lemma crew_start_inv: "crew_inv n (crew_start f as)"
  by (simp add: crew_inv_def crew_start_def)

text \<open>A returned thread stays so; main gets past a join only if the thread has returned.\<close>

definition joined :: "nat \<Rightarrow> main_action list \<Rightarrow> 'u crew \<Rightarrow> bool" where
  "joined k as s \<longleftrightarrow> length (cr_waits s) + length (filter (\<lambda>a. a = Spawn) (cr_main s)) = k \<and>
     (\<forall>j. Join j \<in> set as \<longrightarrow> Join j \<in> set (cr_main s) \<or> j < length (cr_waits s) \<and> returned (cr_waits s ! j))"

lemma returned_kept:
  "returned (wake b p) = returned p" "returned p \<Longrightarrow> wait_step n en intr w p = None" "returned p \<Longrightarrow> wait_wakeup p = None"
  by (cases p; simp add: returned_def wait_step_def)+

lemma joined_update:
  assumes "joined k as s" "\<not> returned (cr_waits s ! i)"
  shows "joined k as (s\<lparr>cr_waits := (cr_waits s)[i := p]\<rparr>)"
proof -
  have "j < length (cr_waits s) \<and> returned (cr_waits s ! j) \<Longrightarrow> returned ((cr_waits s)[i := p] ! j)" for j
    using assms(2) by (cases "i = j") simp_all
  then show ?thesis using assms(1) by (auto simp: joined_def)
qed

lemma crew_step_joined:
  assumes st: "crew_step cfg pl e s = Some s'" and j: "joined k as s"
  shows "joined k as s'"
proof (cases e)
  case Main
  then obtain a bs s2 where a: "cr_main s = a # bs" "main_step cfg pl a s = Some s2" "s' = s2\<lparr>cr_main := bs\<rparr>"
    using st by (auto simp: bind_eq_Some_conv split: list.splits)
  show ?thesis
  proof (cases a)
    case (Ask g)
    then have "cr_waits s2 = cr_waits s" using a(2) crew_gatedD(3)[of cfg None g s s2] by simp
    then show ?thesis using j a Ask by (auto simp: joined_def)
  qed (use j a in \<open>auto simp: joined_def bind_eq_Some_conv nth_append dest!: list_get_SomeD split: if_splits\<close>)
next
  case (Own g)
  then have "crew_gated cfg (Some (event_thread g)) g s = Some s'" using st by (simp split: if_splits)
  from crew_gatedD(3,4)[OF this] show ?thesis using j by (simp add: joined_def)
next
  case (Ring a)
  then show ?thesis using st j returned_kept(1) by (auto simp: joined_def bind_eq_Some_conv)
next
  case (Wait_turn i intr)
  then obtain p' where p: "i < length (cr_waits s)" "wait_step (n_stages pl) True intr (crew_words s) (cr_waits s ! i) = Some p'"
    "s' = s\<lparr>cr_waits := (cr_waits s)[i := p']\<rparr>"
    using st by (auto simp: bind_eq_Some_conv dest!: list_get_SomeD)
  have "\<not> returned (cr_waits s ! i)" using p(2) returned_kept(2) by fastforce
  from joined_update[OF j this] show ?thesis by (simp add: p(3))
next
  case (Wait_wakeup i)
  then obtain p' where p: "i < length (cr_waits s)" "wait_wakeup (cr_waits s ! i) = Some p'"
    "s' = s\<lparr>cr_waits := (cr_waits s)[i := p']\<rparr>"
    using st by (auto simp: bind_eq_Some_conv dest!: list_get_SomeD)
  have "\<not> returned (cr_waits s ! i)" using p(2) returned_kept(3) by fastforce
  from joined_update[OF j this] show ?thesis by (simp add: p(3))
qed

lemma crew_run_joined: "crew_run cfg pl es s = Some s' \<Longrightarrow> joined k as s \<Longrightarrow> joined k as s'"
  by (rule crew_run_induct[where P = "joined k as"]) (auto intro: crew_step_joined)

end
