(* ===== verification/Gated_Properties.thy ===== *)
theory Gated_Properties
  imports Gated_Drain Gated_Finish
begin

text \<open>
  The properties of the pipeline with its workers: every run is a run of the flow and of each
  worker; start, stop and disable can always be completed and then hold for every thread; stopping
  freezes the flow; disabling ends the threads, and then the memory comes back.
\<close>


section \<open>A run of the concrete pipeline\<close>

text \<open>The pipeline \<open>demo_flow\<close> is started by thread 0, and its source makes its first iteration.\<close>

definition demo_events :: "event list" where
  "demo_events = pipeline_request 1 0 Enable @ replicate 8 (Turn Source_thread)"

lemma requested_turns: "requested (replicate n (Turn t)) = []" "requested (pipeline_request n i r) = pipeline_request n i r"
proof -
  show "requested (replicate n (Turn t)) = []" by (rule requested_own)
  have "requested (concat (map (stage_request i r) us)) = concat (map (stage_request i r) us)" for us
    by (induction us) (simp_all add: requested_append requested_stage, simp add: requested_def)
  then show "requested (pipeline_request n i r) = pipeline_request n i r" by (simp add: pipeline_request_def)
qed

lemma demo_requested: "requested demo_events = pipeline_request 1 0 Enable"
  by (simp add: demo_events_def requested_append requested_turns)

lemma demo_events_run:
  obtains s where "gated_run default_config demo_events (gated_start demo_flow) = Some s"
    "pc (g_worker s Source_thread) = W_Callback" "g_callback s Source_thread = Returned"
    "so_output (so_context (fl_source (g_flow s))) = Ptr 1"
proof -
  have "case gated_run default_config demo_events (gated_start demo_flow) of
     None \<Rightarrow> False
   | Some s \<Rightarrow> pc (g_worker s Source_thread) = W_Callback \<and> g_callback s Source_thread = Returned \<and>
       so_output (so_context (fl_source (g_flow s))) = Ptr 1"
    by code_simp
  then show ?thesis using that by (auto split: option.splits)
qed

section \<open>What reachable states satisfy\<close>

lemma gated_start_idle: "all_idle (gated_start f)"
  by (simp add: all_idle_def gated_start_def controllers_idle_def worker_start_def)

lemma gated_reach_run: "gated_reach cfg f s \<Longrightarrow> gated_run cfg es s = Some s' \<Longrightarrow> gated_reach cfg f s'"
  unfolding gated_reach_def by (metis bind.bind_lunit gated_run_append)

lemma gated_reach_stages: "gated_reach cfg f s \<Longrightarrow> length (fl_stages (g_flow s)) = length (fl_stages f)"
  using flow_reach_stages[OF gated_reach_flow] .

lemma request_all:
  assumes "gated_reach cfg f s" "all_idle s" "gated_run cfg es s = Some s'"
    "requested es = pipeline_request (length (fl_stages f)) i r"
  shows "gated_reach cfg f s'" "all_idle s'" "t \<in> flow_threads f \<Longrightarrow> granted r (g_worker s' t)"
proof -
  have e: "requested es = pipeline_request (length (fl_stages (g_flow s))) i r" using assms(1,4) by (simp add: gated_reach_stages)
  show r: "gated_reach cfg f s'" by (rule gated_reach_run[OF assms(1,3)])
  note th = gated_reach_threads[OF assms(1)] gated_reach_threads[OF r]
  show "all_idle s'" using request_effective(1)[OF assms(3) e] assms(2) unfolding all_idle_def th by blast
  show "t \<in> flow_threads f \<Longrightarrow> granted r (g_worker s' t)"
    using request_effective(2)[OF assms(3) e] assms(2) unfolding all_idle_def th by blast
qed

lemma exited_at_rest:
  assumes "flow_start cfg B f" "gated_reach cfg f s" "\<forall>t \<in> flow_threads f. pc (g_worker s t) = W_Exited"
  shows "at_rest (g_flow s)"
proof -
  note inv = gated_reach_inv[OF assms(2,1)] and th = gated_reach_threads[OF assms(2)]
  have e: "at_entry t (g_flow s)" if "t \<in> flow_threads f" for t
    using that inv assms(3) th by (auto simp: gated_inv_def entry_inv_def)
  have "length (st_at (g_flow s)) = length (fl_stages (g_flow s))" using flow_invD(2) inv by (auto simp: gated_inv_def)
  then have "\<forall>pc \<in> set (st_at (g_flow s)). pc = St_Entry"
    using e[of "Stage_thread i" for i] gated_reach_stages[OF assms(2)] by (auto simp: in_set_conv_nth flow_threads_def)
  then show ?thesis using e[of Source_thread] e[of Sink_thread] by (simp add: at_rest_def flow_threads_def)
qed

text \<open>After the workers were destroyed, whatever the schedule, eleven turns end a thread.\<close>

lemma destroyed_end:
  assumes "flow_start cfg B f" "gated_reach cfg f s" "all_idle s" "\<forall>t \<in> flow_threads f. granted Destroy (g_worker s t)"
    and "set ts \<subseteq> flow_threads f" "\<forall>t \<in> flow_threads f. 11 \<le> count_list ts t"
  shows "gated_reach cfg f (turns cfg ts s)" "\<forall>t \<in> flow_threads f. pc (g_worker (turns cfg ts s) t) = W_Exited"
    "at_rest (g_flow (turns cfg ts s))"
proof -
  note th = gated_reach_threads[OF assms(2)]
  show r: "gated_reach cfg f (turns cfg ts s)" by (rule turns_reach[OF assms(2,5)])
  show x: "\<forall>t \<in> flow_threads f. pc (g_worker (turns cfg ts s) t) = W_Exited"
  proof
    fix t assume t: "t \<in> flow_threads f"
    have "doomed (g_worker s t)" using assms(3,4) t th by (simp add: doomed_def all_idle_def granted_def)
    from turns_exit[OF gated_reach_inv[OF assms(2,1)] _ _ this, of ts]
    have "exit_turns t (turns cfg ts s) \<le> exit_turns t s - count_list ts t" using assms(5) t th by simp
    moreover have "exit_turns t s \<le> count_list ts t" using exit_turns_le[of t s] assms(6) t by (meson le_trans)
    ultimately show "pc (g_worker (turns cfg ts s) t) = W_Exited" using exit_turns_0[of t "turns cfg ts s"] by simp
  qed
  show "at_rest (g_flow (turns cfg ts s))" by (rule exited_at_rest[OF assms(1) r x])
qed

section \<open>Properties\<close>

text \<open>C7. The pipeline with its workers refines both of its halves: every run of it is, seen from the
  data, a run of the flow (so all that holds of the flow's reachable states holds here) and,
  seen from a worker, a run of that worker. A thread outside its callback is at the beginning
  of its routine, and a thread inside it can always take its next step.\<close>

theorem workers_refine_flow:
  assumes "flow_start cfg B f" "gated_reach cfg f s" "t \<in> flow_threads f"
  shows "flow_reach cfg f (g_flow s) \<and> worker_reach (g_worker s t) \<and> (\<not> in_callback t s \<longrightarrow> at_entry t (g_flow s)) \<and>
    (in_callback t s \<longrightarrow> (\<exists>s'. callback_step cfg t s = Some s'))"
proof -
  note inv = gated_reach_inv[OF assms(2,1)]
  let ?f = "show_flags t (g_worker s t) (g_flow s)"
  have t: "t \<in> flow_threads (g_flow s)" using gated_reach_threads[OF assms(2)] assms(3) by simp
  note f = show_flags_step[OF t, of cfg "g_worker s t"]
  have "flow_inv cfg B ?f" "t \<in> flow_threads ?f"
    using flow_step_inv[OF f] inv t flow_step_stages[OF f] by (simp_all add: gated_inv_def flow_threads_def)
  then have "\<exists>s'. callback_step cfg t s = Some s'" using move_inv[of cfg B ?f t] by (auto simp: callback_step_def Let_def)
  moreover have "entry_inv s t" using inv t by (simp add: gated_inv_def)
  ultimately show ?thesis using gated_reach_flow[OF assms(2)] gated_reach_worker[OF assms(2)]
    by (auto simp: entry_inv_def in_callback_def)
qed

theorem workers_refine_flow_witness:
  "\<exists>s. gated_run default_config demo_events (gated_start demo_flow) = Some s \<and> pc (g_worker s Source_thread) = W_Callback \<and>
    so_at (g_flow s) = So_Entry \<and> so_output (so_context (fl_source (g_flow s))) = Ptr 1"
proof -
  obtain s where s: "gated_run default_config demo_events (gated_start demo_flow) = Some s"
    "pc (g_worker s Source_thread) = W_Callback" "g_callback s Source_thread = Returned"
    "so_output (so_context (fl_source (g_flow s))) = Ptr 1" by (rule demo_events_run)
  have "gated_reach default_config demo_flow s" using s(1) by (auto simp: gated_reach_def)
  from workers_refine_flow[OF demo_flow_start this, of Source_thread] s show ?thesis
    by (auto simp: flow_threads_def in_callback_def)
qed

text \<open>C14. Starting, stopping and disabling take effect: from every reachable state in which no thread is
  inside a call on a worker, the loop of \<open>mtdp_pipeline_start\<close>, \<open>mtdp_pipeline_stop\<close> or
  \<open>mtdp_pipeline_disable\<close> over the workers can be completed (the mutexes are given back), and however
  its steps interleave with those of the pipeline's threads, when it is completed every worker is
  enabled, disabled or destroyed and no thread is inside a call.\<close>

theorem pipeline_calls_take_effect:
  assumes "flow_start cfg B f" "gated_reach cfg f s" "all_idle s"
  shows "(\<exists>es s'. requested es = pipeline_request (length (fl_stages f)) i r \<and> gated_run cfg es s = Some s') \<and>
    (\<forall>es s'. requested es = pipeline_request (length (fl_stages f)) i r \<longrightarrow> gated_run cfg es s = Some s' \<longrightarrow>
       all_idle s' \<and> (\<forall>t \<in> flow_threads f. granted r (g_worker s' t)))"
proof -
  obtain es s' where "requested es = pipeline_request (length (fl_stages f)) i r" "gated_run cfg es s = Some s'"
    by (rule request_possible[OF gated_reach_inv[OF assms(2,1)] assms(3), of i r]) (simp add: gated_reach_stages[OF assms(2)])
  moreover have "all_idle s' \<and> (\<forall>t \<in> flow_threads f. granted r (g_worker s' t))"
    if "requested es = pipeline_request (length (fl_stages f)) i r" "gated_run cfg es s = Some s'" for es s'
    using request_all[OF assms(2,3) that(2,1)] by simp
  ultimately show ?thesis by blast
qed

theorem pipeline_calls_take_effect_witness:
  "\<exists>s. gated_run default_config demo_events (gated_start demo_flow) = Some s \<and> w_enabled (g_worker s (Stage_thread 0)) \<and>
    w_enabled (g_worker s Sink_thread)"
proof -
  obtain s where s: "gated_run default_config demo_events (gated_start demo_flow) = Some s" by (rule demo_events_run)
  have n: "length (fl_stages demo_flow) = 1" by (simp add: demo_flow_def)
  have r: "gated_reach default_config demo_flow (gated_start demo_flow)" by (auto simp: gated_reach_def intro: exI[of _ "[]"])
  have "\<forall>t \<in> flow_threads demo_flow. granted Enable (g_worker s t)"
    using pipeline_calls_take_effect[OF demo_flow_start r gated_start_idle, of 0 Enable] s demo_requested unfolding n by blast
  then show ?thesis using s n by (auto simp: granted_def flow_threads_def)
qed

text \<open>C12. Stopping freezes the pipeline: once \<open>mtdp_pipeline_stop\<close> has gone through the workers, each
  thread can still end the iteration it is in, or make one it was about to begin, and that is all:
  until its worker is enabled again it takes at most as many steps inside its routine as
  one iteration has (4, 8 or 5), and none if it is waiting.\<close>

theorem pipeline_stop_freezes:
  assumes "flow_start cfg B f" "gated_reach cfg f s" "all_idle s"
    and "requested es = pipeline_request (length (fl_stages f)) i Disable" "gated_run cfg es s = Some s1"
    and "t \<in> flow_threads f" "\<forall>j. Call t j Enable \<notin> set es'"
  shows "callback_turns cfg t es' s1 \<le> routine_length t \<and>
    (pc (g_worker s1 t) = W_Waiting \<longrightarrow> callback_turns cfg t es' s1 = 0)"
proof -
  note r = request_all[OF assms(2,3,5,4)] and th = gated_reach_threads[OF request_all(1)[OF assms(2,3,5,4)]]
  have "stopped (g_worker s1 t)"
    using r(2,3) assms(6) th by (simp add: stopped_def all_idle_def controllers_idle_def granted_def)
  then have le: "callback_turns cfg t es' s1 \<le> steps_left t s1"
    using run_stopped[OF gated_reach_inv[OF r(1) assms(1)] _ _ assms(7)] assms(6) th by simp
  moreover have "steps_left t s1 = 0" if "pc (g_worker s1 t) = W_Waiting"
    using that by (simp add: steps_left_def in_callback_def)
  ultimately show ?thesis using steps_left_le[of t s1] by auto
qed

theorem pipeline_stop_freezes_witness:
  "\<exists>s. gated_run default_config (demo_events @ pipeline_request 1 0 Disable) (gated_start demo_flow) = Some s \<and>
    callback_turns default_config Source_thread (replicate 20 (Turn Source_thread)) s \<le> 4"
proof -
  obtain s where s: "gated_run default_config demo_events (gated_start demo_flow) = Some s" by (rule demo_events_run)
  have n: "length (fl_stages demo_flow) = 1" by (simp add: demo_flow_def)
  have r: "gated_reach default_config demo_flow (gated_start demo_flow)" by (auto simp: gated_reach_def intro: exI[of _ "[]"])
  note st = request_all(1,2)[OF r gated_start_idle s, of 0 Enable, unfolded n, OF demo_requested]
  have "case gated_run default_config (demo_events @ pipeline_request 1 0 Disable) (gated_start demo_flow) of
      None \<Rightarrow> False | Some _ \<Rightarrow> True" by code_simp
  then obtain s1 where s1: "gated_run default_config (pipeline_request 1 0 Disable) s = Some s1"
    using s by (auto simp: gated_run_append split: option.splits)
  have "callback_turns default_config Source_thread (replicate 20 (Turn Source_thread)) s1 \<le> routine_length Source_thread"
    using pipeline_stop_freezes[OF demo_flow_start st _ s1, of 0 Source_thread "replicate 20 (Turn Source_thread)"] n requested_turns(2)
    by (simp add: flow_threads_def)
  then show ?thesis using s s1 by (auto simp: gated_run_append)
qed


text \<open>C11. Disabling ends the threads: once \<open>mtdp_pipeline_disable\<close> has gone through the workers, every
  schedule that gives each thread eleven turns takes all of them to their exits, whatever
  they were doing and whatever the user's code does. So the joins that follow return, and then no
  thread is inside its routine.\<close>

theorem pipeline_disable_ends_threads:
  assumes "flow_start cfg B f" "gated_reach cfg f s" "all_idle s"
    and "requested es = pipeline_request (length (fl_stages f)) i Destroy" "gated_run cfg es s = Some s1"
    and "set ts \<subseteq> flow_threads f" "\<forall>t \<in> flow_threads f. 11 \<le> count_list ts t"
  shows "gated_reach cfg f (turns cfg ts s1) \<and> (\<forall>t \<in> flow_threads f. pc (g_worker (turns cfg ts s1) t) = W_Exited) \<and>
    at_rest (g_flow (turns cfg ts s1))"
proof -
  note r = request_all[OF assms(2,3,5,4)]
  show ?thesis using destroyed_end[OF assms(1) r(1,2) _ assms(6,7)] r(3) by blast
qed

definition demo_schedule :: "flow_thread list" where
  "demo_schedule = concat (replicate 11 [Source_thread, Sink_thread, Stage_thread 0])"

lemma demo_schedule:
  assumes "length (fl_stages f) = 1"
  shows "set demo_schedule \<subseteq> flow_threads f" "\<forall>t \<in> flow_threads f. 11 \<le> count_list demo_schedule t"
  using assms by (auto simp: demo_schedule_def flow_threads_def numeral_eq_Suc)

theorem pipeline_disable_ends_threads_witness:
  "\<exists>s es s1. gated_run default_config demo_events (gated_start demo_flow) = Some s \<and>
    requested es = pipeline_request 1 0 Destroy \<and> gated_run default_config es s = Some s1 \<and>
    pc (g_worker (turns default_config demo_schedule s1) (Stage_thread 0)) = W_Exited"
proof -
  obtain s where s: "gated_run default_config demo_events (gated_start demo_flow) = Some s" by (rule demo_events_run)
  have n: "length (fl_stages demo_flow) = 1" by (simp add: demo_flow_def)
  have r: "gated_reach default_config demo_flow (gated_start demo_flow)" by (auto simp: gated_reach_def intro: exI[of _ "[]"])
  note st = request_all(1,2)[OF r gated_start_idle s, of 0 Enable, unfolded n, OF demo_requested]
  obtain es s1 where s1: "requested es = pipeline_request 1 0 Destroy" "gated_run default_config es s = Some s1"
    using request_possible[OF gated_reach_inv[OF st(1) demo_flow_start] st(2), of 0 Destroy]
    unfolding gated_reach_stages[OF st(1)] n by blast
  have "requested es = pipeline_request (length (fl_stages demo_flow)) 0 Destroy" using s1(1) n by simp
  from pipeline_disable_ends_threads[OF demo_flow_start st this s1(2) demo_schedule[OF n]] s s1
  show ?thesis by (auto simp: flow_threads_def n)
qed

text \<open>C1. From creation to destruction. A client creates, fills and enables a pipeline; its threads run under
  their workers, in any interleaving with the client's calls, to the state \<open>s\<close>. When
  \<open>mtdp_pipeline_destroy\<close> then goes through the workers and the threads get their turns to end, it
  gives back everything: the memory is as it was before the pipeline was created (no block,
  array, mutex or semaphore of its pipes is left), every thread is joined and the error code
  is \<open>MTDP_OK\<close>.\<close>

theorem pipeline_life:
  assumes "launched cfg m rt bss m2 rt2 pl2" "gated_reach cfg (flow_of m2 pl2 u) s" "all_idle s"
    and "requested es = pipeline_request (n_stages pl2) i Destroy" "gated_run cfg es s = Some s1"
    and "set ts \<subseteq> flow_threads (flow_of m2 pl2 u)" "\<forall>t \<in> flow_threads (flow_of m2 pl2 u). 11 \<le> count_list ts t"
  shows "\<exists>m4 rt4. mtdp_pipeline_destroy (settle_at (g_flow (turns cfg ts s1))) cfg m2 rt2 (Some pl2) = Some (m4, rt4) \<and>
    heap m4 = heap m \<and> live m4 = live m \<and> syncs m4 = syncs m \<and> threads rt4 = threads rt \<and> errno rt4 = MTDP_OK"
proof -
  obtain m0 where st: "flow_start cfg (\<lambda>k. mset (bss ! k)) (flow_of m2 pl2 u)" "shared_hold cfg m0 (fl_sh (flow_of m2 pl2 u))"
    "length (stage_impls pl2) = n_stages pl2" by (rule launched_facts[OF assms(1), of u])
  have "requested es = pipeline_request (length (fl_stages (flow_of m2 pl2 u))) i Destroy"
    using assms(4) st(3) by (simp add: flow_of_def)
  note r = request_all[OF assms(2,3,5) this]
  note d = destroyed_end[OF st(1) r(1,2) _ assms(6,7)]
  have "session cfg m rt bss m2 rt2 pl2 (g_flow (turns cfg ts s1))"
    using assms(1) gated_reach_flow[OF d(1)] d(3) r(3) by (auto simp: session_def)
  then show ?thesis by (rule session_destroyed)
qed

lemma demo_life_run:
  obtains m2 rt2 pl2 s where "demo_client = Some (m2, rt2, pl2)" "n_stages pl2 = 1" "length (stage_impls pl2) = 1"
    "gated_run default_config demo_events (gated_start (flow_of m2 pl2 ())) = Some s"
    "so_output (so_context (fl_source (g_flow s))) = Ptr 1"
proof -
  have "case demo_client of None \<Rightarrow> False | Some (m2, rt2, pl2) \<Rightarrow> n_stages pl2 = 1 \<and> length (stage_impls pl2) = 1 \<and>
      (case gated_run default_config demo_events (gated_start (flow_of m2 pl2 ())) of None \<Rightarrow> False
       | Some s \<Rightarrow> so_output (so_context (fl_source (g_flow s))) = Ptr 1)"
    by code_simp
  then show ?thesis using that by (auto split: option.splits)
qed

theorem pipeline_life_witness:
  "\<exists>m2 rt2 pl2 s es s1 m4 rt4. demo_client = Some (m2, rt2, pl2) \<and>
    gated_run default_config demo_events (gated_start (flow_of m2 pl2 ())) = Some s \<and>
    so_output (so_context (fl_source (g_flow s))) = Ptr 1 \<and> gated_run default_config es s = Some s1 \<and>
    mtdp_pipeline_destroy (settle_at (g_flow (turns default_config demo_schedule s1))) default_config m2 rt2 (Some pl2) =
      Some (m4, rt4) \<and> heap m4 = Map.empty \<and> live m4 = 0 \<and> syncs m4 = 0"
proof -
  obtain m2 rt2 pl2 s where d: "demo_client = Some (m2, rt2, pl2)" "n_stages pl2 = 1" "length (stage_impls pl2) = 1"
    "gated_run default_config demo_events (gated_start (flow_of m2 pl2 ())) = Some s"
    "so_output (so_context (fl_source (g_flow s))) = Ptr 1" by (rule demo_life_run)
  let ?f = "flow_of m2 pl2 ()"
  have l: "launched default_config (mem_start (\<lambda>_. True)) (runtime_start (\<lambda>_. thrd_success)) [[Ptr 1], [Ptr 2]] m2 rt2 pl2"
    by (rule demo_launched[OF d(1)])
  have n: "length (fl_stages ?f) = 1" using d(3) by (simp add: flow_of_def)
  have r: "gated_reach default_config ?f (gated_start ?f)" by (auto simp: gated_reach_def intro: exI[of _ "[]"])
  note st = request_all(1,2)[OF r gated_start_idle d(4), of 0 Enable, unfolded n, OF demo_requested]
  obtain m0 where fs: "flow_start default_config (\<lambda>k. mset ([[Ptr 1], [Ptr 2]] ! k)) ?f"
    by (rule launched_facts[OF l, of "()"])
  obtain es s1 where s1: "requested es = pipeline_request 1 0 Destroy" "gated_run default_config es s = Some s1"
    using request_possible[OF gated_reach_inv[OF st(1) fs] st(2), of 0 Destroy] unfolding gated_reach_stages[OF st(1)] n by blast
  have "requested es = pipeline_request (n_stages pl2) 0 Destroy" using s1(1) d(2) by simp
  from pipeline_life[OF l st this s1(2) demo_schedule[OF n]] d(1,4,5) s1(2) show ?thesis
    by (fastforce simp: mem_start_def)
qed


text \<open>C13. A started pipeline runs: once \<open>mtdp_pipeline_start\<close> has gone through the workers, no
  thread is held up for good; whatever the schedule, each fourteen turns of a thread contain the
  end of an iteration of its routine, until its worker is destroyed (for the source: until the
  user's code has called \<open>mtdp_source_finished\<close>).\<close>

theorem pipeline_start_runs:
  assumes "flow_start cfg B f" "gated_reach cfg f s" "all_idle s"
    and "requested es = pipeline_request (length (fl_stages f)) i Enable" "gated_run cfg es s = Some s1"
    and "set ts \<subseteq> flow_threads f" "t \<in> flow_threads f" "14 * k \<le> count_list ts t"
  shows "k \<le> iterations cfg t ts s1 \<or> finished t (turns cfg ts s1)"
proof -
  note r = request_all[OF assms(2,3,5,4)] and th = gated_reach_threads[OF request_all(1)[OF assms(2,3,5,4)]]
  have "running (g_worker s1 t)" using r(2,3) assms(7) th by (simp add: running_def all_idle_def granted_def)
  then show ?thesis by (rule iterates[OF assms(1) r(1) assms(6,7) _ assms(8)])
qed

theorem pipeline_start_runs_witness:
  "\<exists>s. gated_run default_config (pipeline_request 1 0 Enable) (gated_start demo_flow) = Some s \<and>
    2 \<le> iterations default_config (Stage_thread 0) (replicate 28 (Stage_thread 0)) s"
proof -
  let ?ts = "replicate 28 (Stage_thread 0)"
  have "case gated_run default_config (pipeline_request 1 0 Enable) (gated_start demo_flow) of None \<Rightarrow> False
      | Some s \<Rightarrow> \<not> finished (Stage_thread 0) (turns default_config ?ts s)" by code_simp
  then obtain s where s: "gated_run default_config (pipeline_request 1 0 Enable) (gated_start demo_flow) = Some s"
    "\<not> finished (Stage_thread 0) (turns default_config ?ts s)" by (auto split: option.splits)
  have n: "length (fl_stages demo_flow) = 1" by (simp add: demo_flow_def)
  have r: "gated_reach default_config demo_flow (gated_start demo_flow)" by (auto simp: gated_reach_def intro: exI[of _ "[]"])
  have "14 * 2 \<le> count_list ?ts (Stage_thread 0)" by (simp add: numeral_eq_Suc)
  from pipeline_start_runs[OF demo_flow_start r gated_start_idle _ s(1) _ _ this, of 0] s n
  show ?thesis by (auto simp: requested_turns flow_threads_def)
qed


text \<open>The workers of a pipeline of one stage that was enabled, after any turns of its source.\<close>

lemma enabled_duty:
  assumes n: "length (fl_stages f) = 1"
    and run: "gated_run cfg (pipeline_request 1 0 Enable @ replicate k (Turn Source_thread)) (gated_start f) = Some s"
    and en: "w_enabled (g_worker s Sink_thread)" "w_enabled (g_worker s (Stage_thread 0))"
      "\<not> w_destroyed (g_worker s Sink_thread)" "\<not> w_destroyed (g_worker s (Stage_thread 0))"
  shows "gated_reach cfg f s" "\<forall>t \<in> flow_threads f - {Source_thread}. on_duty s t"
proof -
  have r0: "gated_reach cfg f (gated_start f)" by (auto simp: gated_reach_def intro: exI[of _ "[]"])
  have req: "requested (pipeline_request 1 0 Enable @ replicate k (Turn Source_thread)) = pipeline_request 1 0 Enable"
    by (simp add: requested_append requested_turns)
  note r = request_all(1,2)[OF r0 gated_start_idle run, of 0 Enable, unfolded n, OF req]
  show "gated_reach cfg f s" by (rule r(1))
  show "\<forall>t \<in> flow_threads f - {Source_thread}. on_duty s t"
    using r(2) en gated_reach_threads[OF r(1)] n by (auto simp: on_duty_def running_def all_idle_def flow_threads_def)
qed

text \<open>The concrete pipeline with an allocator that refuses nothing; its source has pushed one buffer.\<close>

definition willing_events :: "event list" where
  "willing_events = pipeline_request 1 0 Enable @ replicate 16 (Turn Source_thread)"



text \<open>C33. What the source fills last is lost: once the user's code has called \<open>mtdp_source_finished\<close> and
  its callback has returned, the source's thread never takes another step of its routine, whatever the
  other threads do and whatever is called on its worker. A buffer that it was to push in its next iteration
  (\<open>ready_to_push\<close> is set) stays with it and is never delivered.\<close>

theorem finished_loses_last:
  assumes "flow_start cfg B f" "gated_reach cfg f s" "g_callback s Source_thread = Finishing" "gated_run cfg es s = Some s'"
  shows "callback_turns cfg Source_thread es s = 0 \<and> so_at (g_flow s') = So_Entry \<and>
    so_context (fl_source (g_flow s')) = so_context (fl_source (g_flow s)) \<and> pushed (g_flow s') 0 = pushed (g_flow s) 0"
proof -
  note inv = gated_reach_inv[OF assms(2,1)]
  have en: "entry_inv s Source_thread" using inv by (simp add: gated_inv_def flow_threads_def)
  then have pc: "pc (g_worker s Source_thread) = W_Callback" "so_at (g_flow s) = So_Entry"
    using assms(3) by (auto simp: entry_inv_def)
  then have "ending Source_thread s" using assms(3) by (simp add: ending_def in_callback_def)
  from run_ending[OF assms(4) inv this] pc(2) show ?thesis by (simp add: source_part_def)
qed

text \<open>The concrete pipeline with a source that fills one buffer and finishes.\<close>

definition brief_flow :: "unit flow" where
  "brief_flow = demo_flow\<lparr>fl_source := (fl_source demo_flow)\<lparr>so_user_data := (so_user_data (fl_source demo_flow))
     \<lparr>so_process := Some (\<lambda>u stop c. (u, c\<lparr>so_ready_to_push := True\<rparr>, True))\<rparr>\<rparr>\<rparr>"

lemma brief_flow_start: "flow_start default_config demo_buffers brief_flow"
proof -
  have "source_user_ok (so_user_data (fl_source brief_flow))"
    using demo_flow_start by (simp add: flow_start_def Let_def brief_flow_def source_user_ok_def polite_source_def)
  then show ?thesis using demo_flow_start by (simp add: flow_start_def Let_def brief_flow_def)
qed

theorem finished_loses_last_witness:
  "\<exists>s s'. gated_run default_config demo_events (gated_start brief_flow) = Some s \<and>
     so_ready_to_push (so_context (fl_source (g_flow s))) \<and>
     gated_run default_config (replicate 7 (Turn Source_thread)) s = Some s' \<and> pc (g_worker s' Source_thread) = W_Exited \<and>
     so_ready_to_push (so_context (fl_source (g_flow s'))) \<and> pushed (g_flow s') 0 = []"
proof -
  have "case gated_run default_config demo_events (gated_start brief_flow) of None \<Rightarrow> False
      | Some s \<Rightarrow> g_callback s Source_thread = Finishing \<and> so_ready_to_push (so_context (fl_source (g_flow s))) \<and>
          pushed (g_flow s) 0 = [] \<and>
          (case gated_run default_config (replicate 7 (Turn Source_thread)) s of None \<Rightarrow> False
           | Some s' \<Rightarrow> pc (g_worker s' Source_thread) = W_Exited)"
    by code_simp
  then obtain s s' where s: "gated_run default_config demo_events (gated_start brief_flow) = Some s"
    "g_callback s Source_thread = Finishing" "so_ready_to_push (so_context (fl_source (g_flow s)))" "pushed (g_flow s) 0 = []"
    "gated_run default_config (replicate 7 (Turn Source_thread)) s = Some s'" "pc (g_worker s' Source_thread) = W_Exited"
    by (auto split: option.splits)
  have "gated_reach default_config brief_flow s" using s(1) by (auto simp: gated_reach_def)
  from finished_loses_last[OF brief_flow_start this s(2,5)] s show ?thesis by auto
qed

end
