(* ===== verification/Example_Joins.thy ===== *)
theory Example_Joins
  imports Example_Waits Gated_Properties
begin

text \<open>
  The main thread gets through: its calls on the workers can always be completed, and once the stream has ended
  and the \<open>done\<close> words are set, the threads that wait return and can be joined.
\<close>

section \<open>Several calls in a row\<close>

lemma requested_split:
  "requested es = xs @ ys \<Longrightarrow> \<exists>es1 es2. es = es1 @ es2 \<and> requested es1 = xs \<and> requested es2 = ys"
proof (induction es arbitrary: xs)
  case Nil
  then show ?case by (simp add: requested_def)
next
  case (Cons e es)
  show ?case
  proof (cases "own_event e \<or> xs = []")
    case True
    then consider "own_event e" | "xs = []" by blast
    then show ?thesis
    proof cases
      case 1
      then have "requested es = xs @ ys" using Cons.prems by (simp add: requested_def)
      then obtain es1 es2 where "es = es1 @ es2" "requested es1 = xs" "requested es2 = ys" using Cons.IH by blast
      then show ?thesis using 1 by (intro exI[of _ "e # es1"] exI[of _ es2]) (simp add: requested_def)
    next
      case 2
      then show ?thesis using Cons.prems by (intro exI[of _ "[]"] exI[of _ "e # es"]) (simp add: requested_def)
    qed
  next
    case False
    then obtain x xs' where x: "xs = x # xs'" by (cases xs) auto
    then have e: "x = e" "requested es = xs' @ ys" using Cons.prems False by (simp_all add: requested_def)
    then obtain es1 es2 where "es = es1 @ es2" "requested es1 = xs'" "requested es2 = ys" using Cons.IH by blast
    then show ?thesis using False x e(1) by (intro exI[of _ "e # es1"] exI[of _ es2]) (simp add: requested_def)
  qed
qed

lemma requests_all:
  "gated_reach cfg f s \<Longrightarrow> all_idle s \<Longrightarrow> gated_run cfg es s = Some s' \<Longrightarrow>
     requested es = concat (map (pipeline_request (length (fl_stages f)) i) (rs @ [r])) \<Longrightarrow>
     gated_reach cfg f s' \<and> all_idle s' \<and> (\<forall>t \<in> flow_threads f. granted r (g_worker s' t))"
proof (induction rs arbitrary: s es)
  case Nil
  then have "requested es = pipeline_request (length (fl_stages f)) i r" by simp
  from request_all[OF Nil.prems(1-3) this] show ?case by blast
next
  case (Cons q rs)
  have "requested es = pipeline_request (length (fl_stages f)) i q @
      concat (map (pipeline_request (length (fl_stages f)) i) (rs @ [r]))" using Cons.prems(4) by simp
  then obtain es1 es2 where es: "es = es1 @ es2" "requested es1 = pipeline_request (length (fl_stages f)) i q"
    "requested es2 = concat (map (pipeline_request (length (fl_stages f)) i) (rs @ [r]))"
    using requested_split by blast
  then obtain s1 where s1: "gated_run cfg es1 s = Some s1" "gated_run cfg es2 s1 = Some s'"
    using Cons.prems(3) by (auto simp: gated_run_append bind_eq_Some_conv)
  note q = request_all(1,2)[OF Cons.prems(1,2) s1(1) es(2)]
  show ?case by (rule Cons.IH[OF q s1(2) es(3)])
qed

lemma requests_run:
  "flow_start cfg B f \<Longrightarrow> gated_reach cfg f s \<Longrightarrow> all_idle s \<Longrightarrow>
     \<exists>es s'. requested es = concat (map (pipeline_request (length (fl_stages f)) i) rs) \<and> gated_run cfg es s = Some s'"
proof (induction rs arbitrary: s)
  case Nil
  have "requested [] = concat (map (pipeline_request (length (fl_stages f)) i) []) \<and> gated_run cfg [] s = Some s"
    by (simp add: requested_def)
  then show ?case by blast
next
  case (Cons r rs)
  obtain es s1 where s1: "requested es = pipeline_request (length (fl_stages f)) i r" "gated_run cfg es s = Some s1"
    using request_possible[OF gated_reach_inv[OF Cons.prems(2,1)] Cons.prems(3), of i r]
    unfolding gated_reach_stages[OF Cons.prems(2)] by blast
  note q = request_all(1,2)[OF Cons.prems(2,3) s1(2,1)]
  obtain es' s' where "requested es' = concat (map (pipeline_request (length (fl_stages f)) i) rs)" "gated_run cfg es' s1 = Some s'"
    using Cons.IH[OF Cons.prems(1) q] by blast
  with s1 have "requested (es @ es') = concat (map (pipeline_request (length (fl_stages f)) i) (r # rs))"
    "gated_run cfg (es @ es') s = Some s'" by (simp_all add: requested_append gated_run_append)
  then show ?case by blast
qed

lemma gated_reach_start: "gated_reach cfg f (gated_start f)"
  by (auto simp: gated_reach_def intro: exI[of _ "[]"])

section \<open>Wake-up calls\<close>

definition quiet :: "'u crew \<Rightarrow> bool" where
  "quiet s \<longleftrightarrow> cr_ring s = (\<lambda>_. None)"

text \<open>A run that changes nothing but the waiting threads and makes the wake-up calls.\<close>

definition only_waits :: "'u crew \<Rightarrow> 'u crew \<Rightarrow> bool" where
  "only_waits s s' \<longleftrightarrow> cr_gated s' = cr_gated s \<and> cr_main s' = cr_main s \<and> cr_destroying s' = cr_destroying s \<and>
     length (cr_waits s') = length (cr_waits s)"

lemma only_waits_refl: "only_waits s s"
  by (simp add: only_waits_def)

lemma only_waits_trans: "only_waits s s1 \<Longrightarrow> only_waits s1 s2 \<Longrightarrow> only_waits s s2"
  by (simp add: only_waits_def)

lemma quieten:
  "crew_inv n s \<Longrightarrow> \<exists>es s'. crew_run cfg pl es s = Some s' \<and> quiet s' \<and> only_waits s s'"
proof (induction "card {a. cr_ring s a \<noteq> None}" arbitrary: s rule: less_induct)
  case less
  have "finite (actors s)" by (simp add: actors_def flow_threads_def)
  moreover have "{a. cr_ring s a \<noteq> None} \<subseteq> actors s" using less.prems by (auto simp: crew_inv_def)
  ultimately have fin: "finite {a. cr_ring s a \<noteq> None}" by (rule finite_subset[rotated])
  show ?case
  proof (cases "quiet s")
    case True
    then show ?thesis using only_waits_refl by (intro exI[of _ "[]"]) simp
  next
    case False
    then obtain a b where b: "cr_ring s a = Some b" by (auto simp: quiet_def fun_eq_iff)
    let ?s = "s\<lparr>cr_ring := (cr_ring s)(a := None), cr_waits := map (wake b) (cr_waits s)\<rparr>"
    have "wait_ok n ?s (wake b p)" if "p \<in> set (cr_waits s)" for p
      using ring_ok[OF b] that less.prems by (simp add: crew_inv_def)
    then have inv: "crew_inv n ?s" using less.prems by (auto simp: crew_inv_def actors_def)
    have "{x. cr_ring ?s x \<noteq> None} \<subset> {x. cr_ring s x \<noteq> None}" using b by auto
    from less.hyps[OF psubset_card_mono[OF fin this] inv] obtain es s' where
      r: "crew_run cfg pl es ?s = Some s'" "quiet s'" "only_waits ?s s'" by blast
    have "crew_run cfg pl (Ring a # es) s = Some s'" using b r(1) by simp
    moreover have "only_waits s s'" using r(3) by (simp add: only_waits_def)
    ultimately show ?thesis using r(2) by blast
  qed
qed

section \<open>Playing a run of the pipeline\<close>

lemma play_run:
  "gated_run cfg ges (cr_gated s) = Some g \<Longrightarrow> quiet s \<Longrightarrow> crew_inv (n_stages pl) s \<Longrightarrow> cr_main s = map Ask (requested ges) @ rest \<Longrightarrow>
     \<exists>es s'. crew_run cfg pl es s = Some s' \<and> quiet s' \<and> only_waits (s\<lparr>cr_gated := g, cr_main := rest\<rparr>) s'"
proof (induction ges arbitrary: s)
  case Nil
  then show ?case by (intro exI[of _ "[]"]) (auto simp: only_waits_def requested_def)
next
  case (Cons e ges)
  obtain g1 where g1: "gated_step cfg e (cr_gated s) = Some g1" "gated_run cfg ges g1 = Some g"
    using Cons.prems(1) by (auto simp: bind_eq_Some_conv)
  let ?a = "if own_event e then Some (event_thread e) else None" and ?bs = "map Ask (requested ges) @ rest"
  have r: "cr_ring s ?a = None" using Cons.prems(2) by (simp add: quiet_def)
  obtain s1 where s1: "crew_gated cfg ?a e s = Some s1" using g1(1) r by (simp add: crew_gated_def Let_def)
  note d = crew_gatedD[OF s1]
  have "\<exists>ev. crew_run cfg pl [ev] s = Some (s1\<lparr>cr_main := ?bs\<rparr>)"
  proof (cases "own_event e")
    case True
    then have "cr_main s1 = ?bs" using d(4) Cons.prems(4) by (simp add: requested_def)
    then have "s1\<lparr>cr_main := ?bs\<rparr> = s1" by (metis crew.surjective crew.update_convs(5))
    then show ?thesis using s1 True by (intro exI[of _ "Own e"]) simp
  next
    case False
    then have "cr_main s = Ask e # ?bs" using Cons.prems(4) by (simp add: requested_def)
    then show ?thesis using s1 False by (intro exI[of _ Main]) simp
  qed
  then obtain ev where ev: "crew_run cfg pl [ev] s = Some (s1\<lparr>cr_main := ?bs\<rparr>)" by blast
  from crew_run_inv[OF this Cons.prems(3)] quieten obtain es2 s2 where
    s2: "crew_run cfg pl es2 (s1\<lparr>cr_main := ?bs\<rparr>) = Some s2" "quiet s2" "only_waits (s1\<lparr>cr_main := ?bs\<rparr>) s2" by blast
  have inv2: "crew_inv (n_stages pl) s2" by (rule crew_run_inv[OF s2(1) crew_run_inv[OF ev Cons.prems(3)]])
  have g: "cr_gated s2 = g1" "cr_main s2 = ?bs" using s2(3) d(1) g1(1) by (simp_all add: only_waits_def)
  obtain es3 s3 where s3: "crew_run cfg pl es3 s2 = Some s3" "quiet s3" "only_waits (s2\<lparr>cr_gated := g, cr_main := rest\<rparr>) s3"
    using Cons.IH[OF _ s2(2) inv2 g(2)] g1(2) g(1) by blast
  have "only_waits (s\<lparr>cr_gated := g, cr_main := rest\<rparr>) s3" using s3(3) s2(3) d(3,5) by (simp add: only_waits_def)
  then show ?case using crew_run_trans[OF crew_run_trans[OF ev s2(1)] s3(1)] s3(2) by blast
qed

section \<open>Joining\<close>

lemma wait_lift:
  "j < length (cr_waits s) \<Longrightarrow>
     \<exists>es. crew_run cfg pl es s = Some (s\<lparr>cr_waits := (cr_waits s)[j := wait_run (n_stages pl) True (crew_words s) intrs (cr_waits s ! j)]\<rparr>)"
proof (induction intrs arbitrary: s)
  case Nil
  then show ?case by (intro exI[of _ "[]"]) simp
next
  case (Cons intr intrs)
  show ?case
  proof (cases "wait_step (n_stages pl) True intr (crew_words s) (cr_waits s ! j)")
    case None
    then show ?thesis using Cons by simp
  next
    case (Some p)
    let ?s = "s\<lparr>cr_waits := (cr_waits s)[j := p]\<rparr>"
    have st: "crew_run cfg pl [Wait_turn j intr] s = Some ?s" using Some Cons.prems by (simp add: list_get_def)
    have w: "crew_words ?s = crew_words s" by (simp add: crew_words_def)
    obtain es where
      "crew_run cfg pl es ?s = Some (?s\<lparr>cr_waits := (cr_waits ?s)[j := wait_run (n_stages pl) True (crew_words ?s) intrs (cr_waits ?s ! j)]\<rparr>)"
      using Cons.IH[of ?s] Cons.prems by auto
    then have "crew_run cfg pl es ?s = Some (s\<lparr>cr_waits := (cr_waits s)[j := wait_run (n_stages pl) True (crew_words s) (intr # intrs) (cr_waits s ! j)]\<rparr>)"
      unfolding w using Some Cons.prems by simp
    from crew_run_trans[OF st this] show ?thesis by blast
  qed
qed

lemma join_one:
  assumes q: "quiet s" and inv: "crew_inv (n_stages pl) s" and fin: "all_done (n_stages pl) (crew_words s)"
    and m: "cr_main s = Join j # as" "j < length (cr_waits s)"
  shows "\<exists>es s'. crew_run cfg pl es s = Some s' \<and> quiet s' \<and> only_waits (s\<lparr>cr_main := as\<rparr>) s'"
proof -
  let ?n = "n_stages pl" and ?p = "cr_waits s ! j" and ?intrs = "replicate (2 * n_stages pl + 6) False"
  let ?w = "\<lparr>ws_bells = crew_bells s, ws_enabled = True, ws_at = ?p\<rparr>"
  have "wait_ok ?n s ?p" using inv m(2) by (simp add: crew_inv_def)
  then have wi: "wait_inv ?n True ?w" and wf: "wait_wf ?n ?p" unfolding wait_ok_def wait_inv_def by simp_all
  have "awake ?p" using rung_awake[OF wi] fin q by (simp add: crew_bells_def quiet_def)
  then have ret: "returned (wait_run ?n True (crew_words s) ?intrs ?p)"
  proof (cases "returned ?p")
    case True
    then show ?thesis by (cases ?p) (simp_all add: returned_def)
  next
    case False
    then have nr: "\<forall>e. ?p \<noteq> Wait_returned e" by (auto simp: returned_def)
    have "wait_left ?n ?p \<le> length ?intrs" using wait_left_bound by simp
    from wait_run_done[OF fin wf \<open>awake ?p\<close> nr this] show ?thesis by (simp add: returned_def)
  qed
  let ?s = "s\<lparr>cr_waits := (cr_waits s)[j := wait_run ?n True (crew_words s) ?intrs ?p]\<rparr>"
  obtain es where es: "crew_run cfg pl es s = Some ?s" using wait_lift[OF m(2)] by blast
  have "crew_run cfg pl [Main] ?s = Some (?s\<lparr>cr_main := as\<rparr>)"
    using q m ret by (simp add: quiet_def list_get_def)
  note run = crew_run_trans[OF es this]
  have "quiet (?s\<lparr>cr_main := as\<rparr>)" "only_waits (s\<lparr>cr_main := as\<rparr>) (?s\<lparr>cr_main := as\<rparr>)"
    using q by (simp_all add: quiet_def only_waits_def)
  with run show ?thesis by blast
qed

lemma join_all:
  "quiet s \<Longrightarrow> crew_inv (n_stages pl) s \<Longrightarrow> all_done (n_stages pl) (crew_words s) \<Longrightarrow> cr_main s = map Join js @ as \<Longrightarrow>
     \<forall>j \<in> set js. j < length (cr_waits s) \<Longrightarrow>
     \<exists>es s'. crew_run cfg pl es s = Some s' \<and> quiet s' \<and> only_waits (s\<lparr>cr_main := as\<rparr>) s'"
proof (induction js arbitrary: s)
  case Nil
  then show ?case by (intro exI[of _ "[]"]) (auto simp: only_waits_def)
next
  case (Cons j js)
  have m: "cr_main s = Join j # (map Join js @ as)" "j < length (cr_waits s)" using Cons.prems(4,5) by simp_all
  obtain es1 s1 where s1: "crew_run cfg pl es1 s = Some s1" "quiet s1" "only_waits (s\<lparr>cr_main := map Join js @ as\<rparr>) s1"
    using join_one[OF Cons.prems(1-3) m] by blast
  have k: "cr_main s1 = map Join js @ as" "length (cr_waits s1) = length (cr_waits s)" "crew_words s1 = crew_words s"
    using s1(3) by (simp_all add: only_waits_def crew_words_def)
  obtain es2 s2 where s2: "crew_run cfg pl es2 s1 = Some s2" "quiet s2" "only_waits (s1\<lparr>cr_main := as\<rparr>) s2"
    using Cons.IH[OF s1(2) crew_run_inv[OF s1(1) Cons.prems(2)] _ k(1)] Cons.prems(3,5) k(2,3) by auto
  have "only_waits (s\<lparr>cr_main := as\<rparr>) s2" using s1(3) s2(3) by (simp add: only_waits_def)
  then show ?case using crew_run_trans[OF s1(1) s2(1)] s2(2) by blast
qed

section \<open>Getting to the joins\<close>

text \<open>Between two of its calls.\<close>

definition between_calls :: "fifo_config \<Rightarrow> 'u mtdp_pipeline \<Rightarrow> 'u flow \<Rightarrow> 'u crew \<Rightarrow> bool" where
  "between_calls cfg pl f s \<longleftrightarrow> quiet s \<and> crew_inv (n_stages pl) s \<and> gated_reach cfg f (cr_gated s) \<and> all_idle (cr_gated s)"

lemma request_played:
  assumes start: "flow_start cfg B f" and b: "between_calls cfg pl f s"
    and m: "cr_main s = map Ask (pipeline_request (length (fl_stages f)) i r) @ as"
  shows "\<exists>es s'. crew_run cfg pl es s = Some s' \<and> between_calls cfg pl f s' \<and> cr_main s' = as"
proof -
  have q: "quiet s" "crew_inv (n_stages pl) s" "gated_reach cfg f (cr_gated s)" "all_idle (cr_gated s)"
    using b by (simp_all add: between_calls_def)
  obtain ges g where g: "requested ges = pipeline_request (length (fl_stages f)) i r" "gated_run cfg ges (cr_gated s) = Some g"
    using request_possible[OF gated_reach_inv[OF q(3) start] q(4), of i r] gated_reach_stages[OF q(3)] by metis
  obtain es s' where s': "crew_run cfg pl es s = Some s'" "quiet s'" "only_waits (s\<lparr>cr_gated := g, cr_main := as\<rparr>) s'"
    using play_run[OF g(2) q(1,2), of as] m g(1) by metis
  have "between_calls cfg pl f s'" "cr_main s' = as"
    using request_all(1,2)[OF q(3,4) g(2,1)] s'(2,3) crew_run_inv[OF s'(1) q(2)] by (simp_all add: between_calls_def only_waits_def)
  then show ?thesis using s'(1) by blast
qed

lemma spawn_played:
  assumes b: "between_calls cfg pl f s" and m: "cr_main s = Spawn # as"
  shows "\<exists>es s'. crew_run cfg pl es s = Some s' \<and> between_calls cfg pl f s' \<and> cr_main s' = as"
proof -
  let ?s = "s\<lparr>cr_waits := cr_waits s @ [wait_on pl], cr_main := as\<rparr>"
  have r: "crew_run cfg pl [Main] s = Some ?s" using b m by (simp add: between_calls_def quiet_def)
  have "crew_inv (n_stages pl) ?s" by (rule crew_run_inv[OF r]) (use b in \<open>simp add: between_calls_def\<close>)
  then have "between_calls cfg pl f ?s" using b by (simp add: between_calls_def quiet_def)
  with r show ?thesis by (intro exI[of _ "[Main]"] exI[of _ ?s]) simp
qed

lemma calls_played:
  assumes start: "flow_start cfg B f" and n: "length (fl_stages f) = n"
  shows "between_calls cfg pl f s \<Longrightarrow> cr_main s = main_actions n i active (cs @ cs') \<Longrightarrow> \<forall>j. Join_wait j \<notin> set cs \<Longrightarrow>
     \<exists>es s' a. crew_run cfg pl es s = Some s' \<and> between_calls cfg pl f s' \<and> cr_main s' = main_actions n i a cs'"
proof (induction cs arbitrary: s active)
  case Nil
  then show ?case by (intro exI[of _ "[]"] exI[of _ s] exI[of _ active]) simp
next
  case (Cons c cs)
  have "\<exists>es s' a. crew_run cfg pl es s = Some s' \<and> between_calls cfg pl f s' \<and> cr_main s' = main_actions n i a (cs @ cs')"
  proof (cases c)
    case Call_start
    show ?thesis
    proof (cases active)
      case True
      then show ?thesis using Cons.prems Call_start by (intro exI[of _ "[]"] exI[of _ s] exI[of _ True]) simp
    next
      case False
      then show ?thesis using request_played[OF start Cons.prems(1), of i Enable] Cons.prems(2) Call_start n by auto
    qed
  next
    case Call_stop
    show ?thesis
    proof (cases active)
      case False
      then show ?thesis using Cons.prems Call_stop by (intro exI[of _ "[]"] exI[of _ s] exI[of _ False]) simp
    next
      case True
      then show ?thesis using request_played[OF start Cons.prems(1), of i Disable] Cons.prems(2) Call_stop n by auto
    qed
  next
    case Create_wait
    then show ?thesis using spawn_played[OF Cons.prems(1)] Cons.prems(2) by auto
  qed (use Cons.prems(3) in auto)
  then obtain es1 s1 a1 where s1: "crew_run cfg pl es1 s = Some s1" "between_calls cfg pl f s1"
    "cr_main s1 = main_actions n i a1 (cs @ cs')" by blast
  obtain es2 s2 a2 where s2: "crew_run cfg pl es2 s1 = Some s2" "between_calls cfg pl f s2" "cr_main s2 = main_actions n i a2 cs'"
    using Cons.IH[OF s1(2,3)] Cons.prems(3) by auto
  then show ?case using crew_run_trans[OF s1(1) s2(1)] by blast
qed

text \<open>After the last call: \<open>mtdp_pipeline_disable\<close>.\<close>

lemma disable_played:
  assumes start: "flow_start cfg B f" and b: "between_calls cfg pl f s" and m: "cr_main s = main_actions (length (fl_stages f)) i a []"
  shows "\<exists>es s'. crew_run cfg pl es s = Some s' \<and> cr_main s' = []"
proof -
  let ?as = "map Ask (pipeline_request (length (fl_stages f)) i Destroy)"
  let ?s = "s\<lparr>cr_destroying := 1, cr_ring := (cr_ring s)(None \<mapsto> Destroying), cr_main := ?as\<rparr>"
  have r: "crew_run cfg pl [Main] s = Some ?s" using b m by (simp add: between_calls_def quiet_def)
  have inv: "crew_inv (n_stages pl) ?s" by (rule crew_run_inv[OF r]) (use b in \<open>simp add: between_calls_def\<close>)
  obtain es s1 where s1: "crew_run cfg pl es ?s = Some s1" "quiet s1" "only_waits ?s s1" using quieten[OF inv] by blast
  have "between_calls cfg pl f s1" "cr_main s1 = ?as @ []"
    using b s1(2,3) crew_run_inv[OF s1(1) inv] by (simp_all add: between_calls_def only_waits_def)
  from request_played[OF start this] obtain es2 s2 where "crew_run cfg pl es2 s1 = Some s2" "cr_main s2 = []" by blast
  then show ?thesis using crew_run_trans[OF crew_run_trans[OF r s1(1)]] by blast
qed

section \<open>At the joins\<close>

text \<open>Where no thread has asked for it, the worker of a stage or the sink is not destroyed.\<close>

definition spared :: "flow_thread \<Rightarrow> 'u gated \<Rightarrow> bool" where
  "spared t s \<longleftrightarrow> no_finish t s \<and> \<not> w_destroyed (g_worker s t) \<and>
     (\<forall>i. ctl (g_worker s t) i \<noteq> C_Lock Destroy \<and> ctl (g_worker s t) i \<noteq> C_Set Destroy)"

lemma ctl_step_spared:
  assumes "ctl_step i w = Some w'" "\<forall>i. ctl w i \<noteq> C_Lock Destroy \<and> ctl w i \<noteq> C_Set Destroy"
  shows "(\<forall>i. ctl w' i \<noteq> C_Lock Destroy \<and> ctl w' i \<noteq> C_Set Destroy) \<and> w_destroyed w' = w_destroyed w"
proof (cases "ctl w i")
  case (C_Set r)
  then have "r = Enable \<or> r = Disable" using assms(2) by (cases r) auto
  then show ?thesis using assms C_Set by (auto simp: ctl_step_def apply_request_def split: if_splits)
qed (use assms in \<open>auto simp: ctl_step_def worker_signal_def split: if_splits\<close>)

lemma thread_step_ctl:
  assumes "thread_step cfg t s = Some s'"
  shows "ctl (g_worker s' u) = ctl (g_worker s u)"
  using assms
proof (cases rule: thread_step_cases)
  case callback
  then show ?thesis using callback_stepD(2) by metis
next
  case (protocol fin c)
  have "g_worker s' u = g_worker s u" if "u \<noteq> t" using thread_step_other(1)[OF assms that] .
  then show ?thesis using routine_step_fields[OF protocol_stepD(1)[OF protocol(1)]] by (cases "u = t") simp_all
qed

lemma gated_step_spared:
  assumes st: "gated_step cfg e s = Some s'" and t: "t \<noteq> Source_thread" and sp: "spared t s" and e: "\<forall>u i. e \<noteq> Call u i Destroy"
  shows "spared t s'"
proof -
  have nf: "no_finish t s'" using gated_step_no_finish[OF st t] sp by (simp add: spared_def)
  have "\<not> w_destroyed (g_worker s' t) \<and> (\<forall>i. ctl (g_worker s' t) i \<noteq> C_Lock Destroy \<and> ctl (g_worker s' t) i \<noteq> C_Set Destroy)"
  proof (cases e)
    case (Turn u)
    then have st': "thread_step cfg u s = Some s'" using st by (simp add: gated_step_def split: if_splits)
    have "w_destroyed (g_worker s' t) = w_destroyed (g_worker s t)" using thread_step_no_finish[OF st' t] sp by (simp add: spared_def)
    moreover have "ctl (g_worker s' t) = ctl (g_worker s t)" by (rule thread_step_ctl[OF st'])
    ultimately show ?thesis using sp by (simp add: spared_def)
  next
    case (Control u i)
    then obtain w where w: "ctl_step i (g_worker s u) = Some w" "s' = set_worker u s w"
      using st by (auto simp: gated_step_def bind_eq_Some_conv split: if_splits)
    then show ?thesis using ctl_step_spared[OF w(1)] sp by (cases "t = u") (simp_all add: spared_def)
  next
    case (Call u i r)
    then show ?thesis using st sp e by (auto simp: gated_step_def Let_def spared_def split: if_splits)
  qed (use st sp in \<open>auto simp: gated_step_def Let_def spared_def split: if_splits\<close>)
  with nf show ?thesis by (simp add: spared_def)
qed

lemma gated_run_spared:
  "gated_run cfg es s = Some s' \<Longrightarrow> t \<noteq> Source_thread \<Longrightarrow> spared t s \<Longrightarrow> \<forall>u i. Call u i Destroy \<notin> set es \<Longrightarrow> spared t s'"
proof (induction es arbitrary: s)
  case (Cons e es)
  then obtain s1 where "gated_step cfg e s = Some s1" "gated_run cfg es s1 = Some s'" by (auto simp: bind_eq_Some_conv)
  moreover have "\<forall>u i. e \<noteq> Call u i Destroy" using Cons.prems(4) by auto
  ultimately show ?case using Cons.IH Cons.prems gated_step_spared by (metis list.set_intros(2))
qed simp

lemma gated_start_spared: "spared t (gated_start f)"
  by (simp add: spared_def no_finish_def gated_start_def worker_start_def)

lemma requests_spare: "Destroy \<notin> set rs \<Longrightarrow> Call u j Destroy \<notin> set (concat (map (pipeline_request n i) rs))"
  by (auto simp: pipeline_request_def stage_request_def worker_request_def split: if_splits)

lemma turns_run:
  "set ts \<subseteq> flow_threads (g_flow s) \<Longrightarrow> \<exists>es. gated_run cfg es s = Some (turns cfg ts s) \<and> requested es = []"
proof (induction ts arbitrary: s)
  case Nil
  then show ?case by (intro exI[of _ "[]"]) (simp add: requested_def)
next
  case (Cons t ts)
  show ?case
  proof (cases "thread_step cfg t s")
    case None
    then show ?thesis using Cons by simp
  next
    case (Some s1)
    then have e: "gated_step cfg (Turn t) s = Some s1" using Cons.prems by (simp add: gated_step_def)
    obtain es where "gated_run cfg es s1 = Some (turns cfg ts s1)" "requested es = []"
      using Cons.IH[of s1] Cons.prems gated_step_threads[OF e] by auto
    then show ?thesis using e Some by (intro exI[of _ "Turn t # es"]) (simp add: requested_def)
  qed
qed

lemma turns_idle:
  "all_idle s \<Longrightarrow> set ts \<subseteq> flow_threads (g_flow s) \<Longrightarrow> all_idle (turns cfg ts s)"
proof (induction ts arbitrary: s)
  case (Cons t ts)
  show ?case
  proof (cases "thread_step cfg t s")
    case (Some s1)
    then have e: "gated_step cfg (Turn t) s = Some s1" using Cons.prems(2) by (simp add: gated_step_def)
    have "all_idle s1" using Cons.prems(1) gated_step_threads[OF e] thread_step_ctl[OF Some] by (simp add: all_idle_def controllers_idle_def)
    then show ?thesis using Cons.IH[of s1] Cons.prems(2) gated_step_threads[OF e] Some by simp
  qed (use Cons in simp)
qed simp

text \<open>What main has still to do is the end of what it had to do.\<close>

lemma crew_run_main: "crew_run cfg pl es s = Some s' \<Longrightarrow> \<exists>xs. cr_main s = xs @ cr_main s'"
proof (induction es arbitrary: s)
  case (Cons e es)
  then obtain s1 where s1: "crew_step cfg pl e s = Some s1" "crew_run cfg pl es s1 = Some s'" by (auto simp: bind_eq_Some_conv)
  have "\<exists>xs. cr_main s = xs @ cr_main s1"
  proof (cases e)
    case Main
    then obtain a where "cr_main s = [a] @ cr_main s1" using s1(1) by (auto simp: bind_eq_Some_conv split: list.splits)
    then show ?thesis by blast
  next
    case (Own g)
    then have "crew_gated cfg (Some (event_thread g)) g s = Some s1" using s1(1) by (simp split: if_splits)
    from crew_gatedD(4)[OF this] show ?thesis by simp
  qed (use s1(1) in \<open>auto simp: bind_eq_Some_conv\<close>)
  then show ?case using Cons.IH[OF s1(2)] by (metis append.assoc)
qed simp

lemma crew_run_destroying:
  assumes "crew_run cfg pl es s = Some s'" "cr_destroying s = 0" "Set_destroying \<in> set (cr_main s')"
  shows "distinct (filter (\<lambda>a. a = Set_destroying) (cr_main s)) \<longrightarrow> cr_destroying s' = 0"
  using assms
proof (induction es arbitrary: s)
  case (Cons e es)
  then obtain s1 where s1: "crew_step cfg pl e s = Some s1" "crew_run cfg pl es s1 = Some s'" by (auto simp: bind_eq_Some_conv)
  obtain xs where xs: "cr_main s1 = xs @ cr_main s'" using crew_run_main[OF s1(2)] by blast
  have "cr_destroying s1 = 0 \<and> (\<exists>ys. cr_main s = ys @ cr_main s1)" if "distinct (filter (\<lambda>a. a = Set_destroying) (cr_main s))"
  proof (cases e)
    case Main
    then obtain a bs s2 where a: "cr_main s = a # bs" "main_step cfg pl a s = Some s2" "s1 = s2\<lparr>cr_main := bs\<rparr>"
      using s1(1) by (auto simp: bind_eq_Some_conv split: list.splits)
    have "a \<noteq> Set_destroying" using that a(1,3) xs Cons.prems(3) by auto
    then have "cr_destroying s2 = 0" using a(2) Cons.prems(2)
      by (cases a) (auto simp: bind_eq_Some_conv dest: crew_gatedD(5) split: if_splits)
    then show ?thesis using a(1,3) by (auto intro: exI[of _ "[a]"])
  next
    case (Own g)
    then have "crew_gated cfg (Some (event_thread g)) g s = Some s1" using s1(1) by (simp split: if_splits)
    from crew_gatedD(4,5)[OF this] Cons.prems(2) show ?thesis by simp
  qed (use s1(1) Cons.prems(2) in \<open>auto simp: bind_eq_Some_conv\<close>)
  then show ?case using Cons.IH[OF s1(2) _ Cons.prems(3)] by auto
qed simp

text \<open>From a join on, once the source has finished.\<close>

lemma joins_left:
  assumes "xs @ Join j # as = A @ map Join js @ D" "\<forall>j. Join j \<notin> set A" "\<forall>j. Join j \<notin> set D"
  obtains k where "Join j # as = map Join (drop k js) @ D"
proof -
  have "Join j # as = drop (length xs) (A @ map Join js @ D)" using arg_cong[OF assms(1), of "drop (length xs)"] by simp
  also have "\<dots> = drop (length xs) A @ drop (length xs - length A) (map Join js @ D)" by simp
  finally have e: "Join j # as = drop (length xs) A @ drop (length xs - length A) (map Join js @ D)" .
  have "drop (length xs) A = []"
  proof (rule ccontr)
    assume "drop (length xs) A \<noteq> []"
    then have "Join j \<in> set (drop (length xs) A)" using e by (cases "drop (length xs) A") auto
    then show False using assms(2) in_set_dropD by metis
  qed
  with e have e: "Join j # as = map Join (drop (length xs - length A) js) @ drop (length xs - length A - length js) D"
    by (simp add: drop_map)
  show ?thesis
  proof (cases "length xs - length A < length js")
    case True
    then show ?thesis using e that by simp
  next
    case False
    then have "Join j \<in> set (drop (length xs - length A - length js) D)" using e by (metis append_Nil drop_all linorder_not_less list.set_intros(1) list.simps(8))
    then show ?thesis using assms(3) in_set_dropD by metis
  qed
qed

lemma asks_joins [simp]: "asks (map Join js) = []"
  by (induction js) simp_all

text \<open>What holds there: no more threads are created, all workers run, none has been asked to end.\<close>

definition at_joins :: "fifo_config \<Rightarrow> 'u mtdp_pipeline \<Rightarrow> 'u flow \<Rightarrow> nat list \<Rightarrow> 'u crew \<Rightarrow> bool" where
  "at_joins cfg pl f js s \<longleftrightarrow> crew_inv (n_stages pl) s \<and> cr_destroying s = 0 \<and> (\<forall>j \<in> set js. j < length (cr_waits s)) \<and>
     gated_reach cfg f (cr_gated s) \<and> all_idle (cr_gated s) \<and> (\<forall>t \<in> flow_threads f - {Source_thread}. on_duty (cr_gated s) t)"

lemma requested_duty:
  assumes ges: "gated_run cfg ges (gated_start f) = Some g" "requested ges = concat (map (pipeline_request (length (fl_stages f)) i) (rs @ [Enable]))"
    and rs: "Destroy \<notin> set rs"
  shows "gated_reach cfg f g \<and> all_idle g \<and> (\<forall>t \<in> flow_threads f - {Source_thread}. on_duty g t)"
proof -
  note g = requests_all[OF gated_reach_start gated_start_idle ges]
  have "Call u j Destroy \<notin> set (requested ges)" for u j
    using requests_spare[of "rs @ [Enable]" u j "length (fl_stages f)" i] rs ges(2) by simp
  then have c: "\<forall>u j. Call u j Destroy \<notin> set ges" by (auto simp: requested_def)
  have "on_duty g t" if "t \<in> flow_threads f - {Source_thread}" for t
    using gated_run_spared[OF ges(1) _ gated_start_spared c, of t] g that gated_reach_threads[of cfg f g]
    by (auto simp: on_duty_def running_def spared_def granted_def all_idle_def)
  with g show ?thesis by blast
qed

lemma crew_at_joins:
  assumes n: "n_stages pl = length (fl_stages f)"
    and run: "crew_run cfg pl es (crew_start f (A @ map Join js @ main_actions (n_stages pl) i a [])) = Some s"
    and A: "asks A = concat (map (pipeline_request (n_stages pl) i) (rs @ [Enable]))" "Destroy \<notin> set rs" "\<forall>j. Join j \<notin> set A"
      "\<forall>j \<in> set js. j < length (filter (\<lambda>a. a = Spawn) A)" "Set_destroying \<notin> set A"
    and at: "cr_main s = Join j # as"
  obtains js' where "cr_main s = map Join js' @ main_actions (n_stages pl) i a []" "at_joins cfg pl f js' s"
proof -
  let ?D = "main_actions (n_stages pl) i a []"
  let ?s0 = "crew_start f (A @ map Join js @ ?D)"
  have s0: "cr_main ?s0 = A @ map Join js @ ?D" "cr_gated ?s0 = gated_start f" "cr_destroying ?s0 = 0" "cr_waits ?s0 = []"
    by (simp_all add: crew_start_def)
  have D: "\<forall>j. Join j \<notin> set ?D" "filter (\<lambda>a. a = Spawn) ?D = []" "filter (\<lambda>a. a = Set_destroying) ?D = [Set_destroying]"
    by (auto simp: filter_empty_conv)
  have J: "filter (\<lambda>a. a = Spawn) (map Join js) = []" "filter (\<lambda>a. a = Set_destroying) (map Join js) = []" for js
    by (auto simp: filter_empty_conv)
  obtain xs where "cr_main ?s0 = xs @ cr_main s" using crew_run_main[OF run] by blast
  then have "xs @ Join j # as = A @ map Join js @ ?D" using at s0(1) by simp
  then obtain k where k: "cr_main s = map Join (drop k js) @ ?D" using joins_left[OF _ A(3) D(1)] at by metis
  have "filter (\<lambda>a. a = Set_destroying) A = []" using A(5) by (auto simp: filter_empty_conv)
  then have des: "cr_destroying s = 0" using crew_run_destroying[OF run s0(3)] D(3) J(2) k unfolding s0(1) by simp
  have "joined (length (filter (\<lambda>a. a = Spawn) A)) [] ?s0" using D(2) s0 J(1) by (simp add: joined_def)
  from crew_run_joined[OF run this] have "length (cr_waits s) = length (filter (\<lambda>a. a = Spawn) A)"
    using D(2) J(1) unfolding joined_def k by simp
  then have waits: "\<forall>j \<in> set (drop k js). j < length (cr_waits s)" using A(4) in_set_dropD by metis
  have "\<forall>e \<in> set (asks (cr_main ?s0)). \<not> own_event e"
    using pipeline_request_foreign A(1) unfolding s0(1) by (auto simp: asks_append)
  from crew_run_gated[OF run this] obtain ges where
    ges: "gated_run cfg ges (gated_start f) = Some (cr_gated s)" "requested ges = asks A"
    unfolding s0(1,2) k by (auto simp: asks_append)
  have "requested ges = concat (map (pipeline_request (length (fl_stages f)) i) (rs @ [Enable]))" using ges(2) A(1) n by metis
  from requested_duty[OF ges(1) this A(2)] des waits crew_run_inv[OF run crew_start_inv]
  have "at_joins cfg pl f (drop k js) s" unfolding at_joins_def by blast
  then show ?thesis by (rule that[OF k])
qed

lemma stream_played:
  assumes start: "flow_start cfg B f" "hands_on f" "\<forall>k \<le> length (fl_stages f). B k \<noteq> {#}" "\<forall>n. avail (sh_mem (fl_sh f)) n"
    and at: "at_joins cfg pl f js s"
    and fin: "ending Source_thread (cr_gated s)" "so_done (fl_source (g_flow (cr_gated s))) = 1"
  obtains es s' where "crew_run cfg pl es s = Some s'" "quiet s'" "over cfg B (cr_gated s')" "gated_reach cfg f (cr_gated s')"
    "all_idle (cr_gated s')" "only_waits (s\<lparr>cr_gated := cr_gated s'\<rparr>) s'"
proof -
  have g: "crew_inv (n_stages pl) s" "gated_reach cfg f (cr_gated s)" "all_idle (cr_gated s)"
    "\<forall>t \<in> flow_threads f - {Source_thread}. on_duty (cr_gated s) t" using at by (simp_all add: at_joins_def)
  obtain es1 s1 where s1: "crew_run cfg pl es1 s = Some s1" "quiet s1" "only_waits s s1" using quieten[OF g(1)] by blast
  have inv1: "crew_inv (n_stages pl) s1" by (rule crew_run_inv[OF s1(1) g(1)])
  obtain ts where ts: "set ts \<subseteq> flow_threads f - {Source_thread}" "over cfg B (turns cfg ts (cr_gated s))"
    "pushed (g_flow (turns cfg ts (cr_gated s))) 0 = pushed (g_flow (cr_gated s)) 0"
    by (rule workers_end_stream[OF start g(2) fin g(4)])
  let ?g = "turns cfg ts (cr_gated s)"
  have sub: "set ts \<subseteq> flow_threads (g_flow (cr_gated s))" using ts(1) gated_reach_threads[OF g(2)] by auto
  obtain gs where gs: "gated_run cfg gs (cr_gated s) = Some ?g" "requested gs = []" using turns_run[OF sub] by blast
  have "gated_run cfg gs (cr_gated s1) = Some ?g" "cr_main s1 = map Ask (requested gs) @ cr_main s"
    using s1(3) gs by (simp_all add: only_waits_def)
  from play_run[OF this(1) s1(2) inv1 this(2)] obtain es2 s2 where
    s2: "crew_run cfg pl es2 s1 = Some s2" "quiet s2" "only_waits (s1\<lparr>cr_gated := ?g, cr_main := cr_main s\<rparr>) s2" by blast
  have f2: "cr_gated s2 = ?g" "only_waits (s\<lparr>cr_gated := cr_gated s2\<rparr>) s2" using s2(3) s1(3) by (simp_all add: only_waits_def)
  have "all_idle ?g" by (rule turns_idle[OF g(3) sub])
  moreover have "gated_reach cfg f ?g" by (rule gated_reach_run[OF g(2) gs(1)])
  ultimately show ?thesis using that[OF crew_run_trans[OF s1(1) s2(1)] s2(2) _ _ _ f2(2)] ts(2) f2(1) by simp
qed

lemma joins_played:
  assumes start: "flow_start cfg B f" "hands_on f" "\<forall>k \<le> length (fl_stages f). B k \<noteq> {#}" "\<forall>n. avail (sh_mem (fl_sh f)) n"
    and n: "n_stages pl = length (fl_stages f)"
    and at: "at_joins cfg pl f js s" "cr_main s = map Join js @ main_actions (n_stages pl) i a []"
    and fin: "ending Source_thread (cr_gated s)" "so_done (fl_source (g_flow (cr_gated s))) = 1"
  shows "\<exists>es' s'. crew_run cfg pl es' s = Some s' \<and> cr_main s' = []"
proof -
  let ?D = "main_actions (n_stages pl) i a []"
  obtain es2 s2 where s2: "crew_run cfg pl es2 s = Some s2" "quiet s2" "over cfg B (cr_gated s2)" "gated_reach cfg f (cr_gated s2)"
    "all_idle (cr_gated s2)" "only_waits (s\<lparr>cr_gated := cr_gated s2\<rparr>) s2" by (rule stream_played[OF start at(1) fin])
  have f2: "cr_main s2 = map Join js @ ?D" "cr_destroying s2 = 0" "\<forall>j \<in> set js. j < length (cr_waits s2)"
    using s2(6) at by (simp_all add: only_waits_def at_joins_def)
  have inv2: "crew_inv (n_stages pl) s2" by (rule crew_run_inv[OF s2(1)]) (use at(1) in \<open>simp add: at_joins_def\<close>)
  have "all_done (n_stages pl) (crew_words s2)"
    using s2(3) gated_reach_stages[OF s2(4)] n f2(2)
    by (simp add: over_def words_set_def all_done_def done_upto_def crew_words_def flow_words_def)
  from join_all[OF s2(2) inv2 this f2(1,3)] obtain es3 s3 where
    s3: "crew_run cfg pl es3 s2 = Some s3" "quiet s3" "only_waits (s2\<lparr>cr_main := ?D\<rparr>) s3" by blast
  have "between_calls cfg pl f s3" "cr_main s3 = main_actions (length (fl_stages f)) i a []"
    using s3(2,3) s2(4,5) crew_run_inv[OF s3(1) inv2] n by (simp_all add: between_calls_def only_waits_def)
  from disable_played[OF start(1) this] obtain es4 s4 where "crew_run cfg pl es4 s3 = Some s4" "cr_main s4 = []" by blast
  then show ?thesis using crew_run_trans[OF crew_run_trans[OF s2(1) s3(1)]] by blast
qed

end
