(* ===== verification/Example_Late.thy ===== *)
theory Example_Late
  imports Example_Runs Example_Joins
begin

text \<open>
  A run of the finite program that gets past its joins: five seconds have passed when its source runs for the first
  time, and its callback says that it has finished.
\<close>

section \<open>Before the threads run\<close>

text \<open>No thread of the pipeline has taken a step.\<close>

definition fresh :: "'u flow \<Rightarrow> 'u gated \<Rightarrow> bool" where
  "fresh f g \<longleftrightarrow> g_flow g = f \<and> (\<forall>t. g_callback g t = Running \<and> pc (g_worker g t) = W_Test \<and> owner (g_worker g t) = None \<and>
     controllers_idle (g_worker g t) \<and> \<not> w_destroyed (g_worker g t))"

lemma fresh_start: "fresh f (gated_start f)"
  by (simp add: fresh_def gated_start_def worker_start_def controllers_idle_def)

lemma quick_worker:
  assumes g: "fresh f g" and t: "t \<in> flow_threads f" and r: "r \<noteq> Destroy"
  obtains g' where "gated_run cfg (stage_request i r t) g = Some g'" "fresh f g'"
proof -
  let ?w = "g_worker g t"
  have w: "ctl ?w = (\<lambda>_. C_Idle)" "owner ?w = None" "pc ?w = W_Test" "\<not> w_destroyed ?w" "t \<in> flow_threads (g_flow g)"
    using g t by (auto simp: fresh_def controllers_idle_def)
  define w' where "w' = (apply_request r ?w)\<lparr>owner := None, ctl := (\<lambda>_. C_Idle)(i := C_Idle)\<rparr>"
  have run: "gated_run cfg (worker_request i r t) g = Some (set_worker t g w')"
    using w r by (cases r) (simp_all add: w'_def worker_request_def numeral_eq_Suc gated_step_def ctl_step_def apply_request_def
        worker_signal_def set_worker_def Let_def)
  have w': "pc w' = W_Test" "owner w' = None" "controllers_idle w'" "\<not> w_destroyed w'"
    using w r by (cases r; simp add: w'_def apply_request_def controllers_idle_def)+
  have "fresh f (set_worker t g w')" using g w' by (simp add: fresh_def)
  with run r show ?thesis by (intro that[of "set_worker t g w'"]) (simp_all add: stage_request_def)
qed

lemma quick_workers:
  "fresh f g \<Longrightarrow> set us \<subseteq> flow_threads f \<Longrightarrow> r \<noteq> Destroy \<Longrightarrow>
     \<exists>g'. gated_run cfg (concat (map (stage_request i r) us)) g = Some g' \<and> fresh f g'"
proof (induction us arbitrary: g)
  case (Cons t us)
  obtain g1 where g1: "gated_run cfg (stage_request i r t) g = Some g1" "fresh f g1"
    using quick_worker[OF Cons.prems(1) _ Cons.prems(3), of t cfg i] Cons.prems(2) by auto
  from Cons.IH[OF g1(2)] Cons.prems(2,3) g1(1) show ?case by (auto simp: gated_run_append)
qed simp

lemma quick_call:
  assumes b: "between_calls cfg pl f s" "fresh f (cr_gated s)" and r: "r \<noteq> Destroy"
    and m: "cr_main s = map Ask (pipeline_request (length (fl_stages f)) i r) @ as"
  shows "\<exists>es s'. crew_run cfg pl es s = Some s' \<and> between_calls cfg pl f s' \<and> fresh f (cr_gated s') \<and> cr_main s' = as \<and>
    granted r (g_worker (cr_gated s') Source_thread)"
proof -
  let ?es = "pipeline_request (length (fl_stages f)) i r"
  have q: "quiet s" "crew_inv (n_stages pl) s" "gated_reach cfg f (cr_gated s)" "all_idle (cr_gated s)"
    using b(1) by (simp_all add: between_calls_def)
  have "set (request_order (length (fl_stages f)) r) \<subseteq> flow_threads f" by (auto simp: set_request_order flow_threads_def)
  from quick_workers[OF b(2) this r] obtain g where g: "gated_run cfg ?es (cr_gated s) = Some g" "fresh f g"
    unfolding pipeline_request_def by blast
  have req: "requested ?es = ?es" by (rule requested_turns(2))
  obtain es s' where s': "crew_run cfg pl es s = Some s'" "quiet s'" "only_waits (s\<lparr>cr_gated := g, cr_main := as\<rparr>) s'"
    using play_run[OF g(1) q(1,2), of as] m req by auto
  have "granted r (g_worker g Source_thread)"
    by (rule request_all(3)[OF q(3,4) g(1) req]) (simp add: flow_threads_def)
  then have "between_calls cfg pl f s'" "fresh f (cr_gated s')" "cr_main s' = as" "granted r (g_worker (cr_gated s') Source_thread)"
    using request_all(1,2)[OF q(3,4) g(1) req] g(2) s'(2,3) crew_run_inv[OF s'(1) q(2)]
    by (simp_all add: between_calls_def only_waits_def)
  then show ?thesis using s'(1) by blast
qed

lemma quick_spawn:
  assumes "between_calls cfg pl f s" "fresh f (cr_gated s)" "cr_main s = Spawn # as"
  shows "\<exists>es s'. crew_run cfg pl es s = Some s' \<and> between_calls cfg pl f s' \<and> fresh f (cr_gated s') \<and> cr_main s' = as"
proof -
  let ?s = "s\<lparr>cr_waits := cr_waits s @ [wait_on pl], cr_main := as\<rparr>"
  have r: "crew_run cfg pl [Main] s = Some ?s" using assms by (simp add: between_calls_def quiet_def)
  have "crew_inv (n_stages pl) ?s" by (rule crew_run_inv[OF r]) (use assms in \<open>simp add: between_calls_def\<close>)
  then have "between_calls cfg pl f ?s" using assms by (simp add: between_calls_def quiet_def)
  with r assms(2) show ?thesis by (intro exI[of _ "[Main]"] exI[of _ ?s]) simp
qed

section \<open>The source's first iteration\<close>

lemma source_enters:
  assumes g: "fresh f g" and en: "w_enabled (g_worker g Source_thread)"
  obtains w where "turns cfg (replicate 5 Source_thread) g = set_worker Source_thread g w" "pc w = W_Callback" "\<not> w_destroyed w"
proof -
  let ?w = "g_worker g Source_thread"
  have w: "owner ?w = None" "pc ?w = W_Test" "\<not> w_destroyed ?w" using g by (simp_all add: fresh_def)
  let ?w5 = "?w\<lparr>owner := None, pc := W_Callback, late := 0\<rparr>"
  have "turns cfg (replicate 5 Source_thread) g = set_worker Source_thread g ?w5"
    using w en by (simp add: numeral_eq_Suc thread_step_def protocol_step_def routine_step_def set_worker_def)
  then show ?thesis by (rule that) (use w in simp_all)
qed

lemma flags_idle:
  assumes "so_worker (fl_source s) = with_flags w x"
  shows "show_flags Source_thread w s = s"
  using assms by (cases s; cases "fl_source s"; simp add: with_flags_def)

lemma source_turn:
  assumes w: "pc (g_worker g Source_thread) = W_Callback" "g_callback g Source_thread = Running"
    and f: "show_flags Source_thread (g_worker g Source_thread) (g_flow g) = f0" and m: "flow_run cfg [Source_thread] f0 = Some s1"
  shows "thread_step cfg Source_thread g = Some (g\<lparr>g_flow := s1, g_callback := (g_callback g)(Source_thread :=
    if so_at s1 \<noteq> So_Entry then Running else if finishes cfg Source_thread f0 then Finishing else Returned)\<rparr>)"
proof -
  have "move cfg Source_thread f0 = Some s1" using m by (auto simp: bind_eq_Some_conv split: if_splits)
  then show ?thesis using w f by (simp add: thread_step_def callback_step_def Let_def)
qed

text \<open>It fills its first buffer and finishes.\<close>

lemma source_finishes_first:
  assumes st: "flow_start cfg B f" "B 0 \<noteq> {#}" and g: "fresh f g" "w_enabled (g_worker g Source_thread)"
    and u: "so_process (so_user_data (fl_source f)) = Some p" "so_init (so_user_data (fl_source f)) = None"
    and fin: "\<And>b c. so_self c = so_self (so_context (fl_source f)) \<Longrightarrow> so_output c \<in># B 0 \<Longrightarrow> snd (snd (p (sh_user (fl_sh f)) b c))"
  shows "ending Source_thread (turns cfg (replicate 8 Source_thread) g) \<and>
    so_done (fl_source (g_flow (turns cfg (replicate 8 Source_thread) g))) = 1"
proof -
  obtain w where w: "turns cfg (replicate 5 Source_thread) g = set_worker Source_thread g w" "pc w = W_Callback" "\<not> w_destroyed w"
    by (rule source_enters[OF g])
  have gf: "g_flow g = f" "g_callback g Source_thread = Running" using g(1) by (simp_all add: fresh_def)
  let ?f = "show_flags Source_thread w f"
  have st': "flow_start cfg B ?f" using st(1) by (simp add: flow_start_def Let_def)
  obtain s1 s2 where s2: "flow_run cfg [Source_thread] ?f = Some s1" "so_at s1 = So_Get" "fl_source s1 = fl_source ?f"
    "flow_run cfg [Source_thread] s1 = Some s2" "flow_inv cfg B s2" "so_at s2 = So_Process" "pushed s2 0 = []"
    "so_user_data (fl_source s2) = so_user_data (fl_source ?f)" "so_worker (fl_source s2) = so_worker (fl_source ?f)"
    "so_self (so_context (fl_source s2)) = so_self (so_context (fl_source ?f))" "so_output (so_context (fl_source s2)) \<in># B 0"
    "sh_user (fl_sh s2) = sh_user (fl_sh ?f)"
    by (rule source_gets[OF st' st(2)])
  obtain r sh self s3 where s3: "source_step cfg (so_at s2) (fl_sh s2, fl_source s2) = Some (r, sh, self)"
    "flow_run cfg [Source_thread] s2 = Some s3" "flow_inv cfg B s3" "so_at s3 = source_next r" "fl_source s3 = self" "fl_sh s3 = sh"
    "pushed s3 0 = pushed s2 0 @ source_pushes (so_at s2) r (fl_source s2)"
    by (rule source_moveE[OF s2(5)])
  have p: "so_process (so_user_data (fl_source s2)) = Some p" "so_init (so_user_data (fl_source s2)) = None"
    "\<And>b. snd (snd (p (sh_user (fl_sh s2)) b (so_context (fl_source s2))))"
    using u s2(8) fin[OF _ s2(11)] s2(10,12) by simp_all
  have e: "r = None" "so_done self = 1" "finishes cfg Source_thread s2"
    using s3(1) s2(6) p by (auto simp: source_step_def Let_def bind_eq_Some_conv call_source_def case_prod_unfold mtdp_source_stop_requested_def
        split: if_splits)
  have id: "show_flags Source_thread w s1 = s1" "show_flags Source_thread w s2 = s2"
    by (rule flags_idle[where x = "so_worker (fl_source f)"], simp add: s2(3,9))+
  let ?g = "set_worker Source_thread g w"
  let ?g3 = "?g\<lparr>g_flow := s3, g_callback := (g_callback g)(Source_thread := Finishing)\<rparr>"
  have "turns cfg [Source_thread, Source_thread, Source_thread] ?g = ?g3"
    using source_turn[of ?g ?f cfg s1] source_turn[of "?g\<lparr>g_flow := s1, g_callback := (g_callback g)(Source_thread := Running)\<rparr>" s1 cfg s2]
      source_turn[of "?g\<lparr>g_flow := s2, g_callback := (g_callback g)(Source_thread := Running)\<rparr>" s2 cfg s3] s2(1,2,4,6) s3(2,4) e(1,3) id w(2) gf
    by (simp add: source_next_def del: flow_run.simps)
  moreover have "replicate 8 Source_thread = replicate 5 Source_thread @ [Source_thread, Source_thread, Source_thread]"
    by (simp add: numeral_eq_Suc)
  ultimately have "turns cfg (replicate 8 Source_thread) g = ?g3" using turns_append w(1) by metis
  then show ?thesis using w(2) e(2) s3(5) by (simp add: ending_def in_callback_def)
qed

section \<open>The run\<close>

text \<open>A clock that is ten seconds on at its second reading, and stays there.\<close>

definition late_world :: example where
  "late_world = example_world\<lparr>ex_clock := (\<lambda>k. (if k = 0 then 1000 else 1010, 0))\<rparr>"

lemma late_world_ok: "example_begin late_world" "same_day late_world" "\<forall>j. ex_grant late_world j"
  by (simp_all add: example_begin_def same_day_def late_world_def example_world_def microseconds_def)

lemma late_payload:
  assumes w: "ex_clock w = ex_clock late_world"
    and d: "ex_data w (data_address Source_part) = Some \<lparr>timestamp = microseconds (ex_clock late_world 0), iteration_index = i\<rparr>"
    and c: "so_self c = data_address Source_part" "ex_blocks w (so_output c) = Some (Some v)"
  shows "snd (snd (source_payload_finite w stop c))"
  using assms by (simp add: source_payload_finite_def source_finish_def source_print_def ex_stamp_def next_index_def timestamp_from_def
      ex_read_def ex_print_def Let_def late_world_def microseconds_def)

abbreviation late_run :: "(mem \<times> runtime \<times> example mtdp_pipeline \<times> example) option option" where
  "late_run \<equiv> example_setup default_config raw_example raw_stage_impl pipe_blank (N_BUFFERS Finite) (payload_of Finite)
     (mem_start (\<lambda>_. True)) (runtime_start (\<lambda>_. thrd_success)) late_world"

lemma late_runs:
  obtains m2 rt2 pl2 w2 where "late_run = Some (Some (m2, rt2, pl2, w2))"
    "program_run default_config Finite (mem_start (\<lambda>_. True)) (runtime_start (\<lambda>_. thrd_success)) late_world m2 rt2 pl2 w2 (flow_of m2 pl2 w2)"
proof (rule example_setup_cases[OF default_config_ok mem_start_wf example_machine_ok(2) program_ok(2) program_ok(1) late_world_ok(1),
      of raw_example raw_stage_impl pipe_blank Finite Finite "\<lambda>_. True"])
  assume "\<not> (all_granted (mem_start (\<lambda>_. True)) \<and> (\<forall>j. ex_grant late_world j))"
  then show ?thesis using example_machine_ok(1) late_world_ok(3) by simp
next
  fix m2 rt2 pl2 w2 assume "late_run = Some (Some (m2, rt2, pl2, w2))"
  then show ?thesis
    by (intro that[of m2 rt2 pl2 w2])
       (auto simp: program_run_def example_machine_ok late_world_ok intro: default_config_ok mem_start_wf flow_reach.start)
qed

text \<open>Main gets to its first join with no turn of another thread.\<close>

lemma quick_joins:
  fixes f :: "'u flow"
  assumes "n = length (fl_stages f)"
  obtains es s where "crew_run cfg pl es (crew_start f (main_actions n i False finite_calls)) = Some s" "between_calls cfg pl f s"
    "fresh f (cr_gated s)" "cr_main s = map Join [0, 1, 2] @ main_actions n i True []" "w_enabled (g_worker (cr_gated s) Source_thread)"
proof -
  let ?E = "map Ask (pipeline_request (length (fl_stages f)) i Enable)" and ?D = "map Ask (pipeline_request (length (fl_stages f)) i Disable)"
  let ?J = "map Join [0, 1, 2] @ main_actions n i True []" and ?s = "crew_start f (main_actions n i False finite_calls)"
  have m: "cr_main ?s = ?E @ Spawn # Spawn # Spawn # ?D @ ?E @ ?J"
    by (simp add: crew_start_def finite_calls_def assms)
  have b: "between_calls cfg pl f ?s" "fresh f (cr_gated ?s)"
    using crew_start_inv gated_start_idle gated_reach_start fresh_start by (auto simp: between_calls_def quiet_def crew_start_def)
  obtain es1 s1 where 1: "crew_run cfg pl es1 ?s = Some s1" "between_calls cfg pl f s1" "fresh f (cr_gated s1)"
    "cr_main s1 = Spawn # Spawn # Spawn # ?D @ ?E @ ?J" using quick_call[OF b _ m] by blast
  obtain es2 s2 where 2: "crew_run cfg pl es2 s1 = Some s2" "between_calls cfg pl f s2" "fresh f (cr_gated s2)"
    "cr_main s2 = Spawn # Spawn # ?D @ ?E @ ?J" using quick_spawn[OF 1(2-4)] by blast
  obtain es3 s3 where 3: "crew_run cfg pl es3 s2 = Some s3" "between_calls cfg pl f s3" "fresh f (cr_gated s3)"
    "cr_main s3 = Spawn # ?D @ ?E @ ?J" using quick_spawn[OF 2(2-4)] by blast
  obtain es4 s4 where 4: "crew_run cfg pl es4 s3 = Some s4" "between_calls cfg pl f s4" "fresh f (cr_gated s4)"
    "cr_main s4 = ?D @ ?E @ ?J" using quick_spawn[OF 3(2-4)] by blast
  obtain es5 s5 where 5: "crew_run cfg pl es5 s4 = Some s5" "between_calls cfg pl f s5" "fresh f (cr_gated s5)"
    "cr_main s5 = ?E @ ?J" using quick_call[OF 4(2,3) _ 4(4)] by blast
  obtain es6 s6 where 6: "crew_run cfg pl es6 s5 = Some s6" "between_calls cfg pl f s6" "fresh f (cr_gated s6)"
    "cr_main s6 = ?J" "granted Enable (g_worker (cr_gated s6) Source_thread)" using quick_call[OF 5(2,3) _ 5(4)] by blast
  note run = crew_run_trans[OF crew_run_trans[OF crew_run_trans[OF crew_run_trans[OF crew_run_trans[OF 1(1) 2(1)] 3(1)] 4(1)] 5(1)] 6(1)]
  show ?thesis by (rule that[OF run 6(2-4)]) (use 6(5) in \<open>simp add: granted_def\<close>)
qed

text \<open>There its source finishes.\<close>

lemma late_joins:
  obtains m2 rt2 pl2 w2 es s as where "late_run = Some (Some (m2, rt2, pl2, w2))" "all_granted m2"
    "crew_run default_config pl2 es (crew_start (flow_of m2 pl2 w2) (main_actions (n_stages pl2) i False finite_calls)) = Some s"
    "cr_main s = Join 0 # as" "ending Source_thread (cr_gated s)" "so_done (fl_source (g_flow (cr_gated s))) = 1"
    "length (fl_stages (flow_of m2 pl2 w2)) = 1"
proof -
  obtain m2 rt2 pl2 w2 where r: "late_run = Some (Some (m2, rt2, pl2, w2))"
    "program_run default_config Finite (mem_start (\<lambda>_. True)) (runtime_start (\<lambda>_. thrd_success)) late_world m2 rt2 pl2 w2 (flow_of m2 pl2 w2)"
    by (rule late_runs)
  let ?f = "flow_of m2 pl2 w2"
  obtain m0 bs0 bs1 pl where f: "flow_start default_config (two_pipes bs0 bs1) ?f" "n_stages pl2 = 1" "pipeline_usable pl2"
    "users_of (example_source (payload_of Finite)) [example_stage] example_sink ?f" "length bs0 = N_BUFFERS Finite"
    "\<forall>b. if b \<in> set (bs0 @ bs1) then \<exists>v. ex_blocks w2 b = Some (Some v) else ex_blocks w2 b = None"
    "ex_clock w2 = ex_clock late_world"
    "\<And>p. ex_data w2 (data_address p) = Some \<lparr>timestamp = microseconds (ex_clock late_world 0), iteration_index = 0\<rparr>"
    "all_granted (mem_start (\<lambda>_. True)) \<longrightarrow> all_granted m2"
    by (rule program_run_facts[OF r(2)]) blast
  have n: "n_stages pl2 = length (fl_stages ?f)" "length (fl_stages ?f) = 1"
    using f(2,3) by (simp_all add: flow_of_def pipeline_usable_def)
  obtain es s where s: "crew_run default_config pl2 es (crew_start ?f (main_actions (n_stages pl2) i False finite_calls)) = Some s"
    "between_calls default_config pl2 ?f s" "fresh ?f (cr_gated s)"
    "cr_main s = map Join [0, 1, 2] @ main_actions (n_stages pl2) i True []" "w_enabled (g_worker (cr_gated s) Source_thread)"
    by (rule quick_joins[OF n(1)])
  have B: "two_pipes bs0 bs1 0 \<noteq> {#}" using f(5) by (auto simp: two_pipes_def)
  have u: "so_process (so_user_data (fl_source ?f)) = Some source_payload_finite" "so_init (so_user_data (fl_source ?f)) = None"
    "so_self (so_context (fl_source ?f)) = data_address Source_part" "sh_user (fl_sh ?f) = w2"
    using f(4) by (simp_all add: users_of_def example_source_def flow_of_def)
  have fin: "snd (snd (source_payload_finite (sh_user (fl_sh ?f)) b c))"
    if "so_self c = so_self (so_context (fl_source ?f))" "so_output c \<in># two_pipes bs0 bs1 0" for b c
  proof -
    have "so_output c \<in> set (bs0 @ bs1)" using that(2) by (simp add: two_pipes_def)
    then obtain v where "ex_blocks w2 (so_output c) = Some (Some v)" using f(6) by meson
    from late_payload[OF f(7,8) _ this] that(1) u(3,4) show ?thesis by metis
  qed
  let ?g = "turns default_config (replicate 8 Source_thread) (cr_gated s)"
  from source_finishes_first[OF f(1) B s(3,5) u(1,2) fin] have e: "ending Source_thread ?g" "so_done (fl_source (g_flow ?g)) = 1" by blast+
  have q: "quiet s" "crew_inv (n_stages pl2) s" using s(2) by (simp_all add: between_calls_def)
  have "set (replicate 8 Source_thread) \<subseteq> flow_threads (g_flow (cr_gated s))" by (auto simp: flow_threads_def)
  then obtain gs where gs: "gated_run default_config gs (cr_gated s) = Some ?g" "requested gs = []" using turns_run by blast
  obtain es' s' where s': "crew_run default_config pl2 es' s = Some s'" "only_waits (s\<lparr>cr_gated := ?g, cr_main := cr_main s\<rparr>) s'"
    using play_run[OF gs(1) q, of "cr_main s"] gs(2) by auto
  have "cr_main s' = Join 0 # map Join [1, 2] @ main_actions (n_stages pl2) i True []" "cr_gated s' = ?g"
    using s'(2) s(4) by (simp_all add: only_waits_def)
  with e n(2) f(9) example_machine_ok(1) show ?thesis
    using that[OF r(1) _ crew_run_trans[OF s(1) s'(1)]] by simp
qed

end
