(* ===== verification/Example_Threads.thy ===== *)
theory Example_Threads
  imports Example_Properties Example_Late
begin

text \<open>
  The example programs as a whole: their main thread, the threads that the finite one creates to wait, and the
  pipeline's threads with their workers, in any interleaving (theories Example_Waits, Example_Joins and Example_Late).
\<close>

section \<open>The calls of the programs\<close>

text \<open>\<open>keys\<close> are the answers that the menu of the infinite program gets.\<close>

fun program_calls :: "program \<Rightarrow> char list \<Rightarrow> main_call list" where
  "program_calls Finite keys = finite_calls"
| "program_calls Infinite keys = infinite_calls keys"

lemma program_balanced: "balanced [] (program_calls prog keys)"
  using finite_balanced infinite_balanced by (cases prog) simp_all

text \<open>What the finite program does before its joins.\<close>

definition finite_actions :: "nat \<Rightarrow> nat \<Rightarrow> main_action list" where
  "finite_actions n i = map Ask (pipeline_request n i Enable) @ [Spawn, Spawn, Spawn] @
     map Ask (pipeline_request n i Disable) @ map Ask (pipeline_request n i Enable)"

lemma finite_main:
  "main_actions n i False finite_calls = finite_actions n i @ map Join [0, 1, 2] @ main_actions n i True []"
  by (simp add: finite_calls_def finite_actions_def)

lemma finite_actions_facts:
  "asks (finite_actions n i) = concat (map (pipeline_request n i) ([Enable, Disable] @ [Enable]))"
  "\<forall>j. Join j \<notin> set (finite_actions n i)" "Set_destroying \<notin> set (finite_actions n i)"
  "length (filter (\<lambda>a. a = Spawn) (finite_actions n i)) = 3"
proof -
  have "filter (\<lambda>a. a = Spawn) (map Ask es) = []" for es by (simp add: filter_empty_conv)
  then show "length (filter (\<lambda>a. a = Spawn) (finite_actions n i)) = 3" by (simp add: finite_actions_def)
qed (auto simp: finite_actions_def asks_append)

lemma calls_joins: "Join_wait j \<in> set cs \<Longrightarrow> Join j \<in> set (main_actions n i a cs)"
  by (induction n i a cs rule: main_actions.induct) auto

lemma joins_calls: "Join j \<in> set (main_actions n i a cs) \<Longrightarrow> Join_wait j \<in> set cs"
  by (induction n i a cs rule: main_actions.induct) (auto split: if_splits)

lemma calls_spawns: "length (filter (\<lambda>a. a = Spawn) (main_actions n i a cs)) = length (filter (\<lambda>c. c = Create_wait) cs)"
proof -
  have "filter (\<lambda>a. a = Spawn) (map Ask es) = []" for es by (simp add: filter_empty_conv)
  then show ?thesis by (induction n i a cs rule: main_actions.induct) simp_all
qed

text \<open>Every thread the programs create they join.\<close>

lemma created_joined: "j < length (filter (\<lambda>c. c = Create_wait) (program_calls prog keys)) \<Longrightarrow> Join_wait j \<in> set (program_calls prog keys)"
proof (cases prog)
  case Finite
  assume "j < length (filter (\<lambda>c. c = Create_wait) (program_calls prog keys))"
  then have "j < 3" using Finite by (simp add: finite_calls_def)
  then show ?thesis using Finite by (auto simp: finite_calls_def less_Suc_eq numeral_eq_Suc)
next
  case Infinite
  have "filter (\<lambda>c. c = Create_wait) (infinite_calls keys) = []" by (auto simp: filter_empty_conv infinite_calls_def)
  moreover assume "j < length (filter (\<lambda>c. c = Create_wait) (program_calls prog keys))"
  ultimately show ?thesis using Infinite by simp
qed

text \<open>Main at the end of its calls: its waiting threads have returned, its requests are granted.\<close>

lemma crew_end:
  assumes start: "flow_start cfg B f" and n: "n_stages pl = length (fl_stages f)"
    and run: "crew_run cfg pl es (crew_start f (main_actions (n_stages pl) i False (program_calls prog keys))) = Some s" and fin: "cr_main s = []"
  shows "\<forall>j. Join_wait j \<in> set (program_calls prog keys) \<longrightarrow> j < length (cr_waits s) \<and> returned (cr_waits s ! j)"
    "\<forall>p \<in> set (cr_waits s). p = Wait_returned MTDP_OK"
    "gated_reach cfg f (cr_gated s) \<and> all_idle (cr_gated s) \<and> (\<forall>t \<in> flow_threads f. granted Destroy (g_worker (cr_gated s) t))"
proof -
  let ?cs = "program_calls prog keys"
  let ?as = "main_actions (n_stages pl) i False ?cs"
  let ?k = "length (filter (\<lambda>c. c = Create_wait) ?cs)"
  have "joined ?k ?as (crew_start f ?as)" by (simp add: joined_def crew_start_def calls_spawns)
  from crew_run_joined[OF run this] have j: "length (cr_waits s) = ?k" "\<forall>j. Join j \<in> set ?as \<longrightarrow> j < length (cr_waits s) \<and> returned (cr_waits s ! j)"
    unfolding joined_def fin by auto
  show r: "\<forall>j. Join_wait j \<in> set ?cs \<longrightarrow> j < length (cr_waits s) \<and> returned (cr_waits s ! j)" using j(2) calls_joins by blast
  have "crew_inv (n_stages pl) s" by (rule crew_run_inv[OF run crew_start_inv])
  then have ok: "\<forall>p \<in> set (cr_waits s). \<forall>e. p = Wait_returned e \<longrightarrow> e = MTDP_OK" by (simp add: crew_inv_def wait_ok_def)
  have "returned p" if "p \<in> set (cr_waits s)" for p using that r created_joined[of _ prog keys] j(1) by (metis in_set_conv_nth)
  then have "\<exists>e. p = Wait_returned e" if "p \<in> set (cr_waits s)" for p
    using that by (cases p) (fastforce simp: returned_def)+
  with ok show "\<forall>p \<in> set (cr_waits s). p = Wait_returned MTDP_OK" by blast
  have "\<forall>e \<in> set (asks (cr_main (crew_start f ?as))). \<not> own_event e"
    using pipeline_request_foreign by (auto simp: crew_start_def main_actions_asks)
  from crew_run_gated[OF run this] obtain ges where ges: "gated_run cfg ges (gated_start f) = Some (cr_gated s)"
    "requested ges = concat (map (pipeline_request (n_stages pl) i) (main_requests False ?cs))"
    by (auto simp: fin crew_start_def main_actions_asks)
  obtain rs where "main_requests False ?cs = rs @ [Destroy]" using main_requests_last by blast
  with ges(2) n have "requested ges = concat (map (pipeline_request (length (fl_stages f)) i) (rs @ [Destroy]))" by simp
  from requests_all[OF gated_reach_start gated_start_idle ges(1) this]
  show "gated_reach cfg f (cr_gated s) \<and> all_idle (cr_gated s) \<and> (\<forall>t \<in> flow_threads f. granted Destroy (g_worker (cr_gated s) t))" .
qed

text \<open>Main gets to its joins, or through all its calls if it has none.\<close>

lemma crew_gets:
  assumes start: "flow_start cfg B f" and n: "n_stages pl = length (fl_stages f)"
  shows "\<exists>es s. crew_run cfg pl es (crew_start f (main_actions (n_stages pl) i False (program_calls prog keys))) = Some s \<and>
    (case prog of Finite \<Rightarrow> \<exists>as. cr_main s = Join 0 # as | Infinite \<Rightarrow> cr_main s = [])"
proof -
  let ?s = "crew_start f (main_actions (n_stages pl) i False (program_calls prog keys))"
  have b: "between_calls cfg pl f ?s"
    using crew_start_inv gated_start_idle
    by (auto simp: between_calls_def quiet_def crew_start_def gated_reach_def intro: exI[of _ "[]"])
  show ?thesis
  proof (cases prog)
    case Finite
    have "cr_main ?s = main_actions (length (fl_stages f)) i False
        ([Call_start, Create_wait, Create_wait, Create_wait, Call_stop, Call_start] @ [Join_wait 0, Join_wait 1, Join_wait 2])"
      by (simp add: crew_start_def Finite finite_calls_def n)
    from calls_played[OF start refl b this] show ?thesis using Finite by fastforce
  next
    case Infinite
    have m: "cr_main ?s = main_actions (length (fl_stages f)) i False (infinite_calls keys @ [])"
      by (simp add: crew_start_def Infinite n)
    obtain es s a where s: "crew_run cfg pl es ?s = Some s" "between_calls cfg pl f s" "cr_main s = main_actions (length (fl_stages f)) i a []"
      using calls_played[OF start refl b m] infinite_balanced(2) by blast
    from disable_played[OF start s(2,3)] show ?thesis using crew_run_trans[OF s(1)] Infinite by fastforce
  qed
qed

lemma program_joins:
  assumes start: "flow_start cfg B f" and n: "n_stages pl = length (fl_stages f)"
    and run: "crew_run cfg pl es (crew_start f (main_actions (n_stages pl) i False (program_calls prog keys))) = Some s" "cr_main s = Join j # as"
  obtains js a where "at_joins cfg pl f js s" "cr_main s = map Join js @ main_actions (n_stages pl) i a []"
proof (cases prog)
  case Finite
  have r: "crew_run cfg pl es (crew_start f (finite_actions (n_stages pl) i @ map Join [0, 1, 2] @ main_actions (n_stages pl) i True [])) = Some s"
    using run(1) Finite by (simp only: program_calls.simps finite_main)
  have js: "\<forall>j \<in> set [0, 1, 2]. j < length (filter (\<lambda>a. a = Spawn) (finite_actions (n_stages pl) i))" by (simp add: finite_actions_facts(4))
  show ?thesis
    by (rule crew_at_joins[OF n r finite_actions_facts(1) _ finite_actions_facts(2) js finite_actions_facts(3) run(2)]) (use that in auto)
next
  case Infinite
  obtain xs where "main_actions (n_stages pl) i False (infinite_calls keys) = xs @ Join j # as"
    using crew_run_main[OF run(1)] run(2) Infinite by (auto simp: crew_start_def)
  then have "Join j \<in> set (main_actions (n_stages pl) i False (infinite_calls keys))" by simp
  then have "Join_wait j \<in> set (infinite_calls keys)" by (rule joins_calls)
  then show ?thesis using infinite_balanced(2) by blast
qed

text \<open>The pipeline that a program has enabled.\<close>

lemma program_flow:
  assumes "program_run cfg prog m rt w m2 rt2 pl2 w2 s"
  obtains B where "flow_start cfg B (flow_of m2 pl2 w2)" "hands_on (flow_of m2 pl2 w2)"
    "\<forall>k \<le> length (fl_stages (flow_of m2 pl2 w2)). B k \<noteq> {#}" "n_stages pl2 = length (fl_stages (flow_of m2 pl2 w2))"
proof -
  obtain m0 bs0 bs1 pl where f: "flow_start cfg (two_pipes bs0 bs1) (flow_of m2 pl2 w2)" "n_stages pl2 = 1"
    "pipeline_usable pl2" "hands_on (flow_of m2 pl2 w2)" "length bs0 = N_BUFFERS prog" "length bs1 = N_BUFFERS prog"
    by (rule program_run_facts[OF assms]) blast
  have l: "length (fl_stages (flow_of m2 pl2 w2)) = 1" using f(2,3) by (simp add: flow_of_def pipeline_usable_def)
  show ?thesis by (rule that[OF f(1,4)]) (use l f(2,5,6) program_ok(2)[of prog] in \<open>auto simp: two_pipes_def\<close>)
qed

section \<open>The end\<close>

text \<open>C15. How the example programs end, on the day they were started, every call of the runtime succeeding: the
  set-up gives up, never when all allocations are granted, or enables the pipeline. Then the finite
  program can get to its first join, and the infinite one through its calls and the destroying of the workers.
  A join waits for its thread: whenever the finite program stands at one, however it got there, and the
  source has finished, it can get through all its joins and the destroying of the workers, if all
  allocations are granted. Whenever a program has got through that, however all its threads have
  interleaved, the threads it created to wait have all returned from \<open>mtdp_pipeline_wait\<close> with \<open>MTDP_OK\<close>, and every
  schedule with eleven turns for each thread of the pipeline ends these. Joining them, freeing all
  buffers and destroying the pipeline is then defined, frees every block once, gives back all memory, locks
  and threads, and reports \<open>MTDP_OK\<close>. (A finite program whose source never finishes stays at its joins.)\<close>

theorem program_ends:
  assumes "config_ok cfg" "mem_wf m" "runtime_ok rt" "example_begin w" "same_day w"
  shows "case example_setup cfg raw raw_impl raw_pipe (N_BUFFERS prog) (payload_of prog) m rt w of
      None \<Rightarrow> False
    | Some None \<Rightarrow> \<not> (all_granted m \<and> (\<forall>j. ex_grant w j))
    | Some (Some (m2, rt2, pl2, w2)) \<Rightarrow> (let f = flow_of m2 pl2 w2; cs = program_calls prog keys;
          s0 = crew_start f (main_actions (n_stages pl2) i False cs) in
        (\<exists>es s. crew_run cfg pl2 es s0 = Some s \<and> (case prog of Finite \<Rightarrow> \<exists>as. cr_main s = Join 0 # as | Infinite \<Rightarrow> cr_main s = [])) \<and>
        (\<forall>es s j as. crew_run cfg pl2 es s0 = Some s \<longrightarrow> cr_main s = Join j # as \<longrightarrow> all_granted m2 \<longrightarrow>
           ending Source_thread (cr_gated s) \<longrightarrow> so_done (fl_source (g_flow (cr_gated s))) = 1 \<longrightarrow>
           (\<exists>es' s'. crew_run cfg pl2 es' s = Some s' \<and> cr_main s' = [])) \<and>
        (\<forall>es s ts. crew_run cfg pl2 es s0 = Some s \<longrightarrow> cr_main s = [] \<longrightarrow>
           set ts \<subseteq> flow_threads f \<longrightarrow> (\<forall>t \<in> flow_threads f. 11 \<le> count_list ts t) \<longrightarrow>
           (\<forall>p \<in> set (cr_waits s). p = Wait_returned MTDP_OK) \<and>
           (\<forall>t \<in> flow_threads f. pc (g_worker (turns cfg ts (cr_gated s)) t) = W_Exited) \<and>
           (\<exists>m' rt' w'. example_end cfg (N_BUFFERS prog) (cr_waits s) cs (g_flow (turns cfg ts (cr_gated s))) m2 rt2 pl2 = Some (m', rt', w') \<and>
              ex_blocks w' = Map.empty \<and> heap m' = heap m \<and> live m' = live m \<and> syncs m' = syncs m \<and>
              threads rt' = threads rt \<and> errno rt' = MTDP_OK)))"
proof (cases rule: example_setup_cases[OF assms(1-3) program_ok(2) program_ok(1) assms(4), of raw raw_impl raw_pipe prog prog,
      case_names exited enabled])
  case (enabled m2 rt2 pl2 w2 bs0 bs1)
  let ?f = "flow_of m2 pl2 w2" and ?cs = "program_calls prog keys"
  let ?s0 = "crew_start ?f (main_actions (n_stages pl2) i False ?cs)"
  have run: "program_run cfg prog m rt w m2 rt2 pl2 w2 s" if "flow_reach cfg ?f s" for s
    unfolding program_run_def using assms enabled(1) that by blast
  obtain B where fs: "flow_start cfg B ?f" "hands_on ?f" "\<forall>k \<le> length (fl_stages ?f). B k \<noteq> {#}" "n_stages pl2 = length (fl_stages ?f)"
    by (rule program_flow[OF run[OF flow_reach.start]])
  have gets: "\<exists>es s. crew_run cfg pl2 es ?s0 = Some s \<and> (case prog of Finite \<Rightarrow> \<exists>as. cr_main s = Join 0 # as | Infinite \<Rightarrow> cr_main s = [])"
    by (rule crew_gets[OF fs(1,4)])
  have joins: "\<exists>es' s'. crew_run cfg pl2 es' s = Some s' \<and> cr_main s' = []"
    if q: "crew_run cfg pl2 es ?s0 = Some s" "cr_main s = Join j # as" "all_granted m2"
      "ending Source_thread (cr_gated s)" "so_done (fl_source (g_flow (cr_gated s))) = 1" for es s j as
  proof -
    obtain js a where "at_joins cfg pl2 ?f js s" "cr_main s = map Join js @ main_actions (n_stages pl2) i a []"
      by (rule program_joins[OF fs(1,4) q(1,2)])
    from joins_played[OF fs(1-3) _ fs(4) this q(4,5)] q(3) show ?thesis by (simp add: all_granted_def flow_of_def)
  qed
  have ends: "(\<forall>p \<in> set (cr_waits s). p = Wait_returned MTDP_OK) \<and>
      (\<forall>t \<in> flow_threads ?f. pc (g_worker (turns cfg ts (cr_gated s)) t) = W_Exited) \<and>
      (\<exists>m' rt' w'. example_end cfg (N_BUFFERS prog) (cr_waits s) ?cs (g_flow (turns cfg ts (cr_gated s))) m2 rt2 pl2 = Some (m', rt', w') \<and>
         ex_blocks w' = Map.empty \<and> heap m' = heap m \<and> live m' = live m \<and> syncs m' = syncs m \<and>
         threads rt' = threads rt \<and> errno rt' = MTDP_OK)"
    if q: "crew_run cfg pl2 es ?s0 = Some s" "cr_main s = []" "set ts \<subseteq> flow_threads ?f"
      "\<forall>t \<in> flow_threads ?f. 11 \<le> count_list ts t" for es s ts
  proof -
    note e = crew_end[OF fs(1,4) q(1,2)]
    from e(3) have d: "gated_reach cfg ?f (cr_gated s)" "all_idle (cr_gated s)"
      "\<forall>t \<in> flow_threads ?f. granted Destroy (g_worker (cr_gated s) t)" by blast+
    note x = destroyed_end[OF fs(1) d q(3,4)]
    from program_end_ok[OF run[OF gated_reach_flow[OF x(1)]] assms(5) x(3) program_balanced e(1)] x(2) e(2) show ?thesis by blast
  qed
  show ?thesis unfolding enabled(1) Let_def option.case prod.case using gets joins ends by blast
next
  case exited
  then show ?thesis by simp
qed

text \<open>The finite program where ten seconds pass before its source runs.\<close>

theorem program_ends_witness:
  "\<exists>m2 rt2 pl2 w2 es s as es' s' m' rt' w'. late_run = Some (Some (m2, rt2, pl2, w2)) \<and>
     crew_run default_config pl2 es (crew_start (flow_of m2 pl2 w2) (main_actions (n_stages pl2) 0 False finite_calls)) = Some s \<and>
     cr_main s = Join 0 # as \<and> crew_run default_config pl2 es' s = Some s' \<and> cr_main s' = [] \<and>
     example_end default_config 32 (cr_waits s') finite_calls (g_flow (turns default_config demo_schedule (cr_gated s'))) m2 rt2 pl2 =
       Some (m', rt', w') \<and>
     ex_blocks w' = Map.empty \<and> heap m' = Map.empty \<and> live m' = 0 \<and> errno rt' = MTDP_OK"
proof -
  obtain m2 rt2 pl2 w2 es s as where r: "late_run = Some (Some (m2, rt2, pl2, w2))" "all_granted m2"
    "crew_run default_config pl2 es (crew_start (flow_of m2 pl2 w2) (main_actions (n_stages pl2) 0 False finite_calls)) = Some s"
    "cr_main s = Join 0 # as" "ending Source_thread (cr_gated s)" "so_done (fl_source (g_flow (cr_gated s))) = 1"
    "length (fl_stages (flow_of m2 pl2 w2)) = 1"
    by (rule late_joins)
  note e = program_ends[OF default_config_ok mem_start_wf[of "\<lambda>_. True"] example_machine_ok(2) late_world_ok(1,2),
      where raw = raw_example and raw_impl = raw_stage_impl and raw_pipe = pipe_blank and prog = Finite and i = 0 and keys = "[]",
      unfolded r(1) Let_def option.case prod.case program_calls.simps]
  obtain es' s' where s': "crew_run default_config pl2 es' s = Some s'" "cr_main s' = []"
    using conjunct1[OF conjunct2[OF e]] r(2-6) by blast
  note run = crew_run_trans[OF r(3) s'(1)]
  obtain m' rt' w' where "example_end default_config (N_BUFFERS Finite) (cr_waits s') finite_calls
      (g_flow (turns default_config demo_schedule (cr_gated s'))) m2 rt2 pl2 = Some (m', rt', w')" "ex_blocks w' = Map.empty"
    "heap m' = heap (mem_start (\<lambda>_. True))" "live m' = live (mem_start (\<lambda>_. True))" "errno rt' = MTDP_OK"
    using conjunct2[OF conjunct2[OF e]] run s'(2) demo_schedule[OF r(7)] by blast
  with r(1,3,4) s' show ?thesis by (fastforce simp: mem_start_def)
qed

end
