(* ===== verification/Example_Menu.thy ===== *)
theory Example_Menu
  imports Example_Runs
begin

text \<open>
  The menu of \<open>infinite_datastream.c\<close>: the loop over the program's rounds ends with the first of the
  keys \<open>x\<close>, \<open>q\<close> and \<open>d\<close>, and does not end without one: at the end of the input \<open>getchar\<close> returns
  \<open>EOF\<close> for ever, and the loop takes it for one more wrong key. The text of the menu is not modelled.
\<close>

section \<open>The loops\<close>

text \<open>\<open>(char) getchar()\<close>, where the standard input has the characters \<open>inp\<close> left.\<close>

fun get_char :: "char list \<Rightarrow> char \<times> char list" where
  "get_char [] = (CHR 0xFF, [])"
| "get_char (c # cs) = (c, cs)"

text \<open>\<open>while((c = (char) getchar()) == '\n') {}\<close>\<close>

partial_function (option) read_key :: "char list \<Rightarrow> (char \<times> char list) option" where
  "read_key inp = (case get_char inp of (c, inp) \<Rightarrow> if c = CHR 0x0A then read_key inp else Some (c, inp))"

definition menu_key :: "char \<Rightarrow> bool" where
  "menu_key c \<longleftrightarrow> c = CHR ''r'' \<or> c = CHR ''x'' \<or> c = CHR ''q'' \<or> c = CHR ''d''"

definition last_key :: "char \<Rightarrow> bool" where
  "last_key c \<longleftrightarrow> c = CHR ''x'' \<or> c = CHR ''q'' \<or> c = CHR ''d''"

partial_function (option) menu :: "char \<Rightarrow> char list \<Rightarrow> (char \<times> char list) option" where
  "menu c inp = (if menu_key c then Some (c, inp) else do { (c, inp) \<leftarrow> read_key inp; menu c inp })"

text \<open>The outer loop; \<open>keys\<close> are the answers of the rounds before.\<close>

partial_function (option) rounds :: "char list \<Rightarrow> char list \<Rightarrow> (char list \<times> char list) option" where
  "rounds keys inp = do {
     (c, inp) \<leftarrow> menu (CHR 0x00) inp;
     if last_key c then Some (keys @ [c], inp) else rounds (keys @ [c]) inp }"

text \<open>From the enabled pipeline to the end of the program: the rounds, steps 7 to 9, and the wait for
  the user to press enter. The result is the program's state and the input it has left.

  \<open>fflush(stdin)\<close> is undefined in ISO C; POSIX defines it for a stream that reads, and there what has not been
  read is still to be read.\<close>

definition fflush_stdin :: "char list \<Rightarrow> char list" where
  "fflush_stdin inp = inp"

definition final_pause :: "char \<Rightarrow> char list \<Rightarrow> char list" where
  "final_pause c inp =
    (if c \<noteq> CHR ''q'' then (case get_char (fflush_stdin inp) of (a, inp) \<Rightarrow> if a = CHR 0x0A then snd (get_char inp) else inp) else inp)"

definition infinite_rest :: "fifo_config \<Rightarrow> char list \<Rightarrow> example flow \<Rightarrow> mem \<Rightarrow> runtime \<Rightarrow> example mtdp_pipeline \<Rightarrow>
    (mem \<times> runtime \<times> example \<times> char list) option" where
  "infinite_rest cfg inp s m rt pl = do {
     (keys, inp) \<leftarrow> rounds [] inp;
     (m, rt, w) \<leftarrow> example_end cfg (N_BUFFERS Infinite) [] (infinite_calls keys) s m rt pl;
     Some (m, rt, w, final_pause (last keys) inp) }"

section \<open>What the loops compute\<close>

lemma read_key_skips: "read_key inp = Some (get_char (dropWhile (\<lambda>c. c = CHR 0x0A) inp))"
  by (induction inp) (subst read_key.simps; simp)+

lemma menu_hangs: "menu c inp = Some r \<Longrightarrow> menu_key c \<or> (\<exists>k \<in> set inp. menu_key k)"
proof (rule menu.raw_induct[of "\<lambda>c inp r. menu_key c \<or> (\<exists>k \<in> set inp. menu_key k)"])
  fix m :: "char \<Rightarrow> char list \<Rightarrow> (char \<times> char list) option" and c inp r
  assume IH: "\<And>c inp r. m c inp = Some r \<Longrightarrow> menu_key c \<or> (\<exists>k \<in> set inp. menu_key k)"
    and e: "(if menu_key c then Some (c, inp) else do { (c, inp) \<leftarrow> read_key inp; m c inp }) = Some r"
  show "menu_key c \<or> (\<exists>k \<in> set inp. menu_key k)"
  proof (cases "menu_key c")
    case False
    let ?i = "dropWhile (\<lambda>c. c = CHR 0x0A) inp"
    have "menu_key (fst (get_char ?i)) \<or> (\<exists>k \<in> set (snd (get_char ?i)). menu_key k)"
      using e False by (auto simp: read_key_skips case_prod_unfold dest: IH)
    moreover have "\<not> menu_key (CHR 0xFF)" by (simp add: menu_key_def)
    ultimately have "\<exists>k \<in> set ?i. menu_key k" by (cases ?i) auto
    then show ?thesis by (auto dest: set_dropWhileD)
  qed simp
qed

lemma menu_eq:
  "menu c inp = (if menu_key c then Some (c, inp)
     else case dropWhile (\<lambda>k. \<not> menu_key k) inp of [] \<Rightarrow> None | k # rest \<Rightarrow> Some (k, rest))"
proof (induction "length inp" arbitrary: c inp rule: less_induct)
  case less
  have nl: "\<not> menu_key (CHR 0x0A)" by (simp add: menu_key_def)
  let ?i = "dropWhile (\<lambda>c. c = CHR 0x0A) inp"
  have i: "dropWhile (\<lambda>k. \<not> menu_key k) inp = dropWhile (\<lambda>k. \<not> menu_key k) ?i"
    by (induction inp) (use nl in auto)
  show ?case
  proof (cases "menu_key c")
    case True
    then show ?thesis by (subst menu.simps) simp
  next
    case False
    show ?thesis
    proof (cases ?i)
      case Nil
      then have all: "\<forall>k \<in> set inp. k = CHR 0x0A" unfolding dropWhile_eq_Nil_conv .
      have "\<forall>k \<in> set inp. \<not> menu_key k" by (rule ballI, drule all[rule_format], simp only: nl simp_thms)
      then have "menu c inp \<noteq> Some r" for r using menu_hangs[of c inp r] False by blast
      then have "menu c inp = None" by (cases "menu c inp") blast+
      moreover have "dropWhile (\<lambda>k. \<not> menu_key k) inp = []" using i[unfolded Nil] by (simp only: dropWhile.simps)
      ultimately show ?thesis using False by (simp only: if_False list.case)
    next
      case (Cons k ks)
      have "length ks < length inp" using Cons length_dropWhile_le[of "\<lambda>c. c = CHR 0x0A" inp] by simp
      from less.hyps[OF this, of k] show ?thesis using False i[unfolded Cons]
        by (subst menu.simps) (simp add: read_key_skips Cons)
    qed
  qed
qed

lemma rounds_eq:
  "rounds keys inp = (case dropWhile (\<lambda>k. \<not> last_key k) inp of
     [] \<Rightarrow> None | k # rest \<Rightarrow> Some (keys @ filter menu_key (takeWhile (\<lambda>k. \<not> last_key k) inp) @ [k], rest))"
proof (induction "length inp" arbitrary: keys inp rule: less_induct)
  case less
  have sub: "menu_key k" if "last_key k" for k using that by (auto simp: menu_key_def last_key_def)
  have z: "\<not> menu_key (CHR 0x00)" by (simp add: menu_key_def)
  let ?ys = "takeWhile (\<lambda>k. \<not> menu_key k) inp"
  have ys: "\<forall>k \<in> set ?ys. \<not> menu_key k" by (auto dest: set_takeWhileD)
  then have yl: "\<forall>k \<in> set ?ys. \<not> last_key k" using sub by blast
  show ?case
  proof (cases "dropWhile (\<lambda>k. \<not> menu_key k) inp")
    case Nil
    then have "\<forall>k \<in> set inp. \<not> last_key k" using sub by (auto simp: dropWhile_eq_Nil_conv)
    then have Nil': "dropWhile (\<lambda>k. \<not> last_key k) inp = []" by (simp add: dropWhile_eq_Nil_conv)
    moreover have "menu (CHR 0x00) inp = None" unfolding menu_eq Nil using z by simp
    ultimately show ?thesis using Nil' by (subst rounds.simps) (simp only: bind.simps list.case)
  next
    case (Cons k ks)
    have inp: "inp = ?ys @ k # ks" using Cons takeWhile_dropWhile_id[of "\<lambda>k. \<not> menu_key k" inp] by simp
    have k: "menu_key k" using Cons hd_dropWhile[of "\<lambda>k. \<not> menu_key k" inp] by simp
    have m: "menu (CHR 0x00) inp = Some (k, ks)" using Cons z by (simp add: menu_eq)
    have e: "dropWhile (\<lambda>k. \<not> last_key k) inp = dropWhile (\<lambda>k. \<not> last_key k) (k # ks)"
      "takeWhile (\<lambda>k. \<not> last_key k) inp = ?ys @ takeWhile (\<lambda>k. \<not> last_key k) (k # ks)" "filter menu_key ?ys = []"
      by (subst inp, use yl in simp, subst inp, use yl in simp, use ys in simp)
    have "length ks < length inp" by (subst inp) simp
    from less.hyps[OF this, of "keys @ [k]"] show ?thesis
      using m k e by (cases "dropWhile (\<lambda>k. \<not> last_key k) ks"; subst rounds.simps) (simp_all del: dropWhile_eq_Nil_conv)
  qed
qed


section \<open>Properties\<close>

text \<open>C26. The main loop of the infinite program ends exactly when one of the keys \<open>x\<close>, \<open>q\<close> and \<open>d\<close> is
  in the rest of its input (it runs for ever when the input ends before), and then the whole
  program ends clean, having started and stopped the pipeline once for each menu key up to this one.\<close>

theorem infinite_ends:
  assumes "program_run cfg Infinite m rt w m2 rt2 pl2 w2 s" "same_day w" "at_rest s"
  shows "case dropWhile (\<lambda>k. \<not> last_key k) inp of
      [] \<Rightarrow> rounds [] inp = None \<and> infinite_rest cfg inp s m2 rt2 pl2 = None
    | c # rest \<Rightarrow> rounds [] inp = Some (filter menu_key (takeWhile (\<lambda>k. \<not> last_key k) inp) @ [c], rest) \<and>
        (\<exists>m' rt' w'. infinite_rest cfg inp s m2 rt2 pl2 = Some (m', rt', w', final_pause c rest) \<and> ex_blocks w' = Map.empty \<and>
           heap m' = heap m \<and> live m' = live m \<and> syncs m' = syncs m \<and> threads rt' = threads rt \<and> errno rt' = MTDP_OK)"
proof (cases "dropWhile (\<lambda>k. \<not> last_key k) inp")
  case Nil
  then show ?thesis by (simp only: infinite_rest_def rounds_eq list.case bind.simps simp_thms)
next
  case (Cons c rest)
  obtain m' rt' w' where e: "example_end cfg (N_BUFFERS Infinite) []
      (infinite_calls (filter menu_key (takeWhile (\<lambda>k. \<not> last_key k) inp) @ [c])) s m2 rt2 pl2 = Some (m', rt', w')"
    "ex_blocks w' = Map.empty" "heap m' = heap m" "live m' = live m" "syncs m' = syncs m" "threads rt' = threads rt" "errno rt' = MTDP_OK"
    using program_end_ok[OF assms infinite_balanced(1), of _ "[]"] infinite_balanced(2) by metis
  then show ?thesis unfolding infinite_rest_def rounds_eq Cons by simp
qed

theorem infinite_ends_witness:
  "\<exists>m2 rt2 pl2 w2 r. example_run Infinite = Some (Some (m2, rt2, pl2, w2)) \<and>
     infinite_rest default_config ''r?x!'' (flow_of m2 pl2 w2) m2 rt2 pl2 = Some r \<and> snd (snd (snd r)) = [] \<and>
     infinite_rest default_config ''r?'' (flow_of m2 pl2 w2) m2 rt2 pl2 = None"
proof -
  obtain m2 rt2 pl2 w2 where r: "example_run Infinite = Some (Some (m2, rt2, pl2, w2))"
    "program_run default_config Infinite (mem_start (\<lambda>_. True)) (runtime_start (\<lambda>_. thrd_success)) example_world m2 rt2 pl2 w2 (flow_of m2 pl2 w2)"
    by (rule example_runs)
  have rest: "at_rest (flow_of m2 pl2 w2)" by (simp add: at_rest_def flow_of_def)
  from infinite_ends[OF r(2) example_world_ok(2) rest, of "''r?x!''"] infinite_ends[OF r(2) example_world_ok(2) rest, of "''r?''"]
  show ?thesis using r(1) by (auto simp: last_key_def final_pause_def fflush_stdin_def)
qed

end
