(* ===== verification/Stream_End.thy ===== *)
theory Stream_End
  imports Gated_Properties Gated_Words
begin

text \<open>What the user of a pipeline sees of the end of its stream: \<open>mtdp_pipeline_wait\<close> returns.\<close>

text \<open>C9. A stream ends, and the wait for it too. Take a pipeline in which every pipe has at least one buffer,
  every request of memory is granted, and the callbacks hand every buffer on: a stage's callback sets both its
  flags, \<open>ready_to_pull\<close> and \<open>ready_to_push\<close>, and the sink's its \<open>ready_to_pull\<close>, each time, leaving the rest of the context
  alone, and both begin ready to pull (\<open>hands_on\<close>). Take any state its
  threads can reach in which no iteration of the source is under way and none will follow, its callback having called
  \<open>mtdp_source_finished\<close> or its worker being destroyed (\<open>ending\<close>), the source's \<open>done\<close>
  word is set, and the workers of the stages and the sink are enabled and not destroyed. Then some schedule of the stages
  and the sink brings every buffer pushed through the sink's callback and sets every \<open>done\<close> word. From
  then on, whatever any thread does and whatever is called on the workers, as long as nobody else
  writes a \<open>done\<close> word, no buffer is left in the pipes or in the sink and the words stay set; and a thread in
  \<open>mtdp_pipeline_wait\<close> that finds these words with all their rings delivered, \<open>enabled\<close> set and \<open>destroying\<close> not set,
  returns \<open>MTDP_OK\<close> within \<open>2 * n_stages + 6\<close> of its own steps.\<close>

theorem pipeline_finishes:
  assumes "flow_start cfg B f" "hands_on f" "\<forall>k \<le> length (fl_stages f). B k \<noteq> {#}" "\<forall>n. avail (sh_mem (fl_sh f)) n"
    and "gated_reach cfg f s" "ending Source_thread s" "so_done (fl_source (g_flow s)) = 1"
    and "\<forall>t \<in> flow_threads f - {Source_thread}. on_duty s t"
  shows "\<exists>ts. set ts \<subseteq> flow_threads f - {Source_thread} \<and>
    (\<forall>es s'. gated_run cfg es (turns cfg ts s) = Some s' \<and> (\<forall>t d. Done_word t d \<notin> set es) \<longrightarrow>
      (\<forall>k \<le> length (fl_stages f). length (pulled (g_flow s') k) = length (pushed (g_flow s) 0)) \<and> sk_at (g_flow s') \<noteq> Sk_Process \<and>
      (\<forall>n clr w intrs. n = length (fl_stages f) \<and> wait_reach n clr w \<and> ws_enabled w \<and> (\<forall>b. unrung (ws_bells w) b = 0) \<and>
         wd (ws_bells w) = flow_words 0 (g_flow s') \<and> (\<forall>e. ws_at w \<noteq> Wait_returned e) \<and> 2 * n + 6 \<le> length intrs \<longrightarrow>
         wait_run n (ws_enabled w) (wd (ws_bells w)) intrs (ws_at w) = Wait_returned MTDP_OK))"
proof -
  obtain ts where ts: "set ts \<subseteq> flow_threads f - {Source_thread}" "over cfg B (turns cfg ts s)"
    "pushed (g_flow (turns cfg ts s)) 0 = pushed (g_flow s) 0" by (rule workers_end_stream[OF assms])
  have n: "length (fl_stages (g_flow (turns cfg ts s))) = length (fl_stages f)"
    using turns_reach[OF assms(5)] ts(1) gated_reach_stages by blast
  show ?thesis
  proof (intro exI[of _ ts] conjI ts(1) allI impI)
    fix es s' assume run: "gated_run cfg es (turns cfg ts s) = Some s' \<and> (\<forall>t d. Done_word t d \<notin> set es)"
    then have ov: "over cfg B s'" "pushed (g_flow s') 0 = pushed (g_flow s) 0" using run_over ts(2,3) by metis+
    have len: "length (fl_stages (g_flow s')) = length (fl_stages f)"
      using run n gated_run_stages by metis
    show "length (pulled (g_flow s') k) = length (pushed (g_flow s) 0)" if "k \<le> length (fl_stages f)" for k
      using drainedD(1)[of "g_flow s'" k] ov that len by (simp add: over_def)
    show "sk_at (g_flow s') \<noteq> Sk_Process" using ov(1) by (simp add: over_def words_set_def)
    fix n :: nat and clr :: bool and w and intrs :: "bool list"
    assume w: "n = length (fl_stages f) \<and> wait_reach n clr w \<and> ws_enabled w \<and> (\<forall>b. unrung (ws_bells w) b = 0) \<and>
      wd (ws_bells w) = flow_words 0 (g_flow s') \<and> (\<forall>e. ws_at w \<noteq> Wait_returned e) \<and> 2 * n + 6 \<le> length intrs"
    then have "all_done n (wd (ws_bells w))"
      using ov(1) len by (simp add: over_def words_set_def all_done_def done_upto_def flow_words_def)
    then show "wait_run n (ws_enabled w) (wd (ws_bells w)) intrs (ws_at w) = Wait_returned MTDP_OK"
      using wait_done_returns[of n clr w intrs] w by auto
  qed
qed

text \<open>The source produces one buffer and finishes.\<close>

theorem pipeline_finishes_witness:
  "\<exists>s ts. gated_run default_config (pipeline_request 1 0 Enable @ replicate 18 (Turn Source_thread))
       (gated_start (willing short_flow)) = Some s \<and> length (pushed (g_flow s) 0) = 1 \<and> Source_thread \<notin> set ts \<and>
     length (pulled (g_flow (turns default_config ts s)) 1) = 1 \<and>
     wait_run 1 True (flow_words 0 (g_flow (turns default_config ts s))) (replicate 8 False) (Wait_in (Futex_load Destroying 1)) =
       Wait_returned MTDP_OK"
proof -
  let ?f = "willing short_flow" and ?es = "pipeline_request 1 0 Enable @ replicate 18 (Turn Source_thread)"
  have "case gated_run default_config ?es (gated_start ?f) of None \<Rightarrow> False
      | Some s \<Rightarrow> length (pushed (g_flow s) 0) = 1 \<and> so_done (fl_source (g_flow s)) = 1 \<and>
          pc (g_worker s Source_thread) = W_Callback \<and> g_callback s Source_thread = Finishing \<and>
          w_enabled (g_worker s Sink_thread) \<and> w_enabled (g_worker s (Stage_thread 0)) \<and>
          \<not> w_destroyed (g_worker s Sink_thread) \<and> \<not> w_destroyed (g_worker s (Stage_thread 0))"
    by code_simp
  then obtain s where s: "gated_run default_config ?es (gated_start ?f) = Some s"
    "length (pushed (g_flow s) 0) = 1" "so_done (fl_source (g_flow s)) = 1"
    "pc (g_worker s Source_thread) = W_Callback" "g_callback s Source_thread = Finishing"
    "w_enabled (g_worker s Sink_thread)" "w_enabled (g_worker s (Stage_thread 0))" "\<not> w_destroyed (g_worker s Sink_thread)"
    "\<not> w_destroyed (g_worker s (Stage_thread 0))" by (auto split: option.splits)
  have n: "length (fl_stages ?f) = 1" by (simp add: short_flow_def willing_def)
  note r = enabled_duty[OF n s(1,6-9)]
  have h: "hands_on ?f" by (simp add: hands_on_def handing_def willing_def short_flow_def hand_stage_def hand_sink_def)
  have b: "\<forall>k \<le> length (fl_stages ?f). demo_buffers k \<noteq> {#}" by (simp add: demo_buffers_def)
  have av: "\<forall>n. avail (sh_mem (fl_sh ?f)) n" by (simp add: willing_def)
  have e: "ending Source_thread s" using s(4,5) by (simp add: ending_def in_callback_def)
  from pipeline_finishes[OF willing_start[OF short_flow_start] h b av r(1) e s(3) r(2)]
  obtain ts where ts: "set ts \<subseteq> flow_threads ?f - {Source_thread}"
    "\<And>es s'. gated_run default_config es (turns default_config ts s) = Some s' \<and> (\<forall>t d. Done_word t d \<notin> set es) \<Longrightarrow>
      (\<forall>k \<le> length (fl_stages ?f). length (pulled (g_flow s') k) = length (pushed (g_flow s) 0)) \<and> sk_at (g_flow s') \<noteq> Sk_Process \<and>
      (\<forall>n clr w intrs. n = length (fl_stages ?f) \<and> wait_reach n clr w \<and> ws_enabled w \<and> (\<forall>b. unrung (ws_bells w) b = 0) \<and>
         wd (ws_bells w) = flow_words 0 (g_flow s') \<and> (\<forall>e. ws_at w \<noteq> Wait_returned e) \<and> 2 * n + 6 \<le> length intrs \<longrightarrow>
         wait_run n (ws_enabled w) (wd (ws_bells w)) intrs (ws_at w) = Wait_returned MTDP_OK)" by blast
  let ?s = "turns default_config ts s"
  let ?w = "\<lparr>ws_bells = \<lparr>wd = flow_words 0 (g_flow ?s), unrung = (\<lambda>_. 0)\<rparr>, ws_enabled = True,
     ws_at = Wait_in (Futex_load Destroying 1)\<rparr>"
  have w: "wait_reach 1 True ?w" by (rule wait_reach.start) simp_all
  have "gated_run default_config [] ?s = Some ?s \<and> (\<forall>t d. Done_word t d \<notin> set [])" by simp
  note fin = ts(2)[OF this]
  have "length (pulled (g_flow ?s) 1) = 1" using conjunct1[OF fin] s(2) n by simp
  moreover have "wait_run 1 True (flow_words 0 (g_flow ?s)) (replicate 8 False) (Wait_in (Futex_load Destroying 1)) = Wait_returned MTDP_OK"
    using conjunct2[OF conjunct2[OF fin], THEN spec[of _ 1], THEN spec[of _ True], THEN spec[of _ ?w], THEN spec[of _ "replicate 8 False"]] w n
    by simp
  ultimately show ?thesis using s(1,2) ts(1) by blast
qed

end
