(* ===== verification/Static_Memory.thy ===== *)
theory Static_Memory
  imports Mtdp_Prelude "HOL-Library.Word"
begin

text \<open>
  The static instances of \<open>src/memory.h\<close>, as far as there is a program: the lock-free variant of
  \<open>MTDP_DEFINE_STATIC_INSTANCE\<close>, which compiles, and of the others the functions whose bodies name only what is
  declared: the allocation of the variant with a mutex, the allocation of
  \<open>MTDP_DEFINE_STATIC_INSTANCES\<close> without locks, and its lock-free deallocation.
\<close>

unbundle bit_operations_syntax

section \<open>One lock-free instance\<close>

text \<open>The argument is \<open>Name_owned\<close>. \<open>atomic_flag_test_and_set\<close> returns the old value.\<close>

definition instance_alloc :: "bool \<Rightarrow> bool \<times> bool" where
  "instance_alloc owned = (if \<not> owned then (True, True) else (False, True))"

text \<open>\<open>is_instance\<close>: whether the pointer is \<open>&Name\<close>.\<close>

definition instance_dealloc :: "bool \<Rightarrow> bool \<Rightarrow> bool" where
  "instance_dealloc is_instance owned = (if is_instance then False else owned)"

text \<open>Any number of threads; each gives back only an instance it has got. Both functions are one atomic
  operation on the flag.\<close>

record instance_state =
  owned :: bool
  users :: "nat set"

inductive instance_step :: "instance_state \<Rightarrow> instance_state \<Rightarrow> bool" where
  alloc: "t \<notin> users s \<Longrightarrow> instance_alloc (owned s) = (got, f) \<Longrightarrow>
    instance_step s (s\<lparr>owned := f, users := (if got then insert t (users s) else users s)\<rparr>)"
| dealloc: "t \<in> users s \<Longrightarrow> instance_step s (s\<lparr>owned := instance_dealloc True (owned s), users := users s - {t}\<rparr>)"

inductive instance_reach :: "instance_state \<Rightarrow> bool" where
  start: "instance_reach \<lparr>owned = False, users = {}\<rparr>"
| step: "instance_reach s \<Longrightarrow> instance_step s s' \<Longrightarrow> instance_reach s'"

section \<open>One instance with a mutex\<close>

text \<open>\<open>Name_mutex\<close> and \<open>Name_owned\<close>. \<open>None\<close>: the lock is not granted while the mutex is held. On success the
  function returns without the unlock.\<close>

record locked_state =
  mutex_held :: bool
  locked_owned :: bool

definition locked_alloc :: "locked_state \<Rightarrow> (bool \<times> locked_state) option" where
  "locked_alloc s =
    (if mutex_held s then None
     else let s = s\<lparr>mutex_held := True\<rparr> in
       if \<not> locked_owned s then Some (True, s\<lparr>locked_owned := True\<rparr>)
       else Some (False, s\<lparr>mutex_held := False\<rparr>))"

section \<open>Several instances\<close>

text \<open>The loop of the allocation from index \<open>i\<close> on: a flag per instance in an array of bytes. \<open>None\<close>: an access out of
  the array's bounds.\<close>

function instances_alloc_loop :: "nat \<Rightarrow> nat \<Rightarrow> 8 word list \<Rightarrow> (nat option \<times> 8 word list) option" where
  "instances_alloc_loop number i flags =
    (if i < number then
       let n = i div 8; mask = push_bit (i - n * 8) (1 :: 8 word) in
       if n < length flags then
         if flags ! n AND mask = 0 then Some (Some i, flags[n := flags ! n OR mask])
         else instances_alloc_loop number (Suc i) flags
       else None
     else Some (None, flags))"
  by auto
termination by (relation "measure (\<lambda>(number, i, _). number - i)") auto

declare instances_alloc_loop.simps [simp del]

definition instances_alloc :: "nat \<Rightarrow> 8 word list \<Rightarrow> (nat option \<times> 8 word list) option" where
  "instances_alloc number flags = instances_alloc_loop number 0 flags"

text \<open>The lock-free deallocation of the instance with index \<open>k\<close>: the index is divided by 8 before it
  selects the byte and the bit.\<close>

definition instances_dealloc :: "nat \<Rightarrow> nat \<Rightarrow> 8 word list \<Rightarrow> 8 word list option" where
  "instances_dealloc number k flags =
    (if k < number then
       let tmp = k div 8 in
       if tmp div 8 < length flags then
         Some (flags[tmp div 8 := flags ! (tmp div 8) AND NOT (push_bit (tmp mod 8) 1)])
       else None
     else Some flags)"

text \<open>Instance \<open>k\<close> is in use.\<close>

definition taken :: "8 word list \<Rightarrow> nat \<Rightarrow> bool" where
  "taken flags k = bit (flags ! (k div 8)) (k mod 8)"

definition flags_ok :: "nat \<Rightarrow> 8 word list \<Rightarrow> bool" where
  "flags_ok number flags \<longleftrightarrow> length flags = number div 8 + 1"

section \<open>Lemmas\<close>

lemma index_in_flags: "flags_ok number flags \<Longrightarrow> k < number \<Longrightarrow> k div 8 < length flags"
  by (simp add: flags_ok_def div_le_mono le_imp_less_Suc)

lemma mask_test: "(w :: 8 word) AND push_bit j 1 = 0 \<longleftrightarrow> \<not> bit w j"
  using bit_iff_and_push_bit_not_eq_0[of w j] by blast

lemma taken_set:
  assumes "k div 8 < length flags"
  shows "taken (flags[k div 8 := flags ! (k div 8) OR push_bit (k mod 8) 1]) j \<longleftrightarrow> taken flags j \<or> j = k"
proof (cases "j div 8 = k div 8")
  case True
  have "j = k \<longleftrightarrow> j mod 8 = k mod 8" using True by (metis mod_div_decomp)
  moreover have "j mod 8 < 8" "k mod 8 < 8" by simp_all
  ultimately show ?thesis using True assms
    by (auto simp: taken_def bit_simps)
next
  case False
  then show ?thesis by (auto simp: taken_def)
qed

lemma taken_clear:
  assumes "k div 8 < length flags"
  shows "taken (flags[k div 8 := flags ! (k div 8) AND NOT (push_bit (k mod 8) 1)]) j \<longleftrightarrow> taken flags j \<and> j \<noteq> k"
proof (cases "j div 8 = k div 8")
  case True
  have "j = k \<longleftrightarrow> j mod 8 = k mod 8" using True by (metis mod_div_decomp)
  moreover have "j mod 8 < 8" "k mod 8 < 8" by simp_all
  ultimately show ?thesis using True assms
    by (auto simp: taken_def bit_simps)
next
  case False
  then show ?thesis by (auto simp: taken_def)
qed

lemma alloc_loop_least:
  assumes "flags_ok number flags" "i \<le> number"
  shows "\<exists>r flags'. instances_alloc_loop number i flags = Some (r, flags') \<and> flags_ok number flags' \<and>
    (case r of None \<Rightarrow> flags' = flags \<and> (\<forall>k. i \<le> k \<and> k < number \<longrightarrow> taken flags k)
     | Some k \<Rightarrow> i \<le> k \<and> k < number \<and> \<not> taken flags k \<and> (\<forall>j. i \<le> j \<and> j < k \<longrightarrow> taken flags j) \<and>
         (\<forall>j. taken flags' j \<longleftrightarrow> taken flags j \<or> j = k))"
  using assms(2)
proof (induction "number - i" arbitrary: i)
  case 0
  then show ?case using assms(1) by (subst instances_alloc_loop.simps) auto
next
  case (Suc d)
  then have i: "i < number" by simp
  note n = index_in_flags[OF assms(1) i]
  have m: "i - i div 8 * 8 = i mod 8" by (simp add: minus_div_mult_eq_mod)
  show ?case
  proof (cases "taken flags i")
    case False
    then have "flags ! (i div 8) AND push_bit (i mod 8) 1 = 0" unfolding mask_test taken_def .
    then have "instances_alloc_loop number i flags = Some (Some i, flags[i div 8 := flags ! (i div 8) OR push_bit (i mod 8) 1])"
      using i n m by (subst instances_alloc_loop.simps) (simp only: Let_def if_True refl)
    moreover have "flags_ok number (flags[i div 8 := flags ! (i div 8) OR push_bit (i mod 8) 1])"
      using assms(1) by (simp add: flags_ok_def)
    ultimately obtain flags' where f: "instances_alloc_loop number i flags = Some (Some i, flags')" "flags_ok number flags'"
      "\<And>j. taken flags' j \<longleftrightarrow> taken flags j \<or> j = i" using taken_set[OF n] by blast
    have lt: "\<forall>j. i \<le> j \<and> j < i \<longrightarrow> taken flags j" by (meson leD)
    show ?thesis by (intro exI conjI, rule f(1), rule f(2)) (use i False f(3) lt in simp)
  next
    case True
    then have "flags ! (i div 8) AND push_bit (i mod 8) 1 \<noteq> 0" unfolding mask_test taken_def by blast
    then have e: "instances_alloc_loop number i flags = instances_alloc_loop number (Suc i) flags"
      using i n m by (subst instances_alloc_loop.simps) (simp only: Let_def if_True if_False refl)
    have "d = number - Suc i" "Suc i \<le> number" using Suc.hyps(2) i by simp_all
    from Suc.hyps(1)[OF this] obtain r flags' where r: "instances_alloc_loop number (Suc i) flags = Some (r, flags')"
      "flags_ok number flags'" "case r of None \<Rightarrow> flags' = flags \<and> (\<forall>k. Suc i \<le> k \<and> k < number \<longrightarrow> taken flags k)
       | Some k \<Rightarrow> Suc i \<le> k \<and> k < number \<and> \<not> taken flags k \<and> (\<forall>j. Suc i \<le> j \<and> j < k \<longrightarrow> taken flags j) \<and>
           (\<forall>j. taken flags' j \<longleftrightarrow> taken flags j \<or> j = k)" by blast
    have le: "i \<le> k \<longleftrightarrow> k = i \<or> Suc i \<le> k" for k by auto
    show ?thesis unfolding e using r True by (auto simp: le split: option.splits)
  qed
qed

section \<open>Properties\<close>

text \<open>C40. The lock-free static instance has at most one user at any time, whatever the interleaving of the
  threads, and an allocation is refused exactly while it has one.\<close>

theorem instance_exclusive:
  assumes "instance_reach s"
  shows "(\<forall>t u. t \<in> users s \<longrightarrow> u \<in> users s \<longrightarrow> t = u) \<and> (fst (instance_alloc (owned s)) \<longleftrightarrow> users s = {})"
proof -
  have "(\<forall>t u. t \<in> users s \<longrightarrow> u \<in> users s \<longrightarrow> t = u) \<and> (owned s \<longleftrightarrow> users s \<noteq> {})"
    using assms
  proof (induction rule: instance_reach.induct)
    case (step s s')
    from step.hyps(2) step.IH show ?case
      by (induction rule: instance_step.induct)
         (auto simp: instance_alloc_def instance_dealloc_def split: if_splits)
  qed simp
  then show ?thesis by (simp add: instance_alloc_def)
qed

theorem instance_exclusive_witness:
  "\<exists>s. instance_reach s \<and> users s = {7} \<and> \<not> fst (instance_alloc (owned s))"
proof -
  let ?s = "\<lparr>owned = True, users = {7}\<rparr>"
  have "instance_step \<lparr>owned = False, users = {}\<rparr> ?s"
    using instance_step.alloc[of 7 "\<lparr>owned = False, users = {}\<rparr>" True True] by (simp add: instance_alloc_def)
  then have r: "instance_reach ?s" by (rule instance_reach.step[OF instance_reach.start])
  from instance_exclusive[OF r] show ?thesis using r by auto
qed

text \<open>The allocation from several static instances stays within its array of flags, returns the free
  instance with the least index and marks that one only; it returns null exactly when all
  instances are in use, and then changes nothing.\<close>

theorem instances_alloc_least:
  assumes "flags_ok number flags"
  shows "\<exists>r flags'. instances_alloc number flags = Some (r, flags') \<and> flags_ok number flags' \<and>
    (case r of None \<Rightarrow> flags' = flags \<and> (\<forall>k < number. taken flags k)
     | Some k \<Rightarrow> k < number \<and> \<not> taken flags k \<and> (\<forall>j < k. taken flags j) \<and>
         (\<forall>j. taken flags' j \<longleftrightarrow> taken flags j \<or> j = k))"
  using alloc_loop_least[OF assms, of 0] by (simp add: instances_alloc_def cong: option.case_cong)

theorem instances_alloc_least_witness:
  "\<exists>flags'. instances_alloc 12 [255, 3] = Some (Some 10, flags') \<and> taken flags' 10 \<and> \<not> taken flags' 11"
proof -
  have e: "instances_alloc 12 [255, 3] = Some (Some 10, [255, 7])" by code_simp
  from instances_alloc_least[of 12 "[255, 3]"] e have "\<forall>j. taken [255, 7] j \<longleftrightarrow> taken [255, 3] j \<or> j = 10"
    by (simp add: flags_ok_def)
  moreover have "\<not> taken [255, 3] 11" by code_simp
  ultimately show ?thesis using e by auto
qed

text \<open>A successful allocation of the variant with a mutex keeps the mutex: no later one returns.\<close>

lemma locked_alloc_hangs:
  "locked_alloc s = Some (True, s') \<Longrightarrow> locked_alloc s' = None"
  by (auto simp: locked_alloc_def Let_def split: if_splits)

text \<open>The lock-free deallocation frees the instance \<open>k div 8\<close> instead of \<open>k\<close>: after it an instance that is
  in use is handed out again, and \<open>k\<close> never is.\<close>

lemma instances_dealloc_wrong:
  assumes "flags_ok number flags" "k < number" "0 < k" "taken flags k"
  obtains flags' where "instances_dealloc number k flags = Some flags'" "taken flags' k" "\<not> taken flags' (k div 8)"
proof -
  have n: "k div 8 < number" using assms(2,3) by (metis div_le_dividend le_less_trans)
  note i = index_in_flags[OF assms(1) n]
  let ?f = "flags[k div 8 div 8 := flags ! (k div 8 div 8) AND NOT (push_bit (k div 8 mod 8) 1)]"
  have "instances_dealloc number k flags = Some ?f" using assms(2) i by (simp add: instances_dealloc_def Let_def)
  moreover have "k \<noteq> k div 8" using assms(3) by (metis div_less_dividend less_irrefl one_less_numeral_iff semiring_norm(76))
  ultimately show ?thesis using that taken_clear[OF i] assms(4) by blast
qed

end
