(* ===== verification/Windows_Shim.thy ===== *)
theory Windows_Shim
  imports Worker
begin

text \<open>
  The thread functions \<open>src/thread.h\<close> defines for Windows on top of its API. What the API calls return
  and leave in the calling thread's last error are arguments.
\<close>

definition ERROR_SUCCESS :: nat where "ERROR_SUCCESS = 0"
definition ERROR_NOT_ENOUGH_MEMORY :: nat where "ERROR_NOT_ENOUGH_MEMORY = 8"

text \<open>\<open>t_null\<close>: whether the pointer \<open>t\<close> is null; \<open>handle\<close>: what \<open>CreateThread\<close> returns, \<open>None\<close> for \<open>NULL\<close>. \<open>None\<close>: the
  store through a null pointer.\<close>

definition win_thrd_create :: "bool \<Rightarrow> nat option \<Rightarrow> nat \<Rightarrow> (thrd_result \<times> nat option) option" where
  "win_thrd_create t_null handle last_error =
    (if t_null then None
     else Some (if \<not> t_null then thrd_success
       else if last_error = ERROR_NOT_ENOUGH_MEMORY then thrd_nomem else thrd_error, handle))"

text \<open>\<open>wait\<close> and \<open>get_exit\<close>: what \<open>WaitForSingleObject\<close> and \<open>GetExitCodeThread\<close> make of the last error.\<close>

definition win_thrd_join :: "(nat \<Rightarrow> nat) \<Rightarrow> (nat \<Rightarrow> nat) \<Rightarrow> bool \<Rightarrow> nat \<Rightarrow> thrd_result \<times> nat" where
  "win_thrd_join wait get_exit ret e =
    (let out = thrd_success;
         e = wait e;
         out = (if e \<noteq> ERROR_SUCCESS then thrd_error else out) in
     if ret then
       let e = get_exit e;
           out = (if e \<noteq> ERROR_SUCCESS then thrd_error else out) in
       (out, e)
     else (out, e))"

text \<open>A thread that could not be created is reported as created.\<close>

lemma win_thrd_create_never_fails:
  "win_thrd_create False None ERROR_NOT_ENOUGH_MEMORY = Some (thrd_success, None)"
  by (simp add: win_thrd_create_def)

text \<open>Calls that succeed leave the last error as it is; so the result tells whether an earlier call of the
  thread had failed, not whether the join has.\<close>

lemma win_thrd_join_stale:
  assumes "wait e = e" "get_exit e = e"
  shows "fst (win_thrd_join wait get_exit ret e) = (if e = ERROR_SUCCESS then thrd_success else thrd_error)"
  using assms by (auto simp: win_thrd_join_def Let_def)

end
