(* ===== verification/Api_Codes.thy ===== *)
theory Api_Codes
  imports Pipeline_States Pipeline_Wait
begin

text \<open>
  The results of the functions that set an error code: whatever the C runtime answers, the code left behind
  is one of those the documentation of the function lists (\<open>@retval\<close> in \<open>include/mtdp/pipeline.h\<close>), with one
  exception in the creation, and the returned value tells success exactly with \<open>MTDP_OK\<close>. The four getters,
  documented with such a list too, set no code (\<open>getters_always\<close>).
\<close>

datatype api_function = Api_create | Api_destroy | Api_enable | Api_disable | Api_start | Api_stop | Api_wait

fun documented_codes :: "api_function \<Rightarrow> mtdp_error list" where
  "documented_codes Api_create = [MTDP_OK, MTDP_NO_MEM]"
| "documented_codes Api_destroy = [MTDP_OK, MTDP_BAD_PTR]"
| "documented_codes Api_enable = [MTDP_OK, MTDP_BAD_PTR, MTDP_ENABLED]"
| "documented_codes Api_disable = [MTDP_OK, MTDP_BAD_PTR, MTDP_NOT_ENABLED]"
| "documented_codes Api_start = [MTDP_OK, MTDP_BAD_PTR, MTDP_ACTIVE, MTDP_NOT_ENABLED]"
| "documented_codes Api_stop = [MTDP_OK, MTDP_BAD_PTR, MTDP_ENABLED, MTDP_NOT_ENABLED]"
| "documented_codes Api_wait = [MTDP_OK, MTDP_BAD_PTR, MTDP_NOT_ENABLED]"

text \<open>The error code \<open>e\<close> of the function \<open>f\<close>, called with a null pointer or not, and the value it returns, if
  it returns one (\<open>mtdp_pipeline_destroy\<close> and \<open>mtdp_pipeline_wait\<close> do not).\<close>

definition well_coded :: "api_function \<Rightarrow> bool \<Rightarrow> bool option \<Rightarrow> mtdp_error \<Rightarrow> bool" where
  "well_coded f null r e \<longleftrightarrow> e \<in> set (documented_codes f) \<and> (\<forall>ok. r = Some ok \<longrightarrow> (ok \<longleftrightarrow> e = MTDP_OK)) \<and>
     (e = MTDP_BAD_PTR \<longleftrightarrow> null)"

named_theorems codes

lemma well_coded_simps [codes]:
  "well_coded Api_create False (Some ok) e \<longleftrightarrow> (if ok then e = MTDP_OK else e = MTDP_NO_MEM)"
  "well_coded f True (Some ok) e \<longleftrightarrow> f \<noteq> Api_create \<and> \<not> ok \<and> e = MTDP_BAD_PTR"
  "well_coded Api_enable False (Some ok) e \<longleftrightarrow> (if ok then e = MTDP_OK else e = MTDP_ENABLED)"
  "well_coded Api_disable False (Some ok) e \<longleftrightarrow> (if ok then e = MTDP_OK else e = MTDP_NOT_ENABLED)"
  "well_coded Api_start False (Some ok) e \<longleftrightarrow> (if ok then e = MTDP_OK else e = MTDP_ACTIVE \<or> e = MTDP_NOT_ENABLED)"
  "well_coded Api_stop False (Some ok) e \<longleftrightarrow> (if ok then e = MTDP_OK else e = MTDP_ENABLED \<or> e = MTDP_NOT_ENABLED)"
  "well_coded Api_destroy null None e \<longleftrightarrow> e = (if null then MTDP_BAD_PTR else MTDP_OK)"
  "well_coded Api_wait null None e \<longleftrightarrow> (if null then e = MTDP_BAD_PTR else e = MTDP_OK \<or> e = MTDP_NOT_ENABLED)"
  by (cases f; auto simp: well_coded_def)+

lemma errno_set [codes]: "errno (set_errno e rt) = e"
  by (simp add: set_errno_def)

lemma enable_coded: "mtdp_pipeline_enable rt p = Some (ok, rt', p') \<Longrightarrow> well_coded Api_enable (p = None) (Some ok) (errno rt')"
  by (auto simp: mtdp_pipeline_enable_def Let_def bind_eq_Some_conv codes case_prod_unfold split: option.splits if_splits)

lemma disable_coded:
  "mtdp_pipeline_disable settle cfg m rt p = Some (ok, m', rt', p') \<Longrightarrow> well_coded Api_disable (p = None) (Some ok) (errno rt')"
  by (auto simp: mtdp_pipeline_disable_def Let_def bind_eq_Some_conv codes case_prod_unfold split: option.splits if_splits)

lemma start_coded: "mtdp_pipeline_start rt p = Some (ok, rt', p') \<Longrightarrow> well_coded Api_start (p = None) (Some ok) (errno rt')"
  by (auto simp: mtdp_pipeline_start_def Let_def bind_eq_Some_conv codes case_prod_unfold split: option.splits if_splits)

lemma stop_coded: "mtdp_pipeline_stop rt p = Some (ok, rt', p') \<Longrightarrow> well_coded Api_stop (p = None) (Some ok) (errno rt')"
  by (auto simp: mtdp_pipeline_stop_def Let_def bind_eq_Some_conv codes case_prod_unfold split: option.splits if_splits)

lemma destroy_coded:
  "mtdp_pipeline_destroy settle cfg m rt p = Some (m', rt') \<Longrightarrow> well_coded Api_destroy (p = None) None (errno rt')"
  by (auto simp: mtdp_pipeline_destroy_def bind_eq_Some_conv codes split: option.splits)

lemma create_coded:
  assumes "config_ok cfg" "mem_wf m" "mtdp_pipeline_create cfg raw raw_impl raw_pipe m rt n = Some (out, m', rt')"
  shows "if avail m (requests m) then well_coded Api_create False (Some (out \<noteq> None)) (errno rt')
    else out = None \<and> errno rt' = MTDP_BAD_PTR"
proof (cases rule: pipeline_create_cases[OF assms(1,2), of raw raw_impl raw_pipe rt n, case_names None Some])
  case (None m0 rt0)
  then show ?thesis using assms(3) by (auto simp: codes)
next
  case (Some m0 pl m1 rt0 rt1)
  have "avail m (requests m)"
  proof (rule ccontr)
    assume n: "\<not> avail m (requests m)"
    obtain b1 m1 where "malloc_array m = (b1, m1)" "b1 \<longleftrightarrow> avail m (requests m)" by (rule malloc_array_cases)
    then show False using n Some(1) by (simp add: mtdp_pipeline_create_def mtdp_pipeline_alloc_def)
  qed
  then show ?thesis using Some(1,9) assms(3) by (auto simp: codes)
qed

section \<open>The wait\<close>

text \<open>The waiting thread among all others: at each of its turns another thread may first ring a word, and it
  then sees any value of \<open>enabled\<close> and of the words, and a signal may arrive.\<close>

type_synonym wait_turn = "bell option \<times> bool \<times> bool \<times> (bell \<Rightarrow> nat)"

fun wait_turns :: "nat \<Rightarrow> wait_turn list \<Rightarrow> wait_pc \<Rightarrow> wait_pc" where
  "wait_turns n [] p = p"
| "wait_turns n ((rung, en, intr, w) # ts) p =
    (let p = (case rung of None \<Rightarrow> p | Some b \<Rightarrow> wake b p)
     in wait_turns n ts (case wait_step n en intr w p of None \<Rightarrow> p | Some p' \<Rightarrow> p'))"

text \<open>With a pipeline it does not leave \<open>MTDP_BAD_PTR\<close>.\<close>

fun wait_coded :: "wait_pc \<Rightarrow> bool" where
  "wait_coded (Wait_returned e) \<longleftrightarrow> e = MTDP_OK \<or> e = MTDP_NOT_ENABLED"
| "wait_coded p \<longleftrightarrow> True"

lemma wake_coded: "wait_coded (wake b p) = wait_coded p"
  by (cases p) simp_all

lemma wait_next_coded: "wait_coded (wait_next n b)"
  by (cases b) (simp_all add: wait_stages_def)

lemma wait_step_coded: "wait_step n en intr w p = Some p' \<Longrightarrow> wait_coded p'"
  by (cases p) (auto simp: wait_step_def wait_next_coded Let_def split: option.splits if_splits)

lemma wait_turns_coded: "wait_coded p \<Longrightarrow> wait_coded (wait_turns n ts p)"
proof (induction ts arbitrary: p)
  case (Cons t ts)
  obtain rung en intr w where t: "t = (rung, en, intr, w)" by (cases t) auto
  define q where "q = (case rung of None \<Rightarrow> p | Some b \<Rightarrow> wake b p)"
  have q: "wait_coded q" using Cons.prems by (simp add: q_def wake_coded split: option.split)
  have "wait_coded (case wait_step n en intr w q of None \<Rightarrow> q | Some p' \<Rightarrow> p')"
    using q wait_step_coded by (auto split: option.split)
  from Cons.IH[OF this] show ?case by (simp add: t Let_def flip: q_def)
qed simp

lemma wait_turns_null: "wait_turns n ts (Wait_returned e) = Wait_returned e"
  by (induction n ts "Wait_returned e" rule: wait_turns.induct) (auto simp: wait_step_def split: option.split)

text \<open>The error code of \<open>mtdp_pipeline_wait\<close> after these turns, once it has returned.\<close>

definition wait_result :: "wait_turn list \<Rightarrow> 'u mtdp_pipeline option \<Rightarrow> mtdp_error option" where
  "wait_result ts p =
    (case wait_turns (case p of None \<Rightarrow> 0 | Some pl \<Rightarrow> n_stages pl) ts (wait_entry p) of
       Wait_returned e \<Rightarrow> Some e | _ \<Rightarrow> None)"

lemma wait_result_coded: "wait_result ts p = Some e \<Longrightarrow> well_coded Api_wait (p = None) None e"
proof (cases p)
  case None
  assume "wait_result ts p = Some e"
  then show ?thesis using None by (simp add: wait_result_def wait_entry_def wait_turns_null codes)
next
  case (Some pl)
  assume r: "wait_result ts p = Some e"
  have "wait_coded (wait_turns (n_stages pl) ts (wait_entry p))"
    by (rule wait_turns_coded) (simp add: wait_entry_def Some)
  then show ?thesis using r Some by (auto simp: wait_result_def codes split: wait_pc.splits)
qed

section \<open>The functions together\<close>

text \<open>A call of one of the functions: the returned value, as success or not, where it has one, and the error
  code; \<open>None\<close> where the call is undefined or does not return.\<close>

definition api_result :: "api_function \<Rightarrow> (mem \<times> 'u mtdp_pipeline \<Rightarrow> mem \<times> 'u mtdp_pipeline) \<Rightarrow> wait_turn list \<Rightarrow> fifo_config \<Rightarrow>
    mem \<Rightarrow> runtime \<Rightarrow> 'u mtdp_pipeline \<Rightarrow> mtdp_stage_impl \<Rightarrow> mtdp_pipe \<Rightarrow> nat \<Rightarrow> 'u mtdp_pipeline option \<Rightarrow>
    (bool option \<times> mtdp_error) option" where
  "api_result f settle ts cfg m rt raw raw_impl raw_pipe n p =
    (case f of
       Api_create \<Rightarrow> map_option (\<lambda>(out, _, rt). (Some (out \<noteq> None), errno rt)) (mtdp_pipeline_create cfg raw raw_impl raw_pipe m rt n)
     | Api_destroy \<Rightarrow> map_option (\<lambda>(_, rt). (None, errno rt)) (mtdp_pipeline_destroy settle cfg m rt p)
     | Api_enable \<Rightarrow> map_option (\<lambda>(ok, rt, _). (Some ok, errno rt)) (mtdp_pipeline_enable rt p)
     | Api_disable \<Rightarrow> map_option (\<lambda>(ok, _, rt, _). (Some ok, errno rt)) (mtdp_pipeline_disable settle cfg m rt p)
     | Api_start \<Rightarrow> map_option (\<lambda>(ok, rt, _). (Some ok, errno rt)) (mtdp_pipeline_start rt p)
     | Api_stop \<Rightarrow> map_option (\<lambda>(ok, rt, _). (Some ok, errno rt)) (mtdp_pipeline_stop rt p)
     | Api_wait \<Rightarrow> map_option (\<lambda>e. (None, e)) (wait_result ts p))"

text \<open>C18. The functions create, destroy, enable, disable, start, stop and wait of the pipeline, whenever the call is
  defined and returns (\<open>Some\<close>), leave an error code that their documentation lists; a returned value tells
  success exactly when the code is \<open>MTDP_OK\<close>, and the code is \<open>MTDP_BAD_PTR\<close> exactly when the pipeline passed is
  null. This holds whatever the calls of the C runtime inside return, whatever state the pipeline is in and, for
  the wait, whatever the other threads do meanwhile. The only exception, stated exactly: a creation whose first
  allocation is refused returns null with \<open>MTDP_BAD_PTR\<close>, which its documentation does not list. The four getters are not
  among these functions: they set no code.\<close>

theorem pipeline_results_typed:
  assumes "config_ok cfg" "mem_wf m"
    and r: "api_result f settle ts cfg m rt raw raw_impl raw_pipe n p = Some (result, e)"
  shows "if f = Api_create
     then (if avail m (requests m) then e \<in> set (documented_codes f) \<and> result = Some (e = MTDP_OK)
           else result = Some False \<and> e = MTDP_BAD_PTR)
     else e \<in> set (documented_codes f) \<and> (e = MTDP_BAD_PTR \<longleftrightarrow> p = None) \<and>
       result = (if f = Api_destroy \<or> f = Api_wait then None else Some (e = MTDP_OK))"
proof (cases f)
  case Api_create
  then show ?thesis using r by (auto simp: api_result_def codes dest!: create_coded[OF assms(1,2)] split: if_splits)
next
  case Api_destroy
  then show ?thesis using r by (auto simp: api_result_def well_coded_def dest!: destroy_coded)
next
  case Api_enable
  then show ?thesis using r by (auto simp: api_result_def well_coded_def dest!: enable_coded)
next
  case Api_disable
  then show ?thesis using r by (auto simp: api_result_def well_coded_def dest!: disable_coded)
next
  case Api_start
  then show ?thesis using r by (auto simp: api_result_def well_coded_def dest!: start_coded)
next
  case Api_stop
  then show ?thesis using r by (auto simp: api_result_def well_coded_def dest!: stop_coded)
next
  case Api_wait
  then show ?thesis using r by (auto simp: api_result_def well_coded_def dest!: wait_result_coded)
qed

theorem pipeline_results_typed_witness:
  "api_result Api_start id [] default_config (mem_start (\<lambda>_. True)) (runtime_start (\<lambda>_. thrd_error)) raw_pipeline raw_stage_impl pipe_blank 1
     (Some (raw_pipeline\<lparr>pl_enabled := True, pl_active := True\<rparr>)) = Some (Some False, MTDP_ACTIVE) \<and>
   MTDP_ACTIVE \<in> set (documented_codes Api_start) \<and>
   api_result Api_wait id [(None, False, True, \<lambda>_. 1), (Some Destroying, False, True, \<lambda>_. 1), (None, False, False, \<lambda>_. 0)]
      default_config (mem_start (\<lambda>_. True)) (runtime_start (\<lambda>_. thrd_error)) raw_pipeline raw_stage_impl pipe_blank 1
      (Some raw_pipeline) = Some (None, MTDP_NOT_ENABLED) \<and>
   MTDP_NOT_ENABLED \<in> set (documented_codes Api_wait)"
proof -
  let ?ts = "[(None, False, True, \<lambda>_. 1), (Some Destroying, False, True, \<lambda>_. 1), (None, False, False, \<lambda>_. 0)] :: wait_turn list"
  have e: "api_result Api_start id [] default_config (mem_start (\<lambda>_. True)) (runtime_start (\<lambda>_. thrd_error)) raw_pipeline raw_stage_impl
     pipe_blank 1 (Some (raw_pipeline\<lparr>pl_enabled := True, pl_active := True\<rparr>)) = Some (Some False, MTDP_ACTIVE)"
    by (simp add: api_result_def mtdp_pipeline_start_def set_errno_def)
  have w: "api_result Api_wait id ?ts default_config (mem_start (\<lambda>_. True)) (runtime_start (\<lambda>_. thrd_error)) raw_pipeline raw_stage_impl
     pipe_blank 1 (Some raw_pipeline) = Some (None, MTDP_NOT_ENABLED)"
    by (simp add: api_result_def wait_result_def wait_entry_def wait_step_def)
  from pipeline_results_typed[OF default_config_ok mem_start_wf e] have 1: "MTDP_ACTIVE \<in> set (documented_codes Api_start)" by simp
  from pipeline_results_typed[OF default_config_ok mem_start_wf w] have 2: "MTDP_NOT_ENABLED \<in> set (documented_codes Api_wait)" by simp
  show ?thesis using e w 1 2 by auto
qed

text \<open>The getters are no part of this: they set no error code at all, and hand out the pointers of an active
  pipeline too.\<close>

lemma getters_always:
  "mtdp_pipeline_get_source (Some pl) \<noteq> None" "mtdp_pipeline_get_stages (Some pl) \<noteq> None"
  "mtdp_pipeline_get_sink (Some pl) \<noteq> None" "mtdp_pipeline_get_pipes (Some pl) \<noteq> None"
  by (simp_all add: mtdp_pipeline_get_source_def mtdp_pipeline_get_stages_def mtdp_pipeline_get_sink_def mtdp_pipeline_get_pipes_def)

end
