(* ===== verification/Fifo_Test.thy ===== *)
theory Fifo_Test
  imports Buffer_Properties
begin

text \<open>
  The repository's unit test of the FIFO (\<open>test/fifo.c\<close>): \<open>setUp\<close>, \<open>test_black_box\<close> and
  \<open>tearDown\<close>. A failed assertion leaves the test at once, as in the framework it uses; \<open>Failed a\<close>
  names the assertion and the value of the loop variable. The numbers of attempts and the pointer
  pushed at each index are arguments.
\<close>

section \<open>The test\<close>

datatype assertion = Size_before | Size_pushed nat | Size_popped nat | Value nat | Exhausted nat

datatype verdict = Passed | Failed assertion

text \<open>A pointer as the integer the framework compares.\<close>

fun value_of :: "mtdp_buffer \<Rightarrow> nat" where
  "value_of NULL = 0"
| "value_of (Ptr a) = a"

fun push_attempts ::
  "fifo_config \<Rightarrow> (nat \<Rightarrow> mtdp_buffer) \<Rightarrow> nat \<Rightarrow> nat \<Rightarrow> mem \<Rightarrow> mtdp_buffer_fifo \<Rightarrow> (verdict \<times> mem \<times> mtdp_buffer_fifo) option" where
  "push_attempts cfg b 0 i m f = Some (Passed, m, f)"
| "push_attempts cfg b (Suc n) i m f = do {
     (_, m, f) \<leftarrow> mtdp_buffer_fifo_push_back cfg m f (b i);
     if mtdp_buffer_fifo_size f = i + 1 then push_attempts cfg b n (i + 1) m f
     else Some (Failed (Size_pushed i), m, f) }"

fun pop_attempts ::
  "fifo_config \<Rightarrow> nat \<Rightarrow> nat \<Rightarrow> nat \<Rightarrow> mem \<Rightarrow> mtdp_buffer_fifo \<Rightarrow> mtdp_buffer \<Rightarrow> (verdict \<times> mtdp_buffer_fifo) option" where
  "pop_attempts cfg push 0 i m f buf = Some (Passed, f)"
| "pop_attempts cfg push (Suc n) i m f buf = do {
     (ok, out, f) \<leftarrow> mtdp_buffer_fifo_pop_front cfg m f (Some buf);
     buf \<leftarrow> out;
     if ok then
       if mtdp_buffer_fifo_size f \<noteq> usub (usub push i) 1 then Some (Failed (Size_popped i), f)
       else if value_of buf \<noteq> i then Some (Failed (Value i), f)
       else pop_attempts cfg push n (i + 1) m f buf
     else if push \<le> i then pop_attempts cfg push n (i + 1) m f buf
     else Some (Failed (Exhausted i), f) }"

definition test_black_box ::
  "fifo_config \<Rightarrow> (nat \<Rightarrow> mtdp_buffer) \<Rightarrow> nat \<Rightarrow> nat \<Rightarrow> mem \<Rightarrow> mtdp_buffer_fifo \<Rightarrow> (verdict \<times> mem \<times> mtdp_buffer_fifo) option" where
  "test_black_box cfg b push pop m f =
    (if mtdp_buffer_fifo_size f \<noteq> 0 then Some (Failed Size_before, m, f)
     else do {
       (v, m, f) \<leftarrow> push_attempts cfg b push 0 m f;
       if v \<noteq> Passed then Some (v, m, f)
       else do { (v, f) \<leftarrow> pop_attempts cfg push pop 0 m f NULL; Some (v, m, f) } })"

definition run_test :: "fifo_config \<Rightarrow> (nat \<Rightarrow> mtdp_buffer) \<Rightarrow> nat \<Rightarrow> nat \<Rightarrow> mem \<Rightarrow> mtdp_buffer_fifo \<Rightarrow> verdict option" where
  "run_test cfg b push pop m f = do {
     let (_, m, f) = mtdp_buffer_fifo_init cfg m f;
     (v, m, f) \<leftarrow> test_black_box cfg b push pop m f;
     _ \<leftarrow> mtdp_buffer_fifo_destroy m f;
     Some v }"

text \<open>The test of the repository: 100 times the address \<open>a\<close> of the loop variable, 120 pops.\<close>

definition fifo_test :: "fifo_config \<Rightarrow> addr \<Rightarrow> mem \<Rightarrow> mtdp_buffer_fifo \<Rightarrow> verdict option" where
  "fifo_test cfg a = run_test cfg (\<lambda>_. Ptr a) 100 120"

section \<open>Its verdict\<close>

lemma push_attempts_all:
  "fifo_state_ok cfg m f \<Longrightarrow> \<forall>n. avail m n \<Longrightarrow> fsize f = i \<Longrightarrow>
     \<exists>m' f'. push_attempts cfg b n i m f = Some (Passed, m', f') \<and> fifo_state_ok cfg m' f' \<and>
       fifo_elems cfg m' f' = fifo_elems cfg m f @ map b [i..<i + n]"
proof (induction n arbitrary: i m f)
  case (Suc n)
  have ok: "config_ok cfg" "mem_wf m" "fifo_inv cfg m f" using Suc.prems(1) by (simp_all add: fifo_state_ok_def)
  obtain acc m1 f1 where p: "mtdp_buffer_fifo_push_back cfg m f (b i) = Some (acc, m1, f1)"
    "fifo_inv cfg m1 f1" "fifo_elems cfg m1 f1 = (if acc then fifo_elems cfg m f @ [b i] else fifo_elems cfg m f)"
    "mem_wf m1" "mem_frame (fifo_own f) m m1" "avail m (requests m) \<longrightarrow> avail m (requests m + 1) \<longrightarrow> acc"
    by (rule fifo_push_back[OF ok(3,2,1), where e = "b i"])
  have el: "fifo_elems cfg m1 f1 = fifo_elems cfg m f @ [b i]" using p(3,6) Suc.prems(2) by simp
  have ok1: "fifo_state_ok cfg m1 f1" "\<forall>n. avail m1 n" "fsize f1 = Suc i"
    using p(2,4,5) ok(1) Suc.prems(2,3) arg_cong[OF el, of length] by (simp_all add: fifo_state_ok_def mem_frame_def)
  have "map b [i..<i + Suc n] = b i # map b [Suc i..<Suc i + n]" by (simp add: upt_conv_Cons del: upt_Suc)
  with Suc.IH[OF ok1] p(1) ok1(3) el show ?case by (auto simp: mtdp_buffer_fifo_size_def)
qed simp

definition verdict_of :: "(nat \<Rightarrow> mtdp_buffer) \<Rightarrow> nat list \<Rightarrow> verdict" where
  "verdict_of b is = (case List.find (\<lambda>i. value_of (b i) \<noteq> i) is of None \<Rightarrow> Passed | Some i \<Rightarrow> Failed (Value i))"

lemma pop_attempts_all:
  "fifo_inv cfg m f \<Longrightarrow> fifo_elems cfg m f = map b [i..<p] \<Longrightarrow>
     \<exists>f'. pop_attempts cfg p n i m f buf = Some (verdict_of b [i..<min p (i + n)], f') \<and> fifo_inv cfg m f'"
proof (induction n arbitrary: i f buf)
  case 0
  then show ?case by (simp add: verdict_of_def)
next
  case (Suc n)
  have sz: "fsize f = p - i" using arg_cong[OF Suc.prems(2), of length] by simp
  show ?case
  proof (cases "i < p")
    case True
    obtain f1 where f1: "mtdp_buffer_fifo_pop_front cfg m f (Some buf) = Some (True, Some (hd (fifo_elems cfg m f)), f1)"
      "fifo_inv cfg m f1" "fifo_elems cfg m f1 = tl (fifo_elems cfg m f)"
      using fifo_pop_front[OF Suc.prems(1), where r = buf] sz True by (metis zero_less_diff less_numeral_extra(3))
    have el: "hd (fifo_elems cfg m f) = b i" "fifo_elems cfg m f1 = map b [Suc i..<p]"
      using f1(3) Suc.prems(2) True by (simp_all add: upt_conv_Cons del: upt_Suc)
    have sz1: "fsize f1 = usub (usub p i) 1" using arg_cong[OF el(2), of length] True by (simp add: usub_def)
    have v: "verdict_of b [i..<min p (i + Suc n)] =
        (if value_of (b i) \<noteq> i then Failed (Value i) else verdict_of b [Suc i..<min p (Suc i + n)])"
      using True by (simp add: verdict_of_def upt_conv_Cons)
    show ?thesis using f1(1,2) el(1) sz1 v Suc.IH[OF f1(2) el(2), of "b i"] by (simp add: mtdp_buffer_fifo_size_def)
  next
    case False
    then have "mtdp_buffer_fifo_pop_front cfg m f (Some buf) = Some (False, Some buf, f)" using sz by (simp add: fifo_pop_empty)
    then show ?thesis using False Suc.IH[of f "Suc i" buf] Suc.prems by (simp add: verdict_of_def)
  qed
qed

text \<open>C36. The repository's test of the FIFO, for any numbers of pushes and pops and any pointers pushed: with an allocator
  that does not refuse, no assertion on a size fails, and the test fails exactly at the first
  index whose pointer, as an integer, is not the index. So pushing the indices passes, and the
  test as it stands, which pushes the address of its loop variable, fails at its first pop.\<close>

theorem fifo_test_verdict:
  assumes "config_ok cfg" "mem_wf m" "\<forall>n. avail m n"
  shows "run_test cfg b push pop m f =
      Some (case List.find (\<lambda>i. value_of (b i) \<noteq> i) [0..<min push pop] of None \<Rightarrow> Passed | Some i \<Rightarrow> Failed (Value i)) \<and>
    (0 < a \<longrightarrow> fifo_test cfg a m f = Some (Failed (Value 0)))"
proof -
  obtain m1 f1 where i: "mtdp_buffer_fifo_init cfg m f = (True, m1, f1)"
    using assms(3) by (auto simp: mtdp_buffer_fifo_init_def mtdp_buffer_fifo_blocks_init_def
        mtdp_buffer_fifo_block_alloc_def malloc_array_def request_def Let_def)
  note st = fifo_start[OF assms(1,2) i] and el = fifo_init_inv(2)[OF assms(1,2) i]
  have av: "\<forall>n. avail m1 n" using fifo_start_frame(4)[OF assms(2,1) i] assms(3) by simp
  have sz: "fsize f1 = 0" using arg_cong[OF el, of length] by simp
  have run: "run_test cfg b push pop m f = Some (verdict_of b [0..<min push pop])" for b push pop
  proof -
    obtain m2 f2 where p: "push_attempts cfg b push 0 m1 f1 = Some (Passed, m2, f2)" "fifo_state_ok cfg m2 f2"
      "fifo_elems cfg m2 f2 = map b [0..<push]"
      using push_attempts_all[OF st av sz, of b push] el by auto
    have "fifo_inv cfg m2 f2" using p(2) by (simp add: fifo_state_ok_def)
    from pop_attempts_all[OF this p(3), of pop NULL] obtain f3 where
      q: "pop_attempts cfg push pop 0 m2 f2 NULL = Some (verdict_of b [0..<min push pop], f3)" "fifo_inv cfg m2 f3" by auto
    obtain m4 f4 where "mtdp_buffer_fifo_destroy m2 f3 = Some (m4, f4)" by (rule fifo_destroy[OF q(2)])
    with i p(1) q(1) sz show ?thesis by (simp add: run_test_def test_black_box_def mtdp_buffer_fifo_size_def)
  qed
  have "fifo_test cfg a m f = Some (Failed (Value 0))" if "0 < a"
    using that by (simp add: fifo_test_def run verdict_of_def upt_conv_Cons)
  then show ?thesis using run[of b push pop] by (simp add: verdict_of_def)
qed

theorem fifo_test_verdict_witness:
  "run_test default_config (\<lambda>i. if i = 0 then NULL else Ptr i) 3 5 (mem_start (\<lambda>_. True)) fifo_blank = Some Passed \<and>
   fifo_test default_config 4096 (mem_start (\<lambda>_. True)) fifo_blank = Some (Failed (Value 0))"
proof -
  have "\<forall>n. avail (mem_start (\<lambda>_. True)) n" by (simp add: mem_start_def)
  from fifo_test_verdict[OF default_config_ok mem_start_wf this, of "\<lambda>i. if i = 0 then NULL else Ptr i" 3 5 fifo_blank 4096]
  show ?thesis by (simp add: upt_conv_Cons)
qed

end
